(* ===== verification/Prelude.thy ===== *)
theory Prelude
  imports "HOL-Library.Word"
begin

text \<open>
  Shared vocabulary of the development: fixed-width integers, the outcome of running kernel
  code (\<open>kres\<close>), byte arrays with little-endian integers in them, and the generic lemmas the
  component theories use.
\<close>

unbundle bit_operations_syntax

named_theorems krun \<open>rewriting of kernel computations\<close>
named_theorems frame \<open>fields an operation leaves alone\<close>

type_synonym u8 = "8 word"
type_synonym u16 = "16 word"
type_synonym u32 = "32 word"
type_synonym u64 = "64 word"

section \<open>Outcomes of kernel code\<close>

text \<open>
  A C function of the kernel that runs on one hart returns a value in a new state
  (\<open>Ret\<close>), reaches \<open>panic(msg)\<close>, after which nothing happens on the machine (\<open>Panic\<close>),
  or stops making progress on its own: it spins on a lock or has gone to sleep and control
  has left it (\<open>Wait\<close>, with the state it left behind).
\<close>

datatype ('a, 's) kres = Ret 'a 's | Panic string | Wait 's

fun kbind :: "('a, 's) kres \<Rightarrow> ('a \<Rightarrow> 's \<Rightarrow> ('b, 's) kres) \<Rightarrow> ('b, 's) kres" where
  "kbind (Ret a s) f = f a s"
| "kbind (Panic m) f = Panic m"
| "kbind (Wait s) f = Wait s"

lemma kbind_Ret_iff [krun]:
  "kbind m f = Ret b t \<longleftrightarrow> (\<exists>a s. m = Ret a s \<and> f a s = Ret b t)"
  by (cases m) auto

lemma kbind_assoc: "kbind (kbind m f) g = kbind m (\<lambda>a s. kbind (f a s) g)"
  by (cases m) auto

lemma kbind_Ret_right [simp]: "kbind m Ret = m"
  by (cases m) auto

lemma kbind_RetE:
  assumes "kbind m f = Ret b t"
  obtains a s where "m = Ret a s" and "f a s = Ret b t"
  using assms by (cases m) auto

text \<open>The state a computation returned in satisfies a predicate.\<close>

fun kpost :: "('a \<Rightarrow> 's \<Rightarrow> bool) \<Rightarrow> ('a, 's) kres \<Rightarrow> bool" where
  "kpost P (Ret a s) = P a s"
| "kpost P (Panic m) = True"
| "kpost P (Wait s) = True"

lemma kpost_kbind [intro]:
  "kpost (\<lambda>a s. kpost Q (f a s)) m \<Longrightarrow> kpost Q (kbind m f)"
  by (cases m) auto

lemma kpost_mono: "kpost P m \<Longrightarrow> (\<And>a s. m = Ret a s \<Longrightarrow> P a s \<Longrightarrow> Q a s) \<Longrightarrow> kpost Q m"
  by (cases m) auto

lemma kpost_Ret: "kpost P m \<Longrightarrow> m = Ret a s \<Longrightarrow> P a s"
  by simp

lemma kpost_iff: "kpost P m \<longleftrightarrow> (\<forall>a s. m = Ret a s \<longrightarrow> P a s)"
  by (cases m) auto

text \<open>
  Loops over a table: \<open>kfold\<close> runs the body for every index, \<open>ksearch\<close> stops at the first index
  whose body has a result (a \<open>return\<close> or \<open>goto\<close> out of the loop).
\<close>

fun kfold :: "('i \<Rightarrow> 's \<Rightarrow> (unit, 's) kres) \<Rightarrow> 'i list \<Rightarrow> 's \<Rightarrow> (unit, 's) kres" where
  "kfold f [] s = Ret () s"
| "kfold f (x # xs) s = kbind (f x s) (\<lambda>_ s. kfold f xs s)"

fun ksearch :: "('i \<Rightarrow> 's \<Rightarrow> ('a option, 's) kres) \<Rightarrow> 'i list \<Rightarrow> 's \<Rightarrow> ('a option, 's) kres" where
  "ksearch f [] s = Ret None s"
| "ksearch f (x # xs) s =
     kbind (f x s) (\<lambda>r s. case r of Some a \<Rightarrow> Ret (Some a) s | None \<Rightarrow> ksearch f xs s)"

lemma kfold_append: "kfold f (xs @ ys) s = kbind (kfold f xs s) (\<lambda>_ s. kfold f ys s)"
proof (induction xs arbitrary: s)
  case (Cons x xs)
  then show ?case by (cases "f x s") simp_all
qed simp

lemma kfold_pure:
  assumes "\<And>x s. x \<in> set xs \<Longrightarrow> I s \<Longrightarrow> f x s = Ret () (g x s) \<and> I (g x s)" "I s"
  shows "kfold f xs s = Ret () (fold g xs s) \<and> I (fold g xs s)"
  using assms by (induction xs arbitrary: s) auto

section \<open>Little-endian integers\<close>

fun le_bytes :: "nat \<Rightarrow> 'a::len word \<Rightarrow> u8 list" where
  "le_bytes 0 w = []"
| "le_bytes (Suc n) w = ucast w # le_bytes n (drop_bit 8 w)"

fun of_le :: "u8 list \<Rightarrow> 'a::len word" where
  "of_le [] = 0"
| "of_le (b # bs) = ucast b OR push_bit 8 (of_le bs)"

lemma length_le_bytes [simp]: "length (le_bytes n w) = n"
  by (induction n w rule: le_bytes.induct) auto

lemma of_le_le_bytes: "of_le (le_bytes n (w :: 'a::len word)) = take_bit (8 * n) w"
proof (induction n w rule: le_bytes.induct)
  case (1 w)
  then show ?case by simp
next
  case (2 n w)
  have "ucast (ucast w :: u8) OR push_bit 8 (take_bit (8 * n) (drop_bit 8 w)) = take_bit (8 * Suc n) w"
    by (rule bit_word_eqI)
       (auto simp: bit_or_iff bit_push_bit_iff bit_take_bit_iff bit_drop_bit_eq bit_ucast_iff bit_simps)
  with 2 show ?case by simp
qed

lemma of_le_16 [simp]: "of_le (le_bytes 2 w) = (w :: u16)"
  by (simp add: of_le_le_bytes take_bit_word_eq_self)

lemma of_le_32 [simp]: "of_le (le_bytes 4 w) = (w :: u32)"
  by (simp add: of_le_le_bytes take_bit_word_eq_self)

lemma of_le_64 [simp]: "of_le (le_bytes 8 w) = (w :: u64)"
  by (simp add: of_le_le_bytes take_bit_word_eq_self)

lemma le_bytes_take_bit: "le_bytes n (take_bit (8 * n) w) = le_bytes n (w :: 'a::len word)"
proof (induction n arbitrary: w)
  case 0
  then show ?case by simp
next
  case (Suc n)
  have "drop_bit 8 (take_bit (8 * Suc n) w) = take_bit (8 * n) (drop_bit 8 w)"
    by (rule bit_word_eqI) (auto simp: bit_simps)
  moreover have "(ucast (take_bit (8 * Suc n) w) :: u8) = ucast w"
    by (rule bit_word_eqI) (auto simp: bit_simps)
  ultimately show ?case by (simp add: Suc del: mult_Suc_right)
qed

section \<open>Arrays of bytes\<close>

text \<open>
  An object in memory is read and written through a function from positions to bytes. The
  positions are \<open>nat\<close> for a C array of its own (a disk block) and \<open>u64\<close> for physical memory.
\<close>

type_synonym bytes = "nat \<Rightarrow> u8"

definition rd :: "bytes \<Rightarrow> nat \<Rightarrow> nat \<Rightarrow> u8 list" where
  "rd d off n = map (\<lambda>i. d (off + i)) [0..<n]"

definition wr :: "bytes \<Rightarrow> nat \<Rightarrow> u8 list \<Rightarrow> bytes" where
  "wr d off bs = (\<lambda>x. if off \<le> x \<and> x < off + length bs then bs ! (x - off) else d x)"

lemma length_rd [simp]: "length (rd d off n) = n"
  by (simp add: rd_def)

lemma nth_rd [simp]: "i < n \<Longrightarrow> rd d off n ! i = d (off + i)"
  by (simp add: rd_def)

lemma rd_wr_same [simp]: "length bs = n \<Longrightarrow> rd (wr d off bs) off n = bs"
  by (rule nth_equalityI) (auto simp: rd_def wr_def)

lemma rd_wr_disj: "off + n \<le> o2 \<or> o2 + length bs \<le> off \<Longrightarrow> rd (wr d o2 bs) off n = rd d off n"
  by (rule nth_equalityI) (auto simp: rd_def wr_def)

lemma wr_Nil [simp]: "wr d off [] = d"
  by (rule ext) (auto simp: wr_def)

lemma wr_out: "x < off \<or> off + length bs \<le> x \<Longrightarrow> wr d off bs x = d x"
  by (auto simp: wr_def)

lemma wr_in: "off \<le> x \<Longrightarrow> x < off + length bs \<Longrightarrow> wr d off bs x = bs ! (x - off)"
  by (simp add: wr_def)

definition get16 :: "bytes \<Rightarrow> nat \<Rightarrow> u16" where "get16 d off = of_le (rd d off 2)"
definition get32 :: "bytes \<Rightarrow> nat \<Rightarrow> u32" where "get32 d off = of_le (rd d off 4)"
definition put16 :: "bytes \<Rightarrow> nat \<Rightarrow> u16 \<Rightarrow> bytes" where "put16 d off v = wr d off (le_bytes 2 v)"
definition put32 :: "bytes \<Rightarrow> nat \<Rightarrow> u32 \<Rightarrow> bytes" where "put32 d off v = wr d off (le_bytes 4 v)"

lemma get16_put16_same [simp]: "get16 (put16 d off v) off = v"
  by (simp add: get16_def put16_def)

lemma get32_put32_same [simp]: "get32 (put32 d off v) off = v"
  by (simp add: get32_def put32_def)

lemma get32_put32_other: "off + 4 \<le> o2 \<or> o2 + 4 \<le> off \<Longrightarrow> get32 (put32 d o2 v) off = get32 d off"
  by (simp add: get32_def put32_def rd_wr_disj)

lemma get16_put16_other: "off + 2 \<le> o2 \<or> o2 + 2 \<le> off \<Longrightarrow> get16 (put16 d o2 v) off = get16 d off"
  by (simp add: get16_def put16_def rd_wr_disj)

lemma get16_put32_other: "off + 2 \<le> o2 \<or> o2 + 4 \<le> off \<Longrightarrow> get16 (put32 d o2 v) off = get16 d off"
  by (simp add: get16_def put32_def rd_wr_disj)

lemma get32_put16_other: "off + 4 \<le> o2 \<or> o2 + 2 \<le> off \<Longrightarrow> get32 (put16 d o2 v) off = get32 d off"
  by (simp add: get32_def put16_def rd_wr_disj)

lemmas getput_other = get32_put32_other get16_put16_other get16_put32_other get32_put16_other

section \<open>Physical memory\<close>

type_synonym memory = "u64 \<Rightarrow> u8"

definition load_bytes :: "memory \<Rightarrow> u64 \<Rightarrow> nat \<Rightarrow> u8 list" where
  "load_bytes m a n = map (\<lambda>i. m (a + of_nat i)) [0..<n]"

definition store_bytes :: "memory \<Rightarrow> u64 \<Rightarrow> u8 list \<Rightarrow> memory" where
  "store_bytes m a bs = (\<lambda>x. if unat (x - a) < length bs then bs ! unat (x - a) else m x)"

definition load64 :: "memory \<Rightarrow> u64 \<Rightarrow> u64" where
  "load64 m a = of_le (load_bytes m a 8)"

definition store64 :: "memory \<Rightarrow> u64 \<Rightarrow> u64 \<Rightarrow> memory" where
  "store64 m a v = store_bytes m a (le_bytes 8 v)"

lemma length_load_bytes [simp]: "length (load_bytes m a n) = n"
  by (simp add: load_bytes_def)

lemma nth_load_bytes [simp]: "i < n \<Longrightarrow> load_bytes m a n ! i = m (a + of_nat i)"
  by (simp add: load_bytes_def)

lemma store_bytes_out: "length bs \<le> unat (x - a) \<Longrightarrow> store_bytes m a bs x = m x"
  by (simp add: store_bytes_def)

lemma store_bytes_in: "unat (x - a) < length bs \<Longrightarrow> store_bytes m a bs x = bs ! unat (x - a)"
  by (simp add: store_bytes_def)

lemma store_bytes_Nil [simp]: "store_bytes m a [] = m"
  by (auto simp: store_bytes_def)

lemma unat_of_nat64: "i < 2 ^ 64 \<Longrightarrow> unat (of_nat i :: u64) = i"
  by (simp add: unat_of_nat take_bit_nat_eq_self_iff)

lemma load_store_same:
  assumes "length bs = n" "n \<le> 2 ^ 64"
  shows "load_bytes (store_bytes m a bs) a n = bs"
proof (rule nth_equalityI)
  fix i assume "i < length (load_bytes (store_bytes m a bs) a n)"
  then have "i < n" by simp
  then show "load_bytes (store_bytes m a bs) a n ! i = bs ! i"
    using assms by (simp add: store_bytes_def unat_of_nat64)
qed (use assms in simp)

lemma load64_store64_same [simp]: "load64 (store64 m a v) a = v"
  by (simp add: load64_def store64_def load_store_same)

text \<open>Two ranges of bytes do not meet.\<close>

definition disj :: "u64 \<Rightarrow> nat \<Rightarrow> u64 \<Rightarrow> nat \<Rightarrow> bool" where
  "disj a n b k \<longleftrightarrow> (\<forall>i<n. k \<le> unat (a + of_nat i - b))"

lemma load_store_disj:
  "disj a n b (length bs) \<Longrightarrow> load_bytes (store_bytes m b bs) a n = load_bytes m a n"
  by (rule nth_equalityI) (auto simp: disj_def store_bytes_out)

lemma load64_store64_disj: "disj a 8 b 8 \<Longrightarrow> load64 (store64 m b v) a = load64 m a"
  by (simp add: load64_def store64_def load_store_disj)

text \<open>Bounds and signs of 32-bit words.\<close>

lemma unat_less32: "unat (x :: u32) < 2 ^ 32"
  using unsigned_less [of x] by simp

lemma word_of_nat_unat: "word_of_nat (unat x) = x"
  by simp

lemma sint_nat: "m < 2 ^ 31 \<Longrightarrow> sint (word_of_nat m :: u32) = int m"
  by (simp add: signed_of_nat signed_take_bit_int_eq_self)

lemma sint_unat: "unat (x :: u32) < 2 ^ 31 \<Longrightarrow> sint x = int (unat x)"
  using sint_nat [of "unat x"] by (simp only: word_of_nat_unat)

end
