(* ===== verification/Smp.thy ===== *)
theory Smp
  imports Spinlock
begin

text \<open>
  Any number of harts run \<open>acquire\<close> and \<open>release\<close> of \<^verbatim>\<open>kernel/spinlock.c\<close> on the same
  locks. A step is one atomic piece of the code on one hart. The invariant ties the lock
  words to the harts that are between \<open>acquire\<close> and \<open>release\<close>.
\<close>

datatype lockpc = Idle | Spin lockid | Won lockid | Rel lockid

record smp =
  base :: kbase
  pcs :: "nat \<Rightarrow> lockpc"
  held :: "nat \<Rightarrow> lockid set"

definition as_hart :: "nat \<Rightarrow> 'z kbase_scheme \<Rightarrow> 'z kbase_scheme" where
  "as_hart h s = s\<lparr>hart := h\<rparr>"

inductive smp_step :: "smp \<Rightarrow> smp \<Rightarrow> bool" where
  enter: "pcs m h = Idle \<Longrightarrow> acquire_enter lk (as_hart h (base m)) = Ret () b \<Longrightarrow>
    smp_step m (m\<lparr>base := b, pcs := (pcs m)(h := Spin lk)\<rparr>)"
| spin: "pcs m h = Spin lk \<Longrightarrow> test_and_set lk (as_hart h (base m)) = (True, b) \<Longrightarrow>
    smp_step m (m\<lparr>base := b\<rparr>)"
| win: "pcs m h = Spin lk \<Longrightarrow> test_and_set lk (as_hart h (base m)) = (False, b) \<Longrightarrow>
    smp_step m (m\<lparr>base := b, pcs := (pcs m)(h := Won lk)\<rparr>)"
| note_owner: "pcs m h = Won lk \<Longrightarrow>
    smp_step m (m\<lparr>base := acquire_record lk (as_hart h (base m)), pcs := (pcs m)(h := Idle),
      held := (held m)(h := insert lk (held m h))\<rparr>)"
| clear: "pcs m h = Idle \<Longrightarrow> release_clear lk (as_hart h (base m)) = Ret () b \<Longrightarrow>
    smp_step m (m\<lparr>base := b, pcs := (pcs m)(h := Rel lk),
      held := (held m)(h := held m h - {lk})\<rparr>)"
| unlock: "pcs m h = Rel lk \<Longrightarrow> pop_off (lock_release lk (as_hart h (base m))) = Ret () b \<Longrightarrow>
    smp_step m (m\<lparr>base := b, pcs := (pcs m)(h := Idle)\<rparr>)"

definition smp_start :: "smp \<Rightarrow> bool" where
  "smp_start m \<longleftrightarrow> (\<forall>lk. lk_free lk (base m)) \<and> (\<forall>h. noff (cpus (base m) h) = 0)
     \<and> (\<forall>h. pcs m h = Idle) \<and> (\<forall>h. held m h = {})"

inductive smp_reachable :: "smp \<Rightarrow> bool" where
  start: "smp_start m \<Longrightarrow> smp_reachable m"
| step: "smp_reachable m \<Longrightarrow> smp_step m m' \<Longrightarrow> smp_reachable m'"

text \<open>A hart owns a lock from the test-and-set that succeeds to the store that clears the word.\<close>

definition owns :: "smp \<Rightarrow> nat \<Rightarrow> lockid \<Rightarrow> bool" where
  "owns m h lk \<longleftrightarrow> lk \<in> held m h \<or> pcs m h = Won lk \<or> pcs m h = Rel lk"

definition lock_inv :: "smp \<Rightarrow> bool" where
  "lock_inv m \<longleftrightarrow>
     (\<forall>lk. locked (locks (base m) lk) \<longleftrightarrow> (\<exists>h. owns m h lk)) \<and>
     (\<forall>h h' lk. owns m h lk \<longrightarrow> owns m h' lk \<longrightarrow> h = h') \<and>
     (\<forall>h lk. lk \<in> held m h \<longleftrightarrow> lcpu (locks (base m) lk) = Some h) \<and>
     (\<forall>h lk. pcs m h = Rel lk \<longrightarrow> lk \<notin> held m h) \<and>
     (\<forall>h lk. pcs m h = Won lk \<longrightarrow> lk \<notin> held m h)"

definition off_inv :: "smp \<Rightarrow> bool" where
  "off_inv m \<longleftrightarrow>
     (\<forall>h. finite (held m h) \<and>
          noff (cpus (base m) h) = int (card (held m h)) + (if pcs m h = Idle then 0 else 1) \<and>
          (noff (cpus (base m) h) > 0 \<longrightarrow> \<not> sie (base m) h))"

lemma as_hart_sel [simp]:
  "hart (as_hart h s) = h" "cpus (as_hart h s) = cpus s" "sie (as_hart h s) = sie s"
  "locks (as_hart h s) = locks s"
  by (simp_all add: as_hart_def)

lemma push_off_locks [simp]: "locks (push_off s) = locks s" "hart (push_off s) = hart s"
  by (simp_all add: spin_defs Let_def)

lemma pop_off_locks: "pop_off s = Ret u t \<Longrightarrow> locks t = locks s"
  by (auto simp: spin_defs Let_def split: if_splits)

lemma lock_inv_start: "smp_start m \<Longrightarrow> lock_inv m"
  by (auto simp: smp_start_def lock_inv_def owns_def lk_free_def)

lemma lock_inv_step: "smp_step m m' \<Longrightarrow> lock_inv m \<Longrightarrow> lock_inv m'"
proof (induction rule: smp_step.induct)
  case (enter m h lk b)
  then have b: "locks b = locks (base m)"
    by (auto simp: acquire_enter_def Let_def split: if_splits)
  have "owns (m\<lparr>base := b, pcs := (pcs m)(h := Spin lk)\<rparr>) = owns m"
    using enter.hyps(1) by (auto simp: owns_def fun_eq_iff)
  with enter b show ?case unfolding lock_inv_def by auto
next
  case (spin m h lk b)
  then have b: "locks b = locks (base m)"
    by (auto simp: test_and_set_def upd_lock_def fun_eq_iff)
  have "owns (m\<lparr>base := b\<rparr>) = owns m" by (auto simp: owns_def fun_eq_iff)
  with spin b show ?case unfolding lock_inv_def by auto
next
  case (win m h lk b)
  let ?m = "m\<lparr>base := b, pcs := (pcs m)(h := Won lk)\<rparr>"
  from win have free: "\<not> locked (locks (base m) lk)"
    and b: "locks b = (locks (base m))(lk := (locks (base m) lk)\<lparr>locked := True\<rparr>)"
    by (auto simp: test_and_set_def upd_lock_def)
  from free win have none: "\<And>h'. \<not> owns m h' lk" unfolding lock_inv_def by blast
  have o: "owns ?m h' lk' \<longleftrightarrow> owns m h' lk' \<or> (h' = h \<and> lk' = lk)" for h' lk'
    using win.hyps(1) by (auto simp: owns_def)
  from none have "lk \<notin> held m h" by (auto simp: owns_def)
  with o none win.prems b show ?case unfolding lock_inv_def by auto
next
  case (note_owner m h lk)
  let ?m = "m\<lparr>base := acquire_record lk (as_hart h (base m)), pcs := (pcs m)(h := Idle),
      held := (held m)(h := insert lk (held m h))\<rparr>"
  have o: "owns ?m h' lk' \<longleftrightarrow> owns m h' lk'" for h' lk'
    using note_owner.hyps by (auto simp: owns_def)
  have l: "locks (base ?m) = (locks (base m))(lk := (locks (base m) lk)\<lparr>lcpu := Some h\<rparr>)"
    by (simp add: acquire_record_def upd_lock_def mycpu_def cpuid_def)
  have own: "owns m h lk" using note_owner.hyps by (simp add: owns_def)
  have h: "h' \<noteq> h \<Longrightarrow> lk \<notin> held m h'" for h'
    using own note_owner.prems unfolding lock_inv_def owns_def by blast
  show ?case
    using o l h note_owner.prems note_owner.hyps unfolding lock_inv_def by (auto split: if_splits)
next
  case (clear m h lk b)
  let ?m = "m\<lparr>base := b, pcs := (pcs m)(h := Rel lk), held := (held m)(h := held m h - {lk})\<rparr>"
  from clear have hold: "lcpu (locks (base m) lk) = Some h"
    and b: "locks b = (locks (base m))(lk := (locks (base m) lk)\<lparr>lcpu := None\<rparr>)"
    by (auto simp: release_clear_def holding_def mycpu_def cpuid_def upd_lock_def split: if_splits)
  from hold clear.prems have hl: "lk \<in> held m h" unfolding lock_inv_def by blast
  have o: "owns ?m h' lk' \<longleftrightarrow> owns m h' lk'" for h' lk'
    using clear.hyps(1) hl by (auto simp: owns_def)
  have h: "h' \<noteq> h \<Longrightarrow> lk \<notin> held m h'" for h'
    using hold clear.prems unfolding lock_inv_def by auto
  show ?case
    using o b h clear.prems clear.hyps(1) unfolding lock_inv_def by (auto split: if_splits)
next
  case (unlock m h lk b)
  let ?m = "m\<lparr>base := b, pcs := (pcs m)(h := Idle)\<rparr>"
  have b: "locks b = (locks (base m))(lk := (locks (base m) lk)\<lparr>locked := False\<rparr>)"
    using pop_off_locks [OF unlock.hyps(2)] by (simp add: lock_release_def upd_lock_def)
  have own: "owns m h lk" using unlock.hyps(1) by (simp add: owns_def)
  have o: "owns ?m h' lk' \<longleftrightarrow> owns m h' lk' \<and> \<not> (h' = h \<and> lk' = lk)" for h' lk'
    using unlock.hyps(1) unlock.prems by (auto simp: owns_def lock_inv_def)
  show ?case
    using o b own unlock.prems unlock.hyps(1) unfolding lock_inv_def by (auto split: if_splits)
qed

lemma lock_inv_reachable: "smp_reachable m \<Longrightarrow> lock_inv m"
  by (induction rule: smp_reachable.induct) (auto intro: lock_inv_start lock_inv_step)

lemma off_inv_start: "smp_start m \<Longrightarrow> off_inv m"
  by (auto simp: smp_start_def off_inv_def)

lemma off_inv_step:
  assumes "smp_step m m'" "lock_inv m" "off_inv m"
  shows "off_inv m'"
  using assms
proof (induction rule: smp_step.induct)
  case (enter m h lk b)
  have b: "b = push_off (as_hart h (base m))"
    using enter.hyps(2) by (auto simp: acquire_enter_def Let_def split: if_splits)
  show ?case
    using enter.prems enter.hyps(1) unfolding off_inv_def b
    by (auto simp: push_off_def Let_def upd_cpu_def intr_off_def mycpu_def cpuid_def)
next
  case (spin m h lk b)
  then show ?case by (auto simp: off_inv_def test_and_set_def upd_lock_def)
next
  case (win m h lk b)
  then show ?case by (auto simp: off_inv_def test_and_set_def upd_lock_def)
next
  case (note_owner m h lk)
  then have "lk \<notin> held m h" by (auto simp: lock_inv_def)
  with note_owner show ?case
    by (auto simp: off_inv_def acquire_record_def upd_lock_def)
next
  case (clear m h lk b)
  then have "lk \<in> held m h"
    by (auto simp: release_clear_def holding_def mycpu_def cpuid_def lock_inv_def split: if_splits)
  then have "card (held m h) = Suc (card (held m h - {lk}))"
    using clear.prems by (intro card.remove) (auto simp: off_inv_def)
  moreover have "cpus b = cpus (base m)" "sie b = sie (base m)"
    using clear.hyps(2) by (auto simp: release_clear_def upd_lock_def split: if_splits)
  ultimately have "finite (held m x - (if x = h then {lk} else {})) \<and>
      noff (cpus b x) = int (card (held m x - (if x = h then {lk} else {})))
        + (if x = h \<or> pcs m x \<noteq> Idle then 1 else 0) \<and>
      (noff (cpus b x) > 0 \<longrightarrow> \<not> sie b x)" for x
    using clear.prems(2) [unfolded off_inv_def, rule_format, of x] clear.hyps(1)
    by (cases "x = h") auto
  then show ?case by (fastforce simp: off_inv_def)
next
  case (unlock m h lk b)
  have "noff (cpus b h) = noff (cpus (base m) h) - 1"
    "sie b h \<longrightarrow> noff (cpus b h) = 0" "\<And>h'. h' \<noteq> h \<Longrightarrow> cpus b h' = cpus (base m) h'"
    "\<And>h'. h' \<noteq> h \<Longrightarrow> sie b h' = sie (base m) h'"
    using unlock.hyps(2)
    by (auto simp: pop_off_def lock_release_def Let_def upd_cpu_def upd_lock_def intr_on_def
        intr_get_def mycpu_def cpuid_def split: if_splits)
  moreover have "noff (cpus (base m) h) = int (card (held m h)) + 1"
    "\<And>h. finite (held m h)"
    using unlock by (auto simp: off_inv_def)
  moreover note unlock.prems(2)
  ultimately show ?case unfolding off_inv_def by auto
qed

lemma off_inv_reachable: "smp_reachable m \<Longrightarrow> off_inv m"
  by (induction rule: smp_reachable.induct)
     (auto intro: off_inv_start off_inv_step dest: lock_inv_reachable)

section \<open>Properties\<close>

lemma smp_acquire_steps:
  assumes "smp_reachable m" "pcs m h = Idle" "lk_free lk (base m)"
  shows "\<exists>m'. smp_reachable m' \<and> lk \<in> held m' h"
proof -
  let ?b1 = "push_off (as_hart h (base m))"
  let ?m1 = "m\<lparr>base := ?b1, pcs := (pcs m)(h := Spin lk)\<rparr>"
  have "acquire_enter lk (as_hart h (base m)) = Ret () ?b1"
    using assms(3) by (simp add: acquire_enter_def holding_def lk_free_def)
  from smp_step.enter [OF assms(2) this] assms(1) have r1: "smp_reachable ?m1"
    by (blast intro: smp_reachable.step)
  let ?b2 = "snd (test_and_set lk (as_hart h ?b1))"
  let ?m2 = "?m1\<lparr>base := ?b2, pcs := (pcs ?m1)(h := Won lk)\<rparr>"
  have "test_and_set lk (as_hart h (base ?m1)) = (False, ?b2)"
    using assms(3) by (simp add: test_and_set_def lk_free_def)
  moreover have "pcs ?m1 h = Spin lk" by simp
  ultimately have "smp_step ?m1 ?m2" using smp_step.win by blast
  with r1 have r2: "smp_reachable ?m2" by (rule smp_reachable.step)
  have "pcs ?m2 h = Won lk" by simp
  from smp_reachable.step [OF r2 smp_step.note_owner [OF this]] show ?thesis
    by (intro exI conjI) (assumption, simp)
qed

definition smp_init :: smp where
  "smp_init = \<lparr>base = \<lparr>hart = 0,
       cpus = (\<lambda>_. \<lparr>cproc = None, ccontext = \<lparr>ctx_ra = 0, ctx_sp = 0, ctx_s = (\<lambda>_. 0)\<rparr>,
                     noff = 0, intena = False\<rparr>),
       sie = (\<lambda>_. True),
       locks = (\<lambda>_. \<lparr>locked = False, lname = [], lcpu = None\<rparr>)\<rparr>,
     pcs = (\<lambda>_. Idle), held = (\<lambda>_. {})\<rparr>"

lemma smp_init_start: "smp_start smp_init"
  by (simp add: smp_init_def smp_start_def lk_free_def)

lemma smp_init_run: "\<exists>m. smp_reachable m \<and> KmemLock \<in> held m 0"
  using smp_init_start
  by (intro smp_acquire_steps [OF smp_reachable.start]) (auto simp: smp_start_def)

text \<open>
  C4: No two harts ever own the same spin lock at the same time, where a hart owns a lock from
  the test-and-set in \<open>acquire\<close> that saw the word clear to the store in \<open>release\<close> that clears it,
  for any number of harts and any interleaving of the atomic steps.
\<close>

theorem spinlock_mutual_exclusion:
  assumes "smp_reachable m" "owns m h lk" "owns m h' lk"
  shows "h = h'"
  using lock_inv_reachable [OF assms(1)] assms(2,3) unfolding lock_inv_def by blast

theorem spinlock_mutual_exclusion_witness:
  "\<exists>m. smp_reachable m \<and> owns m 0 KmemLock \<and> (\<forall>h'. owns m h' KmemLock \<longrightarrow> 0 = h')"
  using smp_init_run spinlock_mutual_exclusion [of _ 0 KmemLock] by (auto simp: owns_def)

text \<open>
  \<open>holding()\<close> reads \<open>lk->locked\<close> and \<open>lk->cpu\<close> without synchronisation while other harts
  write them; nevertheless its answer on hart \<open>h\<close> is exactly whether \<open>h\<close> is between
  \<open>acquire\<close> and \<open>release\<close> of the lock.
\<close>

theorem holding_exact:
  assumes "smp_reachable m"
  shows "holding lk (as_hart h (base m)) \<longleftrightarrow> lk \<in> held m h"
  using lock_inv_reachable [OF assms]
  by (auto simp: holding_def mycpu_def cpuid_def lock_inv_def owns_def)

theorem holding_exact_witness:
  "\<exists>m. smp_reachable m \<and> holding KmemLock (as_hart 0 (base m))"
  using smp_init_run holding_exact by blast

text \<open>
  C27: A hart that holds any spin lock runs with interrupts off, and its \<open>push_off\<close> nesting
  depth is the number of locks it holds plus one while it is inside \<open>acquire\<close> or \<open>release\<close>.
\<close>

theorem interrupts_off_while_holding:
  assumes "smp_reachable m" "held m h \<noteq> {}"
  shows "\<not> sie (base m) h \<and>
    noff (cpus (base m) h) = int (card (held m h)) + (if pcs m h = Idle then 0 else 1)"
proof -
  have "card (held m h) > 0"
    using off_inv_reachable [OF assms(1)] assms(2) by (auto simp: off_inv_def card_gt_0_iff)
  then show ?thesis
    using off_inv_reachable [OF assms(1)] by (auto simp: off_inv_def)
qed

theorem interrupts_off_while_holding_witness:
  "\<exists>m. smp_reachable m \<and> held m 0 \<noteq> {} \<and> \<not> sie (base m) 0"
  using smp_init_run interrupts_off_while_holding [of _ 0] by blast

end
