(* ===== verification/KString.thy ===== *)
theory KString
  imports Prelude
begin

text \<open>
  The byte and string routines of \<^verbatim>\<open>kernel/string.c\<close> and their counterparts in
  \<^verbatim>\<open>user/ulib.c\<close>. \<open>memset\<close>, \<open>memcmp\<close> and \<open>memmove\<close> work on memory at 64-bit addresses.
  The \<open>str\<close> routines take a pointer as the array it points to (\<open>bytes\<close>, \<open>p i\<close> is \<open>p[i]\<close>);
  routines that write return the bytes they store from the destination pointer on.
\<close>

section \<open>memset, memcmp, memmove\<close>

fun memset_loop :: "memory \<Rightarrow> u64 \<Rightarrow> u8 \<Rightarrow> nat \<Rightarrow> nat \<Rightarrow> memory" where
  "memset_loop m cdst c i 0 = m"
| "memset_loop m cdst c i (Suc k) = memset_loop (m(cdst + of_nat i := c)) cdst c (Suc i) k"

definition memset :: "memory \<Rightarrow> u64 \<Rightarrow> int \<Rightarrow> u32 \<Rightarrow> memory" where
  "memset m dst c n = memset_loop m dst (word_of_int c) 0 (unat n)"

fun memcmp_loop :: "memory \<Rightarrow> u64 \<Rightarrow> u64 \<Rightarrow> nat \<Rightarrow> int" where
  "memcmp_loop m s1 s2 0 = 0"
| "memcmp_loop m s1 s2 (Suc k) =
     (if m s1 \<noteq> m s2 then uint (m s1) - uint (m s2) else memcmp_loop m (s1 + 1) (s2 + 1) k)"

definition memcmp :: "memory \<Rightarrow> u64 \<Rightarrow> u64 \<Rightarrow> u32 \<Rightarrow> int" where
  "memcmp m v1 v2 n = memcmp_loop m v1 v2 (unat n)"

fun copy_up :: "memory \<Rightarrow> u64 \<Rightarrow> u64 \<Rightarrow> nat \<Rightarrow> memory" where
  "copy_up m d s 0 = m"
| "copy_up m d s (Suc k) = copy_up (m(d := m s)) (d + 1) (s + 1) k"

fun copy_down :: "memory \<Rightarrow> u64 \<Rightarrow> u64 \<Rightarrow> nat \<Rightarrow> memory" where
  "copy_down m d s 0 = m"
| "copy_down m d s (Suc k) = copy_down (m(d - 1 := m (s - 1))) (d - 1) (s - 1) k"

definition memmove :: "memory \<Rightarrow> u64 \<Rightarrow> u64 \<Rightarrow> u32 \<Rightarrow> memory" where
  "memmove m dst src n =
     (if n = 0 then m
      else if src < dst \<and> src + ucast n > dst
      then copy_down m (dst + ucast n) (src + ucast n) (unat n)
      else copy_up m dst src (unat n))"

definition memcpy :: "memory \<Rightarrow> u64 \<Rightarrow> u64 \<Rightarrow> u32 \<Rightarrow> memory" where
  "memcpy m dst src n = memmove m dst src n"

text \<open>\<open>user/ulib.c\<close> compares the pointers only; its \<open>n\<close> is an \<open>int\<close>, and a negative one copies nothing.\<close>

definition umemmove :: "memory \<Rightarrow> u64 \<Rightarrow> u64 \<Rightarrow> int \<Rightarrow> memory" where
  "umemmove m vdst vsrc n =
     (if vsrc > vdst then copy_up m vdst vsrc (nat n)
      else copy_down m (vdst + word_of_int n) (vsrc + word_of_int n) (nat n))"

section \<open>String routines\<close>

fun strncmp :: "bytes \<Rightarrow> bytes \<Rightarrow> nat \<Rightarrow> int" where
  "strncmp p q 0 = 0"
| "strncmp p q (Suc n) =
     (if p 0 \<noteq> 0 \<and> p 0 = q 0 then strncmp (\<lambda>i. p (Suc i)) (\<lambda>i. q (Suc i)) n
      else uint (p 0) - uint (q 0))"

fun strncpy :: "bytes \<Rightarrow> nat \<Rightarrow> u8 list" where
  "strncpy t 0 = []"
| "strncpy t (Suc n) =
     (if t 0 \<noteq> 0 then t 0 # strncpy (\<lambda>i. t (Suc i)) n else t 0 # replicate n 0)"

fun safestrcpy_loop :: "bytes \<Rightarrow> nat \<Rightarrow> u8 list" where
  "safestrcpy_loop t 0 = [0]"
| "safestrcpy_loop t (Suc n) =
     (if t 0 \<noteq> 0 then t 0 # safestrcpy_loop (\<lambda>i. t (Suc i)) n else [t 0, 0])"

definition safestrcpy :: "bytes \<Rightarrow> int \<Rightarrow> u8 list" where
  "safestrcpy t n = (if n \<le> 0 then [] else safestrcpy_loop t (nat (n - 1)))"

partial_function (option) strlen_loop :: "bytes \<Rightarrow> nat \<Rightarrow> nat option" where
  "strlen_loop s n = (if s n \<noteq> 0 then strlen_loop s (Suc n) else Some n)"

definition strlen :: "bytes \<Rightarrow> nat option" where
  "strlen s = strlen_loop s 0"

partial_function (option) strcmp_loop :: "bytes \<Rightarrow> bytes \<Rightarrow> nat \<Rightarrow> int option" where
  "strcmp_loop p q i =
     (if p i \<noteq> 0 \<and> p i = q i then strcmp_loop p q (Suc i) else Some (uint (p i) - uint (q i)))"

definition strcmp :: "bytes \<Rightarrow> bytes \<Rightarrow> int option" where
  "strcmp p q = strcmp_loop p q 0"

text \<open>The array that holds a C string literal, and the string an array starts with.\<close>

definition cstr :: "u8 list \<Rightarrow> bytes" where
  "cstr bs = (\<lambda>i. if i < length bs then bs ! i else 0)"

definition str8 :: "string \<Rightarrow> u8 list" where
  "str8 = map (\<lambda>c. of_nat (of_char c))"

section \<open>Correctness of the memory routines\<close>

lemma load_bytes_Suc: "load_bytes m a (Suc k) = m a # load_bytes m (a + 1) k"
  by (rule nth_equalityI) (auto simp: load_bytes_def nth_Cons' algebra_simps simp del: upt_Suc)

lemma load_bytes_snoc: "load_bytes m a (Suc k) = load_bytes m a k @ [m (a + of_nat k)]"
  by (simp add: load_bytes_def)

lemma unat_sub_one: "(x :: u64) \<noteq> 0 \<Longrightarrow> unat (x - 1) = unat x - 1"
  by (simp add: unat_minus_one)

lemma store_bytes_Cons:
  assumes "length bs < 2 ^ 64"
  shows "store_bytes m a (b # bs) = store_bytes (m(a := b)) (a + 1) bs"
proof
  fix x
  show "store_bytes m a (b # bs) x = store_bytes (m(a := b)) (a + 1) bs x"
  proof (cases "x = a")
    case True
    have "unat (x - (a + 1)) = 2 ^ 64 - 1"
      using True by (simp add: unsigned_minus_1_eq_mask mask_eq_exp_minus_1)
    with True assms show ?thesis by (simp add: store_bytes_def)
  next
    case False
    then have "x - a \<noteq> 0" by simp
    then have "unat (x - (a + 1)) = unat (x - a) - 1" "unat (x - a) > 0"
      using unat_sub_one [of "x - a"] by (auto simp: diff_diff_eq unat_gt_0)
    with False show ?thesis by (auto simp: store_bytes_def nth_Cons')
  qed
qed

lemma store_bytes_snoc:
  assumes "length bs < 2 ^ 64"
  shows "store_bytes m a (bs @ [b]) = store_bytes (m(a + of_nat (length bs) := b)) a bs"
proof
  fix x
  have "unat (x - a) = length bs \<longleftrightarrow> x = a + of_nat (length bs)"
  proof
    assume "unat (x - a) = length bs"
    then have "of_nat (unat (x - a)) = (of_nat (length bs) :: u64)" by simp
    then show "x = a + of_nat (length bs)" by (simp add: algebra_simps)
  next
    assume "x = a + of_nat (length bs)"
    then show "unat (x - a) = length bs" using assms by (simp add: unat_of_nat64)
  qed
  then show "store_bytes m a (bs @ [b]) x = store_bytes (m(a + of_nat (length bs) := b)) a bs x"
    by (auto simp: store_bytes_def nth_append)
qed

lemma memset_loop_eq:
  "i + k < 2 ^ 64 \<Longrightarrow>
   memset_loop m d c i k = store_bytes m (d + of_nat i) (replicate k c)"
proof (induction k arbitrary: m i)
  case 0
  then show ?case by simp
next
  case (Suc k)
  then have "memset_loop m d c i (Suc k)
      = store_bytes (m(d + of_nat i := c)) (d + of_nat i + 1) (replicate k c)"
    by (simp add: algebra_simps fun_upd_def)
  also have "\<dots> = store_bytes m (d + of_nat i) (c # replicate k c)"
    using Suc.prems by (simp add: store_bytes_Cons)
  finally show ?case by simp
qed

lemma unat_less_64: "unat (n :: u32) < 2 ^ 64"
proof -
  have "unat n < 2 ^ LENGTH(32)" by (rule unsigned_less)
  then show ?thesis by simp
qed

lemma memset_eq: "memset m d c n = store_bytes m d (replicate (unat n) (word_of_int c))"
  using unat_less_64 [of n] by (simp add: memset_def memset_loop_eq)

lemma copy_up_eq:
  assumes "unat s + k \<le> 2 ^ 64" "unat d + k \<le> 2 ^ 64" "unat d \<le> unat s \<or> unat s + k \<le> unat d"
    "k < 2 ^ 64"
  shows "copy_up m d s k = store_bytes m d (load_bytes m s k)"
  using assms
proof (induction k arbitrary: m d s)
  case 0
  then show ?case by (simp add: load_bytes_def)
next
  case (Suc k)
  let ?m = "m(d := m s)"
  have same: "load_bytes ?m (s + 1) k = load_bytes m (s + 1) k"
  proof (rule nth_equalityI)
    fix i assume "i < length (load_bytes ?m (s + 1) k)"
    then have i: "i < k" by simp
    have "unat (s + 1 + of_nat i) = unat s + 1 + i"
    proof -
      have lt: "unat s + 1 + i < 2 ^ 64" using i Suc.prems(1) by simp
      have "s + 1 + of_nat i = (of_nat (unat s + 1 + i) :: u64)" by simp
      then show ?thesis by (simp only: unat_of_nat64 [OF lt])
    qed
    then have "s + 1 + of_nat i \<noteq> d" using Suc.prems(3) i by auto
    then show "load_bytes ?m (s + 1) k ! i = load_bytes m (s + 1) k ! i" using i by simp
  qed simp
  show ?case
  proof (cases k)
    case 0
    then show ?thesis by (simp add: load_bytes_Suc store_bytes_Cons) (simp add: load_bytes_def)
  next
    case (Suc k')
    have s1: "unat (s + 1) = unat s + 1" and d1: "unat (d + 1) = unat d + 1"
      using Suc.prems(1,2) Suc by (simp_all add: unat_word_ariths)
    have "copy_up ?m (d + 1) (s + 1) k = store_bytes ?m (d + 1) (load_bytes ?m (s + 1) k)"
      using Suc.prems by (intro Suc.IH) (auto simp: s1 d1)
    then show ?thesis
      using Suc.prems(4) by (simp add: same load_bytes_Suc store_bytes_Cons)
  qed
qed


lemma unat_add_lt: "unat (a :: u64) + k < 2 ^ 64 \<Longrightarrow> unat (a + of_nat k) = unat a + k"
proof -
  assume l: "unat a + k < 2 ^ 64"
  have "a + of_nat k = (of_nat (unat a + k) :: u64)" by simp
  then show ?thesis by (simp only: unat_of_nat64 [OF l])
qed

lemma copy_down_eq:
  assumes "unat b + k \<le> 2 ^ 64" "unat a + k \<le> 2 ^ 64" "unat b \<le> unat a \<or> unat a + k \<le> unat b"
    "k < 2 ^ 64"
  shows "copy_down m (a + of_nat k) (b + of_nat k) k = store_bytes m a (load_bytes m b k)"
  using assms
proof (induction k arbitrary: m)
  case 0
  then show ?case by (simp add: load_bytes_def)
next
  case (Suc k)
  let ?m = "m(a + of_nat k := m (b + of_nat k))"
  have ne: "b + of_nat i \<noteq> a + of_nat k" if i: "i < k" for i
  proof -
    have l1: "unat b + i < 2 ^ 64" and l2: "unat a + k < 2 ^ 64" using i Suc.prems(1,2) by auto
    then show ?thesis using Suc.prems(3) i unat_add_lt [OF l1] unat_add_lt [OF l2] by auto
  qed
  have same: "load_bytes ?m b k = load_bytes m b k"
    by (rule nth_equalityI) (auto simp: ne)
  have "copy_down m (a + of_nat (Suc k)) (b + of_nat (Suc k)) (Suc k)
      = copy_down ?m (a + of_nat k) (b + of_nat k) k"
    by (simp add: algebra_simps)
  also have "\<dots> = store_bytes ?m a (load_bytes ?m b k)"
    using Suc.prems by (intro Suc.IH) auto
  also have "\<dots> = store_bytes m a (load_bytes m b (Suc k))"
    using Suc.prems(4) store_bytes_snoc [of "load_bytes m b k" m a] by (simp add: same load_bytes_snoc)
  finally show ?case .
qed

text \<open>
  C32: \<open>memmove\<close> of the kernel copies correctly for every overlap of source and destination: the
  destination afterwards holds what the source held before, and nothing else changes, as long as
  neither range wraps around the end of the address space.
\<close>

theorem memmove_correct:
  assumes "unat src + unat n \<le> 2 ^ 64" "unat dst + unat n \<le> 2 ^ 64"
  shows "memmove m dst src n = store_bytes m dst (load_bytes m src (unat n))"
proof (cases "n = 0")
  case True
  then show ?thesis by (simp add: memmove_def load_bytes_def)
next
  case False
  then have n0: "unat n > 0" by (simp add: unat_gt_0)
  show ?thesis
  proof (cases "src < dst \<and> src + ucast n > dst")
    case True
    then have "unat src < unat dst" by (simp add: word_less_nat_alt)
    then have "copy_down m (dst + of_nat (unat n)) (src + of_nat (unat n)) (unat n)
        = store_bytes m dst (load_bytes m src (unat n))"
      using assms unat_less_64 [of n] by (intro copy_down_eq) auto
    then show ?thesis using True False by (simp add: memmove_def)
  next
    case False2: False
    have "unat dst \<le> unat src \<or> unat src + unat n \<le> unat dst"
    proof (rule ccontr)
      assume "\<not> ?thesis"
      then have lt: "unat src < unat dst" "unat dst < unat src + unat n" by auto
      with assms(2) have l: "unat src + unat n < 2 ^ 64" using n0 by linarith
      have "unat (src + ucast n) = unat src + unat n" using unat_add_lt [OF l] by simp
      with lt False2 show False by (simp add: word_less_nat_alt)
    qed
    then have "copy_up m dst src (unat n) = store_bytes m dst (load_bytes m src (unat n))"
      using assms unat_less_64 [of n] by (intro copy_up_eq)
    with False False2 show ?thesis by (auto simp: memmove_def)
  qed
qed

theorem memmove_correct_witness:
  "memmove (\<lambda>x. ucast x) 12 10 4 = store_bytes (\<lambda>x. ucast x) 12 [10, 11, 12, 13]"
  using memmove_correct [of 10 4 12 "\<lambda>x. ucast x"] by (simp add: load_bytes_def upt_rec)

text \<open>
  The \<open>memmove\<close> of the user library, which only compares the two pointers, copies
  correctly for every overlap as well.
\<close>

theorem umemmove_correct:
  assumes "unat src + nat n \<le> 2 ^ 64" "unat dst + nat n \<le> 2 ^ 64" "0 \<le> n" "n < 2 ^ 31"
  shows "umemmove m dst src n = store_bytes m dst (load_bytes m src (nat n))"
proof -
  have w: "(word_of_int n :: u64) = of_nat (nat n)" using assms(3) by simp
  show ?thesis
  proof (cases "src > dst")
    case True
    then have "unat dst \<le> unat src" by (simp add: word_less_nat_alt)
    then show ?thesis using True assms by (simp add: umemmove_def copy_up_eq)
  next
    case False
    then have "unat src \<le> unat dst" by (simp add: word_less_nat_alt)
    then show ?thesis using False assms w copy_down_eq [of src "nat n" dst m] by (simp add: umemmove_def)
  qed
qed

theorem umemmove_correct_witness:
  "umemmove (\<lambda>x. ucast x) 12 10 4 = store_bytes (\<lambda>x. ucast x) 12 [10, 11, 12, 13]"
  using umemmove_correct [of 10 4 12 "\<lambda>x. ucast x"] by (simp add: load_bytes_def upt_rec)

section \<open>Correctness of the string routines\<close>

text \<open>What a routine bounded by \<open>n\<close> sees of a string: its bytes before a NUL, at most \<open>n\<close>.\<close>

fun upto0 :: "bytes \<Rightarrow> nat \<Rightarrow> u8 list" where
  "upto0 p 0 = []"
| "upto0 p (Suc n) = (if p 0 = 0 then [] else p 0 # upto0 (\<lambda>i. p (Suc i)) n)"

lemma upto0_takeWhile: "upto0 p n = takeWhile (\<lambda>b. b \<noteq> 0) (map p [0..<n])"
proof (induction n arbitrary: p)
  case 0
  then show ?case by simp
next
  case (Suc n)
  have "map p [0..<Suc n] = p 0 # map (\<lambda>i. p (Suc i)) [0..<n]"
    by (simp add: map_upt_Suc del: upt_Suc)
  with Suc show ?case by (simp del: upt_Suc)
qed

lemma length_upto0: "length (upto0 p n) \<le> n"
  by (induction p n rule: upto0.induct) auto

lemma upto0_no_nul: "0 \<notin> set (upto0 p n)"
  by (induction p n rule: upto0.induct) auto

lemma uint8_eq: "uint (a :: u8) = uint b \<longleftrightarrow> a = b" "uint a = 0 \<longleftrightarrow> a = 0"
  by (auto simp: word_uint_eq_iff)

lemma strncmp_0_upto0: "strncmp p q n = 0 \<longleftrightarrow> upto0 p n = upto0 q n"
  by (induction p q n rule: strncmp.induct) (auto simp: uint8_eq)

text \<open>
  \<open>strncmp\<close> returns 0 exactly when the two strings agree on their first \<open>n\<close> bytes up to a
  terminating NUL.
\<close>

theorem strncmp_eq_0: "strncmp p q n = 0 \<longleftrightarrow> upto0 p n = upto0 q n"
  by (rule strncmp_0_upto0)

lemma length_strncpy: "length (strncpy t n) = n"
  by (induction t n rule: strncpy.induct) auto

lemma strncpy_eq: "strncpy t n = upto0 t n @ replicate (n - length (upto0 t n)) 0"
  by (induction t n rule: strncpy.induct) auto

lemma takeWhile_zeros: "(0 :: u8) \<notin> set xs \<Longrightarrow> takeWhile (\<lambda>b. b \<noteq> 0) (xs @ replicate k 0) = xs"
  by (induction xs) (cases k, auto)

text \<open>
  Comparing a name with what \<open>strncpy\<close> stored of another compares the names: the round trip a
  directory entry takes through \<open>dirlink\<close> (which stores with \<open>strncpy\<close>) and \<open>dirlookup\<close> (which
  compares with \<open>strncmp\<close>).
\<close>

theorem strncmp_strncpy:
  "strncmp p (cstr (strncpy q n)) n = 0 \<longleftrightarrow> upto0 p n = upto0 q n"
proof -
  have "upto0 (cstr (strncpy q n)) n = upto0 q n"
  proof -
    have "map (cstr (strncpy q n)) [0..<n] = strncpy q n"
      by (rule nth_equalityI) (auto simp: length_strncpy cstr_def)
    then show ?thesis
      using upto0_no_nul [of q n]
      by (simp add: upto0_takeWhile [of "cstr _"] strncpy_eq takeWhile_zeros)
  qed
  then show ?thesis by (simp add: strncmp_0_upto0)
qed

end
