(* ===== verification/Kalloc.thy ===== *)
theory Kalloc
  imports Spinlock KString
begin

text \<open>
  The physical page allocator of \<^verbatim>\<open>kernel/kalloc.c\<close>. The free list is threaded through the
  free pages themselves: the first eight bytes of a free page hold the address of the next.
  The abstraction \<open>flist\<close> reads that chain as a HOL list; the allocator is proved to implement
  a set of free pages (the locale \<open>page_allocator\<close>).
\<close>

record kmem = kbase +
  mem :: memory
  freelist :: u64
  kend :: u64      \<comment> \<open>the linker symbol \<open>end\<close>\<close>

abbreviation PGSIZE :: u64 where "PGSIZE \<equiv> 4096"

definition KERNBASE :: u64 where "KERNBASE = 0x80000000"
definition PHYSTOP :: u64 where "PHYSTOP = KERNBASE + 128 * 1024 * 1024"

definition PGROUNDUP :: "u64 \<Rightarrow> u64" where
  "PGROUNDUP sz = (sz + PGSIZE - 1) AND NOT (PGSIZE - 1)"

definition PGROUNDDOWN :: "u64 \<Rightarrow> u64" where
  "PGROUNDDOWN a = a AND NOT (PGSIZE - 1)"

definition kfree :: "u64 \<Rightarrow> 'z kmem_scheme \<Rightarrow> (unit, 'z kmem_scheme) kres" where
  "kfree pa s =
     (if pa mod PGSIZE \<noteq> 0 \<or> pa < kend s \<or> pa \<ge> PHYSTOP then Panic ''kfree''
      else let s = s\<lparr>mem := memset (mem s) pa 1 4096\<rparr> in
        with_lock KmemLock
          (\<lambda>s. Ret () (s\<lparr>mem := store64 (mem s) pa (freelist s), freelist := pa\<rparr>)) s)"

definition kalloc :: "'z kmem_scheme \<Rightarrow> (u64, 'z kmem_scheme) kres" where
  "kalloc s =
     kbind (with_lock KmemLock
       (\<lambda>s. let r = freelist s in
          if r \<noteq> 0 then Ret r (s\<lparr>freelist := load64 (mem s) r\<rparr>) else Ret r s) s)
     (\<lambda>r s. if r \<noteq> 0 then Ret r (s\<lparr>mem := memset (mem s) r 5 4096\<rparr>) else Ret r s)"

text \<open>
  The loop of \<open>freerange\<close>, with fuel: one unit per page. \<open>freerange_loop_enough\<close> below shows
  that the fuel \<open>freerange\<close> gives it is never used up when the range does not wrap.
\<close>

fun freerange_loop :: "nat \<Rightarrow> u64 \<Rightarrow> u64 \<Rightarrow> 'z kmem_scheme \<Rightarrow> (unit, 'z kmem_scheme) kres" where
  "freerange_loop 0 p pa_end s = Wait s"
| "freerange_loop (Suc f) p pa_end s =
     (if p + PGSIZE \<le> pa_end
      then kbind (kfree p s) (\<lambda>_ s. freerange_loop f (p + PGSIZE) pa_end s)
      else Ret () s)"

definition freerange :: "u64 \<Rightarrow> u64 \<Rightarrow> 'z kmem_scheme \<Rightarrow> (unit, 'z kmem_scheme) kres" where
  "freerange pa_start pa_end s =
     freerange_loop (Suc (unat pa_end div 4096)) (PGROUNDUP pa_start) pa_end s"

definition kinit :: "'z kmem_scheme \<Rightarrow> (unit, 'z kmem_scheme) kres" where
  "kinit s = freerange (kend s) PHYSTOP (initlock KmemLock ''kmem'' s)"

section \<open>Pages\<close>

definition aligned :: "u64 \<Rightarrow> bool" where
  "aligned a \<longleftrightarrow> a mod PGSIZE = 0"

definition in_page :: "u64 \<Rightarrow> u64 \<Rightarrow> bool" where
  "in_page a x \<longleftrightarrow> unat (x - a) < 4096"

lemma aligned_unat: "aligned a \<longleftrightarrow> unat a mod 4096 = 0"
  using unat_mod_distrib [of a PGSIZE] by (auto simp: aligned_def unat_eq_0 [symmetric] simp del: unat_eq_0)

lemma unat_sub64: "unat ((x :: u64) - y) = (if y \<le> x then unat x - unat y else unat x + 2 ^ 64 - unat y)"
  unfolding unat_sub_if' word_le_nat_alt by simp

lemma in_page_unat: "in_page a x \<Longrightarrow> aligned a \<Longrightarrow> unat a \<le> unat x \<and> unat x < unat a + 4096"
proof -
  assume h: "in_page a x" "aligned a"
  have "unat a < 2 ^ LENGTH(64)" "unat x < 2 ^ LENGTH(64)" by (rule unsigned_less)+
  with h show ?thesis
    by (auto simp: in_page_def aligned_unat unat_sub64 word_le_nat_alt split: if_splits)
qed

lemma in_page_unique: "in_page a x \<Longrightarrow> in_page b x \<Longrightarrow> aligned a \<Longrightarrow> aligned b \<Longrightarrow> a = b"
proof -
  assume h: "in_page a x" "in_page b x" "aligned a" "aligned b"
  obtain qa qb where q: "unat a = 4096 * qa" "unat b = 4096 * qb"
    using h(3,4) by (auto simp: aligned_unat mod_eq_0_iff_dvd dvd_def)
  have "unat x div 4096 = qa" "unat x div 4096 = qb"
    using in_page_unat [OF h(1,3)] in_page_unat [OF h(2,4)] q by (auto intro!: div_nat_eqI)
  with q have "unat a = unat b" by simp
  then show "a = b" by (simp add: word_unat_eq_iff)
qed

lemma in_page_offset: "off < 4096 \<Longrightarrow> in_page a (a + of_nat off)"
  by (simp add: in_page_def unat_of_nat64)

lemma in_page_self [simp]: "in_page a a"
  by (simp add: in_page_def)

text \<open>Memory that agrees outside a set of pages.\<close>

definition agree_except :: "u64 set \<Rightarrow> memory \<Rightarrow> memory \<Rightarrow> bool" where
  "agree_except P m m' \<longleftrightarrow> (\<forall>x. (\<forall>a\<in>P. \<not> in_page a x) \<longrightarrow> m' x = m x)"

lemma agree_refl [simp]: "agree_except P m m"
  by (simp add: agree_except_def)

lemma agree_trans: "agree_except P m m1 \<Longrightarrow> agree_except Q m1 m2 \<Longrightarrow> agree_except (P \<union> Q) m m2"
  by (auto simp: agree_except_def)

lemma agree_mono: "agree_except P m m' \<Longrightarrow> P \<subseteq> Q \<Longrightarrow> agree_except Q m m'"
  by (auto simp: agree_except_def)

lemma agree_store:
  assumes "off + length bs \<le> 4096"
  shows "agree_except {a} m (store_bytes m (a + of_nat off) bs)"
  unfolding agree_except_def
proof (intro allI impI)
  fix x assume "\<forall>p\<in>{a}. \<not> in_page p x"
  then have x: "4096 \<le> unat (x - a)" by (simp add: in_page_def)
  have o: "unat (of_nat off :: u64) = off" using assms by (simp add: unat_of_nat64)
  have "(of_nat off :: u64) \<le> x - a" using x o assms by (simp add: word_le_nat_alt)
  then have "unat ((x - a) - of_nat off) = unat (x - a) - off" using o by (simp add: unat_sub)
  then have "length bs \<le> unat (x - (a + of_nat off))" using x assms by (simp add: diff_diff_eq)
  then show "store_bytes m (a + of_nat off) bs x = m x" by (rule store_bytes_out)
qed

lemma agree_store64: "off + 8 \<le> 4096 \<Longrightarrow> agree_except {a} m (store64 m (a + of_nat off) v)"
  by (simp add: store64_def agree_store)

lemma agree_store64_0: "agree_except {a} m (store64 m a v)"
  using agree_store64 [of 0] by simp

lemma agree_memset: "agree_except {a} m (memset m a c 4096)"
  using agree_store [of 0 "replicate (unat (4096 :: u32)) (word_of_int c)" a m] by (simp only: memset_eq) simp

lemma load_agree:
  assumes "agree_except P m m'" "aligned b" "b \<notin> P" "\<forall>a\<in>P. aligned a" "off + n \<le> 4096"
  shows "load_bytes m' (b + of_nat off) n = load_bytes m (b + of_nat off) n"
proof (rule nth_equalityI)
  fix i assume "i < length (load_bytes m' (b + of_nat off) n)"
  then have i: "i < n" by simp
  have "in_page b (b + of_nat (off + i))" using i assms(5) by (intro in_page_offset) simp
  then have "\<forall>a\<in>P. \<not> in_page a (b + of_nat off + of_nat i)"
    using in_page_unique assms(2-4) by (auto simp: add.assoc)
  with assms(1) i show "load_bytes m' (b + of_nat off) n ! i = load_bytes m (b + of_nat off) n ! i"
    by (simp add: agree_except_def)
qed simp

lemma load64_agree:
  assumes "agree_except P m m'" "aligned b" "b \<notin> P" "\<forall>a\<in>P. aligned a" "off + 8 \<le> 4096"
  shows "load64 m' (b + of_nat off) = load64 m (b + of_nat off)"
  using load_agree [OF assms] by (simp add: load64_def)

lemma load64_agree_0:
  assumes "agree_except P m m'" "aligned b" "b \<notin> P" "\<forall>a\<in>P. aligned a"
  shows "load64 m' b = load64 m b"
  using load64_agree [OF assms, of 0] by simp

section \<open>The free list\<close>

primrec flist :: "memory \<Rightarrow> u64 \<Rightarrow> u64 list \<Rightarrow> bool" where
  "flist m p [] \<longleftrightarrow> p = 0"
| "flist m p (a # as) \<longleftrightarrow> p = a \<and> a \<noteq> 0 \<and> flist m (load64 m a) as"

lemma flist_unique: "flist m p xs \<Longrightarrow> flist m p ys \<Longrightarrow> xs = ys"
proof (induction xs arbitrary: p ys)
  case Nil
  then show ?case by (cases ys) auto
next
  case (Cons a xs)
  then show ?case by (cases ys) auto
qed

lemma flist_agree:
  "flist m p xs \<Longrightarrow> agree_except P m m' \<Longrightarrow> set xs \<inter> P = {} \<Longrightarrow> \<forall>a\<in>set xs \<union> P. aligned a
   \<Longrightarrow> flist m' p xs"
proof (induction xs arbitrary: p)
  case Nil
  then show ?case by simp
next
  case (Cons a xs)
  then have "load64 m' a = load64 m a" by (intro load64_agree_0) auto
  with Cons show ?case by auto
qed

definition page_ok :: "'z kmem_scheme \<Rightarrow> u64 \<Rightarrow> bool" where
  "page_ok s a \<longleftrightarrow> aligned a \<and> a \<noteq> 0 \<and> kend s \<le> a \<and> a < PHYSTOP"

text \<open>\<open>free_list s xs\<close>: the free pages, in the order of the list.\<close>

definition free_list :: "'z kmem_scheme \<Rightarrow> u64 list \<Rightarrow> bool" where
  "free_list s xs \<longleftrightarrow> flist (mem s) (freelist s) xs \<and> distinct xs \<and> (\<forall>a\<in>set xs. page_ok s a)"

definition kmem_ready :: "'z kmem_scheme \<Rightarrow> bool" where
  "kmem_ready s \<longleftrightarrow> cpu_ok s \<and> lk_free KmemLock s"

lemma kalloc_run:
  assumes "kmem_ready s"
  shows "kalloc s =
     (if freelist s = 0 then Ret 0 s
      else Ret (freelist s) (s\<lparr>mem := memset (mem s) (freelist s) 5 4096,
                                freelist := load64 (mem s) (freelist s)\<rparr>))"
proof -
  let ?b = "\<lambda>s. let r = freelist s in
          if r \<noteq> 0 then Ret r (s\<lparr>freelist := load64 (mem s) r\<rparr>) else Ret r s"
  have m: "mem (taken KmemLock s) = mem s" "freelist (taken KmemLock s) = freelist s"
    by (simp_all add: taken_def)
  show ?thesis
  proof (cases "freelist s = 0")
    case True
    then have "?b (taken KmemLock s) = Ret 0 (taken KmemLock s)" by (simp add: m Let_def)
    then have "with_lock KmemLock ?b s = Ret 0 s"
      using assms with_lock_run [of s KmemLock ?b 0 "taken KmemLock s"]
      by (simp add: kmem_ready_def same_base_def) (simp add: taken_def)
    with True show ?thesis by (simp add: kalloc_def)
  next
    case False
    let ?t = "(taken KmemLock s)\<lparr>freelist := load64 (mem s) (freelist s)\<rparr>"
    have "?b (taken KmemLock s) = Ret (freelist s) ?t" using False by (simp add: m Let_def)
    then have "with_lock KmemLock ?b s = Ret (freelist s) (s\<lparr>freelist := load64 (mem s) (freelist s)\<rparr>)"
      using assms with_lock_run [of s KmemLock ?b "freelist s" ?t]
      by (simp add: kmem_ready_def same_base_def) (simp add: taken_def)
    with False show ?thesis by (simp add: kalloc_def)
  qed
qed

lemma kfree_run:
  assumes "kmem_ready s" "page_ok s pa"
  shows "kfree pa s = Ret () (s\<lparr>mem := store64 (memset (mem s) pa 1 4096) pa (freelist s), freelist := pa\<rparr>)"
proof -
  let ?s = "s\<lparr>mem := memset (mem s) pa 1 4096\<rparr>"
  let ?b = "\<lambda>s. Ret () (s\<lparr>mem := store64 (mem s) pa (freelist s), freelist := pa\<rparr>)"
  let ?t = "(taken KmemLock ?s)\<lparr>mem := store64 (memset (mem s) pa 1 4096) pa (freelist s), freelist := pa\<rparr>"
  have "?b (taken KmemLock ?s) = Ret () ?t" by (simp add: taken_def)
  then have "with_lock KmemLock ?b ?s = Ret () (?t\<lparr>cpus := cpus ?s, sie := sie ?s, locks := locks ?s\<rparr>)"
    using assms(1) by (intro with_lock_run) (auto simp: kmem_ready_def same_base_def cpu_ok_def lk_free_def)
  also have "?t\<lparr>cpus := cpus ?s, sie := sie ?s, locks := locks ?s\<rparr>
      = s\<lparr>mem := store64 (memset (mem s) pa 1 4096) pa (freelist s), freelist := pa\<rparr>"
    by (simp add: taken_def)
  finally show ?thesis
    using assms(2) by (auto simp: kfree_def Let_def page_ok_def aligned_def)
qed

lemma kfree_panics: "\<not> page_ok s pa \<Longrightarrow> pa \<noteq> 0 \<Longrightarrow> kfree pa s = Panic ''kfree''"
  unfolding kfree_def page_ok_def aligned_def by (metis linorder_not_less)

lemma kmem_ready_upd [simp]:
  "kmem_ready (s\<lparr>mem := m\<rparr>) = kmem_ready s" "kmem_ready (s\<lparr>freelist := p\<rparr>) = kmem_ready s"
  by (simp_all add: kmem_ready_def cpu_ok_def lk_free_def)

lemma page_ok_upd [simp]:
  "page_ok (s\<lparr>mem := m\<rparr>) = page_ok s" "page_ok (s\<lparr>freelist := p\<rparr>) = page_ok s"
  by (simp_all add: page_ok_def fun_eq_iff)

section \<open>The allocator as an interface\<close>

text \<open>
  What a client of the allocator relies on: the pages it can hand out form a set, allocation
  takes one out or reports that there is none, and freeing a page of the machine that is not
  free puts it back. The contents of pages that are neither allocated nor freed do not change.
\<close>

locale page_allocator =
  fixes alloc :: "'s \<Rightarrow> (u64, 's) kres"
    and free :: "u64 \<Rightarrow> 's \<Rightarrow> (unit, 's) kres"
    and avail :: "'s \<Rightarrow> u64 set"
    and invar :: "'s \<Rightarrow> bool"
    and valid :: "'s \<Rightarrow> u64 \<Rightarrow> bool"
    and memory_of :: "'s \<Rightarrow> memory"
  assumes alloc_some: "invar s \<Longrightarrow> avail s \<noteq> {} \<Longrightarrow>
      \<exists>p s'. alloc s = Ret p s' \<and> p \<in> avail s \<and> p \<noteq> 0 \<and> invar s' \<and> avail s' = avail s - {p}
        \<and> agree_except {p} (memory_of s) (memory_of s') \<and> valid s' = valid s"
    and alloc_none: "invar s \<Longrightarrow> avail s = {} \<Longrightarrow> alloc s = Ret 0 s"
    and free_page: "invar s \<Longrightarrow> valid s p \<Longrightarrow> p \<notin> avail s \<Longrightarrow>
      \<exists>s'. free p s = Ret () s' \<and> invar s' \<and> avail s' = insert p (avail s)
        \<and> agree_except {p} (memory_of s) (memory_of s') \<and> valid s' = valid s"
    and avail_valid: "invar s \<Longrightarrow> p \<in> avail s \<Longrightarrow> valid s p"
begin

lemma alloc_total: "invar s \<Longrightarrow> \<exists>p s'. alloc s = Ret p s' \<and> invar s'"
  by (cases "avail s = {}") (use alloc_some alloc_none in blast)+

lemma alloc_then_free:
  assumes "invar s" "avail s \<noteq> {}"
  shows "\<exists>p s' s''. alloc s = Ret p s' \<and> free p s' = Ret () s'' \<and> avail s'' = avail s \<and> invar s''"
proof -
  obtain p s' where a: "alloc s = Ret p s'" "p \<in> avail s" "invar s'" "avail s' = avail s - {p}"
    "valid s' = valid s"
    using alloc_some [OF assms] by blast
  then have "valid s' p" using avail_valid assms(1) by simp
  moreover have "p \<notin> avail s'" using a by simp
  ultimately obtain s'' where "free p s' = Ret () s''" "invar s''" "avail s'' = insert p (avail s')"
    using free_page a(3) by blast
  with a show ?thesis by (intro exI [of _ p] exI [of _ s'] exI [of _ s'']) auto
qed

lemma alloc_twice:
  assumes "invar s" "alloc s = Ret p s'" "p \<noteq> 0" "alloc s' = Ret q s''" "q \<noteq> 0"
  shows "p \<noteq> q"
proof -
  have ne: "avail s \<noteq> {}" using assms(1,2,3) alloc_none by force
  then have s': "p \<in> avail s" "avail s' = avail s - {p}" "invar s'"
    using alloc_some [OF assms(1) ne] assms(2) by auto
  then have "avail s' \<noteq> {}" using assms(4,5) alloc_none by force
  then have "q \<in> avail s'" using alloc_some [OF s'(3)] assms(4) by auto
  with s' show ?thesis by auto
qed

end

definition kavail :: "'z kmem_scheme \<Rightarrow> u64 set" where
  "kavail s = {a. \<exists>xs. free_list s xs \<and> a \<in> set xs}"

definition kalloc_inv :: "'z kmem_scheme \<Rightarrow> bool" where
  "kalloc_inv s \<longleftrightarrow> kmem_ready s \<and> (\<exists>xs. free_list s xs)"

lemma kavail_eq: "free_list s xs \<Longrightarrow> kavail s = set xs"
proof -
  assume f: "free_list s xs"
  then have "\<And>ys. free_list s ys \<Longrightarrow> ys = xs"
    by (auto simp: free_list_def dest: flist_unique)
  with f show ?thesis unfolding kavail_def by blast
qed

lemma kalloc_free_list:
  assumes "kmem_ready s" "free_list s (a # xs)"
  shows "\<exists>s'. kalloc s = Ret a s' \<and> free_list s' xs \<and> kmem_ready s' \<and>
     agree_except {a} (mem s) (mem s') \<and> page_ok s' = page_ok s"
proof -
  let ?s = "s\<lparr>mem := memset (mem s) a 5 4096, freelist := load64 (mem s) a\<rparr>"
  have f: "freelist s = a" "a \<noteq> 0" "flist (mem s) (load64 (mem s) a) xs"
    using assms(2) by (auto simp: free_list_def)
  have "kalloc s = Ret a ?s" using kalloc_run [OF assms(1)] f by simp
  moreover have "flist (mem ?s) (freelist ?s) xs"
    using f(3) assms(2) agree_memset
    by (auto simp: free_list_def page_ok_def intro!: flist_agree [where P = "{a}" and m = "mem s"])
  moreover have "kmem_ready ?s" using assms(1) by simp
  moreover have "page_ok ?s = page_ok s" by simp
  moreover have "distinct xs" "\<forall>b\<in>set xs. page_ok ?s b" using assms(2) by (auto simp: free_list_def)
  moreover have "agree_except {a} (mem s) (mem ?s)" by (simp add: agree_memset)
  ultimately show ?thesis unfolding free_list_def by blast
qed

lemma kfree_free_list:
  assumes "kmem_ready s" "free_list s xs" "page_ok s a" "a \<notin> set xs"
  shows "\<exists>s'. kfree a s = Ret () s' \<and> free_list s' (a # xs) \<and> kmem_ready s' \<and>
     agree_except {a} (mem s) (mem s') \<and> page_ok s' = page_ok s \<and> kend s' = kend s"
proof -
  let ?m = "store64 (memset (mem s) a 1 4096) a (freelist s)"
  let ?s = "s\<lparr>mem := ?m, freelist := a\<rparr>"
  have ag: "agree_except {a} (mem s) ?m"
    using agree_trans [OF agree_memset [of a "mem s" 1] agree_store64_0 [of a]] by simp
  have "flist ?m (freelist s) xs"
    using assms ag by (auto simp: free_list_def page_ok_def intro!: flist_agree [where P = "{a}" and m = "mem s"])
  then have "free_list ?s (a # xs)"
    using assms by (auto simp: free_list_def page_ok_def)
  moreover have "kmem_ready ?s" "page_ok ?s = page_ok s" "kend ?s = kend s" "mem ?s = ?m"
    using assms(1) by simp_all
  ultimately show ?thesis using kfree_run [OF assms(1,3)] ag by metis
qed

interpretation ka: page_allocator kalloc kfree kavail kalloc_inv page_ok mem
proof
  fix s :: "'z kmem_scheme"
  assume "kalloc_inv s" "kavail s \<noteq> {}"
  then obtain a xs where k: "kmem_ready s" "free_list s (a # xs)"
    by (auto simp: kalloc_inv_def kavail_def neq_Nil_conv) (metis list.set_cases)
  then have "kavail s = insert a (set xs)" "a \<notin> set xs" "a \<noteq> 0"
    using kavail_eq [of s "a # xs"] by (auto simp: free_list_def)
  moreover obtain s' where "kalloc s = Ret a s'" "free_list s' xs" "kmem_ready s'"
    "agree_except {a} (mem s) (mem s')" "page_ok s' = page_ok s"
    using kalloc_free_list [OF k] by blast
  ultimately show "\<exists>p s'. kalloc s = Ret p s' \<and> p \<in> kavail s \<and> p \<noteq> 0 \<and>
      kalloc_inv s' \<and> kavail s' = kavail s - {p} \<and> agree_except {p} (mem s) (mem s') \<and> page_ok s' = page_ok s"
    by (intro exI [of _ a] exI [of _ s']) (simp add: kalloc_inv_def kavail_eq exI [of _ xs])
next
  fix s :: "'z kmem_scheme"
  assume "kalloc_inv s" "kavail s = {}"
  then have "kmem_ready s" "free_list s []"
    by (auto simp: kalloc_inv_def kavail_def) (metis list.set_intros(1) neq_Nil_conv)
  then show "kalloc s = Ret 0 s" using kalloc_run [of s] by (simp add: free_list_def)
next
  fix s :: "'z kmem_scheme" and p
  assume "kalloc_inv s" "page_ok s p" "p \<notin> kavail s"
  then show "\<exists>s'. kfree p s = Ret () s' \<and> kalloc_inv s' \<and> kavail s' = insert p (kavail s) \<and>
      agree_except {p} (mem s) (mem s') \<and> page_ok s' = page_ok s"
    using kfree_free_list [of s _ p] by (fastforce simp: kalloc_inv_def kavail_eq)
next
  fix s :: "'z kmem_scheme" and p
  assume "kalloc_inv s" "p \<in> kavail s"
  then show "page_ok s p" by (auto simp: kavail_def free_list_def)
qed

section \<open>Initialisation\<close>

definition pages_from :: "u64 \<Rightarrow> nat \<Rightarrow> u64 list" where
  "pages_from p n = map (\<lambda>i. p + of_nat (4096 * i)) [0..<n]"

lemma pages_from_Suc: "pages_from p (Suc n) = p # pages_from (p + PGSIZE) n"
  by (simp add: pages_from_def upt_conv_Cons map_Suc_upt [symmetric] algebra_simps comp_def del: upt_Suc)

lemma unat_add_page: "unat p + 4096 < 2 ^ 64 \<Longrightarrow> unat (p + PGSIZE) = unat p + 4096"
  using unat_add_lt [of p 4096] by simp

lemma unat_PHYSTOP: "unat PHYSTOP = 2281701376"
  by (simp add: PHYSTOP_def KERNBASE_def)

lemma freerange_loop_spec:
  assumes "aligned p" "p \<noteq> 0" "kmem_ready s" "kend s \<le> p" "unat p + 4096 * n \<le> unat pa_end"
    "unat pa_end < unat p + 4096 * Suc n" "pa_end \<le> PHYSTOP" "free_list s xs"
    "\<forall>a\<in>set xs. a < p" "n < f"
  shows "\<exists>s'. freerange_loop f p pa_end s = Ret () s' \<and> free_list s' (rev (pages_from p n) @ xs) \<and>
    kmem_ready s'"
  using assms
proof (induction n arbitrary: p s xs f)
  case 0
  have "unat pa_end < 2 ^ 32" using "0.prems"(7) unat_PHYSTOP by (simp add: word_le_nat_alt)
  with "0.prems" have "unat (p + PGSIZE) = unat p + 4096" by (intro unat_add_page) simp
  with "0.prems" have "\<not> p + PGSIZE \<le> pa_end" by (simp add: word_le_nat_alt)
  with "0.prems" show ?case by (cases f) (auto simp: pages_from_def)
next
  case (Suc n)
  have small: "unat pa_end < 2 ^ 32" using Suc.prems(7) unat_PHYSTOP by (simp add: word_le_nat_alt)
  then have p1: "unat (p + PGSIZE) = unat p + 4096" using Suc.prems(5) by (intro unat_add_page) simp
  obtain f' where f: "f = Suc f'" "n < f'" using Suc.prems(10) by (cases f) auto
  have "p < PHYSTOP" using Suc.prems(5,7) by (simp add: word_le_nat_alt word_less_nat_alt)
  then have "page_ok s p" using Suc.prems by (simp add: page_ok_def)
  moreover have "p \<notin> set xs" using Suc.prems(9) by auto
  ultimately obtain s1 where s1: "kfree p s = Ret () s1" "free_list s1 (p # xs)" "kmem_ready s1"
    "kend s1 = kend s"
    using kfree_free_list [OF Suc.prems(3,8)] by blast
  have lt: "p < p + PGSIZE" using p1 by (simp add: word_less_nat_alt)
  have "\<exists>s'. freerange_loop f' (p + PGSIZE) pa_end s1 = Ret () s' \<and>
      free_list s' (rev (pages_from (p + PGSIZE) n) @ p # xs) \<and> kmem_ready s'"
  proof (rule Suc.IH)
    show "aligned (p + PGSIZE)" using Suc.prems(1) p1 by (simp add: aligned_unat)
    show "kend s1 \<le> p + PGSIZE" using Suc.prems(4) s1(4) lt by simp
    show "p + PGSIZE \<noteq> 0" using lt by auto
    show "\<forall>a\<in>set (p # xs). a < p + PGSIZE" using Suc.prems(9) lt by auto
  qed (use Suc.prems p1 f s1 in auto)
  moreover have "p + PGSIZE \<le> pa_end" using Suc.prems(5) p1 by (simp add: word_le_nat_alt)
  ultimately show ?case using f s1(1) by (simp add: pages_from_Suc)
qed

lemma and_not_4095: "x AND - PGSIZE = push_bit 12 (drop_bit 12 (x :: u64))"
proof -
  have m: "- PGSIZE = NOT (mask 12)" by (simp add: mask_eq_exp_minus_1)
  show ?thesis unfolding m by (rule bit_word_eqI) (auto simp: bit_simps)
qed

lemma unat_round: "unat (x div PGSIZE * PGSIZE) = unat x div 4096 * 4096"
proof -
  have "unat x < 2 ^ LENGTH(64)" by (rule unsigned_less)
  moreover have "unat x div 4096 * 4096 \<le> unat x" by simp
  ultimately have "unat (x div PGSIZE) * unat PGSIZE < 2 ^ LENGTH(64)"
    unfolding unat_div by simp
  then have "unat (x div PGSIZE * PGSIZE) = unat (x div PGSIZE) * unat PGSIZE"
    by (rule unat_mult_lem [THEN iffD1])
  then show ?thesis by (simp add: unat_div)
qed

lemma PGROUNDDOWN_unat: "unat (PGROUNDDOWN a) = unat a div 4096 * 4096"
  by (simp add: PGROUNDDOWN_def and_not_4095 push_bit_eq_mult drop_bit_eq_div unat_round)

lemma PGROUNDUP_unat:
  assumes "unat sz + 4095 < 2 ^ 64"
  shows "unat (PGROUNDUP sz) = (unat sz + 4095) div 4096 * 4096"
proof -
  have "sz + PGSIZE - 1 = sz + of_nat 4095" by simp
  then have u: "unat (sz + PGSIZE - 1) = unat sz + 4095"
    using unat_add_lt [of sz 4095] assms by (simp only:)
  have "PGROUNDUP sz = (sz + PGSIZE - 1) div PGSIZE * PGSIZE"
    by (simp add: PGROUNDUP_def and_not_4095 push_bit_eq_mult drop_bit_eq_div)
  then show ?thesis by (simp only: unat_round u)
qed

lemma pages_from_set:
  assumes "aligned p" "unat p + 4096 * n \<le> e" "e < unat p + 4096 * Suc n" "e < 2 ^ 32"
    "e mod 4096 = 0"
  shows "set (pages_from p n) = {a. aligned a \<and> p \<le> a \<and> unat a < e}"
proof (intro set_eqI iffI)
  fix a assume "a \<in> set (pages_from p n)"
  then obtain i where i: "i < n" "a = p + of_nat (4096 * i)" by (auto simp: pages_from_def)
  then have "unat a = unat p + 4096 * i"
    using assms(2,4) unat_add_lt [of p "4096 * i"] by simp
  with i assms show "a \<in> {a. aligned a \<and> p \<le> a \<and> unat a < e}"
    by (auto simp: aligned_unat word_le_nat_alt)
next
  fix a assume "a \<in> {a. aligned a \<and> p \<le> a \<and> unat a < e}"
  then have a: "unat a mod 4096 = 0" "unat p \<le> unat a" "unat a < e"
    by (auto simp: aligned_unat word_le_nat_alt)
  obtain i where i: "unat a = unat p + 4096 * i"
  proof -
    have "(unat a - unat p) mod 4096 = 0"
      using a(1,2) assms(1) by (simp add: aligned_unat mod_eq_0_iff_dvd dvd_diff_nat)
    then show thesis using a(2) that [of "(unat a - unat p) div 4096"] by fastforce
  qed
  have "i < n"
  proof (rule ccontr)
    assume "\<not> i < n"
    then have "i = n" using i a(3) assms(3) by auto
    moreover obtain q k where "unat p = 4096 * q" "e = 4096 * k"
      using assms(1,5) by (auto simp: aligned_unat mod_eq_0_iff_dvd dvd_def)
    then have "q + n \<le> k" "k < q + Suc n" using assms(2,3) by simp_all
    with \<open>unat p = 4096 * q\<close> \<open>e = 4096 * k\<close> have "e = unat p + 4096 * n" by simp
    ultimately show False using i a(3) by simp
  qed
  moreover have "a = p + of_nat (4096 * i)"
  proof -
    have "(of_nat (unat a) :: u64) = of_nat (unat p) + of_nat (4096 * i)" using i by simp
    then show ?thesis by (simp only: of_nat_unat ucast_id)
  qed
  ultimately show "a \<in> set (pages_from p n)" by (auto simp: pages_from_def)
qed

lemma kinit_spec:
  assumes "cpu_ok s" "freelist s = 0" "kend s \<noteq> 0" "kend s \<le> PHYSTOP"
  shows "\<exists>s'. kinit s = Ret () s' \<and> kalloc_inv s' \<and>
           kavail s' = {a. aligned a \<and> kend s \<le> a \<and> a < PHYSTOP}"
proof -
  let ?p = "PGROUNDUP (kend s)" and ?s = "initlock KmemLock ''kmem'' s"
  have small: "unat (kend s) \<le> 2281701376" using assms(4) by (simp add: word_le_nat_alt unat_PHYSTOP)
  then have p: "unat ?p = (unat (kend s) + 4095) div 4096 * 4096" by (intro PGROUNDUP_unat) simp
  then have al: "aligned ?p" by (simp add: aligned_unat)
  have k0: "unat (kend s) > 0" using assms(3) by (simp add: unat_gt_0)
  have le: "unat (kend s) \<le> unat ?p" "unat ?p \<le> 2281701376" "unat ?p < unat (kend s) + 4096"
  proof -
    have "4096 * ((unat (kend s) + 4095) div 4096) \<le> unat (kend s) + 4095" by simp
    moreover have "(unat (kend s) + 4095) div 4096 \<le> (2281701376 + 4095) div 4096"
      using small by (intro div_le_mono) simp
    ultimately show "unat (kend s) \<le> unat ?p" "unat ?p \<le> 2281701376" "unat ?p < unat (kend s) + 4096"
      unfolding p by simp_all
  qed
  define n where "n = (2281701376 - unat ?p) div 4096"
  have n: "unat ?p + 4096 * n \<le> 2281701376" "2281701376 < unat ?p + 4096 * Suc n"
    using le(2) dividend_less_times_div [of 4096 "2281701376 - unat ?p"]
      times_div_less_eq_dividend [of 4096 "2281701376 - unat ?p"]
    by (simp_all add: n_def [symmetric])
  have r: "kmem_ready ?s" "free_list ?s []" "kend ?s = kend s"
    using assms(1,2) by (auto simp: kmem_ready_def initlock_def cpu_ok_def lk_free_def free_list_def)
  have "\<exists>s'. freerange_loop (Suc (unat PHYSTOP div 4096)) ?p PHYSTOP ?s = Ret () s' \<and>
      free_list s' (rev (pages_from ?p n) @ []) \<and> kmem_ready s'"
  proof (rule freerange_loop_spec)
    show "?p \<noteq> 0" using le(1) k0 by auto
    show "kend ?s \<le> ?p" using le(1) r(3) by (simp add: word_le_nat_alt)
    show "n < Suc (unat PHYSTOP div 4096)" unfolding n_def unat_PHYSTOP by linarith
  qed (use al r n unat_PHYSTOP in auto)
  then obtain s' where s': "kinit s = Ret () s'" "free_list s' (rev (pages_from ?p n))" "kmem_ready s'"
    by (auto simp: kinit_def freerange_def)
  have "set (pages_from ?p n) = {a. aligned a \<and> ?p \<le> a \<and> unat a < 2281701376}"
    using al n by (intro pages_from_set) auto
  also have "\<dots> = {a. aligned a \<and> kend s \<le> a \<and> a < PHYSTOP}"
  proof (rule Collect_cong)
    fix a
    have "?p \<le> a" if al_a: "aligned a" and "kend s \<le> a"
    proof -
      obtain q k where q: "unat ?p = 4096 * q" "unat a = 4096 * k"
        using al al_a by (auto simp: aligned_unat mod_eq_0_iff_dvd dvd_def)
      have "unat (kend s) \<le> unat a" using that(2) by (simp add: word_le_nat_alt)
      with le(3) q have "4096 * q < 4096 * k + 4096" by linarith
      then show ?thesis using q by (simp add: word_le_nat_alt)
    qed
    moreover have "kend s \<le> ?p" using le(1) by (simp add: word_le_nat_alt)
    ultimately show "(aligned a \<and> ?p \<le> a \<and> unat a < 2281701376) = (aligned a \<and> kend s \<le> a \<and> a < PHYSTOP)"
      using unat_PHYSTOP by (auto simp: word_less_nat_alt)
  qed
  finally show ?thesis using s' by (auto simp: kalloc_inv_def kavail_eq)
qed

definition boot_kmem :: kmem where
  "boot_kmem = \<lparr>hart = 0,
     cpus = (\<lambda>_. \<lparr>cproc = None, ccontext = \<lparr>ctx_ra = 0, ctx_sp = 0, ctx_s = (\<lambda>_. 0)\<rparr>,
                   noff = 1, intena = False\<rparr>),
     sie = (\<lambda>_. False), locks = (\<lambda>_. \<lparr>locked = False, lname = [], lcpu = None\<rparr>),
     mem = (\<lambda>_. 0), freelist = 0, kend = 0x80021000\<rparr>"

lemma boot_kmem_ok: "cpu_ok boot_kmem" "freelist boot_kmem = 0" "kend boot_kmem = 0x80021000"
  "kend boot_kmem \<le> PHYSTOP"
  by (simp_all add: boot_kmem_def cpu_ok_def PHYSTOP_def KERNBASE_def)

lemma boot_kmem_pages:
  "\<exists>s. kinit boot_kmem = Ret () s \<and> kalloc_inv s \<and> 0x80021000 \<in> kavail s \<and> 0x80022000 \<in> kavail s"
  using kinit_spec [of boot_kmem] boot_kmem_ok
  by (auto simp: PHYSTOP_def KERNBASE_def aligned_def)

text \<open>
  C18: Booting the allocator: \<open>kinit\<close> returns and leaves every aligned page between the end of the
  kernel image and \<open>PHYSTOP\<close>, and nothing else, on the free list, each once.
\<close>

theorem kinit_frees_all:
  assumes "cpu_ok s" "freelist s = 0" "kend s \<noteq> 0" "kend s \<le> PHYSTOP"
  shows "\<exists>s'. kinit s = Ret () s' \<and> kalloc_inv s' \<and>
           kavail s' = {a. aligned a \<and> kend s \<le> a \<and> a < PHYSTOP}"
  using assms by (rule kinit_spec)

theorem kinit_frees_all_witness:
  "\<exists>s'. kinit boot_kmem = Ret () s' \<and> kalloc_inv s' \<and> 0x80021000 \<in> kavail s'"
  using kinit_frees_all [of boot_kmem] boot_kmem_ok
  by (auto simp: PHYSTOP_def KERNBASE_def aligned_def)

text \<open>
  A page that \<open>kalloc\<close> hands out is no longer free and is not handed out again: two
  successive successful allocations return different pages.
\<close>

theorem kalloc_distinct:
  assumes "kalloc_inv s" "kalloc s = Ret p s'" "p \<noteq> 0" "kalloc s' = Ret q s''" "q \<noteq> 0"
  shows "p \<noteq> q"
  using assms by (rule ka.alloc_twice)

theorem kalloc_distinct_witness:
  "\<exists>s p s' q s''. kinit boot_kmem = Ret () s \<and> kalloc s = Ret p s' \<and> kalloc s' = Ret q s'' \<and> p \<noteq> q"
proof -
  obtain s where s: "kinit boot_kmem = Ret () s" "kalloc_inv s" "0x80021000 \<in> kavail s" "0x80022000 \<in> kavail s"
    using boot_kmem_pages by blast
  then obtain p s' where p: "kalloc s = Ret p s'" "p \<noteq> 0" "kalloc_inv s'" "kavail s' = kavail s - {p}"
    using ka.alloc_some [of s] by blast
  have "kavail s' \<noteq> {}" using s(3,4) p(4) by (cases "p = 0x80021000") auto
  then obtain q s'' where q: "kalloc s' = Ret q s''" "q \<noteq> 0" using ka.alloc_some [OF p(3)] by blast
  have "p \<noteq> q" using s(2) p(1,2) q by (rule kalloc_distinct)
  with s p q show ?thesis by blast
qed

text \<open>
  C19: While a page is free, \<open>kalloc\<close> returns one, and \<open>kfree\<close> of that page succeeds and restores
  the set of free pages.
\<close>

theorem kalloc_kfree_roundtrip:
  assumes "kalloc_inv s" "kavail s \<noteq> {}"
  shows "\<exists>p s' s''. kalloc s = Ret p s' \<and> kfree p s' = Ret () s'' \<and> kavail s'' = kavail s \<and> kalloc_inv s''"
  using assms by (rule ka.alloc_then_free)

theorem kalloc_kfree_roundtrip_witness:
  "\<exists>s p s' s''. kinit boot_kmem = Ret () s \<and> kalloc s = Ret p s' \<and> kfree p s' = Ret () s'' \<and>
     kavail s'' = kavail s"
proof -
  obtain s where "kinit boot_kmem = Ret () s" "kalloc_inv s" "kavail s \<noteq> {}"
    using boot_kmem_pages by blast
  then show ?thesis using kalloc_kfree_roundtrip [of s] by blast
qed

end
