(* ===== verification/Proc.thy ===== *)
theory Proc
  imports Kalloc
begin

text \<open>
  The process table of \<^verbatim>\<open>kernel/proc.h\<close> and the part of \<^verbatim>\<open>kernel/proc.c\<close> the rest of the
  kernel calls: the current process, pid allocation, \<open>sched\<close>, \<open>sleep\<close>, \<open>wakeup\<close>, \<open>yield\<close>,
  \<open>kkill\<close>, one round of the scheduler, and the sleep locks of \<^verbatim>\<open>kernel/sleeplock.c\<close>. Creating
  and destroying processes needs virtual memory and files; it is in the theory \<open>Procs\<close>.
\<close>

section \<open>State\<close>

datatype procstate = UNUSED | USED | SLEEPING | RUNNABLE | RUNNING | ZOMBIE

text \<open>A channel is an address; the constructors name the objects the kernel sleeps on.\<close>

datatype chan =
    ChProc nat | ChSleep slid | ChLog | ChPipeR u64 | ChPipeW u64 | ChTicks | ChDiskFree
  | ChBuf nat | ChCons | ChTx

record proc =
  state :: procstate
  chan :: "chan option"
  killed :: bool
  xstate :: int
  pid :: int
  parent :: "nat option"
  kstack :: u64
  sz :: u64
  pagetable :: u64
  trapframe :: u64
  pcontext :: kcontext
  ofile :: "nat \<Rightarrow> nat option"
  cwd :: "nat option"
  pname :: "u8 list"

record sleeplock =
  sl_locked :: bool
  sl_name :: string
  sl_pid :: int

text \<open>
  The symbols \<open>trampoline\<close>, \<open>uservec\<close>, \<open>userret\<close>, \<open>etext\<close>, \<open>forkret\<close>, \<open>usertrap\<close> and
  \<open>kernelvec\<close> are addresses the linker chooses.
\<close>

record kproc = kmem +
  procs :: "nat \<Rightarrow> proc"
  nextpid :: int
  initproc :: "nat option"
  slocks :: "slid \<Rightarrow> sleeplock"
  kernel_pagetable :: u64
  satp :: "nat \<Rightarrow> u64"
  ticks :: u32
  sym_trampoline :: u64
  sym_uservec :: u64
  sym_userret :: u64
  sym_etext :: u64
  sym_forkret :: u64
  sym_usertrap :: u64
  sym_kernelvec :: u64

definition NPROC :: nat where "NPROC = 64"
definition NOFILE :: nat where "NOFILE = 16"

definition MAXVA :: u64 where "MAXVA = push_bit 38 1"
definition TRAMPOLINE :: u64 where "TRAMPOLINE = MAXVA - PGSIZE"
definition TRAPFRAME :: u64 where "TRAPFRAME = TRAMPOLINE - PGSIZE"

definition KSTACK :: "nat \<Rightarrow> u64" where
  "KSTACK p = TRAMPOLINE - (of_nat p + 1) * 2 * PGSIZE"

definition upd_proc :: "nat \<Rightarrow> (proc \<Rightarrow> proc) \<Rightarrow> 'z kproc_scheme \<Rightarrow> 'z kproc_scheme" where
  "upd_proc i f s = s\<lparr>procs := (procs s)(i := f (procs s i))\<rparr>"

section \<open>The current process\<close>

definition myproc :: "'z kproc_scheme \<Rightarrow> (nat option, 'z kproc_scheme) kres" where
  "myproc s =
     (let s = push_off s; c = mycpu s; p = cproc (cpus s c)
      in kbind (pop_off s) (\<lambda>_ s. Ret p s))"

text \<open>
  Code that dereferences \<open>myproc()\<close> with no process running loads from address 0, which is not
  mapped in the kernel: \<open>kerneltrap\<close> panics.
\<close>

definition curproc :: "'z kproc_scheme \<Rightarrow> (nat, 'z kproc_scheme) kres" where
  "curproc s = kbind (myproc s) (\<lambda>p s.
     case p of None \<Rightarrow> Panic ''kerneltrap'' | Some i \<Rightarrow> Ret i s)"

definition allocpid :: "'z kproc_scheme \<Rightarrow> (int, 'z kproc_scheme) kres" where
  "allocpid s = with_lock PidLock
     (\<lambda>s. let pid = nextpid s in Ret pid (s\<lparr>nextpid := nextpid s + 1\<rparr>)) s"

definition procinit :: "'z kproc_scheme \<Rightarrow> (unit, 'z kproc_scheme) kres" where
  "procinit s =
     (let s = initlock PidLock ''nextpid'' s; s = initlock WaitLock ''wait_lock'' s
      in kfold (\<lambda>i s.
           let s = initlock (ProcLock i) ''proc'' s
           in Ret () (upd_proc i (\<lambda>p. p\<lparr>state := UNUSED, kstack := KSTACK i\<rparr>) s))
         [0..<NPROC] s)"

section \<open>Scheduling\<close>

text \<open>
  \<open>sched\<close> checks its preconditions and switches to the hart's scheduler. The switch
  (\<open>swtch\<close>, assembly) saves the callee-saved registers \<open>regs\<close> in the process and control
  leaves the process; \<open>sched_return\<close> is what remains of \<open>sched\<close> when it is switched back to.
\<close>

definition sched :: "kcontext \<Rightarrow> 'z kproc_scheme \<Rightarrow> (unit, 'z kproc_scheme) kres" where
  "sched regs s = kbind (curproc s) (\<lambda>p s.
     if \<not> holding (ProcLock p) s then Panic ''sched p->lock''
     else if noff (cpus s (mycpu s)) \<noteq> 1 then Panic ''sched locks''
     else if state (procs s p) = RUNNING then Panic ''sched RUNNING''
     else if intr_get s then Panic ''sched interruptible''
     else Wait (upd_proc p (\<lambda>p. p\<lparr>pcontext := regs\<rparr>) s))"

definition sched_return :: "bool \<Rightarrow> 'z kproc_scheme \<Rightarrow> 'z kproc_scheme" where
  "sched_return ie s = upd_cpu (mycpu s) (\<lambda>c. c\<lparr>intena := ie\<rparr>) s"

definition yield :: "kcontext \<Rightarrow> 'z kproc_scheme \<Rightarrow> (unit, 'z kproc_scheme) kres" where
  "yield regs s = kbind (curproc s) (\<lambda>p s.
     kbind (acquire (ProcLock p) s) (\<lambda>_ s.
     kbind (sched regs (upd_proc p (\<lambda>p. p\<lparr>state := RUNNABLE\<rparr>) s)) (\<lambda>_ s.
     release (ProcLock p) s)))"

text \<open>
  One round of the loop of \<open>scheduler\<close> over the table finds the first runnable process at or
  after slot \<open>i\<close> and switches to it; \<open>scheduler_back\<close> is the code after the switch.
\<close>

definition scheduler_try :: "nat \<Rightarrow> 'z kproc_scheme \<Rightarrow> (nat option, 'z kproc_scheme) kres" where
  "scheduler_try i s =
     kbind (acquire (ProcLock i) s) (\<lambda>_ s.
       if state (procs s i) = RUNNABLE
       then let s = upd_proc i (\<lambda>p. p\<lparr>state := RUNNING\<rparr>) s
            in Ret (Some i) (upd_cpu (mycpu s) (\<lambda>c. c\<lparr>cproc := Some i\<rparr>) s)
       else kbind (release (ProcLock i) s) (\<lambda>_ s. Ret None s))"

definition scheduler_round :: "nat \<Rightarrow> 'z kproc_scheme \<Rightarrow> (nat option, 'z kproc_scheme) kres" where
  "scheduler_round i s = ksearch scheduler_try [i..<NPROC] s"

definition scheduler_back :: "nat \<Rightarrow> 'z kproc_scheme \<Rightarrow> (unit, 'z kproc_scheme) kres" where
  "scheduler_back i s =
     release (ProcLock i) (upd_cpu (mycpu s) (\<lambda>c. c\<lparr>cproc := None\<rparr>) s)"

definition scheduler_start :: "'z kproc_scheme \<Rightarrow> (nat option, 'z kproc_scheme) kres" where
  "scheduler_start s =
     (let s = upd_cpu (mycpu s) (\<lambda>c. c\<lparr>cproc := None\<rparr>) s
      in scheduler_round 0 (intr_off (intr_on s)))"

section \<open>sleep and wakeup\<close>

definition wakeup :: "chan \<Rightarrow> 'z kproc_scheme \<Rightarrow> (unit, 'z kproc_scheme) kres" where
  "wakeup ch s = kfold (\<lambda>i s.
     kbind (myproc s) (\<lambda>me s.
       if Some i \<noteq> me
       then with_lock (ProcLock i) (\<lambda>s.
              Ret () (if state (procs s i) = SLEEPING \<and> chan (procs s i) = Some ch
                      then upd_proc i (\<lambda>p. p\<lparr>state := RUNNABLE\<rparr>) s else s)) s
       else Ret () s)) [0..<NPROC] s"

text \<open>
  \<open>sleep\<close> up to the switch, and \<open>sleep_return\<close>, the rest of it after a wakeup. A loop of the
  form \<open>while(cond) sleep(chan, lk)\<close> therefore ends in \<open>Wait\<close> in the state in which the
  process is asleep.
\<close>

definition sleep :: "kcontext \<Rightarrow> chan \<Rightarrow> lockid \<Rightarrow> 'z kproc_scheme \<Rightarrow> (unit, 'z kproc_scheme) kres" where
  "sleep regs ch lk s = kbind (curproc s) (\<lambda>p s.
     kbind (acquire (ProcLock p) s) (\<lambda>_ s.
     kbind (release lk s) (\<lambda>_ s.
     sched regs (upd_proc p (\<lambda>p. p\<lparr>chan := Some ch, state := SLEEPING\<rparr>) s))))"

definition sleep_return :: "nat \<Rightarrow> lockid \<Rightarrow> 'z kproc_scheme \<Rightarrow> (unit, 'z kproc_scheme) kres" where
  "sleep_return p lk s =
     kbind (release (ProcLock p) (upd_proc p (\<lambda>p. p\<lparr>chan := None\<rparr>) s)) (\<lambda>_ s. acquire lk s)"

section \<open>Killing\<close>

definition kkill :: "int \<Rightarrow> 'z kproc_scheme \<Rightarrow> (int, 'z kproc_scheme) kres" where
  "kkill pd s = kbind (ksearch (\<lambda>i s.
       with_lock (ProcLock i) (\<lambda>s.
         if pid (procs s i) = pd
         then let s = upd_proc i (\<lambda>p. p\<lparr>killed := True\<rparr>) s;
                  s = (if state (procs s i) = SLEEPING
                       then upd_proc i (\<lambda>p. p\<lparr>state := RUNNABLE\<rparr>) s else s)
              in Ret (Some 0) s
         else Ret None s) s) [0..<NPROC] s)
     (\<lambda>r s. Ret (case r of Some v \<Rightarrow> v | None \<Rightarrow> - 1) s)"

definition setkilled :: "nat \<Rightarrow> 'z kproc_scheme \<Rightarrow> (unit, 'z kproc_scheme) kres" where
  "setkilled p s = with_lock (ProcLock p) (\<lambda>s. Ret () (upd_proc p (\<lambda>p. p\<lparr>killed := True\<rparr>) s)) s"

definition is_killed :: "nat \<Rightarrow> 'z kproc_scheme \<Rightarrow> (bool, 'z kproc_scheme) kres" where
  "is_killed p s = with_lock (ProcLock p) (\<lambda>s. Ret (killed (procs s p)) s) s"

section \<open>Sleep locks\<close>

text \<open>Registers that \<open>swtch\<close> saves do not matter to the kernel's data; a switch records zeros.\<close>

definition ctx0 :: kcontext where
  "ctx0 = \<lparr>ctx_ra = 0, ctx_sp = 0, ctx_s = (\<lambda>_. 0)\<rparr>"

definition upd_slock :: "slid \<Rightarrow> (sleeplock \<Rightarrow> sleeplock) \<Rightarrow> 'z kproc_scheme \<Rightarrow> 'z kproc_scheme" where
  "upd_slock l f s = s\<lparr>slocks := (slocks s)(l := f (slocks s l))\<rparr>"

definition initsleeplock :: "slid \<Rightarrow> string \<Rightarrow> 'z kproc_scheme \<Rightarrow> 'z kproc_scheme" where
  "initsleeplock l nm s =
     upd_slock l (\<lambda>_. \<lparr>sl_locked = False, sl_name = nm, sl_pid = 0\<rparr>)
       (initlock (SleepLk l) ''sleep lock'' s)"

definition acquiresleep :: "slid \<Rightarrow> 'z kproc_scheme \<Rightarrow> (unit, 'z kproc_scheme) kres" where
  "acquiresleep l s =
     kbind (acquire (SleepLk l) s) (\<lambda>_ s.
       if sl_locked (slocks s l) then sleep ctx0 (ChSleep l) (SleepLk l) s
       else kbind (curproc (upd_slock l (\<lambda>k. k\<lparr>sl_locked := True\<rparr>) s)) (\<lambda>p s.
         release (SleepLk l) (upd_slock l (\<lambda>k. k\<lparr>sl_pid := pid (procs s p)\<rparr>) s)))"

definition releasesleep :: "slid \<Rightarrow> 'z kproc_scheme \<Rightarrow> (unit, 'z kproc_scheme) kres" where
  "releasesleep l s =
     kbind (acquire (SleepLk l) s) (\<lambda>_ s.
     kbind (wakeup (ChSleep l) (upd_slock l (\<lambda>k. k\<lparr>sl_locked := False, sl_pid := 0\<rparr>) s)) (\<lambda>_ s.
     release (SleepLk l) s))"

definition holdingsleep :: "slid \<Rightarrow> 'z kproc_scheme \<Rightarrow> (bool, 'z kproc_scheme) kres" where
  "holdingsleep l s =
     kbind (acquire (SleepLk l) s) (\<lambda>_ s.
     kbind (if sl_locked (slocks s l)
            then kbind (curproc s) (\<lambda>p s. Ret (sl_pid (slocks s l) = pid (procs s p)) s)
            else Ret False s) (\<lambda>r s.
     kbind (release (SleepLk l) s) (\<lambda>_ s. Ret r s)))"

section \<open>Runs without contention\<close>

text \<open>
  \<open>proc_ready\<close>: kernel code runs with interrupts and \<open>noff\<close> consistent and no process lock
  taken. \<open>running\<close> names the process that runs on this hart.
\<close>

definition running :: "'z kproc_scheme \<Rightarrow> nat option" where
  "running s = cproc (cpus s (hart s))"

definition proc_ready :: "'z kproc_scheme \<Rightarrow> bool" where
  "proc_ready s \<longleftrightarrow> cpu_ok s \<and> (\<forall>i. lk_free (ProcLock i) s)"

lemma pop_push_off:
  assumes "cpu_ok s"
  shows "pop_off (push_off s) = Ret () s"
  using assms
  by (auto simp: spin_defs cpu_ok_def Let_def fun_upd_def intro!: kbase.equality)

lemma cproc_push_off [simp]: "cproc (cpus (push_off s) h) = cproc (cpus s h)"
  by (simp add: spin_defs Let_def)

lemma mycpu_push_off [simp]: "mycpu (push_off s) = hart s"
  by (simp add: spin_defs Let_def)

lemma myproc_run: "cpu_ok s \<Longrightarrow> myproc s = Ret (running s) s"
  by (simp add: myproc_def pop_push_off running_def Let_def)

lemma curproc_run: "cpu_ok s \<Longrightarrow> running s = Some p \<Longrightarrow> curproc s = Ret p s"
  by (simp add: curproc_def myproc_run)

lemma cpu_ok_proc_upd [simp]:
  "cpu_ok (s\<lparr>procs := f\<rparr>) = cpu_ok (s :: 'z kproc_scheme)"
  "lk_free lk (s\<lparr>procs := f\<rparr>) = lk_free lk s"
  "running (s\<lparr>procs := f\<rparr>) = running s"
  "proc_ready (s\<lparr>procs := f\<rparr>) = proc_ready s"
  "cpu_ok (s\<lparr>slocks := g\<rparr>) = cpu_ok s"
  "lk_free lk (s\<lparr>slocks := g\<rparr>) = lk_free lk s"
  "running (s\<lparr>slocks := g\<rparr>) = running s"
  "proc_ready (s\<lparr>slocks := g\<rparr>) = proc_ready s"
  by (simp_all add: cpu_ok_def lk_free_def running_def proc_ready_def)

lemma cproc_taken [simp]: "cproc (cpus (taken lk s) h) = cproc (cpus s h)"
  by (simp add: taken_def)

lemma running_taken [simp]: "running (taken lk s) = running s"
  by (simp add: running_def taken_def)

lemma proc_taken [simp]:
  "procs (taken lk s) = procs s" "slocks (taken lk s) = slocks s" "nextpid (taken lk s) = nextpid s"
  "ticks (taken lk s) = ticks s"
  by (simp_all add: taken_def)

text \<open>A critical section whose body changes the process table only.\<close>

lemma with_lock_procs:
  assumes "cpu_ok s" "lk_free lk s" "body (taken lk s) = Ret a ((taken lk s)\<lparr>procs := f\<rparr>)"
  shows "with_lock lk body s = Ret a (s\<lparr>procs := f\<rparr>)"
  using with_lock_run [where body = body, OF assms(1,2,3)] by (simp add: same_base_def) (simp add: taken_def)

lemma procs_id: "(s :: 'z kproc_scheme)\<lparr>procs := procs s\<rparr> = s"
  by simp

definition woken :: "chan \<Rightarrow> nat option \<Rightarrow> nat \<Rightarrow> proc \<Rightarrow> proc" where
  "woken ch me i p =
     (if Some i \<noteq> me \<and> state p = SLEEPING \<and> chan p = Some ch then p\<lparr>state := RUNNABLE\<rparr> else p)"

lemma wakeup_body:
  assumes "proc_ready s"
  shows "kbind (myproc s) (\<lambda>me s.
       if Some i \<noteq> me
       then with_lock (ProcLock i) (\<lambda>s.
              Ret () (if state (procs s i) = SLEEPING \<and> chan (procs s i) = Some ch
                      then upd_proc i (\<lambda>p. p\<lparr>state := RUNNABLE\<rparr>) s else s)) s
       else Ret () s)
     = Ret () (s\<lparr>procs := (procs s)(i := woken ch (running s) i (procs s i))\<rparr>)"
proof -
  have "with_lock (ProcLock i) (\<lambda>s.
              Ret () (if state (procs s i) = SLEEPING \<and> chan (procs s i) = Some ch
                      then upd_proc i (\<lambda>p. p\<lparr>state := RUNNABLE\<rparr>) s else s)) s
       = Ret () (s\<lparr>procs := (procs s)(i := woken ch None i (procs s i))\<rparr>)"
    by (rule with_lock_procs)
       (use assms in \<open>auto simp: proc_ready_def woken_def upd_proc_def\<close>)
  with assms show ?thesis
    by (auto simp: proc_ready_def myproc_run woken_def)
qed

lemma wakeup_loop:
  assumes "proc_ready s" "distinct is"
  shows "kfold (\<lambda>i s.
     kbind (myproc s) (\<lambda>me s.
       if Some i \<noteq> me
       then with_lock (ProcLock i) (\<lambda>s.
              Ret () (if state (procs s i) = SLEEPING \<and> chan (procs s i) = Some ch
                      then upd_proc i (\<lambda>p. p\<lparr>state := RUNNABLE\<rparr>) s else s)) s
       else Ret () s)) is s
     = Ret () (s\<lparr>procs := (\<lambda>i. if i \<in> set is then woken ch (running s) i (procs s i) else procs s i)\<rparr>)"
  using assms
proof (induction "is" arbitrary: s)
  case (Cons i "is")
  then show ?case
    by (auto simp: wakeup_body simp del: kbind.simps intro!: arg_cong [where f = "\<lambda>f. s\<lparr>procs := f\<rparr>"])
       (auto simp: fun_eq_iff intro!: arg_cong [where f = "\<lambda>f. s\<lparr>procs := f\<rparr>"])
qed simp

lemma wakeup_run:
  assumes "proc_ready s"
  shows "wakeup ch s =
    Ret () (s\<lparr>procs := (\<lambda>i. if i < NPROC then woken ch (running s) i (procs s i) else procs s i)\<rparr>)"
  using wakeup_loop [OF assms, of "[0..<NPROC]" ch] by (simp add: wakeup_def)

section \<open>Sleep locks without contention\<close>

lemma proc_ready_taken [simp]:
  "proc_ready s \<Longrightarrow> (\<forall>i. lk \<noteq> ProcLock i) \<Longrightarrow> proc_ready (taken lk s)"
  by (auto simp: proc_ready_def)

lemma with_lock_upd:
  assumes "cpu_ok s" "lk_free lk s"
    "body (taken lk s) = Ret a ((taken lk s)\<lparr>procs := f, slocks := g\<rparr>)"
  shows "with_lock lk body s = Ret a (s\<lparr>procs := f, slocks := g\<rparr>)"
  using with_lock_run [where body = body, OF assms(1,2,3)] by (simp add: same_base_def) (simp add: taken_def)

lemma release_upd:
  assumes "cpu_ok s" "lk_free lk s"
  shows "release lk ((taken lk s)\<lparr>procs := f, slocks := g\<rparr>) = Ret () (s\<lparr>procs := f, slocks := g\<rparr>)"
  using release_taken [OF assms, of "(taken lk s)\<lparr>procs := f, slocks := g\<rparr>"]
  by (simp add: same_base_def) (simp add: taken_def)

lemma release_slocks:
  assumes "cpu_ok s" "lk_free lk s"
  shows "release lk ((taken lk s)\<lparr>slocks := g\<rparr>) = Ret () ((s :: 'z kproc_scheme)\<lparr>slocks := g\<rparr>)"
  using release_taken [OF assms, of "(taken lk s)\<lparr>slocks := g\<rparr>"]
  by (simp add: same_base_def) (simp add: taken_def)

lemma release_same:
  assumes "cpu_ok s" "lk_free lk s"
  shows "release lk (taken lk s) = Ret () s"
  using release_taken [OF assms, of "taken lk s"]
  by (simp add: same_base_def)

definition sl_held :: "slid \<Rightarrow> 'z kproc_scheme \<Rightarrow> bool" where
  "sl_held l s \<longleftrightarrow> sl_locked (slocks s l) \<and>
     (case running s of Some p \<Rightarrow> sl_pid (slocks s l) = pid (procs s p) | None \<Rightarrow> False)"

lemma acquiresleep_run:
  assumes "proc_ready s" "lk_free (SleepLk l) s" "\<not> sl_locked (slocks s l)" "running s = Some p"
  shows "acquiresleep l s =
    Ret () (s\<lparr>slocks := (slocks s)(l := (slocks s l)\<lparr>sl_locked := True, sl_pid := pid (procs s p)\<rparr>)\<rparr>)"
proof -
  let ?s = "(taken (SleepLk l) s)\<lparr>slocks := (slocks s)(l := (slocks s l)\<lparr>sl_locked := True\<rparr>)\<rparr>"
  have c: "cpu_ok s" using assms by (simp add: proc_ready_def)
  have "curproc ?s = Ret p ?s" by (rule curproc_run) (use assms c in simp_all)
  then show ?thesis
    using assms c release_slocks [OF c assms(2)]
    by (simp add: acquiresleep_def acquire_free upd_slock_def)
qed

lemma releasesleep_run:
  assumes "proc_ready s" "lk_free (SleepLk l) s"
  shows "releasesleep l s =
    Ret () (s\<lparr>procs := (\<lambda>i. if i < NPROC then woken (ChSleep l) (running s) i (procs s i) else procs s i),
              slocks := (slocks s)(l := (slocks s l)\<lparr>sl_locked := False, sl_pid := 0\<rparr>)\<rparr>)"
proof -
  have c: "cpu_ok s" using assms by (simp add: proc_ready_def)
  have comm: "\<And>(t :: 'z kproc_scheme) f g. t\<lparr>slocks := g, procs := f\<rparr> = t\<lparr>procs := f, slocks := g\<rparr>"
    by simp
  show ?thesis
    using assms c release_upd [OF c assms(2)]
    by (simp add: releasesleep_def acquire_free upd_slock_def wakeup_run comm cong: if_cong)
qed

lemma holdingsleep_run:
  assumes "proc_ready s" "lk_free (SleepLk l) s" "running s = Some p"
  shows "holdingsleep l s = Ret (sl_held l s) s"
proof -
  have c: "cpu_ok s" using assms by (simp add: proc_ready_def)
  have "curproc (taken (SleepLk l) s) = Ret p (taken (SleepLk l) s)"
    by (rule curproc_run) (use assms c in simp_all)
  then show ?thesis
    using assms c
    by (simp add: holdingsleep_def acquire_free release_same sl_held_def)
qed

section \<open>Sleeping\<close>

text \<open>
  A process that holds only \<open>lk\<close> and calls \<open>sleep(ch, lk)\<close> ends up switched out: it is marked
  \<open>SLEEPING\<close> on \<open>ch\<close>, \<open>lk\<close> is free again and the process's own lock is taken.
\<close>

lemma sleep_run:
  assumes "cpu_ok s" "noff (cpus s (hart s)) = 0" "running s = Some p"
    "lk_free lk s" "lk_free (ProcLock p) s" "lk \<noteq> ProcLock p"
  shows "sleep regs ch lk (taken lk s) =
    Wait (upd_proc p (\<lambda>q. q\<lparr>chan := Some ch, state := SLEEPING, pcontext := regs\<rparr>) (taken (ProcLock p) s))"
proof -
  let ?P = "ProcLock p"
  have cur: "\<And>t :: 'a kproc_scheme. cpu_ok t \<Longrightarrow> running t = Some p \<Longrightarrow> curproc t = Ret p t"
    by (rule curproc_run)
  have acq: "acquire ?P (taken lk s) = Ret () (taken ?P (taken lk s))"
    by (rule acquire_free) (use assms in auto)
  have rel: "release lk (taken ?P (taken lk s)) = Ret () (taken ?P s)"
    using assms
    by (auto simp: spin_defs taken_def cpu_ok_def lk_free_def Let_def fun_upd_def
        intro!: kbase.equality)
  have ok: "cpu_ok (upd_proc p f (taken ?P s))" "running (upd_proc p f (taken ?P s)) = Some p" for f
    using assms by (simp_all add: upd_proc_def)
  have noff: "noff (cpus (taken ?P s) (hart s)) = 1" "\<not> sie (taken ?P s) (hart s)"
    using assms by (simp_all add: taken_def)
  show ?thesis
    using assms(1,3) noff
    by (simp add: sleep_def cur acq rel sched_def ok)
       (simp add: upd_proc_def holding_def mycpu_def cpuid_def intr_get_def)
qed

lemma scheduler_back_run:
  assumes "cpu_ok s" "lk_free (ProcLock p) s"
  shows "scheduler_back p (upd_proc p f (taken (ProcLock p) s)) =
    Ret () (upd_cpu (hart s) (\<lambda>c. c\<lparr>cproc := None\<rparr>) (upd_proc p f s))"
  using assms
  by (auto simp: scheduler_back_def upd_proc_def spin_defs taken_def cpu_ok_def lk_free_def Let_def
      fun_upd_def intro!: kproc.equality)

lemma scheduler_try_run:
  assumes "cpu_ok s" "lk_free (ProcLock p) s" "state (procs s p) = RUNNABLE"
  shows "scheduler_try p s = Ret (Some p)
    (upd_cpu (hart s) (\<lambda>c. c\<lparr>cproc := Some p\<rparr>)
      (upd_proc p (\<lambda>p. p\<lparr>state := RUNNING\<rparr>) (taken (ProcLock p) s)))"
  using assms by (simp add: scheduler_try_def acquire_free upd_proc_def mycpu_def cpuid_def)

lemma sleep_return_run:
  assumes "cpu_ok s" "lk_free (ProcLock p) s" "lk_free lk s" "lk \<noteq> ProcLock p"
    "same_base t (taken (ProcLock p) s)"
  shows "sleep_return p lk t =
    Ret () (taken lk (upd_proc p (\<lambda>q. q\<lparr>chan := None\<rparr>) (t\<lparr>cpus := cpus s, sie := sie s, locks := locks s\<rparr>)))"
proof -
  let ?t = "upd_proc p (\<lambda>q. q\<lparr>chan := None\<rparr>) t"
  let ?u = "?t\<lparr>cpus := cpus s, sie := sie s, locks := locks s\<rparr>"
  have h: "hart t = hart s" using assms(5) by (simp add: same_base_def taken_def)
  have rel: "release (ProcLock p) ?t = Ret () ?u"
    by (rule release_taken) (use assms in \<open>simp_all add: same_base_def upd_proc_def\<close>)
  have "acquire lk ?u = Ret () (taken lk ?u)"
    by (rule acquire_free) (use assms h in \<open>simp_all add: cpu_ok_def lk_free_def upd_proc_def\<close>)
  moreover have "?u = upd_proc p (\<lambda>q. q\<lparr>chan := None\<rparr>) (t\<lparr>cpus := cpus s, sie := sie s, locks := locks s\<rparr>)"
    by (rule kproc.equality) (simp_all add: upd_proc_def)
  ultimately show ?thesis using rel by (simp add: sleep_return_def)
qed

definition boot_proc :: proc where
  "boot_proc = \<lparr>state = UNUSED, chan = None, killed = False, xstate = 0, pid = 0, parent = None,
     kstack = 0, sz = 0, pagetable = 0, trapframe = 0, pcontext = ctx0, ofile = (\<lambda>_. None),
     cwd = None, pname = []\<rparr>"

text \<open>A kernel state for the witnesses: process 1 runs on hart 0, processes 2 and 3 sleep.\<close>

definition demo_kproc :: kproc where
  "demo_kproc = kmem.extend
     (boot_kmem\<lparr>cpus := (\<lambda>_. \<lparr>cproc = Some 1, ccontext = ctx0, noff = 0, intena = True\<rparr>),
        sie := (\<lambda>_. True), locks := (\<lambda>_. \<lparr>locked = False, lname = [], lcpu = None\<rparr>)\<rparr>)
     (kproc.fields ((\<lambda>_. boot_proc)(1 := boot_proc\<lparr>state := RUNNING, pid := 1\<rparr>,
         2 := boot_proc\<lparr>state := SLEEPING, chan := Some ChTicks, pid := 2\<rparr>,
         3 := boot_proc\<lparr>state := SLEEPING, chan := Some ChLog, pid := 3\<rparr>))
       4 (Some 1) (\<lambda>_. \<lparr>sl_locked = False, sl_name = [], sl_pid = 0\<rparr>)
       0 (\<lambda>_. 0) 0 0x80007000 0x80007000 0x8000709c 0x80008000 0x80001a00 0x80002600 0x80005b00)"

lemma demo_kproc_procs:
  "procs demo_kproc = (\<lambda>_. boot_proc)(1 := boot_proc\<lparr>state := RUNNING, pid := 1\<rparr>,
         2 := boot_proc\<lparr>state := SLEEPING, chan := Some ChTicks, pid := 2\<rparr>,
         3 := boot_proc\<lparr>state := SLEEPING, chan := Some ChLog, pid := 3\<rparr>)"
  by (simp add: demo_kproc_def kmem.defs kproc.defs)

lemma demo_kproc_ok [simp]:
  "cpu_ok demo_kproc" "lk_free lk demo_kproc" "proc_ready demo_kproc" "running demo_kproc = Some 1"
  "noff (cpus demo_kproc (hart demo_kproc)) = 0"
  by (simp_all add: demo_kproc_def cpu_ok_def lk_free_def proc_ready_def running_def kmem.defs
      kproc.defs boot_kmem_def)

section \<open>Properties\<close>

text \<open>
  \<open>wakeup(chan)\<close> makes exactly the processes runnable that sleep on \<open>chan\<close> and are not the
  caller, and changes nothing else: no other field of any process, no lock, no interrupt state.
\<close>

theorem wakeup_exact:
  assumes "proc_ready s"
  shows "\<exists>t. wakeup ch s = Ret () t
    \<and> (\<forall>i. state (procs t i) = (if i < NPROC \<and> running s \<noteq> Some i \<and> state (procs s i) = SLEEPING
              \<and> chan (procs s i) = Some ch then RUNNABLE else state (procs s i)))
    \<and> (\<forall>i. (procs t i)\<lparr>state := UNUSED\<rparr> = (procs s i)\<lparr>state := UNUSED\<rparr>)
    \<and> t\<lparr>procs := procs s\<rparr> = s"
  by (rule exI, rule conjI, rule wakeup_run [OF assms]) (auto simp: woken_def)

theorem wakeup_exact_witness:
  "\<exists>t. wakeup ChTicks demo_kproc = Ret () t \<and> state (procs t 2) = RUNNABLE
     \<and> state (procs t 3) = SLEEPING \<and> state (procs t 1) = RUNNING"
proof -
  obtain t where t: "wakeup ChTicks demo_kproc = Ret () t"
    "\<And>i. state (procs t i) = (if i < NPROC \<and> running demo_kproc \<noteq> Some i \<and>
       state (procs demo_kproc i) = SLEEPING \<and> chan (procs demo_kproc i) = Some ChTicks
       then RUNNABLE else state (procs demo_kproc i))"
    using wakeup_exact [of demo_kproc ChTicks] by auto
  then show ?thesis
    by (intro exI [of _ t]) (simp add: demo_kproc_procs NPROC_def boot_proc_def)
qed

text \<open>
  C17: A full round of sleep and wakeup. A process that holds \<open>lk\<close> and sleeps on \<open>ch\<close> is switched
  out with \<open>lk\<close> free, so others can get in; once the scheduler has dropped the process's lock,
  \<open>wakeup(ch)\<close> makes it runnable; the scheduler picks it; and the rest of \<open>sleep\<close> returns with
  \<open>lk\<close> held again, the process running and no channel set.
\<close>

theorem sleep_wakeup_round:
  assumes "cpu_ok s" "noff (cpus s (hart s)) = 0" "running s = Some p" "p < NPROC"
    "\<forall>l. lk_free l s" "\<forall>i. lk \<noteq> ProcLock i"
  shows "\<exists>t u v w x. sleep regs ch lk (taken lk s) = Wait t \<and> lk_free lk t
    \<and> scheduler_back p t = Ret () u \<and> running u = None
    \<and> wakeup ch u = Ret () v \<and> scheduler_try p v = Ret (Some p) w
    \<and> sleep_return p lk (sched_return (intena (cpus s (hart s))) w) = Ret () x
    \<and> holding lk x \<and> running x = Some p \<and> state (procs x p) = RUNNING \<and> chan (procs x p) = None"
proof -
  let ?P = "ProcLock p"
  let ?f = "\<lambda>q. q\<lparr>chan := Some ch, state := SLEEPING, pcontext := regs\<rparr>"
  let ?t = "upd_proc p ?f (taken ?P s)"
  let ?u = "upd_cpu (hart s) (\<lambda>c. c\<lparr>cproc := None\<rparr>) (upd_proc p ?f s)"
  have sl: "sleep regs ch lk (taken lk s) = Wait ?t" by (rule sleep_run) (use assms in auto)
  have fr: "lk_free lk ?t" using assms by (simp add: upd_proc_def)
  have bk: "scheduler_back p ?t = Ret () ?u" by (rule scheduler_back_run) (use assms in auto)
  have run: "running ?u = None" by (simp add: running_def upd_cpu_def upd_proc_def)
  have rdy: "proc_ready ?u"
    using assms by (simp add: proc_ready_def cpu_ok_def lk_free_def upd_cpu_def upd_proc_def)
  define v where "v = ?u\<lparr>procs := (\<lambda>i. if i < NPROC then woken ch (running ?u) i (procs ?u i) else procs ?u i)\<rparr>"
  have wk: "wakeup ch ?u = Ret () v" unfolding v_def by (rule wakeup_run [OF rdy])
  have vok: "cpu_ok v" "\<And>l. lk_free l v" "state (procs v p) = RUNNABLE" "hart v = hart s"
  proof -
    show "cpu_ok v" using rdy by (simp add: v_def proc_ready_def)
    show "\<And>l. lk_free l v" using assms(5) by (simp add: v_def lk_free_def upd_cpu_def upd_proc_def)
    show "state (procs v p) = RUNNABLE"
      using assms(4) by (simp add: v_def run woken_def) (simp add: upd_cpu_def upd_proc_def)
    show "hart v = hart s" by (simp add: v_def upd_cpu_def upd_proc_def)
  qed
  let ?w = "upd_cpu (hart v) (\<lambda>c. c\<lparr>cproc := Some p\<rparr>) (upd_proc p (\<lambda>p. p\<lparr>state := RUNNING\<rparr>) (taken ?P v))"
  have tr: "scheduler_try p v = Ret (Some p) ?w" by (rule scheduler_try_run) (use vok in auto)
  let ?v = "upd_cpu (hart v) (\<lambda>c. c\<lparr>cproc := Some p, intena := intena (cpus s (hart s))\<rparr>) v"
  have base: "same_base (sched_return (intena (cpus s (hart s))) ?w) (taken ?P ?v)"
    by (auto simp: same_base_def sched_return_def upd_cpu_def upd_proc_def taken_def mycpu_def
        cpuid_def fun_eq_iff)
  have "cpu_ok ?v" "\<And>l. lk_free l ?v"
    using vok assms by (auto simp: v_def cpu_ok_def upd_cpu_def lk_free_def upd_proc_def)
  then obtain x where x: "sleep_return p lk (sched_return (intena (cpus s (hart s))) ?w) = Ret () x"
    "x = taken lk (upd_proc p (\<lambda>q. q\<lparr>chan := None\<rparr>)
      ((sched_return (intena (cpus s (hart s))) ?w)\<lparr>cpus := cpus ?v, sie := sie ?v, locks := locks ?v\<rparr>))"
    using sleep_return_run [of ?v p lk, OF _ _ _ _ base] assms(6) by blast
  have "holding lk x \<and> running x = Some p \<and> state (procs x p) = RUNNING \<and> chan (procs x p) = None"
    using vok(4) unfolding x(2)
    by (simp add: holding_def running_def mycpu_def cpuid_def sched_return_def upd_cpu_def upd_proc_def)
  with sl fr bk run wk tr x(1) show ?thesis by blast
qed

theorem sleep_wakeup_round_witness:
  "\<exists>t. sleep ctx0 ChTicks TicksLock (taken TicksLock demo_kproc) = Wait t \<and> lk_free TicksLock t"
proof -
  have "\<forall>l. lk_free l demo_kproc" "\<forall>i. TicksLock \<noteq> ProcLock i" "(1 :: nat) < NPROC"
    by (simp_all add: NPROC_def)
  with sleep_wakeup_round [of demo_kproc 1 TicksLock ctx0 ChTicks] show ?thesis
    using demo_kproc_ok by blast
qed

end
