(* ===== verification/Bio.thy ===== *)
theory Bio
  imports Proc
begin

text \<open>
  The buffer cache, \<^verbatim>\<open>kernel/bio.c\<close>: thirty buffers on a circular doubly linked list in order
  of use. The list is modelled by the \<open>prev\<close> and \<open>next\<close> fields as the code has them, with index
  \<open>NBUF\<close> for \<open>bcache.head\<close>; \<open>blist\<close> abstracts it to a HOL list. The disk is a function from block
  numbers to contents; the ghost field \<open>writes\<close> records every block written, in order. The
  driver below \<open>virtio_disk_rw\<close> is in the theory \<open>Virtio\<close>.
\<close>

section \<open>State\<close>

record buf =
  valid :: bool
  bdev :: u32
  blockno :: u32
  refcnt :: u32
  bprev :: nat
  bnext :: nat
  bdata :: bytes

record kbio = kproc +
  bufs :: "nat \<Rightarrow> buf"
  disk :: "u32 \<Rightarrow> bytes"
  writes :: "(u32 \<times> bytes) list"

definition NBUF :: nat where "NBUF = 30"
definition BSIZE :: nat where "BSIZE = 1024"
definition ROOTDEV :: u32 where "ROOTDEV = 1"

definition set_buf :: "nat \<Rightarrow> (buf \<Rightarrow> buf) \<Rightarrow> (nat \<Rightarrow> buf) \<Rightarrow> nat \<Rightarrow> buf" where
  "set_buf b f B = B(b := f (B b))"

definition upd_buf :: "nat \<Rightarrow> (buf \<Rightarrow> buf) \<Rightarrow> 'z kbio_scheme \<Rightarrow> 'z kbio_scheme" where
  "upd_buf b f s = s\<lparr>bufs := set_buf b f (bufs s)\<rparr>"

section \<open>Operations\<close>

text \<open>Whole blocks go to and from the disk; block \<open>b->blockno\<close> is sectors \<open>2 * blockno\<close> and the next.\<close>

definition virtio_disk_rw :: "nat \<Rightarrow> bool \<Rightarrow> 'z kbio_scheme \<Rightarrow> (unit, 'z kbio_scheme) kres" where
  "virtio_disk_rw b write s =
     (let n = blockno (bufs s b) in
      Ret () (if write
        then s\<lparr>disk := (disk s)(n := bdata (bufs s b)), writes := writes s @ [(n, bdata (bufs s b))]\<rparr>
        else upd_buf b (\<lambda>x. x\<lparr>bdata := disk s n\<rparr>) s))"

text \<open>Insert \<open>b\<close> behind the head: the last four assignments of \<open>binit\<close> and \<open>brelse\<close>.\<close>

definition push_front :: "nat \<Rightarrow> (nat \<Rightarrow> buf) \<Rightarrow> nat \<Rightarrow> buf" where
  "push_front b B =
     (let B = set_buf b (\<lambda>x. x\<lparr>bnext := bnext (B NBUF)\<rparr>) B;
          B = set_buf b (\<lambda>x. x\<lparr>bprev := NBUF\<rparr>) B;
          B = set_buf (bnext (B NBUF)) (\<lambda>x. x\<lparr>bprev := b\<rparr>) B
      in set_buf NBUF (\<lambda>x. x\<lparr>bnext := b\<rparr>) B)"

text \<open>The critical section of \<open>brelse\<close>: drop the reference; the last one moves the buffer to the front.\<close>

definition drop_ref :: "nat \<Rightarrow> (nat \<Rightarrow> buf) \<Rightarrow> nat \<Rightarrow> buf" where
  "drop_ref b B =
     (let B = set_buf b (\<lambda>x. x\<lparr>refcnt := refcnt x - 1\<rparr>) B in
      if refcnt (B b) = 0
      then let B = set_buf (bnext (B b)) (\<lambda>x. x\<lparr>bprev := bprev (B b)\<rparr>) B;
               B = set_buf (bprev (B b)) (\<lambda>x. x\<lparr>bnext := bnext (B b)\<rparr>) B
           in push_front b B
      else B)"

definition binit :: "'z kbio_scheme \<Rightarrow> 'z kbio_scheme" where
  "binit s =
     (let s = initlock BcacheLock ''bcache'' s;
          s = upd_buf NBUF (\<lambda>x. x\<lparr>bprev := NBUF, bnext := NBUF\<rparr>) s
      in fold (\<lambda>b s. initsleeplock (BufSL b) ''buffer'' (s\<lparr>bufs := push_front b (bufs s)\<rparr>)) [0..<NBUF] s)"

text \<open>The two loops of \<open>bget\<close>; fuel \<open>Suc NBUF\<close> covers the whole list.\<close>

fun find_next :: "nat \<Rightarrow> nat \<Rightarrow> (buf \<Rightarrow> bool) \<Rightarrow> 'z kbio_scheme \<Rightarrow> (nat option, 'z kbio_scheme) kres" where
  "find_next 0 b P s = Wait s"
| "find_next (Suc f) b P s =
     (if b = NBUF then Ret None s
      else if P (bufs s b) then Ret (Some b) s
      else find_next f (bnext (bufs s b)) P s)"

fun find_prev :: "nat \<Rightarrow> nat \<Rightarrow> (buf \<Rightarrow> bool) \<Rightarrow> 'z kbio_scheme \<Rightarrow> (nat option, 'z kbio_scheme) kres" where
  "find_prev 0 b P s = Wait s"
| "find_prev (Suc f) b P s =
     (if b = NBUF then Ret None s
      else if P (bufs s b) then Ret (Some b) s
      else find_prev f (bprev (bufs s b)) P s)"

definition bget :: "u32 \<Rightarrow> u32 \<Rightarrow> 'z kbio_scheme \<Rightarrow> (nat, 'z kbio_scheme) kres" where
  "bget dev bno s =
     kbind (acquire BcacheLock s) (\<lambda>_ s.
     kbind (find_next (Suc NBUF) (bnext (bufs s NBUF)) (\<lambda>b. bdev b = dev \<and> blockno b = bno) s) (\<lambda>r s.
       case r of
         Some b \<Rightarrow>
           let s = upd_buf b (\<lambda>x. x\<lparr>refcnt := refcnt x + 1\<rparr>) s in
           kbind (release BcacheLock s) (\<lambda>_ s.
           kbind (acquiresleep (BufSL b) s) (\<lambda>_ s. Ret b s))
       | None \<Rightarrow>
           kbind (find_prev (Suc NBUF) (bprev (bufs s NBUF)) (\<lambda>b. refcnt b = 0) s) (\<lambda>r s.
             case r of
               Some b \<Rightarrow>
                 let s = upd_buf b (\<lambda>x. x\<lparr>bdev := dev, blockno := bno, valid := False, refcnt := 1\<rparr>) s in
                 kbind (release BcacheLock s) (\<lambda>_ s.
                 kbind (acquiresleep (BufSL b) s) (\<lambda>_ s. Ret b s))
             | None \<Rightarrow> Panic ''bget: no buffers'')))"

definition bread :: "u32 \<Rightarrow> u32 \<Rightarrow> 'z kbio_scheme \<Rightarrow> (nat, 'z kbio_scheme) kres" where
  "bread dev bno s =
     kbind (bget dev bno s) (\<lambda>b s.
       if \<not> valid (bufs s b)
       then kbind (virtio_disk_rw b False s) (\<lambda>_ s. Ret b (upd_buf b (\<lambda>x. x\<lparr>valid := True\<rparr>) s))
       else Ret b s)"

definition bwrite :: "nat \<Rightarrow> 'z kbio_scheme \<Rightarrow> (unit, 'z kbio_scheme) kres" where
  "bwrite b s =
     kbind (holdingsleep (BufSL b) s) (\<lambda>h s.
       if \<not> h then Panic ''bwrite'' else virtio_disk_rw b True s)"

definition brelse :: "nat \<Rightarrow> 'z kbio_scheme \<Rightarrow> (unit, 'z kbio_scheme) kres" where
  "brelse b s =
     kbind (holdingsleep (BufSL b) s) (\<lambda>h s.
       if \<not> h then Panic ''brelse''
       else kbind (releasesleep (BufSL b) s) (\<lambda>_ s.
         with_lock BcacheLock (\<lambda>s. Ret () (s\<lparr>bufs := drop_ref b (bufs s)\<rparr>)) s))"

definition bpin :: "nat \<Rightarrow> 'z kbio_scheme \<Rightarrow> (unit, 'z kbio_scheme) kres" where
  "bpin b s = with_lock BcacheLock (\<lambda>s. Ret () (upd_buf b (\<lambda>x. x\<lparr>refcnt := refcnt x + 1\<rparr>) s)) s"

definition bunpin :: "nat \<Rightarrow> 'z kbio_scheme \<Rightarrow> (unit, 'z kbio_scheme) kres" where
  "bunpin b s = with_lock BcacheLock (\<lambda>s. Ret () (upd_buf b (\<lambda>x. x\<lparr>refcnt := refcnt x - 1\<rparr>) s)) s"

section \<open>Doubly linked lists\<close>

fun dseg :: "(nat \<Rightarrow> nat) \<Rightarrow> (nat \<Rightarrow> nat) \<Rightarrow> nat \<Rightarrow> nat list \<Rightarrow> nat \<Rightarrow> bool" where
  "dseg nx pv a [] c \<longleftrightarrow> nx a = c \<and> pv c = a"
| "dseg nx pv a (x # xs) c \<longleftrightarrow> nx a = x \<and> pv x = a \<and> dseg nx pv x xs c"

lemma dseg_append: "dseg nx pv a (ys @ x # zs) c \<longleftrightarrow> dseg nx pv a ys x \<and> dseg nx pv x zs c"
  by (induction ys arbitrary: a) auto

lemma dseg_rev: "dseg nx pv a xs c \<Longrightarrow> dseg pv nx c (rev xs) a"
proof (induction xs arbitrary: a)
  case (Cons x xs)
  then show ?case using dseg_append [of pv nx c "rev xs" x "[]" a] by simp
qed simp

lemma dseg_cong:
  assumes "\<And>y. y = a \<or> y \<in> set xs \<Longrightarrow> nx' y = nx y" "\<And>y. y = c \<or> y \<in> set xs \<Longrightarrow> pv' y = pv y"
  shows "dseg nx' pv' a xs c = dseg nx pv a xs c"
  using assms by (induction xs arbitrary: a) auto

lemma dseg_next: "dseg nx pv a (x # xs) c \<Longrightarrow> nx a = x"
  by simp

lemma dseg_remove:
  assumes "dseg nx pv a (ys @ x # zs) c" "distinct (ys @ x # zs)" "a \<notin> set (ys @ x # zs)" "c \<notin> set (ys @ x # zs)"
  shows "dseg (nx(pv x := nx x)) (pv(nx x := pv x)) a (ys @ zs) c"
  using assms
proof (induction ys arbitrary: a)
  case Nil
  then have pv: "pv x = a" "a \<noteq> x" by auto
  show ?case
  proof (cases zs)
    case Nil
    then show ?thesis using \<open>dseg nx pv a ([] @ x # zs) c\<close> by auto
  next
    case (Cons z zs')
    then have "nx x = z" "dseg nx pv z zs' c" using \<open>dseg nx pv a ([] @ x # zs) c\<close> by auto
    moreover have "dseg (nx(a := z)) (pv(z := a)) z zs' c = dseg nx pv z zs' c"
      using Cons \<open>distinct ([] @ x # zs)\<close> \<open>a \<notin> set ([] @ x # zs)\<close> \<open>c \<notin> set ([] @ x # zs)\<close>
      by (intro dseg_cong) auto
    ultimately show ?thesis using Cons pv by (simp add: fun_upd_def)
  qed
next
  case (Cons y ys)
  have IH: "dseg (nx(pv x := nx x)) (pv(nx x := pv x)) y (ys @ zs) c"
    using Cons.prems by (intro Cons.IH) auto
  have seg: "dseg nx pv y ys x" "dseg nx pv x zs c"
    using Cons.prems(1) dseg_append [of nx pv y ys x zs c] by auto
  have "pv x \<in> insert y (set ys)" using seg(1)
    by (induction ys arbitrary: y) auto
  then have a: "pv x \<noteq> a" using Cons.prems(3) by auto
  have "nx x \<in> insert c (set zs)" using seg(2) by (cases zs) auto
  then have "nx x \<noteq> y" using Cons.prems(2,4) by auto
  with a IH Cons.prems(1) show ?case by (auto simp: fun_upd_def)
qed

lemma dseg_push:
  assumes "dseg nx pv h xs h" "distinct xs" "h \<notin> set xs" "b \<notin> set xs" "b \<noteq> h"
  shows "dseg (nx(b := nx h, h := b)) (pv(b := h, nx h := b)) h (b # xs) h"
proof (cases xs)
  case Nil
  then show ?thesis using assms by auto
next
  case (Cons x xs')
  have "dseg (nx(b := x, h := b)) (pv(b := h, x := b)) x xs' h = dseg nx pv x xs' h"
    using assms Cons by (intro dseg_cong) auto
  then show ?thesis using assms Cons by auto
qed

section \<open>The list of buffers\<close>

abbreviation nexts :: "(nat \<Rightarrow> buf) \<Rightarrow> nat \<Rightarrow> nat" where "nexts B \<equiv> \<lambda>i. bnext (B i)"
abbreviation prevs :: "(nat \<Rightarrow> buf) \<Rightarrow> nat \<Rightarrow> nat" where "prevs B \<equiv> \<lambda>i. bprev (B i)"

definition dlist_of :: "(nat \<Rightarrow> buf) \<Rightarrow> nat list \<Rightarrow> bool" where
  "dlist_of B xs \<longleftrightarrow> dseg (nexts B) (prevs B) NBUF xs NBUF \<and> distinct xs \<and> NBUF \<notin> set xs"

definition blist :: "(nat \<Rightarrow> buf) \<Rightarrow> nat list \<Rightarrow> bool" where
  "blist B xs \<longleftrightarrow> dlist_of B xs \<and> set xs = {0..<NBUF}"

lemma set_buf_sel [simp]: "set_buf b f B i = (if i = b then f (B b) else B i)"
  by (simp add: set_buf_def)

lemma upd_buf_sel [simp]: "bufs (upd_buf b f s) i = (if i = b then f (bufs s b) else bufs s i)"
  by (simp add: upd_buf_def)

lemma push_front_list:
  assumes "dlist_of B xs" "b \<notin> set xs" "b \<noteq> NBUF"
  shows "dlist_of (push_front b B) (b # xs)"
proof -
  let ?B = "push_front b B"
  have "nexts ?B = (nexts B)(b := nexts B NBUF, NBUF := b)"
    using assms(3) by (auto simp: push_front_def Let_def fun_eq_iff)
  moreover have "prevs ?B = (prevs B)(b := NBUF, nexts B NBUF := b)"
    using assms(3) by (auto simp: push_front_def Let_def fun_eq_iff)
  ultimately show ?thesis
    using dseg_push [of "nexts B" "prevs B" NBUF xs b] assms by (simp add: dlist_of_def)
qed

lemma find_next_list:
  assumes "dseg (nexts (bufs s)) (prevs (bufs s)) a xs NBUF" "NBUF \<notin> set xs" "length xs < f"
  shows "find_next f (bnext (bufs s a)) P s = Ret (find (\<lambda>b. P (bufs s b)) xs) s"
  using assms
proof (induction xs arbitrary: a f)
  case Nil
  then show ?case by (cases f) auto
next
  case (Cons x xs)
  then show ?case by (cases f) auto
qed

lemma find_prev_list:
  assumes "dseg (prevs (bufs s)) (nexts (bufs s)) a xs NBUF" "NBUF \<notin> set xs" "length xs < f"
  shows "find_prev f (bprev (bufs s a)) P s = Ret (find (\<lambda>b. P (bufs s b)) xs) s"
  using assms
proof (induction xs arbitrary: a f)
  case Nil
  then show ?case by (cases f) auto
next
  case (Cons x xs)
  then show ?case by (cases f) auto
qed

lemma blist_length: "blist B xs \<Longrightarrow> length xs = NBUF"
  unfolding blist_def dlist_of_def using distinct_card [of xs] by simp

declare find_next.simps [simp del] find_prev.simps [simp del]

lemma bget_search:
  assumes "blist (bufs s) xs"
  shows "find_next (Suc NBUF) (bnext (bufs s NBUF)) P s = Ret (find (\<lambda>b. P (bufs s b)) xs) s"
    and "find_prev (Suc NBUF) (bprev (bufs s NBUF)) P s = Ret (find (\<lambda>b. P (bufs s b)) (rev xs)) s"
proof -
  have d: "dseg (nexts (bufs s)) (prevs (bufs s)) NBUF xs NBUF" "NBUF \<notin> set xs" "length xs < Suc NBUF"
    using assms blist_length [OF assms] by (auto simp: blist_def dlist_of_def)
  show "find_next (Suc NBUF) (bnext (bufs s NBUF)) P s = Ret (find (\<lambda>b. P (bufs s b)) xs) s"
    by (rule find_next_list [OF d])
  show "find_prev (Suc NBUF) (bprev (bufs s NBUF)) P s = Ret (find (\<lambda>b. P (bufs s b)) (rev xs)) s"
    by (rule find_prev_list [OF dseg_rev [OF d(1)]]) (use d in auto)
qed

lemma dseg_ends:
  assumes "dseg nx pv a (ys @ x # zs) c"
  shows "pv x \<in> insert a (set ys)" "nx x \<in> insert c (set zs)"
proof -
  have s: "dseg nx pv a ys x" "dseg nx pv x zs c" using assms by (auto simp: dseg_append)
  show "pv x \<in> insert a (set ys)" using s(1) by (induction ys arbitrary: a) auto
  show "nx x \<in> insert c (set zs)" using s(2) by (cases zs) auto
qed

section \<open>Runs without contention\<close>

text \<open>
  \<open>quiet\<close>: a process runs and no spin lock is taken. \<open>bview\<close> is a buffer without its links.
  The invariant: the list holds every buffer once; at most one buffer caches a block (of a
  device other than 0, the value of a never-used buffer); a buffer nobody references is not locked;
  valid buffers hold blocks of the one disk; a valid buffer that nobody references agrees with
  the disk, so recycling it loses nothing.
\<close>

definition quiet :: "'z kproc_scheme \<Rightarrow> bool" where
  "quiet s \<longleftrightarrow> cpu_ok s \<and> (\<forall>lk. lk_free lk s) \<and> running s \<noteq> None"

definition bview :: "'z kbio_scheme \<Rightarrow> nat \<Rightarrow> buf" where
  "bview s i = (bufs s i)\<lparr>bprev := 0, bnext := 0\<rparr>"

definition blocked :: "'z kproc_scheme \<Rightarrow> nat \<Rightarrow> bool" where
  "blocked s b \<longleftrightarrow> sl_locked (slocks s (BufSL b))"

definition bufs_ok :: "(nat \<Rightarrow> buf) \<Rightarrow> (u32 \<Rightarrow> bytes) \<Rightarrow> bool" where
  "bufs_ok V d \<longleftrightarrow>
     (\<forall>b<NBUF. \<forall>c<NBUF. bdev (V b) = bdev (V c) \<longrightarrow> blockno (V b) = blockno (V c) \<longrightarrow> b = c \<or> bdev (V b) = 0)
     \<and> (\<forall>b<NBUF. valid (V b) \<longrightarrow> refcnt (V b) = 0 \<longrightarrow> bdata (V b) = d (blockno (V b)))
     \<and> (\<forall>b<NBUF. valid (V b) \<longrightarrow> bdev (V b) = ROOTDEV)"

definition bio_inv :: "'z kbio_scheme \<Rightarrow> bool" where
  "bio_inv s \<longleftrightarrow> quiet s \<and> (\<exists>xs. blist (bufs s) xs) \<and> bufs_ok (bview s) (disk s)
     \<and> (\<forall>b<NBUF. refcnt (bview s b) = 0 \<longrightarrow> \<not> blocked s b)"

definition cached_in :: "(nat \<Rightarrow> buf) \<Rightarrow> u32 \<Rightarrow> u32 \<Rightarrow> nat option" where
  "cached_in V dev bno = find (\<lambda>b. bdev (V b) = dev \<and> blockno (V b) = bno) [0..<NBUF]"

text \<open>What a reader of a block sees.\<close>

definition content_in :: "(nat \<Rightarrow> buf) \<Rightarrow> (u32 \<Rightarrow> bytes) \<Rightarrow> u32 \<Rightarrow> u32 \<Rightarrow> bytes" where
  "content_in V d dev bno =
     (case cached_in V dev bno of Some b \<Rightarrow> if valid (V b) then bdata (V b) else d bno | None \<Rightarrow> d bno)"

abbreviation cached :: "'z kbio_scheme \<Rightarrow> u32 \<Rightarrow> u32 \<Rightarrow> nat option" where
  "cached s \<equiv> cached_in (bview s)"

abbreviation content :: "'z kbio_scheme \<Rightarrow> u32 \<Rightarrow> u32 \<Rightarrow> bytes" where
  "content s \<equiv> content_in (bview s) (disk s)"

lemma bview_sel [simp]:
  "valid (bview s b) = valid (bufs s b)" "bdev (bview s b) = bdev (bufs s b)"
  "blockno (bview s b) = blockno (bufs s b)" "refcnt (bview s b) = refcnt (bufs s b)"
  "bdata (bview s b) = bdata (bufs s b)"
  by (simp_all add: bview_def)

lemma find_unique:
  assumes "set xs = set ys" "\<And>x y. x \<in> set xs \<Longrightarrow> y \<in> set xs \<Longrightarrow> P x \<Longrightarrow> P y \<Longrightarrow> x = y"
  shows "find P xs = find P ys"
proof (cases "find P xs")
  case None
  then have "find P ys = None" using assms(1) by (simp add: find_None_iff)
  with None show ?thesis by simp
next
  case (Some x)
  then have x: "x \<in> set xs" "P x" by (auto simp: find_Some_iff)
  then obtain y where y: "find P ys = Some y" using assms(1) by (cases "find P ys") (auto simp: find_None_iff)
  then have "y \<in> set ys" "P y" by (auto simp: find_Some_iff)
  with x assms have "x = y" by blast
  with Some y show ?thesis by simp
qed

lemma cached_Some: "cached_in V dev bno = Some b \<Longrightarrow> b < NBUF \<and> bdev (V b) = dev \<and> blockno (V b) = bno"
  by (auto simp: cached_in_def find_Some_iff)

lemma cached_None: "cached_in V dev bno = None \<longleftrightarrow> (\<forall>b<NBUF. \<not> (bdev (V b) = dev \<and> blockno (V b) = bno))"
  by (auto simp: cached_in_def find_None_iff)

lemma cachedI:
  assumes "bufs_ok V d" "dev \<noteq> 0" "b < NBUF" "bdev (V b) = dev" "blockno (V b) = bno"
  shows "cached_in V dev bno = Some b"
proof (cases "cached_in V dev bno")
  case None
  then show ?thesis using assms by (auto simp: cached_None)
next
  case (Some c)
  then have c: "c < NBUF" "bdev (V c) = dev" "blockno (V c) = bno" using cached_Some [OF Some] by auto
  have "\<And>b c. b < NBUF \<Longrightarrow> c < NBUF \<Longrightarrow> bdev (V b) = bdev (V c) \<Longrightarrow> blockno (V b) = blockno (V c)
      \<Longrightarrow> b = c \<or> bdev (V b) = 0" using assms(1) unfolding bufs_ok_def by blast
  from this [OF assms(3) c(1)] have "b = c" using assms c by simp
  with Some show ?thesis by simp
qed

lemma cached_search:
  assumes "bio_inv s" "dev \<noteq> 0" "blist (bufs s) xs"
  shows "find (\<lambda>b. bdev (bufs s b) = dev \<and> blockno (bufs s b) = bno) xs = cached s dev bno"
proof -
  have ok: "bufs_ok (bview s) (disk s)" using assms(1) by (simp add: bio_inv_def)
  have "find (\<lambda>b. bdev (bufs s b) = dev \<and> blockno (bufs s b) = bno) xs =
      find (\<lambda>b. bdev (bufs s b) = dev \<and> blockno (bufs s b) = bno) [0..<NBUF]"
  proof (rule find_unique)
    show "set xs = set [0..<NBUF]" using assms(3) by (simp add: blist_def)
    fix x y assume "x \<in> set xs" "y \<in> set xs" "bdev (bufs s x) = dev \<and> blockno (bufs s x) = bno"
      "bdev (bufs s y) = dev \<and> blockno (bufs s y) = bno"
    then show "x = y"
      using cachedI [OF ok assms(2), of x bno] cachedI [OF ok assms(2), of y bno] assms(3)
      by (auto simp: blist_def)
  qed
  then show ?thesis by (simp add: cached_in_def)
qed

lemma quiet_upd [simp]:
  "quiet (s\<lparr>procs := f\<rparr>) = quiet s" "quiet (s\<lparr>slocks := g\<rparr>) = quiet s"
  "quiet ((t :: 'z kbio_scheme)\<lparr>bufs := B\<rparr>) = quiet t" "quiet (t\<lparr>disk := D\<rparr>) = quiet t"
  "quiet (t\<lparr>writes := W\<rparr>) = quiet t"
  by (simp_all add: quiet_def cpu_ok_def lk_free_def running_def)

lemma quiet_ready: "quiet s \<Longrightarrow> proc_ready s"
  by (simp add: quiet_def proc_ready_def)

lemma bufs_taken [simp]: "bufs (taken lk s) = bufs s" "disk (taken lk s) = disk s" "writes (taken lk s) = writes s"
  by (simp_all add: taken_def)

lemma with_lock_bufs:
  assumes "quiet s" "body (taken lk s) = Ret a ((taken lk s)\<lparr>bufs := B\<rparr>)"
  shows "with_lock lk body s = Ret a (s\<lparr>bufs := B\<rparr>)"
proof -
  have c: "cpu_ok s" "lk_free lk s" using assms(1) by (auto simp: quiet_def)
  show ?thesis
    using with_lock_run [where body = body, OF c assms(2)] by (simp add: same_base_def) (simp add: taken_def)
qed

lemma release_bufs:
  assumes "quiet s"
  shows "release lk ((taken lk s)\<lparr>bufs := B\<rparr>) = Ret () (s\<lparr>bufs := B\<rparr>)"
proof -
  have c: "cpu_ok s" "lk_free lk s" using assms(1) by (auto simp: quiet_def)
  show ?thesis
    using release_taken [OF c, of "(taken lk s)\<lparr>bufs := B\<rparr>"] by (simp add: same_base_def) (simp add: taken_def)
qed

definition cur_pid :: "'z kproc_scheme \<Rightarrow> int" where
  "cur_pid s = (case running s of Some p \<Rightarrow> pid (procs s p) | None \<Rightarrow> 0)"

lemma cur_pid_upd [simp]:
  "cur_pid ((t :: 'z kbio_scheme)\<lparr>bufs := B\<rparr>) = cur_pid t" "cur_pid (t\<lparr>disk := D\<rparr>) = cur_pid t"
  "cur_pid (t\<lparr>writes := W\<rparr>) = cur_pid t" "cur_pid ((s :: 'z kproc_scheme)\<lparr>slocks := g\<rparr>) = cur_pid s"
  by (simp_all add: cur_pid_def running_def split: option.splits)

lemma acquiresleep_quiet:
  assumes "quiet s" "\<not> sl_locked (slocks s l)"
  shows "acquiresleep l s =
    Ret () (s\<lparr>slocks := (slocks s)(l := (slocks s l)\<lparr>sl_locked := True, sl_pid := cur_pid s\<rparr>)\<rparr>)"
proof -
  obtain p where p: "running s = Some p" using assms(1) by (auto simp: quiet_def)
  have "lk_free (SleepLk l) s" using assms(1) by (simp add: quiet_def)
  then show ?thesis
    using acquiresleep_run [OF quiet_ready [OF assms(1)] _ assms(2) p] by (simp add: cur_pid_def p)
qed

lemma bget_run:
  assumes "bio_inv s" "dev \<noteq> 0"
    "case cached s dev bno of Some b \<Rightarrow> \<not> blocked s b | None \<Rightarrow> \<exists>b<NBUF. refcnt (bufs s b) = 0"
  shows "\<exists>b<NBUF. (case cached s dev bno of Some c \<Rightarrow> b = c | None \<Rightarrow> refcnt (bufs s b) = 0) \<and> \<not> blocked s b \<and>
    bget dev bno s = Ret b (s\<lparr>
       bufs := (bufs s)(b := case cached s dev bno of
           Some c \<Rightarrow> (bufs s b)\<lparr>refcnt := refcnt (bufs s b) + 1\<rparr>
         | None \<Rightarrow> (bufs s b)\<lparr>bdev := dev, blockno := bno, valid := False, refcnt := 1\<rparr>),
       slocks := (slocks s)(BufSL b := (slocks s (BufSL b))\<lparr>sl_locked := True, sl_pid := cur_pid s\<rparr>)\<rparr>)"
proof -
  obtain xs where xs: "blist (bufs s) xs" and q: "quiet s" using assms(1) by (auto simp: bio_inv_def)
  have c: "cpu_ok s" "lk_free BcacheLock s" using q by (auto simp: quiet_def)
  let ?t = "taken BcacheLock s"
  have t: "blist (bufs ?t) xs" using xs by (simp add: blist_def dlist_of_def)
  have srch: "find_next (Suc NBUF) (bnext (bufs s NBUF)) P ?t = Ret (find (\<lambda>b. P (bufs s b)) xs) ?t"
    "find_prev (Suc NBUF) (bprev (bufs s NBUF)) P ?t = Ret (find (\<lambda>b. P (bufs s b)) (rev xs)) ?t" for P
    using bget_search [OF t, of P] by simp_all
  have b1: "find (\<lambda>b. bdev (bufs s b) = dev \<and> blockno (bufs s b) = bno) xs = cached s dev bno"
    using cached_search [OF assms(1,2) xs] by simp
  have acq: "acquiresleep (BufSL b) (s\<lparr>bufs := B\<rparr>) = Ret () (s\<lparr>bufs := B,
      slocks := (slocks s)(BufSL b := (slocks s (BufSL b))\<lparr>sl_locked := True, sl_pid := cur_pid s\<rparr>)\<rparr>)"
    if "\<not> blocked s b" for b B
    using acquiresleep_quiet [of "s\<lparr>bufs := B\<rparr>" "BufSL b"] that q
    by (simp add: blocked_def)
  have rel: "release BcacheLock (upd_buf b f ?t) = Ret () (s\<lparr>bufs := (bufs s)(b := f (bufs s b))\<rparr>)" for b f
    using release_bufs [OF q, of BcacheLock "(bufs s)(b := f (bufs s b))"] by (simp add: upd_buf_def set_buf_def)
  note run = bget_def acquire_free [OF c] srch b1 Let_def rel
  show ?thesis
  proof (cases "cached s dev bno")
    case (Some b)
    then have "b < NBUF" "\<not> blocked s b" using cached_Some [OF Some] assms(3) by auto
    then show ?thesis using Some acq by (intro exI [of _ b]) (simp add: run)
  next
    case None
    let ?r = "find (\<lambda>b. refcnt (bufs s b) = 0) (rev xs)"
    have "\<exists>b. ?r = Some b"
      using assms(3) None xs by (cases ?r) (auto simp: find_None_iff blist_def)
    then obtain b where b: "?r = Some b" by blast
    then have r: "refcnt (bufs s b) = 0" "b \<in> set xs" by (auto simp: find_Some_iff) (metis nth_mem set_rev length_rev)
    then have "b < NBUF" using xs by (auto simp: blist_def)
    moreover from this have "\<not> blocked s b" using assms(1) r by (auto simp: bio_inv_def)
    ultimately show ?thesis using None acq r b by (intro exI [of _ b]) (simp add: run)
  qed
qed

text \<open>The view of the buffers after \<open>bread\<close> got buffer \<open>b\<close>.\<close>

definition read_view :: "(nat \<Rightarrow> buf) \<Rightarrow> (u32 \<Rightarrow> bytes) \<Rightarrow> u32 \<Rightarrow> u32 \<Rightarrow> nat \<Rightarrow> buf" where
  "read_view V d dev bno b = (V b)\<lparr>valid := True, bdev := dev, blockno := bno,
     refcnt := (if cached_in V dev bno = None then 1 else refcnt (V b) + 1),
     bdata := content_in V d dev bno\<rparr>"

definition lock_sl :: "nat \<Rightarrow> 'z kproc_scheme \<Rightarrow> slid \<Rightarrow> sleeplock" where
  "lock_sl b s = (slocks s)(BufSL b := (slocks s (BufSL b))\<lparr>sl_locked := True, sl_pid := cur_pid s\<rparr>)"

lemma bread_run:
  assumes "bio_inv s" "dev \<noteq> 0"
    "case cached s dev bno of Some b \<Rightarrow> \<not> blocked s b | None \<Rightarrow> \<exists>b<NBUF. refcnt (bufs s b) = 0"
  shows "\<exists>b B. b < NBUF \<and> (case cached s dev bno of Some c \<Rightarrow> b = c | None \<Rightarrow> refcnt (bufs s b) = 0)
    \<and> \<not> blocked s b
    \<and> bread dev bno s = Ret b (s\<lparr>bufs := B, slocks := lock_sl b s\<rparr>)
    \<and> bview (s\<lparr>bufs := B, slocks := lock_sl b s\<rparr>) = (bview s)(b := read_view (bview s) (disk s) dev bno b)
    \<and> nexts B = nexts (bufs s) \<and> prevs B = prevs (bufs s)"
proof -
  obtain b where b: "b < NBUF" "case cached s dev bno of Some c \<Rightarrow> b = c | None \<Rightarrow> refcnt (bufs s b) = 0"
    "\<not> blocked s b"
    and g: "bget dev bno s = Ret b (s\<lparr>
       bufs := (bufs s)(b := case cached s dev bno of
           Some c \<Rightarrow> (bufs s b)\<lparr>refcnt := refcnt (bufs s b) + 1\<rparr>
         | None \<Rightarrow> (bufs s b)\<lparr>bdev := dev, blockno := bno, valid := False, refcnt := 1\<rparr>),
       slocks := lock_sl b s\<rparr>)"
    using bget_run [OF assms] unfolding lock_sl_def by blast
  let ?B = "(bufs s)(b := (bufs s b)\<lparr>valid := True, bdev := dev, blockno := bno,
     refcnt := (if cached s dev bno = None then 1 else refcnt (bufs s b) + 1), bdata := content s dev bno\<rparr>)"
  have "bread dev bno s = Ret b (s\<lparr>bufs := ?B, slocks := lock_sl b s\<rparr>)"
  proof (cases "cached s dev bno")
    case None
    then show ?thesis
      using g by (simp add: bread_def virtio_disk_rw_def Let_def upd_buf_def content_in_def)
        (auto intro!: kbio.equality simp: fun_eq_iff)
  next
    case (Some c)
    then have "b = c" "bdev (bufs s c) = dev" "blockno (bufs s c) = bno" using b cached_Some [OF Some] by auto
    then show ?thesis
      using g Some by (simp add: bread_def virtio_disk_rw_def Let_def upd_buf_def content_in_def)
        (auto intro!: kbio.equality simp: fun_eq_iff)
  qed
  moreover have "bview (s\<lparr>bufs := ?B, slocks := lock_sl b s\<rparr>) = (bview s)(b := read_view (bview s) (disk s) dev bno b)"
    by (auto simp: bview_def read_view_def fun_eq_iff)
  ultimately show ?thesis using b by (intro exI [of _ b] exI [of _ ?B]) (auto simp: fun_eq_iff)
qed

lemma blist_links: "nexts C = nexts B \<Longrightarrow> prevs C = prevs B \<Longrightarrow> blist C xs = blist B xs"
  by (simp add: blist_def dlist_of_def)

lemma bread_view_ok:
  assumes "bufs_ok V d" "dev = ROOTDEV" "b < NBUF"
    "case cached_in V dev bno of Some c \<Rightarrow> b = c | None \<Rightarrow> refcnt (V b) = 0" "refcnt (V b) \<noteq> - 1"
  shows "bufs_ok (V(b := read_view V d dev bno b)) d" (is "bufs_ok ?V d")
    "refcnt (read_view V d dev bno b) \<noteq> 0"
proof -
  have dev: "dev \<noteq> 0" using assms(2) by (simp add: ROOTDEV_def)
  have r: "refcnt (read_view V d dev bno b) \<noteq> 0"
    using assms(5) by (simp add: read_view_def eq_neg_iff_add_eq_0)
  then show "refcnt (read_view V d dev bno b) \<noteq> 0" .
  have uniq: "x = y \<or> bdev (V x) = 0" if "x < NBUF" "y < NBUF" "bdev (V x) = bdev (V y)" "blockno (V x) = blockno (V y)" for x y
    using assms(1) that unfolding bufs_ok_def by blast
  have other: "x = b" if "x < NBUF" "bdev (V x) = dev" "blockno (V x) = bno" for x
    using cachedI [OF assms(1) dev that] assms(4) by simp
  show "bufs_ok ?V d"
    unfolding bufs_ok_def
  proof (intro conjI allI impI)
    fix x y assume xy: "x < NBUF" "y < NBUF" "bdev (?V x) = bdev (?V y)" "blockno (?V x) = blockno (?V y)"
    show "x = y \<or> bdev (?V x) = 0"
    proof (cases "x = b \<or> y = b")
      case True
      moreover have "y = b" if "x = b"
        using xy(3,4) other [OF xy(2)] that by (cases "y = b") (simp_all add: read_view_def)
      moreover have "x = b" if "y = b"
        using xy(3,4) other [OF xy(1)] that by (cases "x = b") (simp_all add: read_view_def)
      ultimately show ?thesis by blast
    next
      case False
      then show ?thesis using xy uniq [OF xy(1,2)] by simp
    qed
  next
    fix x assume "x < NBUF" "valid (?V x)" "refcnt (?V x) = 0"
    then show "bdata (?V x) = d (blockno (?V x))"
      using r assms(1) by (cases "x = b") (auto simp: bufs_ok_def)
  next
    fix x assume "x < NBUF" "valid (?V x)"
    then show "bdev (?V x) = ROOTDEV"
      using assms(1,2) by (cases "x = b") (auto simp: bufs_ok_def read_view_def)
  qed
qed

lemma bread_content:
  assumes "bufs_ok V d" "dev = ROOTDEV" "b < NBUF"
    "case cached_in V dev bno of Some c \<Rightarrow> b = c | None \<Rightarrow> refcnt (V b) = 0" "refcnt (V b) \<noteq> - 1" "dev' \<noteq> 0"
  shows "content_in (V(b := read_view V d dev bno b)) d dev' n = content_in V d dev' n"
    "cached_in (V(b := read_view V d dev bno b)) dev bno = Some b"
proof -
  let ?V = "V(b := read_view V d dev bno b)"
  have ok: "bufs_ok ?V d" by (rule bread_view_ok [OF assms(1-5)])
  have dev: "dev \<noteq> 0" using assms(2) by (simp add: ROOTDEV_def)
  show c: "cached_in ?V dev bno = Some b"
    by (rule cachedI [OF ok dev assms(3)]) (simp_all add: read_view_def)
  show "content_in ?V d dev' n = content_in V d dev' n"
  proof (cases "dev' = dev \<and> n = bno")
    case True
    then show ?thesis unfolding content_in_def [of ?V] by (simp add: c) (simp add: read_view_def)
  next
    case False
    have same: "cached_in ?V dev' n = Some x \<longleftrightarrow> cached_in V dev' n = Some x" if "x \<noteq> b" for x
    proof
      assume "cached_in ?V dev' n = Some x"
      from cached_Some [OF this] that show "cached_in V dev' n = Some x"
        by (intro cachedI [OF assms(1,6)]) simp_all
    next
      assume "cached_in V dev' n = Some x"
      from cached_Some [OF this] that show "cached_in ?V dev' n = Some x"
        by (intro cachedI [OF ok assms(6)]) simp_all
    qed
    have nb: "cached_in ?V dev' n \<noteq> Some b"
      using False cached_Some [of ?V dev' n b] by (auto simp: read_view_def)
    show ?thesis
    proof (cases "cached_in V dev' n")
      case None
      then have "cached_in ?V dev' n = None"
        using same nb by (cases "cached_in ?V dev' n") auto
      with None show ?thesis by (simp add: content_in_def)
    next
      case (Some x)
      show ?thesis
      proof (cases "x = b")
        case True
        then have vb: "bdev (V b) = dev'" "blockno (V b) = n" using cached_Some [OF Some] by auto
        then have "cached_in V dev bno = None"
          using assms(4) False cached_Some [of V dev bno b] by (cases "cached_in V dev bno") auto
        then have "refcnt (V b) = 0" using assms(4) by simp
        then have "valid (V b) \<Longrightarrow> bdata (V b) = d n" using assms(1,3) vb by (auto simp: bufs_ok_def)
        moreover have "cached_in ?V dev' n = None"
          using same nb Some True by (cases "cached_in ?V dev' n") auto
        ultimately show ?thesis using Some True by (simp add: content_in_def)
      next
        case False
        then show ?thesis using Some same [OF False] by (simp add: content_in_def)
      qed
    qed
  qed
qed

text \<open>
  Everything outside the buffer cache, the disk, the locks of the buffers and the states of
  sleepers is as before.
\<close>

definition proc_same :: "proc \<Rightarrow> proc \<Rightarrow> bool" where
  "proc_same p q \<longleftrightarrow> p\<lparr>state := UNUSED\<rparr> = q\<lparr>state := UNUSED\<rparr>"

lemma proc_same_sel:
  assumes "proc_same p q"
  shows "chan p = chan q" "killed p = killed q" "xstate p = xstate q" "pid p = pid q" "parent p = parent q"
    "kstack p = kstack q" "sz p = sz q" "pagetable p = pagetable q" "trapframe p = trapframe q"
    "ofile p = ofile q" "cwd p = cwd q" "pname p = pname q"
  using assms unfolding proc_same_def
  by (cases p; cases q; simp)+

lemma proc_same_refl [simp]: "proc_same p p"
  by (simp add: proc_same_def)

lemma proc_same_trans: "proc_same p q \<Longrightarrow> proc_same q r \<Longrightarrow> proc_same p r"
  by (simp add: proc_same_def)

definition bframe :: "'z kbio_scheme \<Rightarrow> 'z kbio_scheme \<Rightarrow> bool" where
  "bframe s t \<longleftrightarrow> (\<exists>PR SL B D W. t = s\<lparr>procs := PR, slocks := SL, bufs := B, disk := D, writes := W\<rparr>
     \<and> (\<forall>i. proc_same (PR i) (procs s i)) \<and> (\<forall>j. SL (InodeSL j) = slocks s (InodeSL j)))"

lemma bframe_refl [simp]: "bframe s s"
  unfolding bframe_def
  by (rule exI [of _ "procs s"], rule exI [of _ "slocks s"], rule exI [of _ "bufs s"], rule exI [of _ "disk s"],
      rule exI [of _ "writes s"]) simp

lemma bframe_trans: "bframe s t \<Longrightarrow> bframe t u \<Longrightarrow> bframe s u"
proof -
  assume "bframe s t" "bframe t u"
  then obtain PR SL B D W PR' SL' B' D' W' where
    t: "t = s\<lparr>procs := PR, slocks := SL, bufs := B, disk := D, writes := W\<rparr>"
      "\<forall>i. proc_same (PR i) (procs s i)" "\<forall>j. SL (InodeSL j) = slocks s (InodeSL j)"
    and u: "u = t\<lparr>procs := PR', slocks := SL', bufs := B', disk := D', writes := W'\<rparr>"
      "\<forall>i. proc_same (PR' i) (procs t i)" "\<forall>j. SL' (InodeSL j) = slocks t (InodeSL j)"
    unfolding bframe_def by (elim exE conjE)
  have "proc_same (PR' i) (procs s i)" for i using proc_same_trans [of "PR' i" "PR i"] t(1,2) u(2) by simp
  moreover have "SL' (InodeSL j) = slocks s (InodeSL j)" for j using t(1,3) u(3) by simp
  moreover have "u = s\<lparr>procs := PR', slocks := SL', bufs := B', disk := D', writes := W'\<rparr>" using t(1) u(1) by simp
  ultimately show "bframe s u" unfolding bframe_def by blast
qed

lemma bframe_same:
  assumes "bframe s t"
  shows "kbio.more t = kbio.more s" "running t = running s" "cur_pid t = cur_pid s" "quiet t = quiet s"
    "mem t = mem s" "initproc t = initproc s" "\<And>i. proc_same (procs t i) (procs s i)"
    "\<And>j. slocks t (InodeSL j) = slocks s (InodeSL j)"
  using assms by (auto simp: bframe_def running_def cur_pid_def quiet_def cpu_ok_def lk_free_def proc_same_sel(4)
      split: option.splits)

lemma bframeI:
  assumes "t = s\<lparr>procs := PR, slocks := SL, bufs := B, disk := D, writes := W\<rparr>"
    "\<And>i. proc_same (PR i) (procs s i)" "\<And>j. SL (InodeSL j) = slocks s (InodeSL j)"
  shows "bframe s t"
  using assms unfolding bframe_def by blast

lemma lock_sl_held: "quiet s \<Longrightarrow> sl_held (BufSL b) (s\<lparr>slocks := lock_sl b s\<rparr>)"
  by (auto simp: sl_held_def lock_sl_def cur_pid_def quiet_def split: option.splits)

lemma bread_spec:
  assumes "bio_inv s" "dev = ROOTDEV"
    "case cached s dev bno of Some b \<Rightarrow> \<not> blocked s b \<and> refcnt (bufs s b) \<noteq> - 1
      | None \<Rightarrow> \<exists>b<NBUF. refcnt (bufs s b) = 0"
  shows "\<exists>b t. bread dev bno s = Ret b t \<and> bio_inv t \<and> bframe s t \<and> b < NBUF
    \<and> (case cached s dev bno of Some c \<Rightarrow> b = c | None \<Rightarrow> refcnt (bufs s b) = 0) \<and> \<not> blocked s b
    \<and> bview t = (bview s)(b := read_view (bview s) (disk s) dev bno b)
    \<and> disk t = disk s \<and> writes t = writes s \<and> slocks t = lock_sl b s \<and> procs t = procs s"
proof -
  have q: "quiet s" and ok: "bufs_ok (bview s) (disk s)" using assms(1) by (auto simp: bio_inv_def)
  have "case cached s dev bno of Some b \<Rightarrow> \<not> blocked s b | None \<Rightarrow> \<exists>b<NBUF. refcnt (bufs s b) = 0"
    using assms(3) by (auto split: option.splits)
  moreover have "dev \<noteq> 0" using assms(2) by (simp add: ROOTDEV_def)
  ultimately obtain b B where b: "b < NBUF"
    "case cached s dev bno of Some c \<Rightarrow> b = c | None \<Rightarrow> refcnt (bufs s b) = 0" "\<not> blocked s b"
    and r: "bread dev bno s = Ret b (s\<lparr>bufs := B, slocks := lock_sl b s\<rparr>)"
    and v: "bview (s\<lparr>bufs := B, slocks := lock_sl b s\<rparr>) = (bview s)(b := read_view (bview s) (disk s) dev bno b)"
    and l: "nexts B = nexts (bufs s)" "prevs B = prevs (bufs s)" using bread_run [OF assms(1)] by blast
  let ?t = "s\<lparr>bufs := B, slocks := lock_sl b s\<rparr>"
  have rc: "refcnt (bview s b) \<noteq> - 1" using assms(3) b(2) by (auto split: option.splits)
  have cs: "case cached s dev bno of Some c \<Rightarrow> b = c | None \<Rightarrow> refcnt (bview s b) = 0"
    using b(2) by (simp split: option.splits)
  note vok = bread_view_ok [OF ok assms(2) b(1) cs rc]
  obtain xs where "blist (bufs s) xs" using assms(1) by (auto simp: bio_inv_def)
  moreover have "nexts (bufs ?t) = nexts (bufs s)" "prevs (bufs ?t) = prevs (bufs s)" using l by (simp_all add: fun_eq_iff)
  ultimately have "blist (bufs ?t) xs" using blist_links by blast
  moreover have "\<not> blocked ?t x" if "x < NBUF" "refcnt (bview ?t x) = 0" for x
  proof -
    have "refcnt (((bview s)(b := read_view (bview s) (disk s) dev bno b)) x) = 0" using that(2) unfolding v .
    then have "x \<noteq> b" "refcnt (bview s x) = 0" using vok(2) by (auto split: if_splits)
    then show ?thesis using assms(1) that(1) by (auto simp: bio_inv_def blocked_def lock_sl_def)
  qed
  ultimately have "bio_inv ?t" using q vok(1) unfolding bio_inv_def v by auto
  moreover have "bframe s ?t" by (rule bframeI [where PR = "procs s" and SL = "lock_sl b s" and B = B and D = "disk s" and W = "writes s"])
      (simp_all add: lock_sl_def)
  ultimately show ?thesis using r v b by (intro exI [of _ b] exI [of _ ?t]) simp
qed

lemma holdingsleep_quiet: "quiet s \<Longrightarrow> holdingsleep l s = Ret (sl_held l s) s"
  using holdingsleep_run [OF quiet_ready, of s l] by (auto simp: quiet_def)

lemma bwrite_spec:
  assumes "bio_inv s" "sl_held (BufSL b) s" "b < NBUF" "valid (bufs s b)" "refcnt (bufs s b) \<noteq> 0"
  defines "t \<equiv> s\<lparr>disk := (disk s)(blockno (bufs s b) := bdata (bufs s b)),
       writes := writes s @ [(blockno (bufs s b), bdata (bufs s b))]\<rparr>"
  shows "bwrite b s = Ret () t \<and> bio_inv t \<and> bframe s t \<and> bview t = bview s"
proof -
  have q: "quiet s" using assms(1) by (simp add: bio_inv_def)
  have r: "bwrite b s = Ret () t"
    using assms(2) by (simp add: bwrite_def holdingsleep_quiet [OF q] virtio_disk_rw_def t_def Let_def)
  have v: "bview t = bview s" by (simp add: bview_def t_def fun_eq_iff)
  have ok: "bufs_ok (bview s) (disk s)" using assms(1) by (simp add: bio_inv_def)
  have "blockno (bufs s c) \<noteq> blockno (bufs s b)" if "c < NBUF" "valid (bufs s c)" "refcnt (bufs s c) = 0" for c
  proof
    assume "blockno (bufs s c) = blockno (bufs s b)"
    moreover have "bdev (bufs s c) = ROOTDEV" "bdev (bufs s b) = ROOTDEV"
      using ok that assms(3,4) unfolding bufs_ok_def by simp_all
    ultimately have "b = c"
      using cachedI [OF ok, of ROOTDEV b "blockno (bufs s b)"] cachedI [OF ok, of ROOTDEV c "blockno (bufs s b)"]
        assms(3) that(1) by (simp add: ROOTDEV_def)
    then show False using that(3) assms(5) by simp
  qed
  then have "bufs_ok (bview s) (disk t)" using ok by (auto simp: bufs_ok_def t_def)
  moreover obtain xs where "blist (bufs s) xs" using assms(1) by (auto simp: bio_inv_def)
  then have "blist (bufs t) xs" by (simp add: t_def)
  moreover have "\<forall>b<NBUF. refcnt (bview s b) = 0 \<longrightarrow> \<not> blocked t b"
    using assms(1) by (simp add: bio_inv_def blocked_def t_def)
  ultimately have "bio_inv t" using q unfolding bio_inv_def v by (auto simp: t_def)
  moreover have "bframe s t"
    unfolding t_def by (rule bframeI [where PR = "procs s" and SL = "slocks s" and B = "bufs s"]) simp_all
  ultimately show ?thesis using r v by simp
qed

definition unlock_sl :: "nat \<Rightarrow> 'z kproc_scheme \<Rightarrow> slid \<Rightarrow> sleeplock" where
  "unlock_sl b s = (slocks s)(BufSL b := (slocks s (BufSL b))\<lparr>sl_locked := False, sl_pid := 0\<rparr>)"

definition wake_all :: "chan \<Rightarrow> 'z kproc_scheme \<Rightarrow> nat \<Rightarrow> proc" where
  "wake_all ch s = (\<lambda>i. if i < NPROC then woken ch (running s) i (procs s i) else procs s i)"

lemma wake_all_same [simp]: "proc_same (wake_all ch s i) (procs s i)"
  by (simp add: wake_all_def woken_def proc_same_def)

lemma releasesleep_quiet:
  "quiet s \<Longrightarrow> releasesleep (BufSL b) s =
     Ret () (s\<lparr>procs := wake_all (ChSleep (BufSL b)) s, slocks := unlock_sl b s\<rparr>)"
  using releasesleep_run [OF quiet_ready, of s "BufSL b"]
  by (simp add: quiet_def wake_all_def unlock_sl_def)

lemma drop_ref_view: "bview (s\<lparr>bufs := drop_ref b (bufs s)\<rparr>)
    = (bview s)(b := (bview s b)\<lparr>refcnt := refcnt (bufs s b) - 1\<rparr>)"
proof -
  have nl: "(set_buf c f B i)\<lparr>bprev := 0, bnext := 0\<rparr> = (B i)\<lparr>bprev := 0, bnext := 0\<rparr>"
    if "\<And>x. (f x)\<lparr>bprev := 0, bnext := 0\<rparr> = x\<lparr>bprev := 0, bnext := 0\<rparr>" for c f i and B :: "nat \<Rightarrow> buf"
    using that by simp
  have pf: "(push_front b B i)\<lparr>bprev := 0, bnext := 0\<rparr> = (B i)\<lparr>bprev := 0, bnext := 0\<rparr>" for B i
    unfolding push_front_def Let_def by (simp add: nl del: set_buf_sel)
  have "(drop_ref b B i)\<lparr>bprev := 0, bnext := 0\<rparr> =
      (set_buf b (\<lambda>x. x\<lparr>refcnt := refcnt x - 1\<rparr>) B i)\<lparr>bprev := 0, bnext := 0\<rparr>" for B i
  proof (cases "refcnt (set_buf b (\<lambda>x. x\<lparr>refcnt := refcnt x - 1\<rparr>) B b) = 0")
    case True
    then show ?thesis unfolding drop_ref_def Let_def by (simp add: nl pf del: set_buf_sel)
  next
    case False
    then show ?thesis unfolding drop_ref_def Let_def by (simp del: set_buf_sel)
  qed
  then show ?thesis by (simp add: bview_def fun_eq_iff)
qed

lemma drop_ref_list:
  assumes "blist B xs" "b < NBUF"
  shows "\<exists>ys. blist (drop_ref b B) ys"
proof (cases "refcnt (B b) - 1 = 0")
  case False
  then have "nexts (drop_ref b B) = nexts B" "prevs (drop_ref b B) = prevs B"
    by (auto simp: drop_ref_def Let_def fun_eq_iff)
  then show ?thesis using assms blist_links by blast
next
  case True
  have xs: "dseg (nexts B) (prevs B) NBUF xs NBUF" "distinct xs" "NBUF \<notin> set xs" "set xs = {0..<NBUF}"
    using assms(1) by (auto simp: blist_def dlist_of_def)
  obtain ys zs where yz: "xs = ys @ b # zs"
    using assms(2) xs(4) by (metis atLeastLessThan_iff split_list zero_le)
  let ?C = "set_buf (bprev (B b)) (\<lambda>x. x\<lparr>bnext := bnext (B b)\<rparr>)
      (set_buf (bnext (B b)) (\<lambda>x. x\<lparr>bprev := bprev (B b)\<rparr>)
        (set_buf b (\<lambda>x. x\<lparr>refcnt := refcnt x - 1\<rparr>) B))"
  have ends: "bprev (B b) \<noteq> b" "bnext (B b) \<noteq> b"
    using dseg_ends [OF xs(1) [unfolded yz]] xs(2,3) assms(2) yz by auto
  then have dr: "drop_ref b B = push_front b ?C" using True by (auto simp: drop_ref_def Let_def)
  have "nexts ?C = (nexts B)(prevs B b := nexts B b)" "prevs ?C = (prevs B)(nexts B b := prevs B b)"
    using ends by (auto simp: fun_eq_iff)
  then have "dseg (nexts ?C) (prevs ?C) NBUF (ys @ zs) NBUF"
    using dseg_remove [OF xs(1) [unfolded yz]] xs(2,3) unfolding yz by simp
  then have "dlist_of ?C (ys @ zs)" using xs(2,3) unfolding yz by (auto simp: dlist_of_def)
  moreover have "b \<notin> set (ys @ zs)" "b \<noteq> NBUF" using xs(2) assms(2) unfolding yz by auto
  ultimately have "dlist_of (drop_ref b B) (b # ys @ zs)" unfolding dr by (rule push_front_list)
  then have "blist (drop_ref b B) (b # ys @ zs)" using xs(4) unfolding yz by (auto simp: blist_def)
  then show ?thesis by blast
qed

lemma brelse_spec:
  assumes "bio_inv s" "b < NBUF" "sl_held (BufSL b) s" "refcnt (bufs s b) \<noteq> 0"
    "refcnt (bufs s b) = 1 \<Longrightarrow> valid (bufs s b) \<Longrightarrow> bdata (bufs s b) = disk s (blockno (bufs s b))"
  shows "\<exists>t. brelse b s = Ret () t \<and> bio_inv t \<and> bframe s t
    \<and> bview t = (bview s)(b := (bview s b)\<lparr>refcnt := refcnt (bufs s b) - 1\<rparr>)
    \<and> disk t = disk s \<and> writes t = writes s \<and> slocks t = unlock_sl b s"
proof -
  have q: "quiet s" using assms(1) by (simp add: bio_inv_def)
  let ?u = "s\<lparr>procs := wake_all (ChSleep (BufSL b)) s, slocks := unlock_sl b s\<rparr>"
  let ?t = "?u\<lparr>bufs := drop_ref b (bufs s)\<rparr>"
  have qu: "quiet ?u" using q by simp
  have "with_lock BcacheLock (\<lambda>s. Ret () (s\<lparr>bufs := drop_ref b (bufs s)\<rparr>)) ?u = Ret () ?t"
    by (rule with_lock_bufs [OF qu]) simp
  then have r: "brelse b s = Ret () ?t"
    using assms(3) by (simp add: brelse_def holdingsleep_quiet [OF q] releasesleep_quiet [OF q])
  have v: "bview ?t = (bview s)(b := (bview s b)\<lparr>refcnt := refcnt (bufs s b) - 1\<rparr>)"
    using drop_ref_view [of b s] by (simp add: bview_def fun_eq_iff)
  obtain xs where "blist (bufs s) xs" using assms(1) by (auto simp: bio_inv_def)
  from drop_ref_list [OF this assms(2)] obtain ys where "blist (bufs ?t) ys" by auto
  moreover have "bufs_ok (bview ?t) (disk ?t)"
    unfolding v using assms(1,2,5)
    by (auto simp: bio_inv_def bufs_ok_def) 
  moreover have "\<not> blocked ?t x" if "x < NBUF" "refcnt (bview ?t x) = 0" for x
    using that assms(1) unfolding v by (auto simp: bio_inv_def blocked_def unlock_sl_def split: if_splits)
  ultimately have "bio_inv ?t" using qu by (auto simp: bio_inv_def)
  moreover have "bframe s ?t" 
    by (rule bframeI [where PR = "wake_all (ChSleep (BufSL b)) s" and SL = "unlock_sl b s"
        and B = "drop_ref b (bufs s)" and D = "disk s" and W = "writes s"]) (simp_all add: unlock_sl_def)
  ultimately show ?thesis using r v by (intro exI [of _ ?t]) simp
qed

lemma bufs_update_inv:
  assumes "bio_inv s" "b < NBUF" "refcnt (bufs s b) \<noteq> 0" "refcnt x \<noteq> 0"
    "x\<lparr>refcnt := 0, bdata := d\<rparr> = (bufs s b)\<lparr>refcnt := 0, bdata := d\<rparr>"
  defines "t \<equiv> s\<lparr>bufs := (bufs s)(b := x)\<rparr>"
  shows "bio_inv t \<and> bframe s t \<and> bview t = (bview s)(b := (bview s b)\<lparr>refcnt := refcnt x, bdata := bdata x\<rparr>)"
proof -
  have f: "valid x = valid (bufs s b)" "bdev x = bdev (bufs s b)" "blockno x = blockno (bufs s b)"
    "bprev x = bprev (bufs s b)" "bnext x = bnext (bufs s b)"
    using arg_cong [OF assms(5), of valid] arg_cong [OF assms(5), of bdev] arg_cong [OF assms(5), of blockno]
      arg_cong [OF assms(5), of bprev] arg_cong [OF assms(5), of bnext] by simp_all
  have v: "bview t = (bview s)(b := (bview s b)\<lparr>refcnt := refcnt x, bdata := bdata x\<rparr>)"
    using f by (auto simp: bview_def t_def fun_eq_iff)
  obtain xs where "blist (bufs s) xs" using assms(1) by (auto simp: bio_inv_def)
  moreover have "nexts (bufs t) = nexts (bufs s)" "prevs (bufs t) = prevs (bufs s)"
    using f by (auto simp: t_def fun_eq_iff)
  ultimately have "blist (bufs t) xs" using blist_links by blast
  moreover have "bufs_ok (bview t) (disk t)"
    using assms(1,4) unfolding v by (auto simp: bio_inv_def bufs_ok_def t_def)
  moreover have "\<not> blocked t c" if "c < NBUF" "refcnt (bview t c) = 0" for c
    using that assms(1,4) unfolding v by (auto simp: bio_inv_def blocked_def t_def split: if_splits)
  ultimately have "bio_inv t" using assms(1) by (auto simp: bio_inv_def t_def)
  moreover have "bframe s t"
    unfolding t_def by (rule bframeI [where PR = "procs s" and SL = "slocks s" and B = "(bufs s)(b := x)"
      and D = "disk s" and W = "writes s"]) simp_all
  ultimately show ?thesis using v by simp
qed

lemma bpin_spec:
  assumes "bio_inv s" "b < NBUF" "refcnt (bufs s b) \<noteq> 0" "refcnt (bufs s b) \<noteq> - 1"
  shows "\<exists>t. bpin b s = Ret () t \<and> bio_inv t \<and> bframe s t
    \<and> bview t = (bview s)(b := (bview s b)\<lparr>refcnt := refcnt (bufs s b) + 1\<rparr>)
    \<and> disk t = disk s \<and> writes t = writes s \<and> slocks t = slocks s"
proof -
  let ?x = "(bufs s b)\<lparr>refcnt := refcnt (bufs s b) + 1\<rparr>"
  let ?t = "s\<lparr>bufs := (bufs s)(b := ?x)\<rparr>"
  have q: "quiet s" using assms(1) by (simp add: bio_inv_def)
  have "bpin b s = Ret () ?t"
    unfolding bpin_def by (rule with_lock_bufs [OF q]) (simp add: upd_buf_def set_buf_def)
  moreover have "refcnt ?x \<noteq> 0" using assms(4) by (simp add: eq_neg_iff_add_eq_0)
  ultimately show ?thesis
    using bufs_update_inv [OF assms(1-3), of ?x "bdata (bufs s b)"] by (intro exI [of _ ?t]) (simp add: bview_def)
qed

lemma bunpin_spec:
  assumes "bio_inv s" "b < NBUF" "refcnt (bufs s b) \<noteq> 0" "refcnt (bufs s b) \<noteq> 1"
  shows "\<exists>t. bunpin b s = Ret () t \<and> bio_inv t \<and> bframe s t
    \<and> bview t = (bview s)(b := (bview s b)\<lparr>refcnt := refcnt (bufs s b) - 1\<rparr>)
    \<and> disk t = disk s \<and> writes t = writes s \<and> slocks t = slocks s"
proof -
  let ?x = "(bufs s b)\<lparr>refcnt := refcnt (bufs s b) - 1\<rparr>"
  let ?t = "s\<lparr>bufs := (bufs s)(b := ?x)\<rparr>"
  have q: "quiet s" using assms(1) by (simp add: bio_inv_def)
  have "bunpin b s = Ret () ?t"
    unfolding bunpin_def by (rule with_lock_bufs [OF q]) (simp add: upd_buf_def set_buf_def)
  moreover have "refcnt ?x \<noteq> 0" using assms(4) by simp
  ultimately show ?thesis
    using bufs_update_inv [OF assms(1-3), of ?x "bdata (bufs s b)"] by (intro exI [of _ ?t]) (simp add: bview_def)
qed

end
