(* ===== verification/Log.thy ===== *)
theory Log
  imports Bio
begin

text \<open>
  The write-ahead log, \<^verbatim>\<open>kernel/log.c\<close>. The on-disk log is a header block at \<open>log.start\<close>
  followed by copies of the logged blocks; the header block counts them and names their homes.
  The theory gives the code of transactions, commit and recovery; the crash-safety argument
  is in the theory \<open>Crash\<close>.
\<close>

section \<open>State\<close>

record superblock =
  magic :: u32
  sb_size :: u32
  nblocks :: u32
  ninodes :: u32
  nlog :: u32
  logstart :: u32
  inodestart :: u32
  bmapstart :: u32

record klog = kbio +
  log_start :: u32
  log_outstanding :: int
  log_committing :: bool
  log_dev :: u32
  lh_n :: int
  lh_block :: "nat \<Rightarrow> u32"

definition MAXOPBLOCKS :: int where "MAXOPBLOCKS = 10"
definition LOGBLOCKS :: int where "LOGBLOCKS = MAXOPBLOCKS * 3"

section \<open>Header and log blocks\<close>

definition install_trans :: "bool \<Rightarrow> 'z klog_scheme \<Rightarrow> (unit, 'z klog_scheme) kres" where
  "install_trans recovering s = kfold (\<lambda>tail s.
     kbind (bread (log_dev s) (log_start s + of_nat tail + 1) s) (\<lambda>lbuf s.
     kbind (bread (log_dev s) (lh_block s tail) s) (\<lambda>dbuf s.
     let s = upd_buf dbuf (\<lambda>x. x\<lparr>bdata := bdata (bufs s lbuf)\<rparr>) s in
     kbind (bwrite dbuf s) (\<lambda>_ s.
     kbind (if \<not> recovering then bunpin dbuf s else Ret () s) (\<lambda>_ s.
     kbind (brelse lbuf s) (\<lambda>_ s.
     brelse dbuf s)))))) [0..<nat (lh_n s)] s"

text \<open>
  The header block: \<open>n\<close> at offset 0, \<open>block[i]\<close> at \<open>4 + 4 * i\<close>. A count above \<open>LOGBLOCKS\<close> in the
  header block makes \<open>read_head\<close> store past the end of \<open>log.lh.block\<close>, which is undefined.
\<close>

definition read_head :: "'z klog_scheme \<Rightarrow> (unit, 'z klog_scheme) kres" where
  "read_head s =
     kbind (bread (log_dev s) (log_start s) s) (\<lambda>b s.
     let d = bdata (bufs s b);
         s = s\<lparr>lh_n := sint (get32 d 0)\<rparr> in
     kbind (kfold (\<lambda>i s.
         if int i \<ge> LOGBLOCKS then Panic ''undefined: log.lh.block''
         else Ret () (s\<lparr>lh_block := (lh_block s)(i := get32 d (4 + 4 * i))\<rparr>)) [0..<nat (lh_n s)] s) (\<lambda>_ s.
     brelse b s))"

definition head_bytes :: "int \<Rightarrow> (nat \<Rightarrow> u32) \<Rightarrow> bytes \<Rightarrow> bytes" where
  "head_bytes n blk d = fold (\<lambda>i d. put32 d (4 + 4 * i) (blk i)) [0..<nat n] (put32 d 0 (word_of_int n))"

definition write_head :: "'z klog_scheme \<Rightarrow> (unit, 'z klog_scheme) kres" where
  "write_head s =
     kbind (bread (log_dev s) (log_start s) s) (\<lambda>b s.
     let s = upd_buf b (\<lambda>x. x\<lparr>bdata := head_bytes (lh_n s) (lh_block s) (bdata x)\<rparr>) s in
     kbind (bwrite b s) (\<lambda>_ s.
     brelse b s))"

definition recover_from_log :: "'z klog_scheme \<Rightarrow> (unit, 'z klog_scheme) kres" where
  "recover_from_log s =
     kbind (read_head s) (\<lambda>_ s.
     kbind (install_trans True s) (\<lambda>_ s.
     write_head (s\<lparr>lh_n := 0\<rparr>)))"

text \<open>The size check of \<open>initlog\<close> is on constants: the header takes \<open>4 + 4 * LOGBLOCKS = 124\<close> bytes.\<close>

definition initlog :: "u32 \<Rightarrow> superblock \<Rightarrow> 'z klog_scheme \<Rightarrow> (unit, 'z klog_scheme) kres" where
  "initlog dev sb s =
     (if 4 + 4 * LOGBLOCKS \<ge> int BSIZE then Panic ''initlog: too big logheader''
      else let s = initlock LogLock ''log'' s
        in recover_from_log (s\<lparr>log_start := logstart sb, log_dev := dev\<rparr>))"

section \<open>Transactions\<close>

definition begin_op :: "'z klog_scheme \<Rightarrow> (unit, 'z klog_scheme) kres" where
  "begin_op s =
     kbind (acquire LogLock s) (\<lambda>_ s.
       if log_committing s then sleep ctx0 ChLog LogLock s
       else if lh_n s + (log_outstanding s + 1) * MAXOPBLOCKS > LOGBLOCKS then sleep ctx0 ChLog LogLock s
       else release LogLock (s\<lparr>log_outstanding := log_outstanding s + 1\<rparr>))"

definition write_log :: "'z klog_scheme \<Rightarrow> (unit, 'z klog_scheme) kres" where
  "write_log s = kfold (\<lambda>tail s.
     kbind (bread (log_dev s) (log_start s + of_nat tail + 1) s) (\<lambda>to s.
     kbind (bread (log_dev s) (lh_block s tail) s) (\<lambda>from s.
     let s = upd_buf to (\<lambda>x. x\<lparr>bdata := bdata (bufs s from)\<rparr>) s in
     kbind (bwrite to s) (\<lambda>_ s.
     kbind (brelse from s) (\<lambda>_ s.
     brelse to s))))) [0..<nat (lh_n s)] s"

definition commit :: "'z klog_scheme \<Rightarrow> (unit, 'z klog_scheme) kres" where
  "commit s =
     (if lh_n s > 0
      then kbind (write_log s) (\<lambda>_ s.
           kbind (write_head s) (\<lambda>_ s.
           kbind (install_trans False s) (\<lambda>_ s.
           write_head (s\<lparr>lh_n := 0\<rparr>))))
      else Ret () s)"

definition end_op :: "'z klog_scheme \<Rightarrow> (unit, 'z klog_scheme) kres" where
  "end_op s =
     kbind (acquire LogLock s) (\<lambda>_ s.
     let s = s\<lparr>log_outstanding := log_outstanding s - 1\<rparr> in
     if log_committing s then Panic ''log.committing''
     else if log_outstanding s = 0
     then kbind (release LogLock (s\<lparr>log_committing := True\<rparr>)) (\<lambda>_ s.
          kbind (commit s) (\<lambda>_ s.
          kbind (acquire LogLock s) (\<lambda>_ s.
          kbind (wakeup ChLog (s\<lparr>log_committing := False\<rparr>)) (\<lambda>_ s.
          release LogLock s))))
     else kbind (wakeup ChLog s) (\<lambda>_ s. release LogLock s))"

fun absorb :: "nat \<Rightarrow> nat \<Rightarrow> u32 \<Rightarrow> (nat \<Rightarrow> u32) \<Rightarrow> nat" where
  "absorb i 0 bno blk = i"
| "absorb i (Suc k) bno blk = (if blk i = bno then i else absorb (Suc i) k bno blk)"

definition log_write :: "nat \<Rightarrow> 'z klog_scheme \<Rightarrow> (unit, 'z klog_scheme) kres" where
  "log_write b s =
     kbind (acquire LogLock s) (\<lambda>_ s.
     if lh_n s \<ge> LOGBLOCKS then Panic ''too big a transaction''
     else if log_outstanding s < 1 then Panic ''log_write outside of trans''
     else let i = absorb 0 (nat (lh_n s)) (blockno (bufs s b)) (lh_block s);
              s = s\<lparr>lh_block := (lh_block s)(i := blockno (bufs s b))\<rparr> in
       kbind (if int i = lh_n s
              then kbind (bpin b s) (\<lambda>_ s. Ret () (s\<lparr>lh_n := lh_n s + 1\<rparr>))
              else Ret () s) (\<lambda>_ s.
       release LogLock s))"

end
