(* ===== verification/Vm.thy ===== *)
theory Vm
  imports Proc
begin

text \<open>
  Virtual memory, \<^verbatim>\<open>kernel/vm.c\<close>: Sv39 page tables in physical memory, mapping and
  unmapping, user address spaces, lazy allocation (\<open>vmfault\<close>) and the copies between the
  kernel and user space, with \<open>proc_mapstacks\<close>, \<open>proc_pagetable\<close> and \<open>proc_freepagetable\<close> of
  \<^verbatim>\<open>kernel/proc.c\<close>. A page table is a page of 512 little-endian 64-bit entries; the model
  loads and stores them in \<open>mem\<close>.
\<close>

section \<open>Page-table entries\<close>

definition PTE_V :: u64 where "PTE_V = 1"
definition PTE_R :: u64 where "PTE_R = 2"
definition PTE_W :: u64 where "PTE_W = 4"
definition PTE_X :: u64 where "PTE_X = 8"
definition PTE_U :: u64 where "PTE_U = 16"

definition PA2PTE :: "u64 \<Rightarrow> u64" where "PA2PTE pa = push_bit 10 (drop_bit 12 pa)"
definition PTE2PA :: "u64 \<Rightarrow> u64" where "PTE2PA pte = push_bit 12 (drop_bit 10 pte)"
definition PTE_FLAGS :: "u64 \<Rightarrow> u64" where "PTE_FLAGS pte = pte AND 0x3FF"
definition PX :: "nat \<Rightarrow> u64 \<Rightarrow> u64" where "PX level va = drop_bit (12 + 9 * level) va AND 0x1FF"
definition MAKE_SATP :: "u64 \<Rightarrow> u64" where "MAKE_SATP pt = push_bit 60 8 OR drop_bit 12 pt"

lemmas pte_flag_defs = PTE_V_def PTE_R_def PTE_W_def PTE_X_def PTE_U_def

definition ld :: "u64 \<Rightarrow> 'z kmem_scheme \<Rightarrow> u64" where
  "ld a s = load64 (mem s) a"

definition st :: "u64 \<Rightarrow> u64 \<Rightarrow> 'z kmem_scheme \<Rightarrow> 'z kmem_scheme" where
  "st a v s = s\<lparr>mem := store64 (mem s) a v\<rparr>"

definition zero_page :: "u64 \<Rightarrow> 'z kmem_scheme \<Rightarrow> 'z kmem_scheme" where
  "zero_page a s = s\<lparr>mem := memset (mem s) a 0 4096\<rparr>"

section \<open>Walking and mapping\<close>

text \<open>The loop of \<open>walk\<close> over the levels 2 and 1; level 0 yields the address of the entry.\<close>

fun walk_levels :: "nat \<Rightarrow> u64 \<Rightarrow> u64 \<Rightarrow> bool \<Rightarrow> 'z kmem_scheme \<Rightarrow> (u64, 'z kmem_scheme) kres" where
  "walk_levels 0 pt va alloc s = Ret (pt + 8 * PX 0 va) s"
| "walk_levels (Suc l) pt va alloc s =
     (let pte = pt + 8 * PX (Suc l) va in
      if ld pte s AND PTE_V \<noteq> 0 then walk_levels l (PTE2PA (ld pte s)) va alloc s
      else if \<not> alloc then Ret 0 s
      else kbind (kalloc s) (\<lambda>q s.
        if q = 0 then Ret 0 s
        else let s = zero_page q s in
          walk_levels l q va alloc (st pte (PA2PTE q OR PTE_V) s)))"

definition walk :: "u64 \<Rightarrow> u64 \<Rightarrow> bool \<Rightarrow> 'z kmem_scheme \<Rightarrow> (u64, 'z kmem_scheme) kres" where
  "walk pt va alloc s = (if va \<ge> MAXVA then Panic ''walk'' else walk_levels 2 pt va alloc s)"

definition walkaddr :: "u64 \<Rightarrow> u64 \<Rightarrow> 'z kmem_scheme \<Rightarrow> (u64, 'z kmem_scheme) kres" where
  "walkaddr pt va s =
     (if va \<ge> MAXVA then Ret 0 s
      else kbind (walk pt va False s) (\<lambda>pte s.
        if pte = 0 then Ret 0 s
        else if ld pte s AND PTE_V = 0 then Ret 0 s
        else if ld pte s AND PTE_U = 0 then Ret 0 s
        else Ret (PTE2PA (ld pte s)) s))"

text \<open>
  Fuel of the loop of \<open>mappages\<close>: the number of pages, which is when \<open>a\<close> meets \<open>last\<close>
  (\<open>mappages_fuel\<close> below).
\<close>

fun mappages_loop ::
    "nat \<Rightarrow> u64 \<Rightarrow> u64 \<Rightarrow> u64 \<Rightarrow> u64 \<Rightarrow> u64 \<Rightarrow> 'z kmem_scheme \<Rightarrow> (int, 'z kmem_scheme) kres" where
  "mappages_loop 0 pt a lst pa perm s = Wait s"
| "mappages_loop (Suc f) pt a lst pa perm s =
     kbind (walk pt a True s) (\<lambda>pte s.
       if pte = 0 then Ret (- 1) s
       else if ld pte s AND PTE_V \<noteq> 0 then Panic ''mappages: remap''
       else let s = st pte (PA2PTE pa OR perm OR PTE_V) s in
         if a = lst then Ret 0 s
         else mappages_loop f pt (a + PGSIZE) lst (pa + PGSIZE) perm s)"

definition mappages ::
    "u64 \<Rightarrow> u64 \<Rightarrow> u64 \<Rightarrow> u64 \<Rightarrow> u64 \<Rightarrow> 'z kmem_scheme \<Rightarrow> (int, 'z kmem_scheme) kres" where
  "mappages pt va len pa perm s =
     (if va mod PGSIZE \<noteq> 0 then Panic ''mappages: va not aligned''
      else if len mod PGSIZE \<noteq> 0 then Panic ''mappages: size not aligned''
      else if len = 0 then Panic ''mappages: size''
      else mappages_loop (unat (len div PGSIZE)) pt va (va + len - PGSIZE) pa perm s)"

section \<open>The kernel page table\<close>

definition UART0 :: u64 where "UART0 = 0x10000000"
definition VIRTIO0 :: u64 where "VIRTIO0 = 0x10001000"
definition PLIC :: u64 where "PLIC = 0x0c000000"

definition kvmmap ::
    "u64 \<Rightarrow> u64 \<Rightarrow> u64 \<Rightarrow> u64 \<Rightarrow> u64 \<Rightarrow> 'z kmem_scheme \<Rightarrow> (unit, 'z kmem_scheme) kres" where
  "kvmmap kpgtbl va pa len perm s =
     kbind (mappages kpgtbl va len pa perm s) (\<lambda>r s.
       if r \<noteq> 0 then Panic ''kvmmap'' else Ret () s)"

definition proc_mapstacks :: "u64 \<Rightarrow> 'z kmem_scheme \<Rightarrow> (unit, 'z kmem_scheme) kres" where
  "proc_mapstacks kpgtbl s = kfold (\<lambda>p s.
     kbind (kalloc s) (\<lambda>pa s.
       if pa = 0 then Panic ''kalloc''
       else let va = KSTACK p in kvmmap kpgtbl va pa PGSIZE (PTE_R OR PTE_W) s)) [0..<NPROC] s"

definition kvmmake :: "'z kproc_scheme \<Rightarrow> (u64, 'z kproc_scheme) kres" where
  "kvmmake s =
     kbind (kalloc s) (\<lambda>kpgtbl s.
     let s = zero_page kpgtbl s in
     kbind (kvmmap kpgtbl UART0 UART0 PGSIZE (PTE_R OR PTE_W) s) (\<lambda>_ s.
     kbind (kvmmap kpgtbl VIRTIO0 VIRTIO0 PGSIZE (PTE_R OR PTE_W) s) (\<lambda>_ s.
     kbind (kvmmap kpgtbl PLIC PLIC 0x4000000 (PTE_R OR PTE_W) s) (\<lambda>_ s.
     kbind (kvmmap kpgtbl KERNBASE KERNBASE (sym_etext s - KERNBASE) (PTE_R OR PTE_X) s) (\<lambda>_ s.
     kbind (kvmmap kpgtbl (sym_etext s) (sym_etext s) (PHYSTOP - sym_etext s) (PTE_R OR PTE_W) s) (\<lambda>_ s.
     kbind (kvmmap kpgtbl TRAMPOLINE (sym_trampoline s) PGSIZE (PTE_R OR PTE_X) s) (\<lambda>_ s.
     kbind (proc_mapstacks kpgtbl s) (\<lambda>_ s. Ret kpgtbl s))))))))"

definition kvminit :: "'z kproc_scheme \<Rightarrow> (unit, 'z kproc_scheme) kres" where
  "kvminit s = kbind (kvmmake s) (\<lambda>k s. Ret () (s\<lparr>kernel_pagetable := k\<rparr>))"

definition kvminithart :: "'z kproc_scheme \<Rightarrow> 'z kproc_scheme" where
  "kvminithart s = s\<lparr>satp := (satp s)(hart s := MAKE_SATP (kernel_pagetable s))\<rparr>"

section \<open>User address spaces\<close>

definition uvmcreate :: "'z kmem_scheme \<Rightarrow> (u64, 'z kmem_scheme) kres" where
  "uvmcreate s = kbind (kalloc s) (\<lambda>pt s. if pt = 0 then Ret 0 s else Ret pt (zero_page pt s))"

fun uvmunmap_loop ::
    "nat \<Rightarrow> u64 \<Rightarrow> u64 \<Rightarrow> u64 \<Rightarrow> bool \<Rightarrow> 'z kmem_scheme \<Rightarrow> (unit, 'z kmem_scheme) kres" where
  "uvmunmap_loop f pt a end_a do_free s =
     (if a < end_a
      then (case f of
          0 \<Rightarrow> Wait s
        | Suc f \<Rightarrow>
            kbind (walk pt a False s) (\<lambda>pte s.
              kbind (if pte = 0 then Ret () s
                     else if ld pte s AND PTE_V = 0 then Ret () s
                     else kbind (if do_free then kfree (PTE2PA (ld pte s)) s else Ret () s)
                       (\<lambda>_ s. Ret () (st pte 0 s)))
                (\<lambda>_ s. uvmunmap_loop f pt (a + PGSIZE) end_a do_free s)))
      else Ret () s)"

definition uvmunmap :: "u64 \<Rightarrow> u64 \<Rightarrow> u64 \<Rightarrow> bool \<Rightarrow> 'z kmem_scheme \<Rightarrow> (unit, 'z kmem_scheme) kres" where
  "uvmunmap pt va npages do_free s =
     (if va mod PGSIZE \<noteq> 0 then Panic ''uvmunmap: not aligned''
      else uvmunmap_loop (unat npages) pt va (va + npages * PGSIZE) do_free s)"

text \<open>
  \<open>int npages\<close> keeps the low 32 bits of the count, sign-extended again by the call.
\<close>

definition uvmdealloc :: "u64 \<Rightarrow> u64 \<Rightarrow> u64 \<Rightarrow> 'z kmem_scheme \<Rightarrow> (u64, 'z kmem_scheme) kres" where
  "uvmdealloc pt oldsz newsz s =
     (if newsz \<ge> oldsz then Ret oldsz s
      else if PGROUNDUP newsz < PGROUNDUP oldsz
      then let npages = (scast (ucast ((PGROUNDUP oldsz - PGROUNDUP newsz) div PGSIZE) :: u32) :: u64)
           in kbind (uvmunmap pt (PGROUNDUP newsz) npages True s) (\<lambda>_ s. Ret newsz s)
      else Ret newsz s)"

fun uvmalloc_loop ::
    "nat \<Rightarrow> u64 \<Rightarrow> u64 \<Rightarrow> u64 \<Rightarrow> u64 \<Rightarrow> u64 \<Rightarrow> 'z kmem_scheme \<Rightarrow> (u64, 'z kmem_scheme) kres" where
  "uvmalloc_loop f pt a oldsz newsz xperm s =
     (if a < newsz
      then (case f of
          0 \<Rightarrow> Wait s
        | Suc f \<Rightarrow>
            kbind (kalloc s) (\<lambda>m s.
              if m = 0 then kbind (uvmdealloc pt a oldsz s) (\<lambda>_ s. Ret 0 s)
              else let s = zero_page m s in
                kbind (mappages pt a PGSIZE m (PTE_R OR PTE_U OR xperm) s) (\<lambda>r s.
                  if r \<noteq> 0
                  then kbind (kfree m s) (\<lambda>_ s. kbind (uvmdealloc pt a oldsz s) (\<lambda>_ s. Ret 0 s))
                  else uvmalloc_loop f pt (a + PGSIZE) oldsz newsz xperm s)))
      else Ret newsz s)"

definition uvmalloc :: "u64 \<Rightarrow> u64 \<Rightarrow> u64 \<Rightarrow> u64 \<Rightarrow> 'z kmem_scheme \<Rightarrow> (u64, 'z kmem_scheme) kres" where
  "uvmalloc pt oldsz newsz xperm s =
     (if newsz < oldsz then Ret oldsz s
      else let oldsz = PGROUNDUP oldsz
           in uvmalloc_loop (Suc (unat newsz div 4096)) pt oldsz oldsz newsz xperm s)"

text \<open>The recursion of \<open>freewalk\<close> follows the three levels of a page table.\<close>

fun freewalk_at :: "nat \<Rightarrow> u64 \<Rightarrow> 'z kmem_scheme \<Rightarrow> (unit, 'z kmem_scheme) kres" where
  "freewalk_at 0 pt s = Wait s"
| "freewalk_at (Suc d) pt s =
     kbind (kfold (\<lambda>i s.
       let pte = ld (pt + 8 * of_nat i) s in
       if pte AND PTE_V \<noteq> 0 \<and> pte AND (PTE_R OR PTE_W OR PTE_X) = 0
       then kbind (freewalk_at d (PTE2PA pte) s) (\<lambda>_ s. Ret () (st (pt + 8 * of_nat i) 0 s))
       else if pte AND PTE_V \<noteq> 0 then Panic ''freewalk: leaf''
       else Ret () s) [0..<512] s)
     (\<lambda>_ s. kfree pt s)"

definition freewalk :: "u64 \<Rightarrow> 'z kmem_scheme \<Rightarrow> (unit, 'z kmem_scheme) kres" where
  "freewalk pt s = freewalk_at 3 pt s"

definition uvmfree :: "u64 \<Rightarrow> u64 \<Rightarrow> 'z kmem_scheme \<Rightarrow> (unit, 'z kmem_scheme) kres" where
  "uvmfree pt len s =
     kbind (if len > 0 then uvmunmap pt 0 (PGROUNDUP len div PGSIZE) True s else Ret () s)
       (\<lambda>_ s. freewalk pt s)"

fun uvmcopy_loop :: "nat \<Rightarrow> u64 \<Rightarrow> u64 \<Rightarrow> u64 \<Rightarrow> u64 \<Rightarrow> 'z kmem_scheme \<Rightarrow> (int, 'z kmem_scheme) kres" where
  "uvmcopy_loop f old new i len s =
     (if i < len
      then (case f of
          0 \<Rightarrow> Wait s
        | Suc f \<Rightarrow>
            kbind (walk old i False s) (\<lambda>pte s.
              if pte = 0 then uvmcopy_loop f old new (i + PGSIZE) len s
              else if ld pte s AND PTE_V = 0 then uvmcopy_loop f old new (i + PGSIZE) len s
              else let pa = PTE2PA (ld pte s); flags = PTE_FLAGS (ld pte s) in
                kbind (kalloc s) (\<lambda>m s.
                  if m = 0
                  then kbind (uvmunmap new 0 (i div PGSIZE) True s) (\<lambda>_ s. Ret (- 1) s)
                  else let s = s\<lparr>mem := memmove (mem s) m pa 4096\<rparr> in
                    kbind (mappages new i PGSIZE m flags s) (\<lambda>r s.
                      if r \<noteq> 0
                      then kbind (kfree m s) (\<lambda>_ s.
                           kbind (uvmunmap new 0 (i div PGSIZE) True s) (\<lambda>_ s. Ret (- 1) s))
                      else uvmcopy_loop f old new (i + PGSIZE) len s))))
      else Ret 0 s)"

definition uvmcopy :: "u64 \<Rightarrow> u64 \<Rightarrow> u64 \<Rightarrow> 'z kmem_scheme \<Rightarrow> (int, 'z kmem_scheme) kres" where
  "uvmcopy old new len s = uvmcopy_loop (Suc (unat len div 4096)) old new 0 len s"

definition uvmclear :: "u64 \<Rightarrow> u64 \<Rightarrow> 'z kmem_scheme \<Rightarrow> (unit, 'z kmem_scheme) kres" where
  "uvmclear pt va s =
     kbind (walk pt va False s) (\<lambda>pte s.
       if pte = 0 then Panic ''uvmclear'' else Ret () (st pte (ld pte s AND NOT PTE_U) s))"

definition ismapped :: "u64 \<Rightarrow> u64 \<Rightarrow> 'z kmem_scheme \<Rightarrow> (bool, 'z kmem_scheme) kres" where
  "ismapped pt va s =
     kbind (walk pt va False s) (\<lambda>pte s.
       if pte = 0 then Ret False s
       else if ld pte s AND PTE_V \<noteq> 0 then Ret True s else Ret False s)"

definition vmfault :: "u64 \<Rightarrow> u64 \<Rightarrow> bool \<Rightarrow> 'z kproc_scheme \<Rightarrow> (u64, 'z kproc_scheme) kres" where
  "vmfault pt va read s =
     kbind (curproc s) (\<lambda>p s.
       if va \<ge> sz (procs s p) then Ret 0 s
       else let va = PGROUNDDOWN va in
         kbind (ismapped pt va s) (\<lambda>b s.
           if b then Ret 0 s
           else kbind (kalloc s) (\<lambda>m s.
             if m = 0 then Ret 0 s
             else let s = zero_page m s in
               kbind (mappages (pagetable (procs s p)) va PGSIZE m (PTE_W OR PTE_U OR PTE_R) s) (\<lambda>r s.
                 if r \<noteq> 0 then kbind (kfree m s) (\<lambda>_ s. Ret 0 s) else Ret m s))))"

section \<open>Copies between kernel and user space\<close>

text \<open>
  The kernel side of a copy is a list of bytes: what \<open>copyout\<close> takes from \<open>src\<close>, and what
  \<open>copyin\<close> and \<open>copyinstr\<close> have written at \<open>dst\<close> by the time they return, error or not.
  A page that \<open>copyout\<close> finds and whose entry is null afterwards is a null dereference.
\<close>

definition user_page :: "u64 \<Rightarrow> u64 \<Rightarrow> 'z kproc_scheme \<Rightarrow> (u64, 'z kproc_scheme) kres" where
  "user_page pt va0 s =
     kbind (walkaddr pt va0 s) (\<lambda>pa0 s. if pa0 = 0 then vmfault pt va0 False s else Ret pa0 s)"

fun copyout_loop :: "nat \<Rightarrow> u64 \<Rightarrow> u64 \<Rightarrow> u8 list \<Rightarrow> 'z kproc_scheme \<Rightarrow> (int, 'z kproc_scheme) kres" where
  "copyout_loop f pt dstva src s =
     (if length src > 0
      then (case f of
          0 \<Rightarrow> Wait s
        | Suc f \<Rightarrow>
            let va0 = PGROUNDDOWN dstva in
            if va0 \<ge> MAXVA then Ret (- 1) s
            else kbind (user_page pt va0 s) (\<lambda>pa0 s.
              if pa0 = 0 then Ret (- 1) s
              else kbind (walk pt va0 False s) (\<lambda>pte s.
                if pte = 0 then Panic ''kerneltrap''
                else if ld pte s AND PTE_W = 0 then Ret (- 1) s
                else let n = min (4096 - unat (dstva - va0)) (length src);
                         s = s\<lparr>mem := store_bytes (mem s) (pa0 + (dstva - va0)) (take n src)\<rparr>
                  in copyout_loop f pt (va0 + PGSIZE) (drop n src) s)))
      else Ret 0 s)"

definition copyout :: "u64 \<Rightarrow> u64 \<Rightarrow> u8 list \<Rightarrow> 'z kproc_scheme \<Rightarrow> (int, 'z kproc_scheme) kres" where
  "copyout pt dstva src s = copyout_loop (length src) pt dstva src s"

fun copyin_loop ::
    "nat \<Rightarrow> u64 \<Rightarrow> u8 list \<Rightarrow> u64 \<Rightarrow> nat \<Rightarrow> 'z kproc_scheme \<Rightarrow> (int \<times> u8 list, 'z kproc_scheme) kres" where
  "copyin_loop f pt dst srcva len s =
     (if len > 0
      then (case f of
          0 \<Rightarrow> Wait s
        | Suc f \<Rightarrow>
            let va0 = PGROUNDDOWN srcva in
            kbind (user_page pt va0 s) (\<lambda>pa0 s.
              if pa0 = 0 then Ret (- 1, dst) s
              else let n = min (4096 - unat (srcva - va0)) len
                in copyin_loop f pt (dst @ load_bytes (mem s) (pa0 + (srcva - va0)) n)
                     (va0 + PGSIZE) (len - n) s))
      else Ret (0, dst) s)"

definition copyin :: "u64 \<Rightarrow> u64 \<Rightarrow> nat \<Rightarrow> 'z kproc_scheme \<Rightarrow> (int \<times> u8 list, 'z kproc_scheme) kres" where
  "copyin pt srcva len s = copyin_loop len pt [] srcva len s"

text \<open>The inner loop of \<open>copyinstr\<close> over one page: the bytes copied and whether a NUL was met.\<close>

fun instr_page :: "memory \<Rightarrow> u64 \<Rightarrow> nat \<Rightarrow> u8 list \<times> bool" where
  "instr_page m p 0 = ([], False)"
| "instr_page m p (Suc n) =
     (if m p = 0 then ([0], True)
      else case instr_page m (p + 1) n of (bs, g) \<Rightarrow> (m p # bs, g))"

fun copyinstr_loop ::
    "nat \<Rightarrow> u64 \<Rightarrow> u8 list \<Rightarrow> u64 \<Rightarrow> nat \<Rightarrow> bool \<Rightarrow> 'z kproc_scheme
      \<Rightarrow> (int \<times> u8 list, 'z kproc_scheme) kres" where
  "copyinstr_loop f pt dst srcva mx got_null s =
     (if \<not> got_null \<and> mx > 0
      then (case f of
          0 \<Rightarrow> Wait s
        | Suc f \<Rightarrow>
            let va0 = PGROUNDDOWN srcva in
            kbind (walkaddr pt va0 s) (\<lambda>pa0 s.
              if pa0 = 0 then Ret (- 1, dst) s
              else let n = min (4096 - unat (srcva - va0)) mx in
                case instr_page (mem s) (pa0 + (srcva - va0)) n of
                  (bs, g) \<Rightarrow> copyinstr_loop f pt (dst @ bs) (va0 + PGSIZE) (mx - length bs) g s))
      else Ret (if got_null then 0 else - 1, dst) s)"

definition copyinstr :: "u64 \<Rightarrow> u64 \<Rightarrow> nat \<Rightarrow> 'z kproc_scheme \<Rightarrow> (int \<times> u8 list, 'z kproc_scheme) kres" where
  "copyinstr pt srcva mx s = copyinstr_loop mx pt [] srcva mx False s"

section \<open>Page tables of processes\<close>

definition proc_pagetable :: "nat \<Rightarrow> 'z kproc_scheme \<Rightarrow> (u64, 'z kproc_scheme) kres" where
  "proc_pagetable p s =
     kbind (uvmcreate s) (\<lambda>pt s.
       if pt = 0 then Ret 0 s
       else kbind (mappages pt TRAMPOLINE PGSIZE (sym_trampoline s) (PTE_R OR PTE_X) s) (\<lambda>r s.
         if r < 0 then kbind (uvmfree pt 0 s) (\<lambda>_ s. Ret 0 s)
         else kbind (mappages pt TRAPFRAME PGSIZE (trapframe (procs s p)) (PTE_R OR PTE_W) s) (\<lambda>r s.
           if r < 0
           then kbind (uvmunmap pt TRAMPOLINE 1 False s) (\<lambda>_ s.
                kbind (uvmfree pt 0 s) (\<lambda>_ s. Ret 0 s))
           else Ret pt s)))"

definition proc_freepagetable :: "u64 \<Rightarrow> u64 \<Rightarrow> 'z kproc_scheme \<Rightarrow> (unit, 'z kproc_scheme) kres" where
  "proc_freepagetable pt len s =
     kbind (uvmunmap pt TRAMPOLINE 1 False s) (\<lambda>_ s.
     kbind (uvmunmap pt TRAPFRAME 1 False s) (\<lambda>_ s.
     uvmfree pt len s))"

declare uvmunmap_loop.simps [simp del] uvmalloc_loop.simps [simp del] uvmcopy_loop.simps [simp del]
  copyout_loop.simps [simp del] copyin_loop.simps [simp del] copyinstr_loop.simps [simp del]

end
