(* ===== verification/PageTable.thy ===== *)
theory PageTable
  imports Vm
begin

text \<open>
  What the page tables of \<open>Vm\<close> mean. A page table is well formed (\<open>pt_ok\<close>) when the pages
  reachable through its valid interior entries form a tree; its meaning is the function
  \<open>pt_entry\<close> from virtual addresses to leaf entries. \<open>walk\<close> never changes that function, and
  \<open>mappages\<close> changes it at the mapped page only.
\<close>

section \<open>Arithmetic of entries\<close>

lemma bit_small:
  assumes "(x :: u64) < 2 ^ n" "n < 64" "bit x k"
  shows "k < n"
proof -
  have "(2 :: nat) ^ n < 2 ^ 64" using assms(2) by (intro power_strict_increasing) auto
  from unat_of_nat64 [OF this] have "unat (2 ^ n :: u64) = 2 ^ n" by simp
  then have "unat x < 2 ^ n" using assms(1) by (simp only: word_less_nat_alt)
  then have "take_bit n (unat x) = unat x" by (rule take_bit_nat_eq_self)
  moreover have "bit (unat x) k" using assms(3) by (simp add: bit_unsigned_iff)
  ultimately show ?thesis by (metis bit_take_bit_iff)
qed

lemma bit_aligned:
  assumes "aligned pa" "bit pa k"
  shows "12 \<le> k"
proof (rule ccontr)
  assume "\<not> 12 \<le> k"
  moreover have "take_bit 12 pa = 0" using assms(1) by (simp add: aligned_def take_bit_eq_mod)
  then have "\<not> bit (take_bit 12 pa) k" by simp
  ultimately show False using assms(2) by (simp add: bit_take_bit_iff)
qed

lemma PTE2PA_PA2PTE:
  assumes "aligned pa" "pa < 2 ^ 54" "flags < 1024"
  shows "PTE2PA (PA2PTE pa OR flags) = pa"
proof (rule bit_word_eqI)
  fix n assume n: "n < LENGTH(64)"
  have "\<not> bit flags (n - 2)" if "12 \<le> n"
    using bit_small [of flags 10 "n - 2"] assms(3) that by auto
  then show "bit (PTE2PA (PA2PTE pa OR flags)) n = bit pa n"
    using bit_aligned [OF assms(1), of n] bit_small [OF assms(2), of n] n
    by (cases "n < 12")
       (auto simp: PTE2PA_def PA2PTE_def bit_push_bit_iff bit_drop_bit_eq bit_or_iff possible_bit_def)
qed

lemma PTE_FLAGS_PA2PTE:
  assumes "flags < 1024"
  shows "PTE_FLAGS (PA2PTE pa OR flags) = flags"
proof -
  have m: "(0x3FF :: u64) = mask 10" by (simp add: mask_eq_decr_exp)
  have "bit flags k \<Longrightarrow> k < 10" for k using bit_small [of flags 10 k] assms by simp
  then show ?thesis
    by (intro bit_word_eqI)
       (auto simp: PTE_FLAGS_def PA2PTE_def m bit_and_iff bit_or_iff bit_push_bit_iff bit_mask_iff)
qed

lemma PTE_V_set: "(x OR PTE_V) AND PTE_V \<noteq> 0"
proof
  assume "(x OR PTE_V) AND PTE_V = 0"
  then have "\<not> bit ((x OR PTE_V) AND PTE_V) 0" by simp
  then show False by (simp add: PTE_V_def bit_and_iff bit_or_iff)
qed

lemma PX_less: "PX l va < 512"
proof -
  have "PX l va \<le> 0x1FF" unfolding PX_def by (rule word_and_le1)
  then show ?thesis by (rule order.strict_trans1) simp
qed

lemma PX_vpn:
  assumes "va < MAXVA" "va' < MAXVA" "\<forall>k\<le>2. PX k va = PX k va'"
  shows "drop_bit 12 va = drop_bit 12 va'"
proof (rule bit_word_eqI)
  fix n assume n: "n < LENGTH(64)"
  have m: "(0x1FF :: u64) = mask 9" by (simp add: mask_eq_decr_exp)
  have M: "MAXVA = 2 ^ 38" by (simp add: MAXVA_def)
  have hi: "\<not> bit va k \<and> \<not> bit va' k" if "38 \<le> k" for k
    using bit_small [of va 38 k] bit_small [of va' 38 k] assms(1,2) that unfolding M by auto
  have px: "bit va (12 + 9 * l + j) = bit va' (12 + 9 * l + j)" if "l \<le> 2" "j < 9" for l j
  proof -
    have "bit (PX l va) j = bit (PX l va') j" using assms(3) that by simp
    then show ?thesis using that by (simp add: PX_def m bit_and_iff bit_mask_iff bit_drop_bit_eq add_ac)
  qed
  show "bit (drop_bit 12 va) n = bit (drop_bit 12 va') n"
  proof (cases "n < 27")
    case True
    then have "n div 9 \<le> 2" "n mod 9 < 9" by auto
    from px [OF this] show ?thesis by (simp add: bit_drop_bit_eq add_ac)
  next
    case False
    then show ?thesis using hi [of "12 + n"] by (simp add: bit_drop_bit_eq)
  qed
qed

section \<open>Well-formed page tables and their meaning\<close>

definition slot :: "u64 \<Rightarrow> u64 \<Rightarrow> u64" where
  "slot pt i = pt + 8 * i"

definition valid_at :: "memory \<Rightarrow> u64 \<Rightarrow> u64 \<Rightarrow> bool" where
  "valid_at m pt i \<longleftrightarrow> load64 m (slot pt i) AND PTE_V \<noteq> 0"

definition child :: "memory \<Rightarrow> u64 \<Rightarrow> u64 \<Rightarrow> u64" where
  "child m pt i = PTE2PA (load64 m (slot pt i))"

fun pt_pages :: "nat \<Rightarrow> memory \<Rightarrow> u64 \<Rightarrow> u64 set" where
  "pt_pages 0 m pt = {pt}"
| "pt_pages (Suc l) m pt =
     insert pt (\<Union>i\<in>{i. i < 512 \<and> valid_at m pt i}. pt_pages l m (child m pt i))"

fun pt_ok :: "nat \<Rightarrow> memory \<Rightarrow> u64 \<Rightarrow> bool" where
  "pt_ok 0 m pt \<longleftrightarrow> aligned pt \<and> pt \<noteq> 0"
| "pt_ok (Suc l) m pt \<longleftrightarrow> aligned pt \<and> pt \<noteq> 0
     \<and> (\<forall>i<512. valid_at m pt i \<longrightarrow> pt_ok l m (child m pt i) \<and> pt \<notin> pt_pages l m (child m pt i))
     \<and> (\<forall>i<512. \<forall>j<512. i \<noteq> j \<longrightarrow> valid_at m pt i \<longrightarrow> valid_at m pt j \<longrightarrow>
          pt_pages l m (child m pt i) \<inter> pt_pages l m (child m pt j) = {})"

text \<open>The address of the leaf entry for \<open>va\<close>, 0 when a table on the way is missing.\<close>

fun pt_find :: "nat \<Rightarrow> memory \<Rightarrow> u64 \<Rightarrow> u64 \<Rightarrow> u64" where
  "pt_find 0 m pt va = slot pt (PX 0 va)"
| "pt_find (Suc l) m pt va =
     (if valid_at m pt (PX (Suc l) va) then pt_find l m (child m pt (PX (Suc l) va)) va else 0)"

fun pt_entry :: "nat \<Rightarrow> memory \<Rightarrow> u64 \<Rightarrow> u64 \<Rightarrow> u64" where
  "pt_entry 0 m pt va = load64 m (slot pt (PX 0 va))"
| "pt_entry (Suc l) m pt va =
     (if valid_at m pt (PX (Suc l) va) then pt_entry l m (child m pt (PX (Suc l) va)) va else 0)"

lemma walk_noalloc: "walk_levels l pt va False s = Ret (pt_find l (mem s) pt va) s"
  by (induction l arbitrary: pt)
     (auto simp: Let_def slot_def valid_at_def child_def ld_def)

lemma slot_offset: "slot pt i = pt + of_nat (8 * unat i)"
  by (simp add: slot_def)

lemma slot_unat: "(i :: u64) < 512 \<Longrightarrow> 8 * unat i + 8 \<le> 4096"
  by (simp add: word_less_nat_alt)

lemma load_slot_agree:
  assumes "agree_except P m m'" "aligned pt" "pt \<notin> P" "\<forall>a\<in>P. aligned a" "i < 512"
  shows "load64 m' (slot pt i) = load64 m (slot pt i)"
  unfolding slot_offset by (rule load64_agree [OF assms(1-4) slot_unat [OF assms(5)]])

lemma agree_slot: "i < 512 \<Longrightarrow> agree_except {pt} m (store64 m (slot pt i) v)"
  unfolding slot_offset by (rule agree_store64) (rule slot_unat)

lemma load_slot_other:
  assumes "i < 512" "j < 512" "i \<noteq> j"
  shows "load64 (store64 m (slot pt i) v) (slot pt j) = load64 m (slot pt j)"
proof (rule load64_store64_disj, unfold disj_def, intro allI impI)
  fix k :: nat assume k: "k < 8"
  let ?a = "8 * unat j + k" and ?b = "8 * unat i"
  have ij: "unat i < 512" "unat j < 512" "unat i \<noteq> unat j"
    using assms by (simp_all add: word_less_nat_alt word_unat_eq_iff)
  have eq: "slot pt j + of_nat k - slot pt i = of_nat ?a - of_nat ?b"
    by (simp add: slot_def)
  have un: "unat (of_nat ?a :: u64) = ?a" by (rule unat_of_nat64) (use ij k in simp)
  have un': "unat (of_nat ?b :: u64) = ?b" by (rule unat_of_nat64) (use ij in simp)
  have "8 \<le> unat ((of_nat ?a :: u64) - of_nat ?b)"
    unfolding unat_sub64 word_le_nat_alt un un' using ij k by auto
  then show "8 \<le> unat (slot pt j + of_nat k - slot pt i)" unfolding eq .
qed

lemma pt_root_in [simp]: "pt \<in> pt_pages l m pt"
  by (cases l) auto

lemma pt_ok_aligned: "pt_ok l m pt \<Longrightarrow> aligned pt \<and> pt \<noteq> 0"
  by (cases l) auto

text \<open>Changes outside the pages of a page table do not matter to it.\<close>

lemma pt_frame:
  assumes "pt_ok l m pt" "agree_except P m m'" "P \<inter> pt_pages l m pt = {}" "\<forall>a\<in>P. aligned a"
  shows "pt_pages l m' pt = pt_pages l m pt \<and> pt_ok l m' pt
    \<and> pt_entry l m' pt = pt_entry l m pt \<and> pt_find l m' pt = pt_find l m pt"
  using assms
proof (induction l arbitrary: pt)
  case 0
  then show ?case using load_slot_agree [OF 0(2)] PX_less by auto
next
  case (Suc l)
  have slots: "load64 m' (slot pt i) = load64 m (slot pt i)" if "i < 512" for i
    using Suc.prems that by (intro load_slot_agree) auto
  then have vc: "valid_at m' pt i = valid_at m pt i" "child m' pt i = child m pt i" if "i < 512" for i
    using that by (simp_all add: valid_at_def child_def)
  have IH: "pt_pages l m' (child m pt i) = pt_pages l m (child m pt i) \<and> pt_ok l m' (child m pt i)
    \<and> pt_entry l m' (child m pt i) = pt_entry l m (child m pt i)
    \<and> pt_find l m' (child m pt i) = pt_find l m (child m pt i)" if "i < 512" "valid_at m pt i" for i
    using Suc.prems that by (intro Suc.IH) auto
  have "pt_pages (Suc l) m' pt = pt_pages (Suc l) m pt"
    using vc IH by auto
  moreover have "pt_ok (Suc l) m' pt" using Suc.prems(1) vc IH by auto
  moreover have "pt_entry (Suc l) m' pt = pt_entry (Suc l) m pt"
    using vc IH PX_less [of "Suc l"] by (auto simp: fun_eq_iff)
  moreover have "pt_find (Suc l) m' pt = pt_find (Suc l) m pt"
    using vc IH PX_less [of "Suc l"] by (auto simp: fun_eq_iff)
  ultimately show ?case by blast
qed

text \<open>A change inside the subtree of one slot.\<close>

lemma pt_child_update:
  assumes ok: "pt_ok (Suc l) m pt" and i: "i < 512" "valid_at m pt i"
    and ag: "agree_except P m m'" "\<forall>a\<in>P. aligned a"
      "P \<subseteq> pt_pages l m (child m pt i) \<union> N" "N \<inter> pt_pages (Suc l) m pt = {}"
    and sub: "pt_ok l m' (child m pt i)" "pt_pages l m' (child m pt i) \<subseteq> pt_pages l m (child m pt i) \<union> N"
  shows "pt_ok (Suc l) m' pt \<and> pt_pages (Suc l) m' pt \<subseteq> pt_pages (Suc l) m pt \<union> N
    \<and> (\<forall>va. pt_entry (Suc l) m' pt va = (if PX (Suc l) va = i then pt_entry l m' (child m pt i) va
         else pt_entry (Suc l) m pt va))
    \<and> (\<forall>va. pt_find (Suc l) m' pt va = (if PX (Suc l) va = i then pt_find l m' (child m pt i) va
         else pt_find (Suc l) m pt va))"
proof -
  have ptP: "pt \<notin> P" using ok i ag(3,4) by auto
  have "load64 m' (slot pt j) = load64 m (slot pt j)" if "j < 512" for j
    using ok ptP ag(1,2) that by (intro load_slot_agree) auto
  then have vc: "valid_at m' pt j = valid_at m pt j" "child m' pt j = child m pt j" if "j < 512" for j
    using that by (simp_all add: valid_at_def child_def)
  have other: "pt_pages l m' (child m pt j) = pt_pages l m (child m pt j) \<and> pt_ok l m' (child m pt j)
    \<and> pt_entry l m' (child m pt j) = pt_entry l m (child m pt j)
    \<and> pt_find l m' (child m pt j) = pt_find l m (child m pt j)"
    if "j < 512" "valid_at m pt j" "j \<noteq> i" for j
  proof (rule pt_frame [OF _ ag(1) _ ag(2)])
    show "pt_ok l m (child m pt j)" using ok that by auto
    have "pt_pages l m (child m pt i) \<inter> pt_pages l m (child m pt j) = {}" using ok i that by auto
    moreover have "pt_pages l m (child m pt j) \<subseteq> pt_pages (Suc l) m pt" using that by auto
    ultimately show "P \<inter> pt_pages l m (child m pt j) = {}" using ag(3,4) by blast
  qed
  have pg: "pt_pages l m' (child m pt j) \<subseteq> pt_pages l m (child m pt j) \<union> (if j = i then N else {})"
    if "j < 512" "valid_at m pt j" for j
    using other [OF that] sub(2) by auto
  have cN: "pt_pages l m (child m pt j) \<inter> N = {}" if "j < 512" "valid_at m pt j" for j
    using ag(4) that by auto
  have "pt_ok (Suc l) m' pt"
    unfolding pt_ok.simps
  proof (intro conjI allI impI)
    show "aligned pt" "pt \<noteq> 0" using ok by auto
    fix j assume j: "j < (512 :: u64)" "valid_at m' pt j"
    then have v: "valid_at m pt j" by (simp add: vc)
    show "pt_ok l m' (child m' pt j)"
      using other [OF j(1) v] sub(1) vc(2) [OF j(1)] by (cases "j = i") auto
    have "pt \<notin> pt_pages l m (child m pt j)" "pt \<notin> N" using ok j v ag(4) by auto
    then show "pt \<notin> pt_pages l m' (child m' pt j)" using pg [OF j(1) v] by (auto simp: vc j split: if_splits)
    fix k assume k: "k < (512 :: u64)" "j \<noteq> k" "valid_at m' pt k"
    then have v': "valid_at m pt k" by (simp add: vc)
    have "pt_pages l m (child m pt j) \<inter> pt_pages l m (child m pt k) = {}" using ok j v k v' by auto
    then show "pt_pages l m' (child m' pt j) \<inter> pt_pages l m' (child m' pt k) = {}"
      using pg [OF j(1) v] pg [OF k(1) v'] cN [OF j(1) v] cN [OF k(1) v'] k(2)
      by (simp add: vc j(1) k(1) split: if_splits) blast+
  qed
  moreover have "pt_pages (Suc l) m' pt \<subseteq> pt_pages (Suc l) m pt \<union> N"
    using vc pg by (fastforce split: if_splits)
  moreover have "pt_entry (Suc l) m' pt va = (if PX (Suc l) va = i then pt_entry l m' (child m pt i) va
         else pt_entry (Suc l) m pt va)" for va
    using vc i other PX_less [of "Suc l" va] by auto
  moreover have "pt_find (Suc l) m' pt va = (if PX (Suc l) va = i then pt_find l m' (child m pt i) va
         else pt_find (Suc l) m pt va)" for va
    using vc i other PX_less [of "Suc l" va] by auto
  ultimately show ?thesis by blast
qed

definition zero_table :: "memory \<Rightarrow> u64 \<Rightarrow> bool" where
  "zero_table m q \<longleftrightarrow> (\<forall>j<512. load64 m (slot q j) = 0)"

lemma zero_table_ok:
  assumes "zero_table m q" "aligned q" "q \<noteq> 0"
  shows "pt_ok l m q" "pt_pages l m q = {q}" "pt_entry l m q va = 0"
  using assms PX_less [of l va] PX_less [of 0 va]
  by (cases l; auto simp: zero_table_def valid_at_def)+

lemma zero_table_memset: "zero_table (memset m q 0 4096) q"
  unfolding zero_table_def
proof (intro allI impI)
  fix j :: u64 assume j: "j < 512"
  have "load_bytes (memset m q 0 4096) (slot q j) 8 = le_bytes 8 (0 :: u64)"
  proof (rule nth_equalityI)
    fix i assume "i < length (load_bytes (memset m q 0 4096) (slot q j) 8)"
    then have i: "i < 8" by simp
    have e: "slot q j + of_nat i - q = of_nat (8 * unat j + i)" by (simp add: slot_def)
    have u: "unat (of_nat (8 * unat j + i) :: u64) = 8 * unat j + i"
      using slot_unat [OF j] i by (intro unat_of_nat64) simp
    have "unat (slot q j + of_nat i - q) < 4096" unfolding e u using slot_unat [OF j] i by linarith
    then have "memset m q 0 4096 (slot q j + of_nat i) = 0"
      by (simp add: memset_eq store_bytes_in)
    moreover have "le_bytes 8 (0 :: u64) = replicate 8 0" by (simp add: numeral_eq_Suc)
    ultimately show "load_bytes (memset m q 0 4096) (slot q j) 8 ! i = le_bytes 8 (0 :: u64) ! i"
      using i by simp
  qed simp
  then show "load64 (memset m q 0 4096) (slot q j) = 0" by (simp add: load64_def)
qed

lemma pt_new_child:
  assumes ok: "pt_ok (Suc l) m pt" and i: "i < 512" "\<not> valid_at m pt i"
    and q: "aligned q" "q \<noteq> 0" "q < 2 ^ 54" "q \<notin> pt_pages (Suc l) m pt"
    and m1: "agree_except {q} m m1" "zero_table m1 q"
  defines "m' \<equiv> store64 m1 (slot pt i) (PA2PTE q OR PTE_V)"
  shows "pt_ok (Suc l) m' pt" "pt_pages (Suc l) m' pt = insert q (pt_pages (Suc l) m pt)"
    "valid_at m' pt i" "child m' pt i = q" "zero_table m' q" "pt_entry (Suc l) m' pt = pt_entry (Suc l) m pt"
proof -
  have pq: "pt \<noteq> q" using q(4) by auto
  have ptal: "aligned pt" using ok by simp
  have ag: "agree_except {pt} m1 m'" unfolding m'_def by (rule agree_slot [OF i(1)])
  have sl1: "load64 m1 (slot pt j) = load64 m (slot pt j)" if "j < 512" for j
    using that ptal pq q(1) by (intro load_slot_agree [OF m1(1)]) auto
  have oth: "load64 m' (slot pt j) = load64 m (slot pt j)" if "j < 512" "j \<noteq> i" for j
    unfolding m'_def using load_slot_other [OF i(1) that(1)] that sl1 by simp
  have new: "load64 m' (slot pt i) = PA2PTE q OR PTE_V" by (simp add: m'_def)
  show v: "valid_at m' pt i" unfolding valid_at_def new by (rule PTE_V_set)
  show c: "child m' pt i = q" using PTE2PA_PA2PTE [OF q(1,3), of PTE_V] by (simp add: child_def new PTE_V_def)
  show z: "zero_table m' q"
    using m1(2) load_slot_agree [OF ag q(1)] pq ptal by (auto simp: zero_table_def)
  have vo: "valid_at m' pt j = valid_at m pt j" "child m' pt j = child m pt j" if "j < 512" "j \<noteq> i" for j
    using oth [OF that] by (simp_all add: valid_at_def child_def)
  have cf: "pt_pages l m' (child m pt j) = pt_pages l m (child m pt j) \<and> pt_ok l m' (child m pt j)
    \<and> pt_entry l m' (child m pt j) = pt_entry l m (child m pt j)"
    if "j < 512" "valid_at m pt j" for j
  proof -
    have agq: "agree_except ({q} \<union> {pt}) m m'" using agree_trans [OF m1(1) ag] by simp
    have k: "pt_ok l m (child m pt j)" "pt \<notin> pt_pages l m (child m pt j)"
      "q \<notin> pt_pages l m (child m pt j)" using ok q(4) that by auto
    then show ?thesis using pt_frame [OF k(1) agq] q(1) ptal by auto
  qed
  note zt = zero_table_ok [OF z q(1,2)]
  have pages: "pt_pages l m' (child m' pt j) = (if j = i then {q} else pt_pages l m (child m pt j))"
    if "j < 512" "valid_at m' pt j" for j
    using that vo cf c zt(2) by auto
  have qn: "q \<notin> pt_pages l m (child m pt j)" if "j < 512" "valid_at m pt j" for j
    using q(4) that by auto
  show "pt_pages (Suc l) m' pt = insert q (pt_pages (Suc l) m pt)"
  proof (rule set_eqI)
    fix x
    have "(\<exists>j<512. valid_at m' pt j \<and> x \<in> pt_pages l m' (child m' pt j)) \<longleftrightarrow>
      x = q \<or> (\<exists>j<512. valid_at m pt j \<and> x \<in> pt_pages l m (child m pt j))"
      using pages vo i v by (metis insertE insertI1 singletonD)
    then show "x \<in> pt_pages (Suc l) m' pt \<longleftrightarrow> x \<in> insert q (pt_pages (Suc l) m pt)" by auto
  qed
  show "pt_ok (Suc l) m' pt"
    unfolding pt_ok.simps
  proof (intro conjI allI impI)
    show "aligned pt" "pt \<noteq> 0" using ok by auto
    fix j assume j: "j < (512 :: u64)" "valid_at m' pt j"
    show "pt_ok l m' (child m' pt j)"
      using zt(1) c cf [OF j(1)] vo [OF j(1)] j(2) by (cases "j = i") auto
    show "pt \<notin> pt_pages l m' (child m' pt j)"
      using pages [OF j] pq ok vo [OF j(1)] j by (cases "j = i") auto
    fix k assume k: "k < (512 :: u64)" "j \<noteq> k" "valid_at m' pt k"
    show "pt_pages l m' (child m' pt j) \<inter> pt_pages l m' (child m' pt k) = {}"
      using pages [OF j] pages [OF k(1,3)] ok vo [OF j(1)] vo [OF k(1)] j k qn
      by (cases "j = i"; cases "k = i") auto
  qed
  show "pt_entry (Suc l) m' pt = pt_entry (Suc l) m pt"
  proof (rule ext)
    fix va
    show "pt_entry (Suc l) m' pt va = pt_entry (Suc l) m pt va"
      using v c zt(3) i(2) vo [OF PX_less, of "Suc l" va] cf [OF PX_less, of "Suc l" va]
      by (cases "PX (Suc l) va = i") auto
  qed
qed

section \<open>Page tables and the allocator\<close>

text \<open>States that differ only in the contents of memory and the head of the free list.\<close>

definition mem_only :: "'z kmem_scheme \<Rightarrow> 'z kmem_scheme \<Rightarrow> bool" where
  "mem_only s s' \<longleftrightarrow> (\<exists>m f. s' = s\<lparr>mem := m, freelist := f\<rparr>)"

lemma mem_only_refl [simp]: "mem_only s s"
  unfolding mem_only_def by (rule exI [of _ "mem s"], rule exI [of _ "freelist s"]) simp

lemma mem_only_trans: "mem_only s t \<Longrightarrow> mem_only t u \<Longrightarrow> mem_only s u"
  by (auto simp: mem_only_def) (rule exI, rule exI, rule refl)

lemma mem_only_mem: "mem_only s (s\<lparr>mem := m\<rparr>)"
  unfolding mem_only_def by (rule exI [of _ m], rule exI [of _ "freelist s"]) simp

lemma mem_only_st [simp]: "mem_only s (st a v s)" "mem_only s (zero_page q s)"
  by (simp_all add: st_def zero_page_def mem_only_mem)

lemma mem_only_page_ok: "mem_only s s' \<Longrightarrow> page_ok s' = page_ok s"
  by (auto simp: mem_only_def)

lemma kalloc_spec:
  assumes "kalloc_inv s"
  shows "(kavail s = {} \<and> kalloc s = Ret 0 s) \<or>
    (\<exists>q s'. kalloc s = Ret q s' \<and> q \<in> kavail s \<and> q \<noteq> 0 \<and> page_ok s q \<and> kalloc_inv s' \<and> kavail s' = kavail s - {q}
      \<and> agree_except {q} (mem s) (mem s') \<and> mem_only s s')"
proof (cases "kavail s = {}")
  case True
  then show ?thesis using ka.alloc_none [OF assms] by simp
next
  case False
  obtain q s' where q: "kalloc s = Ret q s'" "q \<in> kavail s" "q \<noteq> 0" "kalloc_inv s'"
    "kavail s' = kavail s - {q}" "agree_except {q} (mem s) (mem s')"
    using ka.alloc_some [OF assms False] by blast
  moreover have "mem_only s s'"
    using q(1,3) assms kalloc_run [of s] by (auto simp: kalloc_inv_def mem_only_def split: if_splits)
  moreover have "page_ok s q" using ka.avail_valid [OF assms q(2)] .
  ultimately show ?thesis by blast
qed

lemma kalloc_inv_mem:
  assumes "kalloc_inv s" "agree_except P (mem s) m'" "P \<inter> kavail s = {}" "\<forall>a\<in>P. aligned a"
  shows "kalloc_inv (s\<lparr>mem := m'\<rparr>) \<and> kavail (s\<lparr>mem := m'\<rparr>) = kavail s"
proof -
  obtain xs where xs: "free_list s xs" and r: "kmem_ready s" using assms(1) by (auto simp: kalloc_inv_def)
  have av: "kavail s = set xs" by (rule kavail_eq [OF xs])
  have fl: "flist (mem s) (freelist s) xs" and pk: "\<forall>a\<in>set xs. aligned a"
    using xs by (auto simp: free_list_def page_ok_def)
  have "flist m' (freelist s) xs"
    by (rule flist_agree [OF fl assms(2)]) (use av assms(3,4) pk in auto)
  then have "free_list (s\<lparr>mem := m'\<rparr>) xs" using xs by (simp add: free_list_def)
  then have "kavail (s\<lparr>mem := m'\<rparr>) = set xs" "\<exists>xs. free_list (s\<lparr>mem := m'\<rparr>) xs"
    using kavail_eq by blast+
  with av r show ?thesis by (simp add: kalloc_inv_def)
qed

definition pt_sep :: "nat \<Rightarrow> 'z kmem_scheme \<Rightarrow> u64 \<Rightarrow> bool" where
  "pt_sep l s pt \<longleftrightarrow> pt_ok l (mem s) pt \<and> kalloc_inv s \<and> pt_pages l (mem s) pt \<inter> kavail s = {}"

lemma pt_pages_aligned: "pt_ok l m pt \<Longrightarrow> p \<in> pt_pages l m pt \<Longrightarrow> aligned p"
  by (induction l arbitrary: pt) auto

text \<open>What \<open>walk\<close> with \<open>alloc\<close> may do: only pages of the table and pages it took off the free list change.\<close>

definition walked :: "nat \<Rightarrow> u64 \<Rightarrow> 'z kmem_scheme \<Rightarrow> 'z kmem_scheme \<Rightarrow> bool" where
  "walked l pt s s' \<longleftrightarrow> pt_sep l s' pt \<and> mem_only s s' \<and> kavail s' \<subseteq> kavail s
     \<and> pt_pages l (mem s') pt \<subseteq> pt_pages l (mem s) pt \<union> (kavail s - kavail s')
     \<and> agree_except (pt_pages l (mem s) pt \<union> (kavail s - kavail s')) (mem s) (mem s')
     \<and> pt_entry l (mem s') pt = pt_entry l (mem s) pt"

lemma kavail_ok: "kalloc_inv s \<Longrightarrow> q \<in> kavail s \<Longrightarrow> aligned q \<and> q \<noteq> 0 \<and> q < 2 ^ 54"
proof -
  assume "kalloc_inv s" "q \<in> kavail s"
  then have "page_ok s q" by (rule ka.avail_valid)
  moreover have "PHYSTOP < 2 ^ 54" by (simp add: PHYSTOP_def KERNBASE_def)
  ultimately show ?thesis by (auto simp: page_ok_def)
qed

lemma walked_child:
  assumes sep: "pt_sep (Suc l) s pt" and i: "i < 512" "valid_at (mem s) pt i"
    and w: "walked l (child (mem s) pt i) s s'"
  shows "walked (Suc l) pt s s'"
    "PX (Suc l) va = i \<Longrightarrow> pt_find (Suc l) (mem s') pt va = pt_find l (mem s') (child (mem s) pt i) va"
proof -
  let ?c = "child (mem s) pt i" and ?N = "kavail s - kavail s'"
  let ?P = "pt_pages l (mem s) ?c \<union> ?N"
  have ok: "pt_ok (Suc l) (mem s) pt" and inv: "kalloc_inv s"
    and dj: "pt_pages (Suc l) (mem s) pt \<inter> kavail s = {}" using sep by (auto simp: pt_sep_def)
  have sub: "pt_pages l (mem s) ?c \<subseteq> pt_pages (Suc l) (mem s) pt" using i by auto
  have ag: "agree_except ?P (mem s) (mem s')" and sub': "pt_pages l (mem s') ?c \<subseteq> ?P"
    and okc: "pt_ok l (mem s') ?c" and en: "pt_entry l (mem s') ?c = pt_entry l (mem s) ?c"
    and sp: "kalloc_inv s'" "kavail s' \<subseteq> kavail s" "mem_only s s'"
    using w by (auto simp: walked_def pt_sep_def)
  have al: "\<forall>a\<in>?P. aligned a"
    using pt_pages_aligned [OF ok] sub kavail_ok [OF inv] by blast
  note u = pt_child_update [OF ok i ag al order.refl, OF _ okc sub']
  have N: "?N \<inter> pt_pages (Suc l) (mem s) pt = {}" using dj by auto
  from u [OF N] have r: "pt_ok (Suc l) (mem s') pt"
    "pt_pages (Suc l) (mem s') pt \<subseteq> pt_pages (Suc l) (mem s) pt \<union> ?N"
    "\<And>va. pt_entry (Suc l) (mem s') pt va = (if PX (Suc l) va = i then pt_entry l (mem s') ?c va
       else pt_entry (Suc l) (mem s) pt va)"
    "\<And>va. pt_find (Suc l) (mem s') pt va = (if PX (Suc l) va = i then pt_find l (mem s') ?c va
       else pt_find (Suc l) (mem s) pt va)"
    by blast+
  have "pt_entry (Suc l) (mem s') pt = pt_entry (Suc l) (mem s) pt"
    using r(3) en i by (auto simp: fun_eq_iff)
  moreover have "pt_sep (Suc l) s' pt" using r(1,2) sp dj by (auto simp: pt_sep_def)
  moreover have "agree_except (pt_pages (Suc l) (mem s) pt \<union> ?N) (mem s) (mem s')"
    using ag by (rule agree_mono) (use sub in auto)
  ultimately show "walked (Suc l) pt s s'" using r(2) sp by (simp add: walked_def)
  show "PX (Suc l) va = i \<Longrightarrow> pt_find (Suc l) (mem s') pt va = pt_find l (mem s') ?c va"
    unfolding r(4) by simp
qed

lemma walked_trans:
  assumes "walked l pt s t" "walked l pt t u" "pt_sep l s pt"
  shows "walked l pt s u"
proof -
  have "agree_except ((pt_pages l (mem s) pt \<union> (kavail s - kavail t)) \<union>
      (pt_pages l (mem t) pt \<union> (kavail t - kavail u))) (mem s) (mem u)"
    by (rule agree_trans [where ?m1.0 = "mem t"]) (use assms(1,2) in \<open>simp_all add: walked_def\<close>)
  then have "agree_except (pt_pages l (mem s) pt \<union> (kavail s - kavail u)) (mem s) (mem u)"
    by (rule agree_mono) (use assms(1,2) in \<open>auto simp: walked_def\<close>)
  moreover have "mem_only s u" using assms by (auto simp: walked_def intro: mem_only_trans)
  ultimately show ?thesis using assms by (auto simp: walked_def)
qed

lemma walked_refl: "pt_sep l s pt \<Longrightarrow> walked l pt s s"
  by (simp add: walked_def)

lemma finite_kavail [simp]: "finite (kavail s)"
proof (cases "\<exists>xs. free_list s xs")
  case True
  then show ?thesis using kavail_eq by auto
qed (simp add: kavail_def)

lemma walked_new:
  assumes sep: "pt_sep (Suc l) s pt" and i: "i < 512" "\<not> valid_at (mem s) pt i"
    and k: "kalloc s = Ret q t" "q \<noteq> 0"
  defines "u \<equiv> st (slot pt i) (PA2PTE q OR PTE_V) (zero_page q t)"
  shows "walked (Suc l) pt s u" "valid_at (mem u) pt i" "child (mem u) pt i = q"
    "card (kavail s) \<le> card (kavail u) + 1"
proof -
  have ok: "pt_ok (Suc l) (mem s) pt" and inv: "kalloc_inv s"
    and dj: "pt_pages (Suc l) (mem s) pt \<inter> kavail s = {}" using sep by (auto simp: pt_sep_def)
  have q: "q \<in> kavail s" "kalloc_inv t" "kavail t = kavail s - {q}" "agree_except {q} (mem s) (mem t)"
    "mem_only s t" using kalloc_spec [OF inv] k by auto
  have qa: "aligned q" "q \<noteq> 0" "q < 2 ^ 54" using kavail_ok [OF inv q(1)] by auto
  have ptal: "aligned pt" using ok by simp
  let ?m1 = "memset (mem t) q 0 4096"
  have ag1: "agree_except {q} (mem s) ?m1"
    using agree_trans [OF q(4) agree_memset [of q "mem t" 0]] by simp
  have mu: "mem u = store64 ?m1 (slot pt i) (PA2PTE q OR PTE_V)"
    by (simp add: u_def st_def zero_page_def)
  have qn: "q \<notin> pt_pages (Suc l) (mem s) pt" using q(1) dj by auto
  note n = pt_new_child [OF ok i qa qn ag1 zero_table_memset, folded mu]
  show "valid_at (mem u) pt i" "child (mem u) pt i = q" by (fact n)+
  have agt: "agree_except {q, pt} (mem t) (mem u)"
    unfolding mu
    by (rule agree_mono [OF agree_trans [OF agree_memset [of q "mem t" 0] agree_slot [OF i(1)]]]) auto
  have "u = t\<lparr>mem := mem u\<rparr>" by (simp add: u_def st_def zero_page_def)
  moreover have "{q, pt} \<inter> kavail t = {}" using q dj pt_root_in [of pt "Suc l" "mem s"] by blast
  ultimately have inv': "kalloc_inv u" "kavail u = kavail t"
    using kalloc_inv_mem [OF q(2) agt] qa ptal by auto
  show "card (kavail s) \<le> card (kavail u) + 1" unfolding inv'(2) q(3) by (simp add: card_Diff_singleton_if) arith
  have "mem_only s u"
    unfolding u_def by (rule mem_only_trans [OF q(5)], rule mem_only_trans [OF mem_only_st(2) [of t q]]) simp
  moreover have "agree_except (pt_pages (Suc l) (mem s) pt \<union> (kavail s - kavail u)) (mem s) (mem u)"
    by (rule agree_mono [OF agree_trans [OF q(4) agt]]) (use inv' q in auto)
  moreover have "pt_sep (Suc l) u pt" using n inv' q dj by (auto simp: pt_sep_def simp del: pt_pages.simps pt_ok.simps)
  ultimately show "walked (Suc l) pt s u"
    using n(2,6) inv' q by (auto simp: walked_def simp del: pt_pages.simps pt_entry.simps)
qed

lemma slot_nz: "aligned pt \<Longrightarrow> pt \<noteq> 0 \<Longrightarrow> i < 512 \<Longrightarrow> slot pt i \<noteq> 0"
proof -
  assume a: "aligned pt" "pt \<noteq> 0" "i < 512"
  have "in_page pt (slot pt i)"
    unfolding slot_offset using slot_unat [OF a(3)] by (intro in_page_offset) simp
  then have "unat pt \<le> unat (slot pt i)" using in_page_unat a(1) by blast
  moreover have "unat pt \<noteq> 0" using a(2) by (simp add: unat_eq_0)
  ultimately show ?thesis by auto
qed

lemma walk_levels_alloc:
  assumes "pt_sep l s pt"
  shows "\<exists>r s'. walk_levels l pt va True s = Ret r s' \<and> walked l pt s s' \<and> card (kavail s) \<le> card (kavail s') + l
    \<and> (r = 0 \<longrightarrow> kavail s' = {}) \<and> (r \<noteq> 0 \<longrightarrow> r = pt_find l (mem s') pt va)"
  using assms
proof (induction l arbitrary: pt s)
  case 0
  then show ?case
    using slot_nz [of pt "PX 0 va"] PX_less [of 0 va] walked_refl [OF 0]
    by (auto simp: slot_def pt_sep_def)
next
  case (Suc l)
  let ?i = "PX (Suc l) va"
  have step: "\<exists>r s'. walk_levels l (child (mem t) pt ?i) va True t = Ret r s' \<and> walked (Suc l) pt t s'
    \<and> card (kavail t) \<le> card (kavail s') + l \<and> (r = 0 \<longrightarrow> kavail s' = {}) \<and> (r \<noteq> 0 \<longrightarrow> r = pt_find (Suc l) (mem s') pt va)"
    if t: "pt_sep (Suc l) t pt" "valid_at (mem t) pt ?i" for t :: "'a kmem_scheme"
  proof -
    have "pt_sep l t (child (mem t) pt ?i)"
      using t PX_less [of "Suc l" va] by (auto simp: pt_sep_def)
    from Suc.IH [OF this] obtain r s' where r: "walk_levels l (child (mem t) pt ?i) va True t = Ret r s'"
      "walked l (child (mem t) pt ?i) t s'" "card (kavail t) \<le> card (kavail s') + l" "r = 0 \<longrightarrow> kavail s' = {}"
      "r \<noteq> 0 \<longrightarrow> r = pt_find l (mem s') (child (mem t) pt ?i) va" by blast
    note wc = walked_child [OF t(1) PX_less t(2) r(2)]
    show ?thesis using r wc(1) wc(2) [of va] by (intro exI [of _ r] exI [of _ s']) simp
  qed
  show ?case
  proof (cases "valid_at (mem s) pt ?i")
    case True
    from step [OF Suc.prems True] True show ?thesis
      by (fastforce simp: Let_def ld_def valid_at_def child_def slot_def)
  next
    case False
    then have unf: "walk_levels (Suc l) pt va True s = kbind (kalloc s) (\<lambda>q s.
        if q = 0 then Ret 0 s
        else walk_levels l q va True (st (slot pt ?i) (PA2PTE q OR PTE_V) (zero_page q s)))"
      by (simp add: Let_def ld_def valid_at_def slot_def cong: if_cong)
    have inv: "kalloc_inv s" using Suc.prems by (simp add: pt_sep_def)
    from kalloc_spec [OF inv] show ?thesis
    proof
      assume "kavail s = {} \<and> kalloc s = Ret 0 s"
      then show ?thesis using unf walked_refl [OF Suc.prems] by auto
    next
      assume "\<exists>q s'. kalloc s = Ret q s' \<and> q \<in> kavail s \<and> q \<noteq> 0 \<and> page_ok s q \<and> kalloc_inv s'
        \<and> kavail s' = kavail s - {q} \<and> agree_except {q} (mem s) (mem s') \<and> mem_only s s'"
      then obtain q t where q: "kalloc s = Ret q t" "q \<noteq> 0" by blast
      let ?u = "st (slot pt ?i) (PA2PTE q OR PTE_V) (zero_page q t)"
      note n = walked_new [OF Suc.prems PX_less False q]
      have "pt_sep (Suc l) ?u pt" using n(1) by (simp add: walked_def)
      from step [OF this n(2)] n(3) obtain r s' where r: "walk_levels l q va True ?u = Ret r s'"
        "walked (Suc l) pt ?u s'" "card (kavail ?u) \<le> card (kavail s') + l"
        "r = 0 \<longrightarrow> kavail s' = {}" "r \<noteq> 0 \<longrightarrow> r = pt_find (Suc l) (mem s') pt va"
        by auto
      then show ?thesis
        using unf q walked_trans [OF n(1) r(2) Suc.prems] n(4) by (intro exI [of _ r] exI [of _ s']) simp
    qed
  qed
qed

section \<open>Writing a leaf entry\<close>

lemma pt_find_entry:
  assumes "pt_ok l m pt"
  shows "if pt_find l m pt va = 0 then pt_entry l m pt va = 0
    else pt_entry l m pt va = load64 m (pt_find l m pt va)"
  using assms
proof (induction l arbitrary: pt)
  case 0
  then show ?case using slot_nz [of pt "PX 0 va"] PX_less [of 0 va] by auto
next
  case (Suc l)
  then show ?case using PX_less [of "Suc l" va] by auto
qed

lemma pt_store_leaf:
  fixes v :: u64
  assumes "pt_ok l m pt" "pt_find l m pt va \<noteq> 0"
  defines "m' \<equiv> store64 m (pt_find l m pt va) v"
  shows "pt_ok l m' pt \<and> pt_pages l m' pt \<subseteq> pt_pages l m pt
    \<and> (\<exists>p\<in>pt_pages l m pt. agree_except {p} m m')
    \<and> (\<forall>va'. pt_entry l m' pt va' = (if \<forall>k\<le>l. PX k va' = PX k va then v else pt_entry l m pt va'))"
  using assms(1,2) unfolding m'_def
proof (induction l arbitrary: pt)
  case 0
  let ?m = "store64 m (slot pt (PX 0 va)) v"
  have "load64 ?m (slot pt (PX 0 va')) = (if PX 0 va' = PX 0 va then v else load64 m (slot pt (PX 0 va')))" for va'
    using load_slot_other [OF PX_less PX_less, of 0 va 0 va'] by auto
  then show ?case using 0 agree_slot [OF PX_less, of pt m 0 va v] by auto
next
  case (Suc l)
  let ?i = "PX (Suc l) va"
  let ?c = "child m pt ?i"
  have v: "valid_at m pt ?i" and fc: "pt_find (Suc l) m pt va = pt_find l m ?c va"
    using Suc.prems(2) by (auto split: if_splits)
  let ?m = "store64 m (pt_find l m ?c va) v"
  have okc: "pt_ok l m ?c" using Suc.prems(1) v PX_less by auto
  from Suc.IH [OF okc] Suc.prems(2) fc obtain p where IH: "pt_ok l ?m ?c" "pt_pages l ?m ?c \<subseteq> pt_pages l m ?c"
    "p \<in> pt_pages l m ?c" "agree_except {p} m ?m"
    "\<And>va'. pt_entry l ?m ?c va' = (if \<forall>k\<le>l. PX k va' = PX k va then v else pt_entry l m ?c va')"
    by auto
  have "\<forall>a\<in>{p}. aligned a" using pt_pages_aligned [OF okc IH(3)] by simp
  note u = pt_child_update [OF Suc.prems(1) PX_less v IH(4) this, of "{}", OF _ _ IH(1)]
  have "pt_entry (Suc l) ?m pt va' = (if \<forall>k\<le>Suc l. PX k va' = PX k va then v else pt_entry (Suc l) m pt va')" for va'
  proof -
    have "pt_entry (Suc l) ?m pt va' = (if PX (Suc l) va' = ?i then pt_entry l ?m ?c va' else pt_entry (Suc l) m pt va')"
      using u IH(2,3) by blast
    then show ?thesis using IH(5) v by (auto simp: le_Suc_eq)
  qed
  moreover have "pt_ok (Suc l) ?m pt" "pt_pages (Suc l) ?m pt \<subseteq> pt_pages (Suc l) m pt"
    using u IH(2,3) by auto
  moreover have "p \<in> pt_pages (Suc l) m pt" using IH(3) v PX_less by auto
  ultimately show ?case using IH(4) unfolding fc by blast
qed

section \<open>mappages and walkaddr\<close>

text \<open>The leaf entry of \<open>va\<close> in the page table at \<open>pt\<close>.\<close>

abbreviation entry :: "'z kmem_scheme \<Rightarrow> u64 \<Rightarrow> u64 \<Rightarrow> u64" where
  "entry s pt va \<equiv> pt_entry 2 (mem s) pt va"

definition same_page :: "u64 \<Rightarrow> u64 \<Rightarrow> bool" where
  "same_page a b \<longleftrightarrow> drop_bit 12 a = drop_bit 12 b"

lemma PX_same_page: "va < MAXVA \<Longrightarrow> va' < MAXVA \<Longrightarrow> (\<forall>k\<le>2. PX k va' = PX k va) \<longleftrightarrow> same_page va' va"
proof -
  assume a: "va < MAXVA" "va' < MAXVA"
  have "PX k va' = PX k va" if "drop_bit 12 va' = drop_bit 12 va" for k
  proof -
    have d: "drop_bit (12 + 9 * k) x = drop_bit (9 * k) (drop_bit 12 x)" for x :: u64
      by (simp only: drop_bit_drop_bit add.commute)
    show ?thesis unfolding PX_def d that ..
  qed
  with PX_vpn [of va' va] a show ?thesis by (auto simp: same_page_def)
qed

lemma mappages_page:
  assumes sep: "pt_sep 2 s pt" and va: "aligned va" "va < MAXVA" and free: "entry s pt va AND PTE_V = 0"
  shows "\<exists>r s'. mappages pt va PGSIZE pa perm s = Ret r s' \<and> pt_sep 2 s' pt \<and> mem_only s s'
    \<and> (r = - 1 \<and> card (kavail s) \<le> 2 \<and> entry s' pt = entry s pt
      \<or> r = 0 \<and> (\<forall>va'. va' < MAXVA \<longrightarrow> entry s' pt va' =
           (if same_page va' va then PA2PTE pa OR perm OR PTE_V else entry s pt va')))
    \<and> agree_except (pt_pages 2 (mem s) pt \<union> (kavail s - kavail s')) (mem s) (mem s')
    \<and> kavail s' \<subseteq> kavail s \<and> pt_pages 2 (mem s') pt \<subseteq> pt_pages 2 (mem s) pt \<union> (kavail s - kavail s')"
proof -
  let ?v = "PA2PTE pa OR perm OR PTE_V"
  obtain r t where w: "walk_levels 2 pt va True s = Ret r t" "walked 2 pt s t"
    "r = 0 \<longrightarrow> card (kavail s) \<le> 2" "r \<noteq> 0 \<longrightarrow> r = pt_find 2 (mem t) pt va"
    using walk_levels_alloc [OF sep, of va] by fastforce
  have run: "mappages pt va PGSIZE pa perm s = (if r = 0 then Ret (- 1) t
      else if ld r t AND PTE_V \<noteq> 0 then Panic ''mappages: remap'' else Ret 0 (st r ?v t))"
    using va w(1) by (simp add: mappages_def walk_def aligned_def Let_def)
  have t: "pt_sep 2 t pt" "entry t pt = entry s pt" "mem_only s t" "kavail t \<subseteq> kavail s"
    "pt_pages 2 (mem t) pt \<subseteq> pt_pages 2 (mem s) pt \<union> (kavail s - kavail t)"
    "agree_except (pt_pages 2 (mem s) pt \<union> (kavail s - kavail t)) (mem s) (mem t)"
    using w(2) by (auto simp: walked_def)
  show ?thesis
  proof (cases "r = 0")
    case True
    then show ?thesis using run w(3) t by auto
  next
    case False
    then have r: "r = pt_find 2 (mem t) pt va" using w(4) by simp
    have ok: "pt_ok 2 (mem t) pt" "kalloc_inv t" using t(1) by (auto simp: pt_sep_def)
    have "ld r t = entry t pt va" using pt_find_entry [OF ok(1), of va] False r by (simp add: ld_def)
    then have "mappages pt va PGSIZE pa perm s = Ret 0 (st r ?v t)" using run False free t(2) by simp
    moreover obtain p where u: "pt_ok 2 (mem (st r ?v t)) pt"
      "pt_pages 2 (mem (st r ?v t)) pt \<subseteq> pt_pages 2 (mem t) pt"
      "p \<in> pt_pages 2 (mem t) pt" "agree_except {p} (mem t) (mem (st r ?v t))"
      "\<And>va'. entry (st r ?v t) pt va' = (if \<forall>k\<le>2. PX k va' = PX k va then ?v else entry t pt va')"
      using pt_store_leaf [OF ok(1), of va ?v] False r by (auto simp: st_def)
    moreover have pav: "p \<notin> kavail t" using u(3) t(1) by (auto simp: pt_sep_def)
    moreover have "kalloc_inv (st r ?v t)" "kavail (st r ?v t) = kavail t"
      using kalloc_inv_mem [OF ok(2) u(4)] pav pt_pages_aligned [OF ok(1) u(3)] by (auto simp: st_def)
    moreover have "agree_except (pt_pages 2 (mem s) pt \<union> (kavail s - kavail t)) (mem s) (mem (st r ?v t))"
      using agree_mono [OF agree_trans [OF t(6) u(4)]] u(3) t(5) by blast
    moreover have "mem_only s (st r ?v t)" using t(3) mem_only_st(1) mem_only_trans by blast
    moreover have "entry (st r ?v t) pt va' = (if same_page va' va then ?v else entry s pt va')"
      if "va' < MAXVA" for va'
      using u(5) [of va'] PX_same_page [OF va(2) that] t(2) by simp
    ultimately show ?thesis using t by (intro exI [of _ 0] exI [of _ "st r ?v t"]) (auto simp: pt_sep_def)
  qed
qed

lemma walkaddr_run:
  assumes "pt_ok 2 (mem s) pt"
  shows "walkaddr pt va s = Ret
    (if va < MAXVA \<and> entry s pt va AND PTE_V \<noteq> 0 \<and> entry s pt va AND PTE_U \<noteq> 0
     then PTE2PA (entry s pt va) else 0) s"
  using pt_find_entry [OF assms, of va]
  by (auto simp: walkaddr_def walk_def walk_noalloc ld_def not_less split: if_splits)

lemma uvmcreate_sep:
  assumes "kalloc_inv s" "kavail s \<noteq> {}"
  shows "\<exists>pt s'. uvmcreate s = Ret pt s' \<and> pt_sep 2 s' pt \<and> kavail s' = kavail s - {pt} \<and> pt \<in> kavail s
    \<and> mem_only s s' \<and> pt_pages 2 (mem s') pt = {pt} \<and> (\<forall>va. entry s' pt va = 0)"
proof -
  obtain q t where q: "kalloc s = Ret q t" "q \<in> kavail s" "q \<noteq> 0" "kalloc_inv t" "kavail t = kavail s - {q}"
    "agree_except {q} (mem s) (mem t)" "mem_only s t"
    using kalloc_spec [OF assms(1)] assms(2) by blast
  have al: "aligned q" using kavail_ok [OF assms(1) q(2)] by simp
  let ?u = "zero_page q t"
  have mu: "mem ?u = memset (mem t) q 0 4096" "?u = t\<lparr>mem := memset (mem t) q 0 4096\<rparr>"
    by (simp_all add: zero_page_def)
  have inv: "kalloc_inv ?u" "kavail ?u = kavail t"
    using kalloc_inv_mem [OF q(4) agree_memset [of q "mem t" 0]] q(5) al unfolding mu(2) by auto
  have zt: "zero_table (mem ?u) q" unfolding mu(1) by (rule zero_table_memset)
  note z = zero_table_ok [OF zt al q(3)]
  have "pt_sep 2 ?u q" using z(1) z(2) inv q(5) by (simp add: pt_sep_def)
  moreover have "mem_only s ?u" using q(7) mem_only_st(2) mem_only_trans by blast
  moreover have "uvmcreate s = Ret q ?u" using q(1,3) by (simp add: uvmcreate_def)
  ultimately show ?thesis using q z(2,3) inv by blast
qed

section \<open>Properties\<close>

text \<open>
  C6: Mapping a page. On a well-formed page table \<open>mappages\<close> of one unmapped page returns; it
  returns -1 only if at most two pages were free, and then every translation is as before;
  otherwise \<open>walkaddr\<close> finds exactly the physical page that was mapped at \<open>va\<close>, the entry
  carries exactly the permissions asked for, and every other page translates as before. The
  page table stays well formed and apart from the free pages.
\<close>

theorem mappages_translates:
  assumes "pt_sep 2 s pt" "aligned va" "va < MAXVA" "entry s pt va AND PTE_V = 0"
    and "aligned pa" "pa < 2 ^ 54" "perm < 1024" "perm AND PTE_U \<noteq> 0"
  shows "\<exists>r s'. mappages pt va PGSIZE pa perm s = Ret r s' \<and> pt_sep 2 s' pt
    \<and> (r = 0 \<and> walkaddr pt va s' = Ret pa s' \<and> PTE_FLAGS (entry s' pt va) = perm OR PTE_V
         \<and> (\<forall>va' x. \<not> same_page va' va \<longrightarrow> (walkaddr pt va' s' = Ret x s' \<longleftrightarrow> walkaddr pt va' s = Ret x s))
      \<or> r = - 1 \<and> card (kavail s) \<le> 2
         \<and> (\<forall>va' x. walkaddr pt va' s' = Ret x s' \<longleftrightarrow> walkaddr pt va' s = Ret x s))"
proof -
  let ?e = "PA2PTE pa OR perm OR PTE_V"
  obtain r s' where m: "mappages pt va PGSIZE pa perm s = Ret r s'" "pt_sep 2 s' pt"
    "r = - 1 \<and> card (kavail s) \<le> 2 \<and> entry s' pt = entry s pt
      \<or> r = 0 \<and> (\<forall>va'. va' < MAXVA \<longrightarrow> entry s' pt va' = (if same_page va' va then ?e else entry s pt va'))"
    using mappages_page [OF assms(1-4), of pa perm] by blast
  have ok: "pt_ok 2 (mem s) pt" "pt_ok 2 (mem s') pt" using assms(1) m(2) by (auto simp: pt_sep_def)
  note w = walkaddr_run [OF ok(1)] walkaddr_run [OF ok(2)]
  have perm: "perm OR PTE_V < 1024"
  proof -
    have "take_bit 10 perm = perm" using bit_small [of perm 10] assms(7)
      by (intro bit_word_eqI) (auto simp: bit_take_bit_iff)
    moreover have "take_bit 10 PTE_V = PTE_V" by (simp add: PTE_V_def)
    ultimately have "perm OR PTE_V = take_bit 10 (perm OR PTE_V)" by simp
    also have "\<dots> = (perm OR PTE_V) mod 1024" by (simp add: take_bit_eq_mod)
    also have "\<dots> < 1024" by (rule word_mod_less_divisor) simp
    finally show ?thesis .
  qed
  have e: "PTE2PA ?e = pa" "PTE_FLAGS ?e = perm OR PTE_V"
    using PTE2PA_PA2PTE [OF assms(5,6) perm] PTE_FLAGS_PA2PTE [OF perm] by (simp_all add: or.assoc)
  have ev: "?e AND PTE_V \<noteq> 0" by (metis PTE_V_set or.assoc)
  have eu: "?e AND PTE_U \<noteq> 0"
    using assms(8) by (simp add: bit.conj_disj_distrib2 or_eq_0_iff)
  from m(3) show ?thesis
  proof
    assume "r = - 1 \<and> card (kavail s) \<le> 2 \<and> entry s' pt = entry s pt"
    with m w show ?thesis by auto
  next
    assume r: "r = 0 \<and> (\<forall>va'. va' < MAXVA \<longrightarrow> entry s' pt va' = (if same_page va' va then ?e else entry s pt va'))"
    then have en: "entry s' pt va = ?e" using assms(3) by (simp add: same_page_def)
    then have A: "walkaddr pt va s' = Ret pa s'" using w(2) assms(3) e ev eu by simp
    have B: "PTE_FLAGS (entry s' pt va) = perm OR PTE_V" using en e by simp
    have C: "walkaddr pt va' s' = Ret x s' \<longleftrightarrow> walkaddr pt va' s = Ret x s" if "\<not> same_page va' va" for va' x
      using r that unfolding w by (cases "va' < MAXVA") auto
    show ?thesis
      by (rule exI [of _ r], rule exI [of _ s'], intro conjI disjI1 allI impI)
         (rule m(1), rule m(2), use r in blast, rule A, rule B, rule C, assumption)
  qed
qed

lemma boot_page_table:
  "\<exists>s pt t. kinit boot_kmem = Ret () s \<and> uvmcreate s = Ret pt t \<and> pt_sep 2 t pt \<and> 3 \<le> card (kavail t)
     \<and> kavail t \<union> pt_pages 2 (mem t) pt \<subseteq> {a. 0x80021000 \<le> a} \<and> (\<forall>va. entry t pt va = 0)"
proof -
  let ?A = "{0x80021000, 0x80022000, 0x80023000, 0x80024000} :: u64 set"
  obtain s where s: "kinit boot_kmem = Ret () s" "kalloc_inv s"
    "kavail s = {a. aligned a \<and> 0x80021000 \<le> a \<and> a < PHYSTOP}"
    using kinit_spec [of boot_kmem] boot_kmem_ok by auto
  then have A: "?A \<subseteq> kavail s" by (simp add: PHYSTOP_def KERNBASE_def aligned_def)
  then obtain pt t where t: "uvmcreate s = Ret pt t" "pt_sep 2 t pt" "kavail t = kavail s - {pt}"
    "pt \<in> kavail s" "pt_pages 2 (mem t) pt = {pt}" "\<forall>va. entry t pt va = 0"
    using uvmcreate_sep [OF s(2)] by blast
  have "3 \<le> card (?A - {pt})" by (simp add: card_Diff_singleton_if)
  also have "\<dots> \<le> card (kavail t)" using A t(3) by (intro card_mono) auto
  finally have "3 \<le> card (kavail t)" .
  moreover have "kavail t \<union> pt_pages 2 (mem t) pt \<subseteq> {a. 0x80021000 \<le> a}"
    unfolding t(3,5) using s(3) t(4) by auto
  ultimately show ?thesis using s(1) t(1,2,6) by blast
qed

theorem mappages_translates_witness:
  "\<exists>s pt t u. kinit boot_kmem = Ret () s \<and> uvmcreate s = Ret pt t
     \<and> mappages pt 0x3000 PGSIZE 0x80400000 (PTE_R OR PTE_U) t = Ret 0 u
     \<and> walkaddr pt 0x3000 u = Ret 0x80400000 u"
proof -
  obtain s pt t where t: "kinit boot_kmem = Ret () s" "uvmcreate s = Ret pt t" "pt_sep 2 t pt"
    "3 \<le> card (kavail t)" "entry t pt 0x3000 AND PTE_V = 0" using boot_page_table by fastforce
  have "\<exists>r u. mappages pt 0x3000 PGSIZE 0x80400000 (PTE_R OR PTE_U) t = Ret r u
    \<and> (r = 0 \<and> walkaddr pt 0x3000 u = Ret 0x80400000 u \<or> r = - 1 \<and> card (kavail t) \<le> 2)"
    using mappages_translates [where pa = "0x80400000" and perm = "PTE_R OR PTE_U", OF t(3) _ _ t(5)]
    by (auto simp: aligned_def MAXVA_def pte_flag_defs)
  with t(1,2,4) show ?thesis by auto
qed

end
