(* ===== verification/UserCopy.thy ===== *)
theory UserCopy
  imports PageTable
begin

text \<open>
  \<open>copyout\<close> and \<open>copyin\<close> move bytes through the page table: for mapped pages they are the
  byte-by-byte copy through the translation \<open>uaddr\<close>, whatever the alignment and however many
  pages the range spans.
\<close>

section \<open>Addresses\<close>

definition pgoff :: "u64 \<Rightarrow> nat" where
  "pgoff a = unat a mod 4096"

text \<open>The physical address behind a user address.\<close>

definition uaddr :: "'z kmem_scheme \<Rightarrow> u64 \<Rightarrow> u64 \<Rightarrow> u64" where
  "uaddr s pt va = PTE2PA (entry s pt va) + of_nat (pgoff va)"

lemma pgoff_less: "pgoff a < 4096"
  by (simp add: pgoff_def)

lemma sub_PGROUNDDOWN: "a - PGROUNDDOWN a = of_nat (pgoff a)"
proof -
  have "unat (PGROUNDDOWN a) = unat a div 4096 * 4096" by (rule PGROUNDDOWN_unat)
  then have "PGROUNDDOWN a = of_nat (unat a div 4096 * 4096)" by (metis of_nat_unat ucast_id)
  moreover have "a = of_nat (unat a div 4096 * 4096 + unat a mod 4096)" by simp
  ultimately show ?thesis unfolding pgoff_def by (metis add_diff_cancel_left' of_nat_add)
qed

lemma same_page_unat: "same_page a b \<longleftrightarrow> unat a div 4096 = unat b div 4096"
proof -
  have "unat (drop_bit 12 x) = unat x div 4096" for x :: u64
    by (simp only: unat_drop_bit_eq) (simp add: drop_bit_eq_div)
  then show ?thesis unfolding same_page_def by (metis word_unat_eq_iff)
qed

lemma same_page_PGROUNDDOWN: "same_page (PGROUNDDOWN a) a"
  by (simp add: same_page_unat PGROUNDDOWN_unat)

lemma entry_same_page: "same_page a b \<Longrightarrow> pt_entry l m pt a = pt_entry l m pt b"
proof (induction l arbitrary: pt)
  case 0
  have "PX 0 a = PX 0 b" using 0 by (simp add: PX_def same_page_def)
  then show ?case by simp
next
  case (Suc l)
  have "drop_bit (12 + 9 * Suc l) x = drop_bit (9 * Suc l) (drop_bit 12 x)" for x :: u64
    by (simp only: drop_bit_drop_bit add.commute)
  then have "PX (Suc l) a = PX (Suc l) b" using Suc.prems by (simp only: PX_def same_page_def)
  with Suc show ?case by simp
qed

lemma MAXVA_unat: "a < MAXVA \<longleftrightarrow> unat a < 2 ^ 38"
  by (simp add: MAXVA_def word_less_nat_alt)

text \<open>A user range that is mapped, in the sense \<open>copyin\<close> needs and, with \<open>w\<close>, \<open>copyout\<close>.\<close>

definition user_range :: "'z kmem_scheme \<Rightarrow> u64 \<Rightarrow> bool \<Rightarrow> u64 \<Rightarrow> nat \<Rightarrow> bool" where
  "user_range s pt w va n \<longleftrightarrow> unat va + n \<le> 2 ^ 38 \<and>
     (\<forall>i<n. let e = entry s pt (va + of_nat i) in
        e AND PTE_V \<noteq> 0 \<and> e AND PTE_U \<noteq> 0 \<and> PTE2PA e \<noteq> 0 \<and> (w \<longrightarrow> e AND PTE_W \<noteq> 0))"

lemma unat_va: "unat va + n \<le> 2 ^ 38 \<Longrightarrow> i < n \<Longrightarrow> unat ((va :: u64) + of_nat i) = unat va + i"
  by (subst unat_add_lt) simp_all

lemma chunk_same_page:
  assumes "unat va + n \<le> 2 ^ 38" "i < n" "i < 4096 - pgoff va"
  shows "same_page (va + of_nat i) va" "pgoff (va + of_nat i) = pgoff va + i"
proof -
  have u: "unat (va + of_nat i) = unat va + i" using assms by (intro unat_va)
  obtain d r where dr: "unat va = 4096 * d + r" "r < 4096"
    using that [of "unat va div 4096" "unat va mod 4096"] by simp
  have ri: "r + i < 4096" using assms(3) dr by (simp add: pgoff_def)
  have "(unat va + i) div 4096 = unat va div 4096 \<and> (unat va + i) mod 4096 = unat va mod 4096 + i"
    using dr(2) ri by (simp add: dr(1) add.assoc)
  then show "same_page (va + of_nat i) va" "pgoff (va + of_nat i) = pgoff va + i"
    unfolding same_page_unat pgoff_def u by simp_all
qed

lemma next_page:
  assumes "unat va + n \<le> 2 ^ 38" "4096 - pgoff va \<le> n"
  shows "PGROUNDDOWN va + PGSIZE = va + of_nat (4096 - pgoff va)"
proof -
  let ?x = "of_nat (4096 - pgoff va) :: u64"
  have "va = PGROUNDDOWN va + of_nat (pgoff va)" unfolding sub_PGROUNDDOWN [symmetric] by simp
  then have "va + ?x = (PGROUNDDOWN va + of_nat (pgoff va)) + ?x" by (rule arg_cong [where f = "\<lambda>y. y + ?x"])
  also have "\<dots> = PGROUNDDOWN va + of_nat (pgoff va + (4096 - pgoff va))" by (simp only: add.assoc of_nat_add)
  finally have "va + ?x = PGROUNDDOWN va + of_nat (pgoff va + (4096 - pgoff va))" .
  moreover have "pgoff va + (4096 - pgoff va) = 4096" using pgoff_less [of va] by simp
  ultimately show ?thesis by simp
qed

section \<open>copyin\<close>

lemma user_page_run:
  assumes "pt_ok 2 (mem s) pt" "user_range s pt w va n" "0 < n"
  shows "user_page pt (PGROUNDDOWN va) s = Ret (PTE2PA (entry s pt va)) s"
    "\<not> MAXVA \<le> PGROUNDDOWN va" "PTE2PA (entry s pt va) \<noteq> 0"
proof -
  have en: "entry s pt (PGROUNDDOWN va) = entry s pt va"
    by (rule entry_same_page [OF same_page_PGROUNDDOWN])
  have e: "entry s pt va AND PTE_V \<noteq> 0" "entry s pt va AND PTE_U \<noteq> 0" "PTE2PA (entry s pt va) \<noteq> 0"
    using assms(2,3) by (auto simp: user_range_def Let_def dest: spec [of _ 0])
  have "unat (PGROUNDDOWN va) \<le> unat va" unfolding PGROUNDDOWN_unat by simp
  also have "\<dots> < 2 ^ 38" using assms(2,3) by (simp add: user_range_def)
  finally have lt: "PGROUNDDOWN va < MAXVA" by (simp only: MAXVA_unat)
  then show "\<not> MAXVA \<le> PGROUNDDOWN va" by simp
  show "PTE2PA (entry s pt va) \<noteq> 0" by (fact e)
  show "user_page pt (PGROUNDDOWN va) s = Ret (PTE2PA (entry s pt va)) s"
    using lt e by (simp add: user_page_def walkaddr_run [OF assms(1)] en)
qed

lemma user_range_drop:
  assumes "user_range s pt w va n" "k \<le> n"
  shows "user_range s pt w (va + of_nat k) (n - k)"
proof (cases "k = n")
  case True
  then show ?thesis using assms unat_add_lt [of va n] by (simp add: user_range_def)
next
  case False
  then have "unat (va + of_nat k) = unat va + k" using assms unat_va [of va n k] by (simp add: user_range_def)
  moreover have "entry s pt (va + of_nat k + of_nat i) = entry s pt (va + of_nat (k + i))" for i
    by (simp add: add.assoc)
  moreover have "i < n - k \<Longrightarrow> k + i < n" for i by simp
  ultimately show ?thesis using assms unfolding user_range_def by (metis (no_types, lifting) add.assoc le_add_diff_inverse)
qed

lemma uaddr_chunk:
  assumes "unat va + n \<le> 2 ^ 38" "i < n" "i < 4096 - pgoff va"
  shows "uaddr s pt (va + of_nat i) = PTE2PA (entry s pt va) + of_nat (pgoff va) + of_nat i"
  using chunk_same_page [OF assms] entry_same_page [of "va + of_nat i" va 2 "mem s" pt]
  by (simp add: uaddr_def)

text \<open>The bytes a user range holds.\<close>

definition ubytes :: "'z kmem_scheme \<Rightarrow> u64 \<Rightarrow> u64 \<Rightarrow> nat \<Rightarrow> u8 list" where
  "ubytes s pt va n = map (\<lambda>i. mem s (uaddr s pt (va + of_nat i))) [0..<n]"

lemma ubytes_split:
  assumes "k \<le> n"
  shows "ubytes s pt va n = ubytes s pt va k @ ubytes s pt (va + of_nat k) (n - k)"
proof -
  have "[0..<n] = [0..<k] @ map (\<lambda>i. i + k) [0..<n - k]"
    using upt_add_eq_append [of 0 k "n - k"] map_add_upt [of k "n - k"] assms by simp
  then show ?thesis by (simp add: ubytes_def add_ac comp_def)
qed

lemma ubytes_chunk:
  assumes "unat va + n \<le> 2 ^ 38" "k \<le> n" "k \<le> 4096 - pgoff va"
  shows "ubytes s pt va k = load_bytes (mem s) (PTE2PA (entry s pt va) + of_nat (pgoff va)) k"
  unfolding ubytes_def load_bytes_def
  by (rule map_cong [OF refl]) (use assms in \<open>simp add: uaddr_chunk [OF assms(1)]\<close>)

lemma copyin_loop_run:
  assumes "pt_ok 2 (mem s) pt" "user_range s pt w va len" "len \<le> f"
  shows "copyin_loop f pt dst va len s = Ret (0, dst @ ubytes s pt va len) s"
  using assms(2,3)
proof (induction f arbitrary: dst va len)
  case 0
  then show ?case by (simp add: ubytes_def copyin_loop.simps)
next
  case (Suc f)
  show ?case
  proof (cases "len = 0")
    case True
    then show ?thesis by (simp add: ubytes_def copyin_loop.simps)
  next
    case False
    let ?n = "min (4096 - pgoff va) len" and ?e = "PTE2PA (entry s pt va)"
    have rg: "unat va + len \<le> 2 ^ 38" using Suc.prems by (simp add: user_range_def)
    note up = user_page_run [OF assms(1) Suc.prems(1)]
    have un: "unat (va - PGROUNDDOWN va) = pgoff va"
      using pgoff_less [of va] by (simp add: sub_PGROUNDDOWN unat_of_nat64)
    have step: "copyin_loop (Suc f) pt dst va len s =
        copyin_loop f pt (dst @ load_bytes (mem s) (?e + of_nat (pgoff va)) ?n) (PGROUNDDOWN va + PGSIZE) (len - ?n) s"
      using False up by (subst copyin_loop.simps) (simp add: Let_def un, simp add: sub_PGROUNDDOWN [of va])
    have ch: "load_bytes (mem s) (?e + of_nat (pgoff va)) ?n = ubytes s pt va ?n"
      using ubytes_chunk [OF rg, of ?n s pt] by simp
    have n0: "0 < ?n" using False pgoff_less [of va] by simp
    show ?thesis
    proof (cases "4096 - pgoff va \<le> len")
      case True
      have va: "PGROUNDDOWN va + PGSIZE = va + of_nat ?n" using next_page [OF rg True] True by simp
      have "copyin_loop f pt (dst @ ubytes s pt va ?n) (va + of_nat ?n) (len - ?n) s =
          Ret (0, (dst @ ubytes s pt va ?n) @ ubytes s pt (va + of_nat ?n) (len - ?n)) s"
        using Suc.prems n0 by (intro Suc.IH user_range_drop) auto
      then show ?thesis unfolding step ch va using ubytes_split [of ?n len s pt va] by simp
    next
      case False
      then have "?n = len" by simp
      then show ?thesis unfolding step ch by (simp add: copyin_loop.simps)
    qed
  qed
qed

section \<open>copyout\<close>

definition upages :: "'z kmem_scheme \<Rightarrow> u64 \<Rightarrow> u64 \<Rightarrow> nat \<Rightarrow> u64 set" where
  "upages s pt va n = (\<lambda>i. PTE2PA (entry s pt (va + of_nat i))) ` {..<n}"

text \<open>The pages behind a range are not page-table pages, and different pages are behind different pages.\<close>

definition user_pages_ok :: "'z kmem_scheme \<Rightarrow> u64 \<Rightarrow> u64 \<Rightarrow> nat \<Rightarrow> bool" where
  "user_pages_ok s pt va n \<longleftrightarrow> upages s pt va n \<inter> pt_pages 2 (mem s) pt = {} \<and>
     (\<forall>i<n. \<forall>j<n. PTE2PA (entry s pt (va + of_nat i)) = PTE2PA (entry s pt (va + of_nat j))
        \<longrightarrow> same_page (va + of_nat i) (va + of_nat j))"

lemma PTE2PA_aligned: "aligned (PTE2PA e)"
proof -
  have "take_bit 12 (PTE2PA e) = 0"
    by (rule bit_word_eqI) (auto simp: PTE2PA_def bit_take_bit_iff bit_push_bit_iff)
  then show ?thesis by (simp add: aligned_def take_bit_eq_mod)
qed

lemma upages_aligned: "\<forall>a\<in>upages s pt va n. aligned a"
  by (auto simp: upages_def PTE2PA_aligned)

lemma upages_drop: "k \<le> n \<Longrightarrow> upages s pt (va + of_nat k) (n - k) \<subseteq> upages s pt va n"
proof
  fix x assume "k \<le> n" "x \<in> upages s pt (va + of_nat k) (n - k)"
  then obtain i where "i < n - k" "x = PTE2PA (entry s pt (va + of_nat (k + i)))"
    by (auto simp: upages_def add.assoc)
  then show "x \<in> upages s pt va n" by (auto simp: upages_def intro!: image_eqI [of _ _ "k + i"])
qed

lemma user_pages_drop:
  assumes "user_pages_ok s pt va n" "k \<le> n"
  shows "user_pages_ok s pt (va + of_nat k) (n - k)"
proof -
  have a: "va + of_nat k + of_nat i = va + of_nat (k + i)" for i by (simp add: add.assoc)
  have "k + i < n" if "i < n - k" for i using that by simp
  then show ?thesis
    using assms upages_drop [OF assms(2), of s pt va] unfolding user_pages_ok_def a by blast
qed

lemma mem_change:
  assumes "pt_ok 2 (mem s) pt" "agree_except P (mem s) m" "P \<inter> pt_pages 2 (mem s) pt = {}" "\<forall>a\<in>P. aligned a"
  shows "pt_ok 2 m pt" "pt_pages 2 m pt = pt_pages 2 (mem s) pt" "entry (s\<lparr>mem := m\<rparr>) pt = entry s pt"
    "user_range (s\<lparr>mem := m\<rparr>) pt w = user_range s pt w" "upages (s\<lparr>mem := m\<rparr>) pt = upages s pt"
    "user_pages_ok (s\<lparr>mem := m\<rparr>) pt = user_pages_ok s pt" "uaddr (s\<lparr>mem := m\<rparr>) pt = uaddr s pt"
  using pt_frame [OF assms]
  by (auto simp: user_range_def upages_def user_pages_ok_def uaddr_def fun_eq_iff)

lemma chunk_not_later:
  assumes ok: "user_pages_ok s pt va n" and rg: "unat va + n \<le> 2 ^ 38" and k: "4096 - pgoff va \<le> n" "k = 4096 - pgoff va"
  shows "PTE2PA (entry s pt va) \<notin> upages s pt (va + of_nat k) (n - k)"
proof
  assume "PTE2PA (entry s pt va) \<in> upages s pt (va + of_nat k) (n - k)"
  then obtain i where i: "i < n - k" "PTE2PA (entry s pt (va + of_nat 0)) = PTE2PA (entry s pt (va + of_nat (k + i)))"
    by (auto simp: upages_def add.assoc)
  have "0 < n" "k + i < n" using i(1) by auto
  then have sp: "same_page (va + of_nat 0) (va + of_nat (k + i))"
    using ok i(2) unfolding user_pages_ok_def by blast
  have u: "unat (va + of_nat (k + i)) = unat va + (k + i)"
    using rg \<open>k + i < n\<close> by (rule unat_va)
  obtain d r where dr: "unat va = 4096 * d + r" "r < 4096"
    using that [of "unat va div 4096" "unat va mod 4096"] by simp
  then have "unat va + (k + i) = 4096 * (d + 1) + i" using k(2) by (simp add: pgoff_def)
  then have "(unat va + (k + i)) div 4096 \<ge> d + 1" by simp
  moreover have "unat va div 4096 = d" using dr by simp
  ultimately show False using sp unfolding same_page_unat u by simp
qed

lemma copyout_loop_run:
  assumes "pt_ok 2 (mem s) pt" "user_range s pt True va (length src)" "length src \<le> f"
    "user_pages_ok s pt va (length src)"
  shows "\<exists>m'. copyout_loop f pt va src s = Ret 0 (s\<lparr>mem := m'\<rparr>)
    \<and> agree_except (upages s pt va (length src)) (mem s) m'
    \<and> ubytes (s\<lparr>mem := m'\<rparr>) pt va (length src) = src"
  using assms
proof (induction f arbitrary: va src s)
  case 0
  then show ?case
    by (intro exI [of _ "mem s"]) (simp add: copyout_loop.simps ubytes_def)
next
  case (Suc f)
  show ?case
  proof (cases "src = []")
    case True
    then show ?thesis by (intro exI [of _ "mem s"]) (simp add: copyout_loop.simps ubytes_def)
  next
    case False
    let ?len = "length src" and ?e = "entry s pt va"
    let ?p = "PTE2PA ?e"
    define n where "n = min (4096 - pgoff va) ?len"
    define m1 where "m1 = store_bytes (mem s) (?p + of_nat (pgoff va)) (take n src)"
    let ?s = "s\<lparr>mem := m1\<rparr>"
    have pos: "0 < ?len" using False by simp
    have rg: "unat va + ?len \<le> 2 ^ 38" using Suc.prems by (simp add: user_range_def)
    note up = user_page_run [OF Suc.prems(1,2) pos]
    have en: "entry s pt (PGROUNDDOWN va) = ?e" by (rule entry_same_page [OF same_page_PGROUNDDOWN])
    have ev: "?e AND PTE_V \<noteq> 0" "?e AND PTE_W \<noteq> 0"
      using Suc.prems(2) pos by (auto simp: user_range_def Let_def dest: spec [of _ 0])
    have wk: "walk pt (PGROUNDDOWN va) False s = Ret (pt_find 2 (mem s) pt (PGROUNDDOWN va)) s"
      using up(2) by (simp add: walk_def walk_noalloc)
    have pf: "pt_find 2 (mem s) pt (PGROUNDDOWN va) \<noteq> 0" "ld (pt_find 2 (mem s) pt (PGROUNDDOWN va)) s = ?e"
      using pt_find_entry [OF Suc.prems(1), of "PGROUNDDOWN va"] ev(1) en by (auto simp: ld_def split: if_splits)
    have un: "unat (va - PGROUNDDOWN va) = pgoff va"
      using pgoff_less [of va] by (simp add: sub_PGROUNDDOWN unat_of_nat64)
    have step: "copyout_loop (Suc f) pt va src s = copyout_loop f pt (PGROUNDDOWN va + PGSIZE) (drop n src) ?s"
      using False up wk pf ev(2)
      by (subst copyout_loop.simps) (simp add: Let_def un n_def m1_def, simp add: sub_PGROUNDDOWN [of va])
    have p_up: "?p \<in> upages s pt va ?len" using pos by (auto simp: upages_def intro!: image_eqI [of _ _ 0])
    then have pnot: "{?p} \<inter> pt_pages 2 (mem s) pt = {}" using Suc.prems(4) by (auto simp: user_pages_ok_def)
    have ag: "agree_except {?p} (mem s) m1"
      unfolding m1_def using pgoff_less [of va] by (intro agree_store) (simp add: n_def)
    have al: "\<forall>a\<in>{?p}. aligned a" by (simp add: PTE2PA_aligned)
    note mc = mem_change [OF Suc.prems(1) ag pnot al]
    have n: "0 < n" "n \<le> ?len" "n \<le> 4096 - pgoff va" using pos pgoff_less [of va] by (auto simp: n_def)
    have chunk: "ubytes ?s pt va n = take n src"
      using ubytes_chunk [OF rg n(2,3), of ?s pt] mc(3) load_store_same [of "take n src" n "mem s"] n rg
      by (simp add: m1_def)
    show ?thesis
    proof (cases "4096 - pgoff va \<le> ?len")
      case True
      then have n': "n = 4096 - pgoff va" by (simp add: n_def)
      have va: "PGROUNDDOWN va + PGSIZE = va + of_nat n" using next_page [OF rg True] n' by simp
      let ?U = "upages s pt (va + of_nat n) (?len - n)"
      have "\<exists>m'. copyout_loop f pt (va + of_nat n) (drop n src) ?s = Ret 0 (?s\<lparr>mem := m'\<rparr>)
        \<and> agree_except (upages ?s pt (va + of_nat n) (length (drop n src))) (mem ?s) m'
        \<and> ubytes (?s\<lparr>mem := m'\<rparr>) pt (va + of_nat n) (length (drop n src)) = drop n src"
        using Suc.prems(2-4) n
        by (intro Suc.IH) (simp_all add: mc user_range_drop user_pages_drop)
      then obtain m' where m': "copyout_loop f pt (va + of_nat n) (drop n src) ?s = Ret 0 (s\<lparr>mem := m'\<rparr>)"
        "agree_except ?U m1 m'" "ubytes (s\<lparr>mem := m'\<rparr>) pt (va + of_nat n) (?len - n) = drop n src"
        by (auto simp: mc)
      have agt: "agree_except (upages s pt va ?len) (mem s) m'"
        by (rule agree_mono [OF agree_trans [OF ag m'(2)]]) (use p_up upages_drop [OF n(2), of s pt va] in auto)
      have fin: "entry (s\<lparr>mem := m'\<rparr>) pt = entry s pt"
        by (rule mem_change(3) [OF Suc.prems(1) agt _ upages_aligned])
           (use Suc.prems(4) in \<open>auto simp: user_pages_ok_def\<close>)
      have "load_bytes m' (?p + of_nat (pgoff va)) n = load_bytes m1 (?p + of_nat (pgoff va)) n"
        by (rule load_agree [OF m'(2) PTE2PA_aligned _ upages_aligned])
           (use chunk_not_later [OF Suc.prems(4) rg True n'] n pgoff_less [of va] in auto)
      then have "ubytes (s\<lparr>mem := m'\<rparr>) pt va n = take n src"
        using ubytes_chunk [OF rg n(2,3), of "s\<lparr>mem := m'\<rparr>" pt] ubytes_chunk [OF rg n(2,3), of ?s pt]
          fin mc(3) chunk by simp
      then have "ubytes (s\<lparr>mem := m'\<rparr>) pt va ?len = src"
        using ubytes_split [OF n(2), of "s\<lparr>mem := m'\<rparr>" pt va] m'(3) by simp
      then show ?thesis using step m'(1) agt va by auto
    next
      case False
      then have "n = ?len" by (simp add: n_def)
      then have "copyout_loop (Suc f) pt va src s = Ret 0 ?s" unfolding step by (simp add: copyout_loop.simps)
      moreover have "agree_except (upages s pt va ?len) (mem s) m1"
        by (rule agree_mono [OF ag]) (use p_up in simp)
      ultimately show ?thesis using chunk \<open>n = ?len\<close> by auto
    qed
  qed
qed

section \<open>Properties\<close>

text \<open>
  C5: Copying to user space and back. If the user range is mapped writable, its pages are no
  page-table pages and no two of its virtual pages share a physical page, \<open>copyout\<close> returns 0,
  changes physical memory only inside the pages behind the range, leaves the page table's
  meaning alone, and \<open>copyin\<close> of the same range then returns 0 with exactly the bytes copied
  out. The range may start anywhere in a page and span any number of pages.
\<close>

theorem copyout_copyin:
  assumes "pt_ok 2 (mem s) pt" "user_range s pt True va (length src)" "user_pages_ok s pt va (length src)"
  shows "\<exists>s'. copyout pt va src s = Ret 0 s' \<and> copyin pt va (length src) s' = Ret (0, src) s'
    \<and> agree_except (upages s pt va (length src)) (mem s) (mem s') \<and> entry s' pt = entry s pt
    \<and> s'\<lparr>mem := mem s\<rparr> = s"
proof -
  obtain m' where m: "copyout pt va src s = Ret 0 (s\<lparr>mem := m'\<rparr>)"
    "agree_except (upages s pt va (length src)) (mem s) m'"
    "ubytes (s\<lparr>mem := m'\<rparr>) pt va (length src) = src"
    using copyout_loop_run [OF assms(1,2) order.refl assms(3)] by (auto simp: copyout_def)
  have dj: "upages s pt va (length src) \<inter> pt_pages 2 (mem s) pt = {}"
    using assms(3) by (simp add: user_pages_ok_def)
  note mc = mem_change [OF assms(1) m(2) dj upages_aligned]
  have "copyin pt va (length src) (s\<lparr>mem := m'\<rparr>) = Ret (0, src) (s\<lparr>mem := m'\<rparr>)"
    using copyin_loop_run [of "s\<lparr>mem := m'\<rparr>" pt True va "length src" "length src" "[]"] mc assms(2) m(3)
    by (simp add: copyin_def)
  with m mc(3) show ?thesis by (intro exI [of _ "s\<lparr>mem := m'\<rparr>"]) simp
qed

lemma boot_user_page:
  "\<exists>(u :: kmem) pt. pt_ok 2 (mem u) pt \<and> 0x10000 \<notin> pt_pages 2 (mem u) pt
    \<and> (\<forall>va. same_page va 0x3000 \<longrightarrow> va < MAXVA \<longrightarrow>
         entry u pt va = PA2PTE 0x10000 OR (PTE_R OR PTE_W OR PTE_U) OR PTE_V)"
proof -
  let ?perm = "PTE_R OR PTE_W OR PTE_U"
  obtain s pt t where t: "kinit boot_kmem = Ret () s" "uvmcreate s = Ret pt t" "pt_sep 2 t pt"
    "3 \<le> card (kavail t)" "kavail t \<union> pt_pages 2 (mem t) pt \<subseteq> {a. 0x80021000 \<le> a}"
    "entry t pt 0x3000 AND PTE_V = 0" using boot_page_table by fastforce
  have a: "aligned 0x3000" "0x3000 < MAXVA" by (simp_all add: aligned_def MAXVA_def)
  obtain r :: int and u :: kmem where u: "pt_sep 2 u pt"
    "pt_pages 2 (mem u) pt \<subseteq> pt_pages 2 (mem t) pt \<union> (kavail t - kavail u)"
    "r = - 1 \<and> card (kavail t) \<le> 2 \<and> entry u pt = entry t pt \<or> r = 0 \<and> (\<forall>va. va < MAXVA \<longrightarrow> entry u pt va =
       (if same_page va 0x3000 then PA2PTE 0x10000 OR ?perm OR PTE_V else entry t pt va))"
    using mappages_page [OF t(3) a t(6), of "0x10000" ?perm] by blast
  have "0x10000 \<notin> pt_pages 2 (mem u) pt"
  proof
    assume "0x10000 \<in> pt_pages 2 (mem u) pt"
    then have "0x10000 \<in> {a :: u64. 0x80021000 \<le> a}" using u(2) t(5) by blast
    then show False by simp
  qed
  with u t(4) show ?thesis by (intro exI [of _ u] exI [of _ pt]) (auto simp: pt_sep_def)
qed

theorem copyout_copyin_witness:
  "\<exists>(s :: kproc) pt s'. copyout pt 0x3ffe [7, 8] s = Ret 0 s' \<and> copyin pt 0x3ffe 2 s' = Ret (0, [7, 8]) s'"
proof -
  obtain u :: kmem and pt where u: "pt_ok 2 (mem u) pt" "0x10000 \<notin> pt_pages 2 (mem u) pt"
    "\<And>va. same_page va 0x3000 \<Longrightarrow> va < MAXVA \<Longrightarrow>
       entry u pt va = PA2PTE 0x10000 OR (PTE_R OR PTE_W OR PTE_U) OR PTE_V"
    using boot_user_page by blast
  let ?s = "demo_kproc\<lparr>mem := mem u\<rparr>" and ?e = "PA2PTE 0x10000 OR (PTE_R OR PTE_W OR PTE_U) OR PTE_V"
  have e: "entry u pt (0x3ffe + of_nat i) = ?e" if "i < 2" for i
    using that by (intro u(3)) (auto simp: same_page_unat MAXVA_def less_2_cases_iff)
  have ev: "?e = 0x4017" "PTE2PA 0x4017 = 0x10000"
    by (simp_all add: PA2PTE_def pte_flag_defs PTE2PA_def)
  have "user_range ?s pt True 0x3ffe 2"
    using e unfolding ev(1) by (simp add: user_range_def ev(2) pte_flag_defs)
  moreover have "user_pages_ok ?s pt 0x3ffe 2"
    using e u(2) unfolding ev(1)
    by (auto simp: user_pages_ok_def upages_def ev(2) same_page_unat less_2_cases_iff)
  moreover have len: "length ([7, 8] :: u8 list) = 2" by simp
  ultimately show ?thesis
    using copyout_copyin [of ?s pt "0x3ffe" "[7, 8]", unfolded len] u(1) by auto
qed

end
