(* ===== verification/Fs.thy ===== *)
theory Fs
  imports Log UserCopy
begin

text \<open>
  The file system, \<^verbatim>\<open>kernel/fs.c\<close>: block allocation, inodes, file content, directories and
  path names, in the order of the source, with \<open>either_copyout\<close> and \<open>either_copyin\<close> of
  \<^verbatim>\<open>kernel/proc.c\<close> that move file content. A \<open>struct inode *\<close> into \<open>itable.inode\<close> is its index.
  Messages that the code prints on the console are not part of the state.
\<close>

section \<open>State\<close>

definition ROOTINO :: u32 where "ROOTINO = 1"
definition NINODE :: nat where "NINODE = 50"
definition FSMAGIC :: u32 where "FSMAGIC = 0x10203040"
definition NDIRECT :: nat where "NDIRECT = 12"
definition NINDIRECT :: nat where "NINDIRECT = BSIZE div 4"
definition MAXFILE :: nat where "MAXFILE = NDIRECT + NINDIRECT"
definition DIRSIZ :: nat where "DIRSIZ = 14"
definition T_DIR :: u16 where "T_DIR = 1"
definition T_FILE :: u16 where "T_FILE = 2"
definition T_DEVICE :: u16 where "T_DEVICE = 3"

text \<open>A \<open>struct dinode\<close> takes 64 bytes: four shorts, the size and 13 addresses.\<close>

definition IPB :: nat where "IPB = BSIZE div 64"
definition BPB :: nat where "BPB = BSIZE * 8"

record inode =
  idev :: u32
  inum :: u32
  iref :: int
  ivalid :: bool
  itype :: u16
  imajor :: u16
  iminor :: u16
  inlink :: u16
  isize :: u32
  iaddrs :: "nat \<Rightarrow> u32"

record kfs = klog +
  itable :: "nat \<Rightarrow> inode"
  sb :: superblock

definition upd_inode :: "nat \<Rightarrow> (inode \<Rightarrow> inode) \<Rightarrow> 'z kfs_scheme \<Rightarrow> 'z kfs_scheme" where
  "upd_inode ip f s = s\<lparr>itable := (itable s)(ip := f (itable s ip))\<rparr>"

definition IBLOCK :: "u32 \<Rightarrow> superblock \<Rightarrow> u32" where
  "IBLOCK i b = i div of_nat IPB + inodestart b"

definition BBLOCK :: "u32 \<Rightarrow> superblock \<Rightarrow> u32" where
  "BBLOCK i b = i div of_nat BPB + bmapstart b"

section \<open>Copies to and from the caller of a read or write\<close>

text \<open>
  Where file content goes to and comes from: a user address of the current process, an address
  of physical memory the kernel maps directly, or a variable of the calling function, whose
  value is the bytes the copy hands over.
\<close>

datatype rdst = RUser u64 | RKern u64 | RVar
datatype wsrc = WUser u64 | WKern u64 | WVar "u8 list"

fun dst_add :: "rdst \<Rightarrow> u32 \<Rightarrow> rdst" where
  "dst_add (RUser a) m = RUser (a + ucast m)"
| "dst_add (RKern a) m = RKern (a + ucast m)"
| "dst_add RVar m = RVar"

fun src_add :: "wsrc \<Rightarrow> u32 \<Rightarrow> wsrc" where
  "src_add (WUser a) m = WUser (a + ucast m)"
| "src_add (WKern a) m = WKern (a + ucast m)"
| "src_add (WVar bs) m = WVar (drop (unat m) bs)"

definition either_copyout :: "rdst \<Rightarrow> u8 list \<Rightarrow> 'z kproc_scheme \<Rightarrow> (int, 'z kproc_scheme) kres" where
  "either_copyout dst src s =
     kbind (myproc s) (\<lambda>p s.
       case dst of
         RUser a \<Rightarrow> (case p of None \<Rightarrow> Panic ''kerneltrap'' | Some p \<Rightarrow> copyout (pagetable (procs s p)) a src s)
       | RKern a \<Rightarrow> Ret 0 (s\<lparr>mem := store_bytes (mem s) a src\<rparr>)
       | RVar \<Rightarrow> Ret 0 s)"

text \<open>The second component is what has been stored at the destination when the copy ends.\<close>

definition either_copyin :: "wsrc \<Rightarrow> nat \<Rightarrow> 'z kproc_scheme \<Rightarrow> (int \<times> u8 list, 'z kproc_scheme) kres" where
  "either_copyin src len s =
     kbind (myproc s) (\<lambda>p s.
       case src of
         WUser a \<Rightarrow> (case p of None \<Rightarrow> Panic ''kerneltrap'' | Some p \<Rightarrow> copyin (pagetable (procs s p)) a len s)
       | WKern a \<Rightarrow> Ret (0, load_bytes (mem s) a len) s
       | WVar bs \<Rightarrow> Ret (0, take len bs) s)"

section \<open>Blocks\<close>

definition readsb :: "u32 \<Rightarrow> 'z kfs_scheme \<Rightarrow> (superblock, 'z kfs_scheme) kres" where
  "readsb dev s =
     kbind (bread dev 1 s) (\<lambda>bp s.
     let d = bdata (bufs s bp) in
     kbind (brelse bp s) (\<lambda>_ s.
     Ret \<lparr>magic = get32 d 0, sb_size = get32 d 4, nblocks = get32 d 8, ninodes = get32 d 12, nlog = get32 d 16,
          logstart = get32 d 20, inodestart = get32 d 24, bmapstart = get32 d 28\<rparr> s))"

definition bzero :: "u32 \<Rightarrow> u32 \<Rightarrow> 'z klog_scheme \<Rightarrow> (unit, 'z klog_scheme) kres" where
  "bzero dev bno s =
     kbind (bread dev bno s) (\<lambda>bp s.
     let s = upd_buf bp (\<lambda>x. x\<lparr>bdata := wr (bdata x) 0 (replicate BSIZE 0)\<rparr>) s in
     kbind (log_write bp s) (\<lambda>_ s.
     brelse bp s))"

text \<open>Bit \<open>bi\<close> of a bitmap block.\<close>

definition bit_set :: "bytes \<Rightarrow> nat \<Rightarrow> bool" where
  "bit_set d bi \<longleftrightarrow> d (bi div 8) AND push_bit (bi mod 8) 1 \<noteq> 0"

text \<open>
  One round of the outer loop of \<open>balloc\<close>, for bitmap block \<open>k\<close>. The block numbers fit in an
  \<open>int\<close>: the file system has fewer than \<open>2^31\<close> blocks.
\<close>

definition balloc_block :: "u32 \<Rightarrow> nat \<Rightarrow> 'z kfs_scheme \<Rightarrow> (u32 option, 'z kfs_scheme) kres" where
  "balloc_block dev k s =
     (let b = k * BPB in
     kbind (bread dev (BBLOCK (of_nat b) (sb s)) s) (\<lambda>bp s.
       case find (\<lambda>bi. \<not> bit_set (bdata (bufs s bp)) bi) [0..<min BPB (unat (sb_size (sb s)) - b)] of
         Some bi \<Rightarrow>
           let s = upd_buf bp (\<lambda>x. x\<lparr>bdata := (bdata x)(bi div 8 := bdata x (bi div 8) OR push_bit (bi mod 8) 1)\<rparr>) s in
           kbind (log_write bp s) (\<lambda>_ s.
           kbind (brelse bp s) (\<lambda>_ s.
           kbind (bzero dev (of_nat (b + bi)) s) (\<lambda>_ s.
           Ret (Some (of_nat (b + bi))) s)))
       | None \<Rightarrow> kbind (brelse bp s) (\<lambda>_ s. Ret None s)))"

definition balloc :: "u32 \<Rightarrow> 'z kfs_scheme \<Rightarrow> (u32, 'z kfs_scheme) kres" where
  "balloc dev s =
     kbind (ksearch (balloc_block dev) [0..<(unat (sb_size (sb s)) + BPB - 1) div BPB] s) (\<lambda>r s.
     Ret (case r of Some b \<Rightarrow> b | None \<Rightarrow> 0) s)"

definition bfree :: "u32 \<Rightarrow> u32 \<Rightarrow> 'z kfs_scheme \<Rightarrow> (unit, 'z kfs_scheme) kres" where
  "bfree dev b s =
     kbind (bread dev (BBLOCK b (sb s)) s) (\<lambda>bp s.
     let bi = unat b mod BPB in
     if \<not> bit_set (bdata (bufs s bp)) bi then Panic ''freeing free block''
     else let s = upd_buf bp (\<lambda>x. x\<lparr>bdata :=
              (bdata x)(bi div 8 := bdata x (bi div 8) AND NOT (push_bit (bi mod 8) 1))\<rparr>) s in
       kbind (log_write bp s) (\<lambda>_ s.
       brelse bp s))"

section \<open>Inodes\<close>

definition iinit :: "'z kfs_scheme \<Rightarrow> 'z kfs_scheme" where
  "iinit s = fold (\<lambda>i s. initsleeplock (InodeSL i) ''inode'' s) [0..<NINODE] (initlock ItableLock ''itable'' s)"

text \<open>The offset of inode \<open>i\<close> in its block, and the fields of a \<open>struct dinode\<close> there.\<close>

definition dip_off :: "u32 \<Rightarrow> nat" where
  "dip_off i = (unat i mod IPB) * 64"

abbreviation dip_type :: "bytes \<Rightarrow> nat \<Rightarrow> u16" where "dip_type d off \<equiv> get16 d off"
abbreviation dip_nlink :: "bytes \<Rightarrow> nat \<Rightarrow> u16" where "dip_nlink d off \<equiv> get16 d (off + 6)"

definition iget :: "u32 \<Rightarrow> u32 \<Rightarrow> 'z kfs_scheme \<Rightarrow> (nat, 'z kfs_scheme) kres" where
  "iget dev ino s =
     kbind (acquire ItableLock s) (\<lambda>_ s.
       case find (\<lambda>i. iref (itable s i) > 0 \<and> idev (itable s i) = dev \<and> inum (itable s i) = ino) [0..<NINODE] of
         Some ip \<Rightarrow>
           kbind (release ItableLock (upd_inode ip (\<lambda>n. n\<lparr>iref := iref n + 1\<rparr>) s)) (\<lambda>_ s. Ret ip s)
       | None \<Rightarrow>
           (case find (\<lambda>i. iref (itable s i) = 0) [0..<NINODE] of
              None \<Rightarrow> Panic ''iget: no inodes''
            | Some ip \<Rightarrow>
                kbind (release ItableLock
                  (upd_inode ip (\<lambda>n. n\<lparr>idev := dev, inum := ino, iref := 1, ivalid := False\<rparr>) s)) (\<lambda>_ s.
                Ret ip s)))"

definition ialloc :: "u32 \<Rightarrow> u16 \<Rightarrow> 'z kfs_scheme \<Rightarrow> (nat option, 'z kfs_scheme) kres" where
  "ialloc dev type s = ksearch (\<lambda>ino s.
     kbind (bread dev (IBLOCK (of_nat ino) (sb s)) s) (\<lambda>bp s.
     let off = dip_off (of_nat ino) in
     if dip_type (bdata (bufs s bp)) off = 0
     then let s = upd_buf bp (\<lambda>x. x\<lparr>bdata := put16 (wr (bdata x) off (replicate 64 0)) off type\<rparr>) s in
       kbind (log_write bp s) (\<lambda>_ s.
       kbind (brelse bp s) (\<lambda>_ s.
       kbind (iget dev (of_nat ino) s) (\<lambda>ip s.
       Ret (Some ip) s)))
     else kbind (brelse bp s) (\<lambda>_ s. Ret None s))) [1..<unat (ninodes (sb s))] s"

text \<open>The stores of \<open>iupdate\<close> into the block, and the loads of \<open>ilock\<close> from it.\<close>

definition store_dinode :: "inode \<Rightarrow> nat \<Rightarrow> bytes \<Rightarrow> bytes" where
  "store_dinode n off d =
     (let d = put16 d off (itype n);
          d = put16 d (off + 2) (imajor n);
          d = put16 d (off + 4) (iminor n);
          d = put16 d (off + 6) (inlink n);
          d = put32 d (off + 8) (isize n)
      in fold (\<lambda>i d. put32 d (off + 12 + 4 * i) (iaddrs n i)) [0..<NDIRECT + 1] d)"

definition load_dinode :: "bytes \<Rightarrow> nat \<Rightarrow> inode \<Rightarrow> inode" where
  "load_dinode d off n =
     n\<lparr>itype := dip_type d off, imajor := get16 d (off + 2), iminor := get16 d (off + 4),
       inlink := dip_nlink d off, isize := get32 d (off + 8),
       iaddrs := (\<lambda>i. if i < NDIRECT + 1 then get32 d (off + 12 + 4 * i) else iaddrs n i)\<rparr>"

definition iupdate :: "nat \<Rightarrow> 'z kfs_scheme \<Rightarrow> (unit, 'z kfs_scheme) kres" where
  "iupdate ip s =
     (let n = itable s ip in
     kbind (bread (idev n) (IBLOCK (inum n) (sb s)) s) (\<lambda>bp s.
     let s = upd_buf bp (\<lambda>x. x\<lparr>bdata := store_dinode (itable s ip) (dip_off (inum (itable s ip))) (bdata x)\<rparr>) s in
     kbind (log_write bp s) (\<lambda>_ s.
     brelse bp s)))"

definition idup :: "nat \<Rightarrow> 'z kfs_scheme \<Rightarrow> (nat, 'z kfs_scheme) kres" where
  "idup ip s =
     kbind (with_lock ItableLock (\<lambda>s. Ret () (upd_inode ip (\<lambda>n. n\<lparr>iref := iref n + 1\<rparr>) s)) s) (\<lambda>_ s.
     Ret ip s)"

definition ilock :: "nat option \<Rightarrow> 'z kfs_scheme \<Rightarrow> (unit, 'z kfs_scheme) kres" where
  "ilock ipo s =
     (case ipo of
        None \<Rightarrow> Panic ''ilock''
      | Some ip \<Rightarrow>
          if iref (itable s ip) < 1 then Panic ''ilock''
          else kbind (acquiresleep (InodeSL ip) s) (\<lambda>_ s.
            if \<not> ivalid (itable s ip)
            then kbind (bread (idev (itable s ip)) (IBLOCK (inum (itable s ip)) (sb s)) s) (\<lambda>bp s.
              let s = upd_inode ip (load_dinode (bdata (bufs s bp)) (dip_off (inum (itable s ip)))) s in
              kbind (brelse bp s) (\<lambda>_ s.
              let s = upd_inode ip (\<lambda>n. n\<lparr>ivalid := True\<rparr>) s in
              if itype (itable s ip) = 0 then Panic ''ilock: no type'' else Ret () s))
            else Ret () s))"

definition iunlock :: "nat option \<Rightarrow> 'z kfs_scheme \<Rightarrow> (unit, 'z kfs_scheme) kres" where
  "iunlock ipo s =
     (case ipo of
        None \<Rightarrow> Panic ''iunlock''
      | Some ip \<Rightarrow>
          kbind (holdingsleep (InodeSL ip) s) (\<lambda>h s.
            if \<not> h \<or> iref (itable s ip) < 1 then Panic ''iunlock''
            else releasesleep (InodeSL ip) s))"

definition bmap :: "nat \<Rightarrow> u32 \<Rightarrow> 'z kfs_scheme \<Rightarrow> (u32, 'z kfs_scheme) kres" where
  "bmap ip bn s =
     (if unat bn < NDIRECT
      then let addr = iaddrs (itable s ip) (unat bn) in
        if addr = 0
        then kbind (balloc (idev (itable s ip)) s) (\<lambda>addr s.
          if addr = 0 then Ret 0 s
          else Ret addr (upd_inode ip (\<lambda>n. n\<lparr>iaddrs := (iaddrs n)(unat bn := addr)\<rparr>) s))
        else Ret addr s
      else let bn = bn - of_nat NDIRECT in
        if unat bn < NINDIRECT
        then kbind (let addr = iaddrs (itable s ip) NDIRECT in
            if addr = 0
            then kbind (balloc (idev (itable s ip)) s) (\<lambda>addr s.
              if addr = 0 then Ret 0 s
              else Ret addr (upd_inode ip (\<lambda>n. n\<lparr>iaddrs := (iaddrs n)(NDIRECT := addr)\<rparr>) s))
            else Ret addr s) (\<lambda>ind s.
          if ind = 0 then Ret 0 s
          else kbind (bread (idev (itable s ip)) ind s) (\<lambda>bp s.
            kbind (let addr = get32 (bdata (bufs s bp)) (4 * unat bn) in
                if addr = 0
                then kbind (balloc (idev (itable s ip)) s) (\<lambda>addr s.
                  if addr \<noteq> 0
                  then kbind (log_write bp (upd_buf bp (\<lambda>x. x\<lparr>bdata := put32 (bdata x) (4 * unat bn) addr\<rparr>) s)) (\<lambda>_ s.
                       Ret addr s)
                  else Ret addr s)
                else Ret addr s) (\<lambda>addr s.
            kbind (brelse bp s) (\<lambda>_ s.
            Ret addr s))))
        else Panic ''bmap: out of range'')"

definition itrunc :: "nat \<Rightarrow> 'z kfs_scheme \<Rightarrow> (unit, 'z kfs_scheme) kres" where
  "itrunc ip s =
     kbind (kfold (\<lambda>i s.
       if iaddrs (itable s ip) i \<noteq> 0
       then kbind (bfree (idev (itable s ip)) (iaddrs (itable s ip) i) s) (\<lambda>_ s.
            Ret () (upd_inode ip (\<lambda>n. n\<lparr>iaddrs := (iaddrs n)(i := 0)\<rparr>) s))
       else Ret () s) [0..<NDIRECT] s) (\<lambda>_ s.
     kbind (if iaddrs (itable s ip) NDIRECT \<noteq> 0
       then kbind (bread (idev (itable s ip)) (iaddrs (itable s ip) NDIRECT) s) (\<lambda>bp s.
         kbind (kfold (\<lambda>j s.
             if get32 (bdata (bufs s bp)) (4 * j) \<noteq> 0
             then bfree (idev (itable s ip)) (get32 (bdata (bufs s bp)) (4 * j)) s
             else Ret () s) [0..<NINDIRECT] s) (\<lambda>_ s.
         kbind (brelse bp s) (\<lambda>_ s.
         kbind (bfree (idev (itable s ip)) (iaddrs (itable s ip) NDIRECT) s) (\<lambda>_ s.
         Ret () (upd_inode ip (\<lambda>n. n\<lparr>iaddrs := (iaddrs n)(NDIRECT := 0)\<rparr>) s)))))
       else Ret () s) (\<lambda>_ s.
     iupdate ip (upd_inode ip (\<lambda>n. n\<lparr>isize := 0\<rparr>) s)))"

definition iput :: "nat \<Rightarrow> 'z kfs_scheme \<Rightarrow> (unit, 'z kfs_scheme) kres" where
  "iput ip s =
     kbind (acquire ItableLock s) (\<lambda>_ s.
     kbind (if iref (itable s ip) = 1 \<and> ivalid (itable s ip) \<and> inlink (itable s ip) = 0
       then kbind (acquiresleep (InodeSL ip) s) (\<lambda>_ s.
         kbind (release ItableLock s) (\<lambda>_ s.
         kbind (itrunc ip s) (\<lambda>_ s.
         kbind (iupdate ip (upd_inode ip (\<lambda>n. n\<lparr>itype := 0\<rparr>) s)) (\<lambda>_ s.
         kbind (releasesleep (InodeSL ip) (upd_inode ip (\<lambda>n. n\<lparr>ivalid := False\<rparr>) s)) (\<lambda>_ s.
         acquire ItableLock s)))))
       else Ret () s) (\<lambda>_ s.
     release ItableLock (upd_inode ip (\<lambda>n. n\<lparr>iref := iref n - 1\<rparr>) s)))"

definition iunlockput :: "nat \<Rightarrow> 'z kfs_scheme \<Rightarrow> (unit, 'z kfs_scheme) kres" where
  "iunlockput ip s = kbind (iunlock (Some ip) s) (\<lambda>_ s. iput ip s)"

definition ireclaim :: "u32 \<Rightarrow> 'z kfs_scheme \<Rightarrow> (unit, 'z kfs_scheme) kres" where
  "ireclaim dev s = kfold (\<lambda>ino s.
     kbind (bread dev (IBLOCK (of_nat ino) (sb s)) s) (\<lambda>bp s.
     let d = bdata (bufs s bp); off = dip_off (of_nat ino) in
     kbind (if dip_type d off \<noteq> 0 \<and> dip_nlink d off = 0
            then kbind (iget dev (of_nat ino) s) (\<lambda>ip s. Ret (Some ip) s)
            else Ret None s) (\<lambda>ipo s.
     kbind (brelse bp s) (\<lambda>_ s.
     case ipo of
       None \<Rightarrow> Ret () s
     | Some ip \<Rightarrow>
         kbind (begin_op s) (\<lambda>_ s.
         kbind (ilock (Some ip) s) (\<lambda>_ s.
         kbind (iunlock (Some ip) s) (\<lambda>_ s.
         kbind (iput ip s) (\<lambda>_ s.
         end_op s))))))))
     [1..<unat (ninodes (sb s))] s"

definition fsinit :: "u32 \<Rightarrow> 'z kfs_scheme \<Rightarrow> (unit, 'z kfs_scheme) kres" where
  "fsinit dev s =
     kbind (readsb dev s) (\<lambda>b s.
     let s = s\<lparr>sb := b\<rparr> in
     if magic b \<noteq> FSMAGIC then Panic ''invalid file system''
     else kbind (initlog dev (sb s) s) (\<lambda>_ s.
       ireclaim dev s))"

section \<open>Inode content\<close>

record kstat =
  st_dev :: u32
  st_ino :: u32
  st_type :: u16
  st_nlink :: u16
  st_size :: u64

definition stati :: "nat \<Rightarrow> 'z kfs_scheme \<Rightarrow> kstat" where
  "stati ip s = \<lparr>st_dev = idev (itable s ip), st_ino = inum (itable s ip), st_type = itype (itable s ip),
     st_nlink = inlink (itable s ip), st_size = ucast (isize (itable s ip))\<rparr>"

text \<open>
  The loops of \<open>readi\<close> and \<open>writei\<close>. Every round moves at least one byte, so \<open>n\<close> rounds are
  enough fuel. \<open>readi\<close> also returns the bytes it has handed over, which is how a variable of
  the caller gets its value.
\<close>

definition chunk :: "u32 \<Rightarrow> u32 \<Rightarrow> u32 \<Rightarrow> u32" where
  "chunk n tot off = min (n - tot) (of_nat BSIZE - off mod of_nat BSIZE)"

fun readi_loop :: "nat \<Rightarrow> nat \<Rightarrow> rdst \<Rightarrow> u32 \<Rightarrow> u32 \<Rightarrow> u32 \<Rightarrow> u8 list \<Rightarrow> 'z kfs_scheme
    \<Rightarrow> (int \<times> u8 list, 'z kfs_scheme) kres" where
  "readi_loop f ip dst off n tot acc s =
     (if tot < n
      then (case f of
          0 \<Rightarrow> Wait s
        | Suc f \<Rightarrow>
            kbind (bmap ip (off div of_nat BSIZE) s) (\<lambda>addr s.
            if addr = 0 then Ret (sint tot, acc) s
            else kbind (bread (idev (itable s ip)) addr s) (\<lambda>bp s.
              let m = chunk n tot off;
                  bs = rd (bdata (bufs s bp)) (unat (off mod of_nat BSIZE)) (unat m) in
              kbind (either_copyout dst bs s) (\<lambda>r s.
              if r = - 1 then kbind (brelse bp s) (\<lambda>_ s. Ret (- 1, acc) s)
              else kbind (brelse bp s) (\<lambda>_ s.
                readi_loop f ip (dst_add dst m) (off + m) n (tot + m) (acc @ bs) s)))))
      else Ret (sint tot, acc) s)"

definition readi :: "nat \<Rightarrow> rdst \<Rightarrow> u32 \<Rightarrow> u32 \<Rightarrow> 'z kfs_scheme \<Rightarrow> (int \<times> u8 list, 'z kfs_scheme) kres" where
  "readi ip dst off n s =
     (if off > isize (itable s ip) \<or> off + n < off then Ret (0, []) s
      else let n = (if off + n > isize (itable s ip) then isize (itable s ip) - off else n)
        in readi_loop (unat n) ip dst off n 0 [] s)"

text \<open>The loop of \<open>writei\<close> returns the final \<open>tot\<close> and \<open>off\<close>.\<close>

fun writei_loop :: "nat \<Rightarrow> nat \<Rightarrow> wsrc \<Rightarrow> u32 \<Rightarrow> u32 \<Rightarrow> u32 \<Rightarrow> 'z kfs_scheme
    \<Rightarrow> (u32 \<times> u32, 'z kfs_scheme) kres" where
  "writei_loop f ip src off n tot s =
     (if tot < n
      then (case f of
          0 \<Rightarrow> Wait s
        | Suc f \<Rightarrow>
            kbind (bmap ip (off div of_nat BSIZE) s) (\<lambda>addr s.
            if addr = 0 then Ret (tot, off) s
            else kbind (bread (idev (itable s ip)) addr s) (\<lambda>bp s.
              let m = chunk n tot off in
              kbind (either_copyin src (unat m) s) (\<lambda>(r, bs) s.
              let s = upd_buf bp (\<lambda>x. x\<lparr>bdata := wr (bdata x) (unat (off mod of_nat BSIZE)) bs\<rparr>) s in
              if r = - 1 then kbind (brelse bp s) (\<lambda>_ s. Ret (tot, off) s)
              else kbind (log_write bp s) (\<lambda>_ s.
                kbind (brelse bp s) (\<lambda>_ s.
                writei_loop f ip (src_add src m) (off + m) n (tot + m) s))))))
      else Ret (tot, off) s)"

definition writei :: "nat \<Rightarrow> wsrc \<Rightarrow> u32 \<Rightarrow> u32 \<Rightarrow> 'z kfs_scheme \<Rightarrow> (int, 'z kfs_scheme) kres" where
  "writei ip src off n s =
     (if off > isize (itable s ip) \<or> off + n < off then Ret (- 1) s
      else if unat (off + n) > MAXFILE * BSIZE then Ret (- 1) s
      else kbind (writei_loop (unat n) ip src off n 0 s) (\<lambda>(tot, off) s.
        let s = (if off > isize (itable s ip) then upd_inode ip (\<lambda>x. x\<lparr>isize := off\<rparr>) s else s) in
        kbind (iupdate ip s) (\<lambda>_ s.
        Ret (sint tot) s)))"

section \<open>Directories\<close>

text \<open>A \<open>struct dirent\<close> is 16 bytes: the inode number and the name.\<close>

definition de_inum :: "u8 list \<Rightarrow> u16" where
  "de_inum de = of_le (take 2 de)"

definition de_name :: "u8 list \<Rightarrow> bytes" where
  "de_name de = cstr (drop 2 de)"

definition namecmp :: "bytes \<Rightarrow> bytes \<Rightarrow> int" where
  "namecmp p q = strncmp p q DIRSIZ"

text \<open>
  The search of \<open>dirlookup\<close>, with the offset that goes to \<open>*poff\<close>; one round per entry.
\<close>

fun dirlookup_loop :: "nat \<Rightarrow> nat \<Rightarrow> bytes \<Rightarrow> u32 \<Rightarrow> 'z kfs_scheme \<Rightarrow> ((nat \<times> u32) option, 'z kfs_scheme) kres" where
  "dirlookup_loop f dp name off s =
     (if off < isize (itable s dp)
      then (case f of
          0 \<Rightarrow> Wait s
        | Suc f \<Rightarrow>
            kbind (readi dp RVar off 16 s) (\<lambda>(r, de) s.
            if r \<noteq> 16 then Panic ''dirlookup read''
            else if de_inum de = 0 then dirlookup_loop f dp name (off + 16) s
            else if namecmp name (de_name de) = 0
            then kbind (iget (idev (itable s dp)) (ucast (de_inum de)) s) (\<lambda>ip s. Ret (Some (ip, off)) s)
            else dirlookup_loop f dp name (off + 16) s))
      else Ret None s)"

definition dirlookup :: "nat \<Rightarrow> bytes \<Rightarrow> 'z kfs_scheme \<Rightarrow> ((nat \<times> u32) option, 'z kfs_scheme) kres" where
  "dirlookup dp name s =
     (if itype (itable s dp) \<noteq> T_DIR then Panic ''dirlookup not DIR''
      else dirlookup_loop (Suc (unat (isize (itable s dp)) div 16)) dp name 0 s)"

text \<open>The search of \<open>dirlink\<close> for an empty entry.\<close>

fun dirlink_loop :: "nat \<Rightarrow> nat \<Rightarrow> u32 \<Rightarrow> 'z kfs_scheme \<Rightarrow> (u32, 'z kfs_scheme) kres" where
  "dirlink_loop f dp off s =
     (if off < isize (itable s dp)
      then (case f of
          0 \<Rightarrow> Wait s
        | Suc f \<Rightarrow>
            kbind (readi dp RVar off 16 s) (\<lambda>(r, de) s.
            if r \<noteq> 16 then Panic ''dirlink read''
            else if de_inum de = 0 then Ret off s
            else dirlink_loop f dp (off + 16) s))
      else Ret off s)"

definition dirlink :: "nat \<Rightarrow> bytes \<Rightarrow> u32 \<Rightarrow> 'z kfs_scheme \<Rightarrow> (int, 'z kfs_scheme) kres" where
  "dirlink dp name ino s =
     kbind (dirlookup dp name s) (\<lambda>r s.
       case r of
         Some (ip, _) \<Rightarrow> kbind (iput ip s) (\<lambda>_ s. Ret (- 1) s)
       | None \<Rightarrow>
           kbind (dirlink_loop (Suc (unat (isize (itable s dp)) div 16)) dp 0 s) (\<lambda>off s.
           kbind (writei dp (WVar (le_bytes 2 (ucast ino :: u16) @ strncpy name DIRSIZ)) off 16 s) (\<lambda>r s.
           if r \<noteq> 16 then Ret (- 1) s else Ret 0 s)))"

section \<open>Paths\<close>

text \<open>
  A path is the list of its bytes without the terminating NUL; \<open>name\<close> is the array of
  \<open>DIRSIZ\<close> bytes the element goes to. An element shorter than \<open>DIRSIZ\<close> is terminated by a NUL and
  leaves the rest of the array as it was.
\<close>

definition slash :: u8 where "slash = 47"

definition skipelem :: "u8 list \<Rightarrow> u8 list \<Rightarrow> (u8 list \<times> u8 list) option" where
  "skipelem path name =
     (let path = dropWhile (\<lambda>c. c = slash) path in
      if path = [] then None
      else let el = takeWhile (\<lambda>c. c \<noteq> slash) path;
               path = dropWhile (\<lambda>c. c \<noteq> slash) path;
               name = (if length el \<ge> DIRSIZ then take DIRSIZ el else el @ 0 # drop (length el + 1) name)
        in Some (dropWhile (\<lambda>c. c = slash) path, name))"

lemma skipelem_shorter: "skipelem path name = Some (path', name') \<Longrightarrow> length path' < length path"
proof -
  assume a: "skipelem path name = Some (path', name')"
  let ?p = "dropWhile (\<lambda>c. c = slash) path"
  have p: "?p \<noteq> []" using a by (auto simp: skipelem_def Let_def split: if_splits)
  then obtain c cs where c: "?p = c # cs" by (cases ?p) auto
  then have "c \<noteq> slash" using hd_dropWhile [OF p] by simp
  then have "path' = dropWhile (\<lambda>c. c = slash) (dropWhile (\<lambda>c. c \<noteq> slash) cs)"
    using a c by (auto simp: skipelem_def Let_def split: if_splits)
  then have "length path' \<le> length cs"
    using length_dropWhile_le [of _ "dropWhile (\<lambda>c. c \<noteq> slash) cs"] length_dropWhile_le [of _ cs] le_trans by blast
  moreover have "length ?p \<le> length path" by (rule length_dropWhile_le)
  ultimately show ?thesis using c by simp
qed

function namex_loop :: "u8 list \<Rightarrow> bool \<Rightarrow> u8 list \<Rightarrow> nat \<Rightarrow> 'z kfs_scheme
    \<Rightarrow> (nat option \<times> u8 list, 'z kfs_scheme) kres" where
  "namex_loop path npar name ip s =
     (case skipelem path name of
        None \<Rightarrow> if npar then kbind (iput ip s) (\<lambda>_ s. Ret (None, name) s) else Ret (Some ip, name) s
      | Some (path, name) \<Rightarrow>
          kbind (ilock (Some ip) s) (\<lambda>_ s.
          if itype (itable s ip) \<noteq> T_DIR then kbind (iunlockput ip s) (\<lambda>_ s. Ret (None, name) s)
          else if npar \<and> path = [] then kbind (iunlock (Some ip) s) (\<lambda>_ s. Ret (Some ip, name) s)
          else kbind (dirlookup ip (cstr name) s) (\<lambda>r s.
            case r of
              None \<Rightarrow> kbind (iunlockput ip s) (\<lambda>_ s. Ret (None, name) s)
            | Some (next, _) \<Rightarrow> kbind (iunlockput ip s) (\<lambda>_ s. namex_loop path npar name next s))))"
  by pat_completeness auto
termination
  by (relation "measure (\<lambda>(path, _, _, _, _). length path)") (auto dest: skipelem_shorter)

text \<open>\<open>namex\<close> also returns the array \<open>name\<close>, which \<open>nameiparent\<close> hands to its caller.\<close>

definition namex :: "u8 list \<Rightarrow> bool \<Rightarrow> u8 list \<Rightarrow> 'z kfs_scheme \<Rightarrow> (nat option \<times> u8 list, 'z kfs_scheme) kres" where
  "namex path npar name s =
     kbind (if path \<noteq> [] \<and> hd path = slash then iget ROOTDEV ROOTINO s
            else kbind (curproc s) (\<lambda>p s.
              case cwd (procs s p) of None \<Rightarrow> Panic ''kerneltrap'' | Some ip \<Rightarrow> idup ip s)) (\<lambda>ip s.
     namex_loop path npar name ip s)"

definition namei :: "u8 list \<Rightarrow> 'z kfs_scheme \<Rightarrow> (nat option, 'z kfs_scheme) kres" where
  "namei path s = kbind (namex path False (replicate DIRSIZ 0) s) (\<lambda>(ip, _) s. Ret ip s)"

definition nameiparent :: "u8 list \<Rightarrow> u8 list \<Rightarrow> 'z kfs_scheme \<Rightarrow> (nat option \<times> u8 list, 'z kfs_scheme) kres" where
  "nameiparent path name s = namex path True name s"

declare readi_loop.simps [simp del] writei_loop.simps [simp del] dirlookup_loop.simps [simp del]
  dirlink_loop.simps [simp del] namex_loop.simps [simp del]

end
