(* ===== verification/Printf.thy ===== *)
theory Printf
  imports Prelude
begin

text \<open>
  The formatted output of the kernel (\<^verbatim>\<open>kernel/printf.c\<close>) and of the user library
  (\<^verbatim>\<open>user/printf.c\<close>) as functions from the format and the arguments to the characters that are
  sent, in order. How the kernel sends a character is in the theory \<open>Console\<close>. Format strings
  are lists of bytes without the terminating NUL. \<open>va_arg\<close> takes the next argument slot of 64 bits;
  \<open>int\<close> and \<open>uint32\<close> read its low half.
\<close>

datatype parg = PNum u64 | PStr "u8 list option"

fun num_arg :: "parg list \<Rightarrow> u64" where
  "num_arg (PNum x # _) = x"
| "num_arg _ = 0"

fun str_arg :: "parg list \<Rightarrow> u8 list option" where
  "str_arg (PStr p # _) = p"
| "str_arg _ = None"

section \<open>Integers\<close>

text \<open>The array \<open>digits\<close> of the kernel has lower-case letters, that of the user library upper-case ones.\<close>

definition kdigit :: "nat \<Rightarrow> u8" where
  "kdigit d = of_nat (if d < 10 then 48 + d else 87 + d)"

definition udigit :: "nat \<Rightarrow> u8" where
  "udigit d = of_nat (if d < 10 then 48 + d else 55 + d)"

text \<open>
  The do-while loop of both \<open>printint\<close> functions, which stores the digits in \<open>buf\<close> from the
  last one on. 64 rounds are enough for any base from 2 on.
\<close>

fun digit_loop :: "(nat \<Rightarrow> u8) \<Rightarrow> nat \<Rightarrow> nat \<Rightarrow> nat \<Rightarrow> u8 list" where
  "digit_loop dg 0 base x = []"
| "digit_loop dg (Suc f) base x =
     dg (x mod base) # (if x div base \<noteq> 0 then digit_loop dg f base (x div base) else [])"

text \<open>
  The negation wraps around; for the most negative \<open>long long\<close> C leaves it undefined, and \<open>printint_roundtrip\<close> does not
  cover that value.
\<close>

definition printint_buf :: "u64 \<Rightarrow> nat \<Rightarrow> bool \<Rightarrow> u8 list" where
  "printint_buf xx base sign =
     (let neg = (sign \<and> xx <s 0); x = (if neg then - xx else xx)
      in digit_loop kdigit 64 base (unat x) @ (if neg then [45] else []))"

definition printint :: "u64 \<Rightarrow> nat \<Rightarrow> bool \<Rightarrow> u8 list" where
  "printint xx base sign = rev (printint_buf xx base sign)"

definition printptr :: "u64 \<Rightarrow> u8 list" where
  "printptr x = [48, 120] @ map (\<lambda>i. kdigit (unat (drop_bit 60 (push_bit (4 * i) x)))) [0..<16]"

text \<open>The user library keeps the absolute value in a \<open>uint\<close>, 32 bits, whatever the argument's width.\<close>

definition uprintint :: "u64 \<Rightarrow> nat \<Rightarrow> bool \<Rightarrow> u8 list" where
  "uprintint xx base sg =
     (let neg = (sg \<and> xx <s 0); x = (if neg then ucast (- xx) else ucast xx :: u32)
      in rev (digit_loop udigit 64 base (unat x) @ (if neg then [45] else [])))"

definition uprintptr :: "u64 \<Rightarrow> u8 list" where
  "uprintptr x = [48, 120] @ map (\<lambda>i. udigit (unat (drop_bit 60 (push_bit (4 * i) x)))) [0..<16]"

section \<open>Formats\<close>

text \<open>
  The chain of conditions on the characters after a percent sign, the same in both functions:
  the conversion and how many characters after \<open>c0\<close> belong to it. \<open>CNum long base sign\<close> is one
  of the conversions d, u and x.
\<close>

datatype conv = CNum bool nat bool | CPtr | CChr | CStr | CPct | CUnknown

abbreviation ch :: "char \<Rightarrow> u8" where "ch c \<equiv> of_char c"

definition conversion :: "u8 \<Rightarrow> u8 \<Rightarrow> u8 \<Rightarrow> conv \<times> nat" where
  "conversion c0 c1 c2 =
     (if c0 = ch CHR ''d'' then (CNum False 10 True, 0)
      else if c0 = ch CHR ''l'' \<and> c1 = ch CHR ''d'' then (CNum True 10 True, 1)
      else if c0 = ch CHR ''l'' \<and> c1 = ch CHR ''l'' \<and> c2 = ch CHR ''d'' then (CNum True 10 True, 2)
      else if c0 = ch CHR ''u'' then (CNum False 10 False, 0)
      else if c0 = ch CHR ''l'' \<and> c1 = ch CHR ''u'' then (CNum True 10 False, 1)
      else if c0 = ch CHR ''l'' \<and> c1 = ch CHR ''l'' \<and> c2 = ch CHR ''u'' then (CNum True 10 False, 2)
      else if c0 = ch CHR ''x'' then (CNum False 16 False, 0)
      else if c0 = ch CHR ''l'' \<and> c1 = ch CHR ''x'' then (CNum True 16 False, 1)
      else if c0 = ch CHR ''l'' \<and> c1 = ch CHR ''l'' \<and> c2 = ch CHR ''x'' then (CNum True 16 False, 2)
      else if c0 = ch CHR ''p'' then (CPtr, 0)
      else if c0 = ch CHR ''c'' then (CChr, 0)
      else if c0 = ch CHR ''s'' then (CStr, 0)
      else if c0 = ch CHR ''%'' then (CPct, 0)
      else (CUnknown, 0))"

text \<open>The value \<open>va_arg\<close> passes to \<open>printint\<close>: an \<open>int\<close> is sign-extended, a \<open>uint32\<close> is not.\<close>

definition num_value :: "bool \<Rightarrow> bool \<Rightarrow> u64 \<Rightarrow> u64" where
  "num_value long sign x = (if long then x else if sign then scast (ucast x :: u32) else ucast (ucast x :: u32))"

definition null_str :: "u8 list" where
  "null_str = map ch ''(null)''"

text \<open>
  What a conversion sends, and whether it takes an argument. The kernel passes \<open>consputc\<close> an \<open>int\<close>,
  of which a value of \<open>0x100\<close> stands for a backspace, so its output is a list of 32-bit values.
\<close>

fun takes_arg :: "conv \<Rightarrow> bool" where
  "takes_arg CPct = False"
| "takes_arg CUnknown = False"
| "takes_arg _ = True"

fun emit :: "conv \<Rightarrow> u8 \<Rightarrow> parg list \<Rightarrow> u32 list" where
  "emit (CNum long base sign) c0 args = map ucast (printint (num_value long sign (num_arg args)) base sign)"
| "emit CPtr c0 args = map ucast (printptr (num_arg args))"
| "emit CChr c0 args = [ucast (num_arg args)]"
| "emit CStr c0 args = map ucast (case str_arg args of None \<Rightarrow> null_str | Some p \<Rightarrow> p)"
| "emit CPct c0 args = [ucast (ch CHR ''%'')]"
| "emit CUnknown c0 args = [ucast (ch CHR ''%''), ucast c0]"

fun uemit :: "conv \<Rightarrow> u8 \<Rightarrow> parg list \<Rightarrow> u8 list" where
  "uemit (CNum long base sign) c0 args = uprintint (num_value long sign (num_arg args)) base sign"
| "uemit CPtr c0 args = uprintptr (num_arg args)"
| "uemit CChr c0 args = [ucast (num_arg args)]"
| "uemit CStr c0 args = (case str_arg args of None \<Rightarrow> null_str | Some p \<Rightarrow> p)"
| "uemit CPct c0 args = [ch CHR ''%'']"
| "uemit CUnknown c0 args = [ch CHR ''%'', c0]"

definition fmt_at :: "u8 list \<Rightarrow> nat \<Rightarrow> u8" where
  "fmt_at fmt i = (if i < length fmt then fmt ! i else 0)"

text \<open>The loop of the kernel's \<open>printf\<close>; a format that ends after a percent sign ends the output.\<close>

function printf_fmt :: "u8 list \<Rightarrow> parg list \<Rightarrow> u32 list" where
  "printf_fmt fmt args =
     (case fmt of
        [] \<Rightarrow> []
      | cx # rest \<Rightarrow>
          if cx \<noteq> ch CHR ''%'' then ucast cx # printf_fmt rest args
          else let c0 = fmt_at rest 0;
                   c1 = (if c0 \<noteq> 0 then fmt_at rest 1 else 0);
                   c2 = (if c1 \<noteq> 0 then fmt_at rest 2 else 0);
                   (cv, k) = conversion c0 c1 c2
            in if c0 = 0 then []
               else emit cv c0 args @ printf_fmt (drop (Suc k) rest) (if takes_arg cv then drop 1 args else args))"
  by pat_completeness auto
termination
  by (relation "measure (\<lambda>(fmt, _). length fmt)") auto

text \<open>The user library's \<open>vprintf\<close>, whose variable \<open>state\<close> remembers a percent sign.\<close>

function vprintf_loop :: "bool \<Rightarrow> u8 list \<Rightarrow> parg list \<Rightarrow> u8 list" where
  "vprintf_loop percent fmt args =
     (case fmt of
        [] \<Rightarrow> []
      | c0 # rest \<Rightarrow>
          if \<not> percent
          then if c0 = ch CHR ''%'' then vprintf_loop True rest args else c0 # vprintf_loop False rest args
          else let c1 = (if c0 \<noteq> 0 then fmt_at rest 0 else 0);
                   c2 = (if c1 \<noteq> 0 then fmt_at rest 1 else 0);
                   (cv, k) = conversion c0 c1 c2
            in uemit cv c0 args @ vprintf_loop False (drop k rest) (if takes_arg cv then drop 1 args else args))"
  by pat_completeness auto
termination
  by (relation "measure (\<lambda>(_, fmt, _). length fmt)") auto

definition vprintf :: "u8 list \<Rightarrow> parg list \<Rightarrow> u8 list" where
  "vprintf fmt args = vprintf_loop False fmt args"

declare printf_fmt.simps [simp del] vprintf_loop.simps [simp del]

section \<open>The digits of a number\<close>

fun value_of :: "nat \<Rightarrow> nat list \<Rightarrow> nat" where
  "value_of base [] = 0"
| "value_of base (d # ds) = d + base * value_of base ds"

fun digits_of :: "nat \<Rightarrow> nat \<Rightarrow> nat \<Rightarrow> nat list" where
  "digits_of 0 base x = []"
| "digits_of (Suc f) base x = (x mod base) # (if x div base \<noteq> 0 then digits_of f base (x div base) else [])"

lemma digit_loop_map: "digit_loop dg f base x = map dg (digits_of f base x)"
  by (induction dg f base x rule: digit_loop.induct) auto

lemma digits_nonempty: "0 < f \<Longrightarrow> digits_of f base x \<noteq> []"
  by (cases f) simp_all

lemma digits_bound: "0 < base \<Longrightarrow> d \<in> set (digits_of f base x) \<Longrightarrow> d < base"
  by (induction f base x rule: digits_of.induct) (auto split: if_splits)

lemma digits_value:
  assumes "2 \<le> base" "x < base ^ f" "0 < f"
  shows "value_of base (digits_of f base x) = x"
  using assms
proof (induction f base x rule: digits_of.induct)
  case (2 f base x)
  show ?case
  proof (cases "x div base = 0")
    case True
    then have "x mod base = x" by (metis mod_div_trivial mod_mult_div_eq mult_0_right add_0_right)
    with True show ?thesis by simp
  next
    case False
    have "x div base < base ^ f" using 2(3) by (simp add: less_mult_imp_div_less mult.commute)
    moreover have "0 < f" using False calculation by (cases f) auto
    ultimately show ?thesis using 2 False by simp
  qed
qed simp

lemma digits_length:
  assumes "2 \<le> base" "x < base ^ k" "0 < k"
  shows "length (digits_of f base x) \<le> k"
  using assms
proof (induction f base x arbitrary: k rule: digits_of.induct)
  case (2 f base x)
  show ?case
  proof (cases "x div base = 0")
    case False
    obtain j where k: "k = Suc j" using 2(4) by (cases k) auto
    have "x div base < base ^ j" using 2(3) by (simp add: k less_mult_imp_div_less mult.commute)
    moreover have "0 < j" using False calculation by (cases j) auto
    ultimately show ?thesis using 2 False k by simp
  qed (use 2 in simp)
qed simp

text \<open>Reading a decimal number: the inverse of printing it.\<close>

definition dec_value :: "u8 list \<Rightarrow> int" where
  "dec_value cs = fold (\<lambda>c v. 10 * v + (uint c - 48)) cs 0"

definition read_dec :: "u8 list \<Rightarrow> int" where
  "read_dec cs = (case cs of [] \<Rightarrow> 0 | c # ds \<Rightarrow> if c = 45 then - dec_value ds else dec_value cs)"

lemma uint_digit: "d < 10 \<Longrightarrow> uint (kdigit d) = 48 + int d" "d < 10 \<Longrightarrow> uint (udigit d) = 48 + int d"
proof -
  have "uint (of_nat (48 + d) :: u8) = 48 + int d" if "d < 10"
    using that by (simp only: unsigned_of_nat take_bit_of_nat [symmetric]) (simp add: take_bit_int_eq_self)
  then show "d < 10 \<Longrightarrow> uint (kdigit d) = 48 + int d" "d < 10 \<Longrightarrow> uint (udigit d) = 48 + int d"
    unfolding kdigit_def udigit_def by presburger+
qed

lemma dec_value_rev:
  assumes "\<And>d. d < 10 \<Longrightarrow> uint (dg d) = 48 + int d" "\<And>d. d \<in> set ds \<Longrightarrow> d < 10"
  shows "dec_value (rev (map dg ds)) = int (value_of 10 ds)"
  using assms by (induction ds) (auto simp: dec_value_def)

lemma read_dec_digits:
  assumes "\<And>d. d < 10 \<Longrightarrow> uint (dg d) = 48 + int d" "x < 10 ^ 64"
  shows "read_dec (rev (digit_loop dg 64 10 x @ (if neg then [45] else []))) = (if neg then - int x else int x)"
proof -
  let ?ds = "digits_of 64 10 x"
  have v: "dec_value (rev (map dg ?ds)) = int x"
    using dec_value_rev [of dg ?ds, OF assms(1)] digits_bound [of 10 _ 64 x] digits_value [of 10 x 64] assms(2) by simp
  show ?thesis
  proof (cases neg)
    case False
    obtain c cs where c: "rev (map dg ?ds) = c # cs"
      using digits_nonempty [of 64 10 x] by (cases "rev (map dg ?ds)") simp_all
    then have "c \<in> set (rev (map dg ?ds))" by simp
    then have "c \<in> dg ` set ?ds" by (simp only: set_rev set_map)
    then obtain d where "d < 10" "c = dg d" using digits_bound [of 10 _ 64 x] by auto
    then have "uint c = 48 + int d" using assms(1) by simp
    then have "c \<noteq> 45" by auto
    then show ?thesis using v False c by (simp add: read_dec_def digit_loop_map)
  qed (use v in \<open>simp add: read_dec_def digit_loop_map\<close>)
qed

lemma unat64_small: "unat (x :: u64) < 10 ^ 64"
proof -
  have "unat x < 2 ^ 64" using unsigned_less [of x] by simp
  also have "(2 :: nat) ^ 64 \<le> 10 ^ 64" by (rule power_mono) simp_all
  finally show ?thesis .
qed

lemma abs_neg_word: "xx <s 0 \<Longrightarrow> int (unat (- xx)) = - sint (xx :: u64)"
proof -
  assume "xx <s 0"
  then have s: "sint xx < 0" by (simp add: word_sless_alt)
  have r: "- (2 ^ 63) \<le> sint xx" using sint_greater_eq [of xx] by simp
  have "uint (- xx) = uint (word_of_int (- sint xx) :: u64)" by simp
  also have "\<dots> = - sint xx" using s r by (simp only: uint_word_of_int_eq) (simp add: take_bit_int_eq_self)
  finally show ?thesis by simp
qed

lemma sint_nonneg_unat: "\<not> xx <s 0 \<Longrightarrow> int (unat xx) = sint (xx :: u64)"
proof -
  assume "\<not> xx <s 0"
  then have s: "0 \<le> sint xx" by (simp add: word_sless_alt)
  have r: "sint xx < 2 ^ 63" using sint_less [of xx] by simp
  have "uint xx = uint (word_of_int (sint xx) :: u64)" by simp
  also have "\<dots> = sint xx" using s r by (simp only: uint_word_of_int_eq) (simp add: take_bit_int_eq_self)
  finally show ?thesis by simp
qed

section \<open>Properties\<close>

text \<open>
  C33: The kernel prints decimals correctly: reading back what \<open>printint(xx, 10, sign)\<close> of kernel/printf.c sends gives the
  number, taken as signed or as unsigned as \<open>sign\<close> says, for every 64-bit number; a signed one must not be the most negative,
  whose negation C leaves undefined.
\<close>

theorem printint_roundtrip:
  assumes "sign \<longrightarrow> sint xx \<noteq> - (2 ^ 63)"
  shows "read_dec (printint xx 10 sign) = (if sign then sint xx else uint xx)"
proof (cases "sign")
  case True
  then show ?thesis
    unfolding printint_def printint_buf_def Let_def
    by (subst read_dec_digits [OF uint_digit(1) unat64_small])
       (auto simp: abs_neg_word sint_nonneg_unat simp del: of_nat_unat)
next
  case False
  then show ?thesis
    unfolding printint_def printint_buf_def Let_def
    by (subst read_dec_digits [OF uint_digit(1) unat64_small]) auto
qed

theorem printint_roundtrip_witness:
  "read_dec (printint (- 42) 10 True) = - 42 \<and> read_dec (printint (- 1) 10 False) = 2 ^ 64 - 1"
proof -
  have "uint (- 1 :: u64) = 2 ^ 64 - 1" by (simp add: unsigned_minus_1_eq_mask mask_eq_exp_minus_1)
  then show ?thesis using printint_roundtrip [of True "- 42"] printint_roundtrip [of False "- 1"] by simp
qed

text \<open>
  C34: The kernel's \<open>printint\<close> never writes past the end of its 20-byte array \<open>buf\<close>, in the two
  bases \<open>printf\<close> uses.
\<close>

theorem printint_fits:
  assumes "base = 10 \<or> base = 16"
  shows "length (printint_buf xx base sign) \<le> 20"
proof -
  have u: "unat (x :: u64) < 2 ^ 64" for x using unsigned_less [of x] by simp
  have l10: "length (digit_loop kdigit 64 10 (unat x)) \<le> 20" for x :: u64
    unfolding digit_loop_map length_map by (rule digits_length) (use u [of x] in simp_all)
  have l16: "length (digit_loop kdigit 64 16 (unat x)) \<le> 16" for x :: u64
    unfolding digit_loop_map length_map by (rule digits_length) (use u [of x] in simp_all)
  have n10: "length (digit_loop kdigit 64 10 (unat (- xx))) \<le> 19" if "xx <s 0"
  proof -
    have "int (unat (- xx)) \<le> 2 ^ 63" using abs_neg_word [OF that] sint_greater_eq [of xx] by simp
    then have "int (unat (- xx)) < int (10 ^ 19)" by simp
    then have "unat (- xx) < 10 ^ 19" by (rule of_nat_less_imp_less)
    then show ?thesis unfolding digit_loop_map length_map by (intro digits_length) simp_all
  qed
  show ?thesis
    using assms l10 l16 [of xx] l16 [of "- xx"] n10 unfolding printint_buf_def Let_def by auto
qed

theorem printint_fits_witness: "length (printint_buf (- 1) 10 False) \<le> 20"
  by (rule printint_fits) simp

text \<open>
  The user library's \<open>printf\<close> prints a 64-bit argument (conversions lu and llu) modulo
  \<open>2^32\<close>: \<open>printint\<close> of user/printf.c keeps the value in a variable of type \<open>uint\<close>.
\<close>

theorem uprintf_lu_truncates:
  "read_dec (vprintf (map ch ''%lu'') [PNum x]) = uint x mod 2 ^ 32"
proof -
  have "vprintf (map ch ''%lu'') [PNum x] = uprintint x 10 False"
    by (simp add: vprintf_def vprintf_loop.simps conversion_def fmt_at_def num_value_def)
  moreover have "int (unat (ucast x :: u32)) = uint x mod 2 ^ 32"
    by (simp add: unsigned_ucast_eq take_bit_eq_mod zmod_int)
  ultimately show ?thesis
    unfolding uprintint_def Let_def
    using read_dec_digits [OF uint_digit(2), of "unat (ucast x :: u32)" False] unat64_small [of "ucast (ucast x :: u32)"]
    by (simp add: unsigned_ucast_eq)
qed

end
