(* ===== verification/Console.thy ===== *)
theory Console
  imports Fs Printf
begin

text \<open>
  The console: the UART driver (\<^verbatim>\<open>kernel/uart.c\<close>), the kernel's \<open>printf\<close> and \<open>procdump\<close> on
  top of it, and the line-editing input buffer of \<^verbatim>\<open>kernel/console.c\<close>.

  The UART is hardware. Every load of one of its registers returns what the device answers: the
  \<open>k\<close>-th load returns \<open>uart_in k\<close>, an arbitrary sequence. Stores are recorded in \<open>uart_out\<close>, in
  order. The loop of \<open>uartintr\<close> that takes input characters ends when the device has none left; it
  runs at most \<open>dev_rounds\<close> times.
\<close>

section \<open>State\<close>

datatype devfn = ConsoleDev

record kcons = kfs +
  uart_in :: "nat \<Rightarrow> u8"
  uart_n :: nat
  uart_out :: "(nat \<times> u8) list"
  dev_rounds :: nat
  tx_busy :: bool
  panicking :: bool
  panicked :: bool
  cons_buf :: "nat \<Rightarrow> u8"
  cons_r :: u32
  cons_w :: u32
  cons_e :: u32
  devsw_read :: "nat \<Rightarrow> devfn option"
  devsw_write :: "nat \<Rightarrow> devfn option"

section \<open>The UART\<close>

definition RHR :: nat where "RHR = 0"
definition THR :: nat where "THR = 0"
definition IER :: nat where "IER = 1"
definition FCR :: nat where "FCR = 2"
definition ISR :: nat where "ISR = 2"
definition LCR :: nat where "LCR = 3"
definition LSR :: nat where "LSR = 5"
definition LSR_RX_READY :: u8 where "LSR_RX_READY = push_bit 0 1"
definition LSR_TX_IDLE :: u8 where "LSR_TX_IDLE = push_bit 5 1"

definition ReadReg :: "nat \<Rightarrow> 'z kcons_scheme \<Rightarrow> u8 \<times> 'z kcons_scheme" where
  "ReadReg reg s = (uart_in s (uart_n s), s\<lparr>uart_n := Suc (uart_n s)\<rparr>)"

definition WriteReg :: "nat \<Rightarrow> u8 \<Rightarrow> 'z kcons_scheme \<Rightarrow> 'z kcons_scheme" where
  "WriteReg reg v s = s\<lparr>uart_out := uart_out s @ [(reg, v)]\<rparr>"

definition uartinit :: "'z kcons_scheme \<Rightarrow> 'z kcons_scheme" where
  "uartinit s =
     (let s = WriteReg IER 0x00 s;
          s = WriteReg LCR (push_bit 7 1) s;
          s = WriteReg 0 0x03 s;
          s = WriteReg 1 0x00 s;
          s = WriteReg LCR (push_bit 0 3) s;
          s = WriteReg FCR (push_bit 0 1 OR push_bit 1 3) s;
          s = WriteReg IER (push_bit 1 1 OR push_bit 0 1) s
      in initlock TxLock ''uart'' s)"

text \<open>\<open>uartwrite\<close> sends \<open>buf\<close>; while the transmitter is busy it sleeps.\<close>

fun uartwrite_loop :: "u8 list \<Rightarrow> 'z kcons_scheme \<Rightarrow> (unit, 'z kcons_scheme) kres" where
  "uartwrite_loop [] s = Ret () s"
| "uartwrite_loop (c # cs) s =
     (if tx_busy s then sleep ctx0 ChTx TxLock s
      else uartwrite_loop cs ((WriteReg THR c s)\<lparr>tx_busy := True\<rparr>))"

definition uartwrite :: "u8 list \<Rightarrow> 'z kcons_scheme \<Rightarrow> (unit, 'z kcons_scheme) kres" where
  "uartwrite buf s = with_lock TxLock (uartwrite_loop buf) s"

text \<open>The first load, from the \<open>k\<close>-th on, that answers with the idle bit set.\<close>

partial_function (option) tx_idle_at :: "(nat \<Rightarrow> u8) \<Rightarrow> nat \<Rightarrow> nat option" where
  "tx_idle_at f k = (if f k AND LSR_TX_IDLE = 0 then tx_idle_at f (Suc k) else Some k)"

definition uartputc_sync :: "u32 \<Rightarrow> 'z kcons_scheme \<Rightarrow> (unit, 'z kcons_scheme) kres" where
  "uartputc_sync c s =
     (let s = (if \<not> panicking s then push_off s else s) in
      if panicked s then Wait s
      else case tx_idle_at (uart_in s) (uart_n s) of
          None \<Rightarrow> Wait s
        | Some k \<Rightarrow>
            let s = WriteReg THR (ucast c) (s\<lparr>uart_n := Suc k\<rparr>) in
            if \<not> panicking s then pop_off s else Ret () s)"

definition uartgetc :: "'z kcons_scheme \<Rightarrow> u8 option \<times> 'z kcons_scheme" where
  "uartgetc s =
     (case ReadReg LSR s of (v, s) \<Rightarrow>
        if v AND LSR_RX_READY \<noteq> 0 then (case ReadReg RHR s of (c, s) \<Rightarrow> (Some c, s)) else (None, s))"

section \<open>Output\<close>

definition BACKSPACE :: u32 where "BACKSPACE = 0x100"

definition consputc :: "u32 \<Rightarrow> 'z kcons_scheme \<Rightarrow> (unit, 'z kcons_scheme) kres" where
  "consputc c s =
     (if c = BACKSPACE
      then kbind (uartputc_sync 8 s) (\<lambda>_ s.
           kbind (uartputc_sync 32 s) (\<lambda>_ s.
           uartputc_sync 8 s))
      else uartputc_sync c s)"

definition printf :: "u8 list \<Rightarrow> parg list \<Rightarrow> 'z kcons_scheme \<Rightarrow> (int, 'z kcons_scheme) kres" where
  "printf fmt args s =
     kbind (if \<not> panicking s then acquire PrLock s else Ret () s) (\<lambda>_ s.
     kbind (kfold consputc (printf_fmt fmt args) s) (\<lambda>_ s.
     kbind (if \<not> panicking s then release PrLock s else Ret () s) (\<lambda>_ s.
     Ret 0 s)))"

text \<open>What \<open>panic\<close> does before it stops for good.\<close>

definition panic :: "u8 list \<Rightarrow> 'z kcons_scheme \<Rightarrow> (unit, 'z kcons_scheme) kres" where
  "panic msg s =
     kbind (printf (map ch ''panic: '') [] (s\<lparr>panicking := True\<rparr>)) (\<lambda>_ s.
     kbind (printf (map ch ''%s'' @ [10]) [PStr (Some msg)] s) (\<lambda>_ s.
     Wait (s\<lparr>panicked := True\<rparr>)))"

definition printfinit :: "'z kcons_scheme \<Rightarrow> 'z kcons_scheme" where
  "printfinit s = initlock PrLock ''pr'' s"

fun state_name :: "procstate \<Rightarrow> string" where
  "state_name UNUSED = ''unused''"
| "state_name USED = ''used''"
| "state_name SLEEPING = ''sleep ''"
| "state_name RUNNABLE = ''runble''"
| "state_name RUNNING = ''run   ''"
| "state_name ZOMBIE = ''zombie''"

definition procdump :: "'z kcons_scheme \<Rightarrow> (unit, 'z kcons_scheme) kres" where
  "procdump s =
     kbind (printf [10] [] s) (\<lambda>_ s.
     kfold (\<lambda>i s.
       if state (procs s i) = UNUSED then Ret () s
       else kbind (printf (map ch ''%d %s %s'')
              [PNum (word_of_int (pid (procs s i))), PStr (Some (map ch (state_name (state (procs s i))))),
               PStr (Some (takeWhile (\<lambda>c. c \<noteq> 0) (pname (procs s i))))] s) (\<lambda>_ s.
            kbind (printf [10] [] s) (\<lambda>_ s.
            Ret () s))) [0..<NPROC] s)"

section \<open>The input buffer\<close>

definition INPUT_BUF_SIZE :: u32 where "INPUT_BUF_SIZE = 128"

definition cons_at :: "'z kcons_scheme \<Rightarrow> u32 \<Rightarrow> u8" where
  "cons_at s i = cons_buf s (unat (i mod INPUT_BUF_SIZE))"

fun consolewrite_loop :: "nat \<Rightarrow> wsrc \<Rightarrow> int \<Rightarrow> int \<Rightarrow> 'z kcons_scheme \<Rightarrow> (int, 'z kcons_scheme) kres" where
  "consolewrite_loop f src n i s =
     (if i < n
      then (case f of
          0 \<Rightarrow> Wait s
        | Suc f \<Rightarrow>
            let nn = min 32 (n - i) in
            kbind (either_copyin (src_add src (word_of_int i)) (nat nn) s) (\<lambda>(r, buf) s.
            if r = - 1 then Ret i s
            else kbind (uartwrite buf s) (\<lambda>_ s.
              consolewrite_loop f src n (i + nn) s)))
      else Ret i s)"

text \<open>Every round sends at least one byte.\<close>

definition consolewrite :: "wsrc \<Rightarrow> int \<Rightarrow> 'z kcons_scheme \<Rightarrow> (int, 'z kcons_scheme) kres" where
  "consolewrite src n s = consolewrite_loop (nat n) src n 0 s"

text \<open>
  The loop of \<open>consoleread\<close> with \<open>k\<close> bytes left of \<open>target\<close>; \<open>None\<close> when the process was killed
  while it waited, otherwise the bytes left at the end.
\<close>

fun consoleread_loop :: "nat \<Rightarrow> nat \<Rightarrow> rdst \<Rightarrow> 'z kcons_scheme \<Rightarrow> (nat option, 'z kcons_scheme) kres" where
  "consoleread_loop 0 target dst s = Ret (Some 0) s"
| "consoleread_loop (Suc k) target dst s =
     (if cons_r s = cons_w s
      then kbind (curproc s) (\<lambda>p s.
           kbind (is_killed p s) (\<lambda>kl s.
           if kl then kbind (release ConsLock s) (\<lambda>_ s. Ret None s)
           else kbind (sleep ctx0 ChCons ConsLock s) (\<lambda>_ s. Ret None s)))
      else let c = cons_at s (cons_r s); s = s\<lparr>cons_r := cons_r s + 1\<rparr> in
        if c = 4
        then Ret (Some (Suc k)) (if Suc k < target then s\<lparr>cons_r := cons_r s - 1\<rparr> else s)
        else kbind (either_copyout dst [c] s) (\<lambda>r s.
          if r = - 1 then Ret (Some (Suc k)) s
          else if c = 10 then Ret (Some k) s
          else consoleread_loop k target (dst_add dst 1) s))"

definition consoleread :: "rdst \<Rightarrow> int \<Rightarrow> 'z kcons_scheme \<Rightarrow> (int, 'z kcons_scheme) kres" where
  "consoleread dst n s =
     kbind (acquire ConsLock s) (\<lambda>_ s.
     kbind (consoleread_loop (nat n) (nat n) dst s) (\<lambda>r s.
       case r of
         None \<Rightarrow> Ret (- 1) s
       | Some k \<Rightarrow> kbind (release ConsLock s) (\<lambda>_ s. Ret (int (nat n - k)) s)))"

text \<open>The loop of control-U: at most \<open>e - w\<close> characters are erased.\<close>

fun kill_line :: "nat \<Rightarrow> 'z kcons_scheme \<Rightarrow> (unit, 'z kcons_scheme) kres" where
  "kill_line f s =
     (if cons_e s \<noteq> cons_w s \<and> cons_at s (cons_e s - 1) \<noteq> 10
      then (case f of
          0 \<Rightarrow> Wait s
        | Suc f \<Rightarrow> kbind (consputc BACKSPACE (s\<lparr>cons_e := cons_e s - 1\<rparr>)) (\<lambda>_ s. kill_line f s))
      else Ret () s)"

definition cons_store :: "u8 \<Rightarrow> 'z kcons_scheme \<Rightarrow> 'z kcons_scheme" where
  "cons_store c s =
     s\<lparr>cons_buf := (cons_buf s)(unat (cons_e s mod INPUT_BUF_SIZE) := c), cons_e := cons_e s + 1\<rparr>"

definition consoleintr :: "u8 \<Rightarrow> 'z kcons_scheme \<Rightarrow> (unit, 'z kcons_scheme) kres" where
  "consoleintr c s = with_lock ConsLock (\<lambda>s.
     if c = 16 then procdump s
     else if c = 21 then kill_line (unat (cons_e s - cons_w s)) s
     else if c = 8 \<or> c = 0x7f
     then if cons_e s \<noteq> cons_w s then consputc BACKSPACE (s\<lparr>cons_e := cons_e s - 1\<rparr>) else Ret () s
     else if c \<noteq> 0 \<and> cons_e s - cons_r s < INPUT_BUF_SIZE
     then let c = (if c = 13 then 10 else c) in
       kbind (consputc (ucast c) s) (\<lambda>_ s.
       let s = cons_store c s in
       if c = 10 \<or> c = 4 \<or> cons_e s - cons_r s = INPUT_BUF_SIZE
       then wakeup ChCons (s\<lparr>cons_w := cons_e s\<rparr>)
       else Ret () s)
     else Ret () s) s"

definition CONSOLE :: nat where "CONSOLE = 1"

definition consoleinit :: "'z kcons_scheme \<Rightarrow> 'z kcons_scheme" where
  "consoleinit s =
     (let s = initlock ConsLock ''cons'' s;
          s = uartinit s
      in s\<lparr>devsw_read := (devsw_read s)(CONSOLE := Some ConsoleDev),
           devsw_write := (devsw_write s)(CONSOLE := Some ConsoleDev)\<rparr>)"

fun uart_drain :: "nat \<Rightarrow> 'z kcons_scheme \<Rightarrow> (unit, 'z kcons_scheme) kres" where
  "uart_drain 0 s = Wait s"
| "uart_drain (Suc f) s =
     (case uartgetc s of
        (None, s) \<Rightarrow> Ret () s
      | (Some c, s) \<Rightarrow> kbind (consoleintr c s) (\<lambda>_ s. uart_drain f s))"

definition uartintr :: "'z kcons_scheme \<Rightarrow> (unit, 'z kcons_scheme) kres" where
  "uartintr s =
     (case ReadReg ISR s of (_, s) \<Rightarrow>
     kbind (with_lock TxLock (\<lambda>s.
       case ReadReg LSR s of (v, s) \<Rightarrow>
         if v AND LSR_TX_IDLE \<noteq> 0 then wakeup ChTx (s\<lparr>tx_busy := False\<rparr>) else Ret () s) s) (\<lambda>_ s.
     uart_drain (dev_rounds s) s))"

declare consolewrite_loop.simps [simp del] kill_line.simps [simp del]

end
