(* ===== verification/File.thy ===== *)
theory File
  imports Console
begin

text \<open>
  Pipes (\<^verbatim>\<open>kernel/pipe.c\<close>) and open files (\<^verbatim>\<open>kernel/file.c\<close>). A \<open>struct pipe\<close> is in a page from
  \<open>kalloc\<close>; the model keeps its fields in \<open>pipes\<close>, under the address of the page. A
  \<open>struct file *\<close> into \<open>ftable.file\<close> is its index.
\<close>

section \<open>State\<close>

record pipe =
  pdata :: "nat \<Rightarrow> u8"
  nread :: u32
  nwrite :: u32
  readopen :: bool
  writeopen :: bool

datatype ftype = FD_NONE | FD_PIPE | FD_INODE | FD_DEVICE

record fileobj =
  ftype :: ftype
  fref :: int
  readable :: bool
  writable :: bool
  fpipe :: u64
  fip :: "nat option"
  foff :: u32
  fmajor :: u16

record kfile = kcons +
  ftable :: "nat \<Rightarrow> fileobj"
  pipes :: "u64 \<Rightarrow> pipe"

definition NFILE :: nat where "NFILE = 100"
definition NDEV :: int where "NDEV = 10"
definition PIPESIZE :: u32 where "PIPESIZE = 512"

definition upd_file :: "nat \<Rightarrow> (fileobj \<Rightarrow> fileobj) \<Rightarrow> 'z kfile_scheme \<Rightarrow> 'z kfile_scheme" where
  "upd_file f g s = s\<lparr>ftable := (ftable s)(f := g (ftable s f))\<rparr>"

definition upd_pipe :: "u64 \<Rightarrow> (pipe \<Rightarrow> pipe) \<Rightarrow> 'z kfile_scheme \<Rightarrow> 'z kfile_scheme" where
  "upd_pipe pi g s = s\<lparr>pipes := (pipes s)(pi := g (pipes s pi))\<rparr>"

section \<open>The file table\<close>

definition fileinit :: "'z kfile_scheme \<Rightarrow> 'z kfile_scheme" where
  "fileinit s = initlock FtableLock ''ftable'' s"

definition filealloc :: "'z kfile_scheme \<Rightarrow> (nat option, 'z kfile_scheme) kres" where
  "filealloc s =
     kbind (acquire FtableLock s) (\<lambda>_ s.
       case find (\<lambda>f. fref (ftable s f) = 0) [0..<NFILE] of
         Some f \<Rightarrow> kbind (release FtableLock (upd_file f (\<lambda>x. x\<lparr>fref := 1\<rparr>) s)) (\<lambda>_ s. Ret (Some f) s)
       | None \<Rightarrow> kbind (release FtableLock s) (\<lambda>_ s. Ret None s))"

definition filedup :: "nat \<Rightarrow> 'z kfile_scheme \<Rightarrow> (nat, 'z kfile_scheme) kres" where
  "filedup f s =
     kbind (acquire FtableLock s) (\<lambda>_ s.
       if fref (ftable s f) < 1 then Panic ''filedup''
       else kbind (release FtableLock (upd_file f (\<lambda>x. x\<lparr>fref := fref x + 1\<rparr>) s)) (\<lambda>_ s. Ret f s))"

section \<open>Pipes\<close>

definition pipeclose :: "u64 \<Rightarrow> bool \<Rightarrow> 'z kfile_scheme \<Rightarrow> (unit, 'z kfile_scheme) kres" where
  "pipeclose pi wrt s =
     kbind (acquire (PipeLock pi) s) (\<lambda>_ s.
     kbind (if wrt then wakeup (ChPipeR pi) (upd_pipe pi (\<lambda>p. p\<lparr>writeopen := False\<rparr>) s)
            else wakeup (ChPipeW pi) (upd_pipe pi (\<lambda>p. p\<lparr>readopen := False\<rparr>) s)) (\<lambda>_ s.
     if \<not> readopen (pipes s pi) \<and> \<not> writeopen (pipes s pi)
     then kbind (release (PipeLock pi) s) (\<lambda>_ s. kfree pi s)
     else release (PipeLock pi) s))"

text \<open>One byte into and out of the ring; the counters run on and wrap around at \<open>2^32\<close>.\<close>

definition pipe_put :: "u8 \<Rightarrow> pipe \<Rightarrow> pipe" where
  "pipe_put c p = p\<lparr>pdata := (pdata p)(unat (nwrite p mod PIPESIZE) := c), nwrite := nwrite p + 1\<rparr>"

definition pipe_head :: "pipe \<Rightarrow> u8" where
  "pipe_head p = pdata p (unat (nread p mod PIPESIZE))"

text \<open>
  The loop of \<open>pipewrite\<close>: \<open>None\<close> is the return of -1 in the middle of it, \<open>Some i\<close> its end. A round
  writes a byte, leaves the loop or goes to sleep, so \<open>n - i\<close> rounds are enough.
\<close>

fun pipewrite_loop :: "nat \<Rightarrow> nat \<Rightarrow> u64 \<Rightarrow> u64 \<Rightarrow> int \<Rightarrow> int \<Rightarrow> 'z kfile_scheme
    \<Rightarrow> (int option, 'z kfile_scheme) kres" where
  "pipewrite_loop f pr pi addr n i s =
     (if i < n
      then (case f of
          0 \<Rightarrow> Wait s
        | Suc f \<Rightarrow>
            kbind (if \<not> readopen (pipes s pi) then Ret True s else is_killed pr s) (\<lambda>stop s.
            if stop then kbind (release (PipeLock pi) s) (\<lambda>_ s. Ret None s)
            else if nwrite (pipes s pi) = nread (pipes s pi) + PIPESIZE
            then kbind (wakeup (ChPipeR pi) s) (\<lambda>_ s.
                 kbind (sleep ctx0 (ChPipeW pi) (PipeLock pi) s) (\<lambda>_ s. Ret None s))
            else kbind (copyin (pagetable (procs s pr)) (addr + word_of_int i) 1 s) (\<lambda>(r, bs) s.
              if r = - 1 then Ret (Some i) s
              else pipewrite_loop f pr pi addr n (i + 1) (upd_pipe pi (pipe_put (hd bs)) s))))
      else Ret (Some i) s)"

definition pipewrite :: "u64 \<Rightarrow> u64 \<Rightarrow> int \<Rightarrow> 'z kfile_scheme \<Rightarrow> (int, 'z kfile_scheme) kres" where
  "pipewrite pi addr n s =
     kbind (curproc s) (\<lambda>pr s.
     kbind (acquire (PipeLock pi) s) (\<lambda>_ s.
     kbind (pipewrite_loop (nat n) pr pi addr n 0 s) (\<lambda>r s.
       case r of
         None \<Rightarrow> Ret (- 1) s
       | Some i \<Rightarrow>
           kbind (wakeup (ChPipeR pi) s) (\<lambda>_ s.
           kbind (release (PipeLock pi) s) (\<lambda>_ s. Ret i s)))))"

fun piperead_loop :: "nat \<Rightarrow> nat \<Rightarrow> u64 \<Rightarrow> u64 \<Rightarrow> int \<Rightarrow> 'z kfile_scheme \<Rightarrow> (int, 'z kfile_scheme) kres" where
  "piperead_loop 0 pr pi addr i s = Ret i s"
| "piperead_loop (Suc k) pr pi addr i s =
     (if nread (pipes s pi) = nwrite (pipes s pi) then Ret i s
      else let c = pipe_head (pipes s pi);
               s = upd_pipe pi (\<lambda>p. p\<lparr>nread := nread p + 1\<rparr>) s in
        kbind (copyout (pagetable (procs s pr)) (addr + word_of_int i) [c] s) (\<lambda>r s.
        if r = - 1 then Ret i s
        else piperead_loop k pr pi addr (i + 1) s))"

definition piperead :: "u64 \<Rightarrow> u64 \<Rightarrow> int \<Rightarrow> 'z kfile_scheme \<Rightarrow> (int, 'z kfile_scheme) kres" where
  "piperead pi addr n s =
     kbind (curproc s) (\<lambda>pr s.
     kbind (acquire (PipeLock pi) s) (\<lambda>_ s.
     if nread (pipes s pi) = nwrite (pipes s pi) \<and> writeopen (pipes s pi)
     then kbind (is_killed pr s) (\<lambda>kl s.
          if kl then kbind (release (PipeLock pi) s) (\<lambda>_ s. Ret (- 1) s)
          else kbind (sleep ctx0 (ChPipeR pi) (PipeLock pi) s) (\<lambda>_ s. Ret (- 1) s))
     else kbind (piperead_loop (nat n) pr pi addr 0 s) (\<lambda>i s.
          kbind (wakeup (ChPipeW pi) s) (\<lambda>_ s.
          kbind (release (PipeLock pi) s) (\<lambda>_ s. Ret i s)))))"

section \<open>Operations on open files\<close>

definition fileclose :: "nat \<Rightarrow> 'z kfile_scheme \<Rightarrow> (unit, 'z kfile_scheme) kres" where
  "fileclose f s =
     kbind (acquire FtableLock s) (\<lambda>_ s.
       if fref (ftable s f) < 1 then Panic ''fileclose''
       else let s = upd_file f (\<lambda>x. x\<lparr>fref := fref x - 1\<rparr>) s in
         if fref (ftable s f) > 0 then release FtableLock s
         else let ff = ftable s f in
           kbind (release FtableLock (upd_file f (\<lambda>x. x\<lparr>fref := 0, ftype := FD_NONE\<rparr>) s)) (\<lambda>_ s.
           if ftype ff = FD_PIPE then pipeclose (fpipe ff) (writable ff) s
           else if ftype ff = FD_INODE \<or> ftype ff = FD_DEVICE
           then kbind (begin_op s) (\<lambda>_ s.
                kbind (case fip ff of None \<Rightarrow> Panic ''kerneltrap'' | Some ip \<Rightarrow> iput ip s) (\<lambda>_ s.
                end_op s))
           else Ret () s))"

definition pipealloc :: "'z kfile_scheme \<Rightarrow> ((nat \<times> nat) option, 'z kfile_scheme) kres" where
  "pipealloc s =
     kbind (filealloc s) (\<lambda>f0 s.
       case f0 of
         None \<Rightarrow> Ret None s
       | Some f0 \<Rightarrow>
           kbind (filealloc s) (\<lambda>f1 s.
             case f1 of
               None \<Rightarrow> kbind (fileclose f0 s) (\<lambda>_ s. Ret None s)
             | Some f1 \<Rightarrow>
                 kbind (kalloc s) (\<lambda>pi s.
                   if pi = 0
                   then kbind (fileclose f0 s) (\<lambda>_ s. kbind (fileclose f1 s) (\<lambda>_ s. Ret None s))
                   else let s = upd_pipe pi (\<lambda>p. p\<lparr>readopen := True, writeopen := True, nwrite := 0, nread := 0\<rparr>) s;
                            s = initlock (PipeLock pi) ''pipe'' s;
                            s = upd_file f0 (\<lambda>x. x\<lparr>ftype := FD_PIPE, readable := True, writable := False, fpipe := pi\<rparr>) s;
                            s = upd_file f1 (\<lambda>x. x\<lparr>ftype := FD_PIPE, readable := False, writable := True, fpipe := pi\<rparr>) s
                     in Ret (Some (f0, f1)) s)))"

text \<open>
  A \<open>struct stat\<close> takes 24 bytes. The four bytes of padding before \<open>size\<close> are whatever the stack
  held; the model takes them to be zero.
\<close>

definition stat_bytes :: "kstat \<Rightarrow> u8 list" where
  "stat_bytes t = le_bytes 4 (st_dev t) @ le_bytes 4 (st_ino t) @ le_bytes 2 (st_type t) @
     le_bytes 2 (st_nlink t) @ replicate 4 0 @ le_bytes 8 (st_size t)"

definition filestat :: "nat \<Rightarrow> u64 \<Rightarrow> 'z kfile_scheme \<Rightarrow> (int, 'z kfile_scheme) kres" where
  "filestat f addr s =
     kbind (curproc s) (\<lambda>p s.
       if ftype (ftable s f) = FD_INODE \<or> ftype (ftable s f) = FD_DEVICE
       then kbind (ilock (fip (ftable s f)) s) (\<lambda>_ s.
            case fip (ftable s f) of
              None \<Rightarrow> Panic ''kerneltrap''
            | Some ip \<Rightarrow>
                let info = stati ip s in
                kbind (iunlock (Some ip) s) (\<lambda>_ s.
                kbind (copyout (pagetable (procs s p)) addr (stat_bytes info) s) (\<lambda>r s.
                if r < 0 then Ret (- 1) s else Ret 0 s)))
       else Ret (- 1) s)"

text \<open>The device switch; the only device is the console.\<close>

fun dev_read :: "devfn \<Rightarrow> u64 \<Rightarrow> int \<Rightarrow> 'z kcons_scheme \<Rightarrow> (int, 'z kcons_scheme) kres" where
  "dev_read ConsoleDev addr n s = consoleread (RUser addr) n s"

fun dev_write :: "devfn \<Rightarrow> u64 \<Rightarrow> int \<Rightarrow> 'z kcons_scheme \<Rightarrow> (int, 'z kcons_scheme) kres" where
  "dev_write ConsoleDev addr n s = consolewrite (WUser addr) n s"

definition fileread :: "nat \<Rightarrow> u64 \<Rightarrow> int \<Rightarrow> 'z kfile_scheme \<Rightarrow> (int, 'z kfile_scheme) kres" where
  "fileread f addr n s =
     (if \<not> readable (ftable s f) then Ret (- 1) s
      else case ftype (ftable s f) of
        FD_PIPE \<Rightarrow> piperead (fpipe (ftable s f)) addr n s
      | FD_DEVICE \<Rightarrow>
          let m = sint (fmajor (ftable s f)) in
          if m < 0 \<or> m \<ge> NDEV then Ret (- 1) s
          else (case devsw_read s (nat m) of None \<Rightarrow> Ret (- 1) s | Some d \<Rightarrow> dev_read d addr n s)
      | FD_INODE \<Rightarrow>
          kbind (ilock (fip (ftable s f)) s) (\<lambda>_ s.
          case fip (ftable s f) of
            None \<Rightarrow> Panic ''kerneltrap''
          | Some ip \<Rightarrow>
              kbind (readi ip (RUser addr) (foff (ftable s f)) (word_of_int n) s) (\<lambda>(r, _) s.
              let s = (if r > 0 then upd_file f (\<lambda>x. x\<lparr>foff := foff x + word_of_int r\<rparr>) s else s) in
              kbind (iunlock (Some ip) s) (\<lambda>_ s.
              Ret r s)))
      | FD_NONE \<Rightarrow> Panic ''fileread'')"

text \<open>
  The loop of \<open>filewrite\<close> on an inode writes at most \<open>max\<close> bytes per transaction; a round that
  writes less than it should ends the loop. It returns the final \<open>i\<close>.
\<close>

definition write_max :: int where
  "write_max = ((MAXOPBLOCKS - 1 - 1 - 2) div 2) * int BSIZE"

fun filewrite_loop :: "nat \<Rightarrow> nat \<Rightarrow> nat option \<Rightarrow> u64 \<Rightarrow> int \<Rightarrow> int \<Rightarrow> 'z kfile_scheme
    \<Rightarrow> (int, 'z kfile_scheme) kres" where
  "filewrite_loop fuel f ip addr n i s =
     (if i < n
      then (case fuel of
          0 \<Rightarrow> Wait s
        | Suc fuel \<Rightarrow>
            let n1 = min (n - i) write_max in
            kbind (begin_op s) (\<lambda>_ s.
            kbind (ilock ip s) (\<lambda>_ s.
            case ip of
              None \<Rightarrow> Panic ''kerneltrap''
            | Some j \<Rightarrow>
                kbind (writei j (WUser (addr + word_of_int i)) (foff (ftable s f)) (word_of_int n1) s) (\<lambda>r s.
                let s = (if r > 0 then upd_file f (\<lambda>x. x\<lparr>foff := foff x + word_of_int r\<rparr>) s else s) in
                kbind (iunlock ip s) (\<lambda>_ s.
                kbind (end_op s) (\<lambda>_ s.
                if r \<noteq> n1 then Ret i s
                else filewrite_loop fuel f ip addr n (i + r) s))))))
      else Ret i s)"

definition filewrite :: "nat \<Rightarrow> u64 \<Rightarrow> int \<Rightarrow> 'z kfile_scheme \<Rightarrow> (int, 'z kfile_scheme) kres" where
  "filewrite f addr n s =
     (if \<not> writable (ftable s f) then Ret (- 1) s
      else case ftype (ftable s f) of
        FD_PIPE \<Rightarrow> pipewrite (fpipe (ftable s f)) addr n s
      | FD_DEVICE \<Rightarrow>
          let m = sint (fmajor (ftable s f)) in
          if m < 0 \<or> m \<ge> NDEV then Ret (- 1) s
          else (case devsw_write s (nat m) of None \<Rightarrow> Ret (- 1) s | Some d \<Rightarrow> dev_write d addr n s)
      | FD_INODE \<Rightarrow>
          kbind (filewrite_loop (nat n) f (fip (ftable s f)) addr n 0 s) (\<lambda>i s.
          Ret (if i = n then n else - 1) s)
      | FD_NONE \<Rightarrow> Panic ''filewrite'')"

declare pipewrite_loop.simps [simp del] filewrite_loop.simps [simp del] piperead_loop.simps [simp del]

end
