(* ===== verification/Procs.thy ===== *)
theory Procs
  imports File
begin

text \<open>
  The life of a process, the rest of \<^verbatim>\<open>kernel/proc.c\<close>: \<open>allocproc\<close>, \<open>freeproc\<close>, \<open>userinit\<close>,
  \<open>growproc\<close>, \<open>kfork\<close>, \<open>reparent\<close>, \<open>kexit\<close> and \<open>kwait\<close>, and the loading of programs,
  \<^verbatim>\<open>kernel/exec.c\<close>. A trapframe is a page of memory; its fields are at the offsets of
  \<open>struct trapframe\<close>.
\<close>

section \<open>Trapframes\<close>

definition tf_kernel_satp :: u64 where "tf_kernel_satp = 0"
definition tf_kernel_sp :: u64 where "tf_kernel_sp = 8"
definition tf_kernel_trap :: u64 where "tf_kernel_trap = 16"
definition tf_epc :: u64 where "tf_epc = 24"
definition tf_kernel_hartid :: u64 where "tf_kernel_hartid = 32"
definition tf_sp :: u64 where "tf_sp = 48"
definition tf_a :: "nat \<Rightarrow> u64" where "tf_a n = 112 + 8 * of_nat n"

definition tf_get :: "nat \<Rightarrow> u64 \<Rightarrow> 'z kproc_scheme \<Rightarrow> u64" where
  "tf_get p off s = ld (trapframe (procs s p) + off) s"

definition tf_set :: "nat \<Rightarrow> u64 \<Rightarrow> u64 \<Rightarrow> 'z kproc_scheme \<Rightarrow> 'z kproc_scheme" where
  "tf_set p off v s = st (trapframe (procs s p) + off) v s"

section \<open>Allocating and freeing processes\<close>

definition freeproc :: "nat \<Rightarrow> 'z kproc_scheme \<Rightarrow> (unit, 'z kproc_scheme) kres" where
  "freeproc p s =
     kbind (if trapframe (procs s p) \<noteq> 0 then kfree (trapframe (procs s p)) s else Ret () s) (\<lambda>_ s.
     let s = upd_proc p (\<lambda>x. x\<lparr>trapframe := 0\<rparr>) s in
     kbind (if pagetable (procs s p) \<noteq> 0
            then proc_freepagetable (pagetable (procs s p)) (sz (procs s p)) s else Ret () s) (\<lambda>_ s.
     Ret () (upd_proc p (\<lambda>x. x\<lparr>pagetable := 0, sz := 0, pid := 0, parent := None, pname := (pname x)[0 := 0],
       chan := None, killed := False, xstate := 0, state := UNUSED\<rparr>) s)))"

definition allocproc :: "'z kproc_scheme \<Rightarrow> (nat option, 'z kproc_scheme) kres" where
  "allocproc s =
     kbind (ksearch (\<lambda>i s.
       kbind (acquire (ProcLock i) s) (\<lambda>_ s.
         if state (procs s i) = UNUSED then Ret (Some i) s
         else kbind (release (ProcLock i) s) (\<lambda>_ s. Ret None s))) [0..<NPROC] s) (\<lambda>r s.
     case r of
       None \<Rightarrow> Ret None s
     | Some p \<Rightarrow>
         kbind (allocpid s) (\<lambda>pd s.
         let s = upd_proc p (\<lambda>x. x\<lparr>pid := pd, state := USED\<rparr>) s in
         kbind (kalloc s) (\<lambda>tf s.
         let s = upd_proc p (\<lambda>x. x\<lparr>trapframe := tf\<rparr>) s in
         if tf = 0
         then kbind (freeproc p s) (\<lambda>_ s. kbind (release (ProcLock p) s) (\<lambda>_ s. Ret None s))
         else kbind (proc_pagetable p s) (\<lambda>pt s.
           let s = upd_proc p (\<lambda>x. x\<lparr>pagetable := pt\<rparr>) s in
           if pt = 0
           then kbind (freeproc p s) (\<lambda>_ s. kbind (release (ProcLock p) s) (\<lambda>_ s. Ret None s))
           else Ret (Some p) (upd_proc p (\<lambda>x. x\<lparr>pcontext :=
             \<lparr>ctx_ra = sym_forkret s, ctx_sp = kstack x + PGSIZE, ctx_s = (\<lambda>_. 0)\<rparr>\<rparr>) s)))))"

definition userinit :: "'z kfs_scheme \<Rightarrow> (unit, 'z kfs_scheme) kres" where
  "userinit s =
     kbind (allocproc s) (\<lambda>r s.
     let s = s\<lparr>initproc := r\<rparr> in
     kbind (namei [slash] s) (\<lambda>ip s.
     case r of
       None \<Rightarrow> Panic ''kerneltrap''
     | Some p \<Rightarrow> release (ProcLock p) (upd_proc p (\<lambda>x. x\<lparr>cwd := ip, state := RUNNABLE\<rparr>) s)))"

definition growproc :: "int \<Rightarrow> 'z kproc_scheme \<Rightarrow> (int, 'z kproc_scheme) kres" where
  "growproc n s =
     kbind (curproc s) (\<lambda>p s.
     let len = sz (procs s p) in
     if n > 0
     then kbind (uvmalloc (pagetable (procs s p)) len (len + word_of_int n) PTE_W s) (\<lambda>r s.
       if r = 0 then Ret (- 1) s else Ret 0 (upd_proc p (\<lambda>x. x\<lparr>sz := r\<rparr>) s))
     else if n < 0
     then kbind (uvmdealloc (pagetable (procs s p)) len (len + word_of_int n) s) (\<lambda>r s.
       Ret 0 (upd_proc p (\<lambda>x. x\<lparr>sz := r\<rparr>) s))
     else Ret 0 (upd_proc p (\<lambda>x. x\<lparr>sz := len\<rparr>) s))"

text \<open>\<open>safestrcpy\<close> into the name array overwrites its first bytes.\<close>

definition set_name :: "u8 list \<Rightarrow> proc \<Rightarrow> proc" where
  "set_name t x = (let bs = safestrcpy (cstr t) 16 in x\<lparr>pname := bs @ drop (length bs) (pname x)\<rparr>)"

section \<open>fork, exit and wait\<close>

definition kfork :: "'z kfile_scheme \<Rightarrow> (int, 'z kfile_scheme) kres" where
  "kfork s =
     kbind (curproc s) (\<lambda>p s.
     kbind (allocproc s) (\<lambda>r s.
     case r of
       None \<Rightarrow> Ret (- 1) s
     | Some np \<Rightarrow>
         kbind (uvmcopy (pagetable (procs s p)) (pagetable (procs s np)) (sz (procs s p)) s) (\<lambda>r s.
         if r < 0
         then kbind (freeproc np s) (\<lambda>_ s. kbind (release (ProcLock np) s) (\<lambda>_ s. Ret (- 1) s))
         else let s = upd_proc np (\<lambda>x. x\<lparr>sz := sz (procs s p)\<rparr>) s;
                  s = s\<lparr>mem := store_bytes (mem s) (trapframe (procs s np))
                        (load_bytes (mem s) (trapframe (procs s p)) 288)\<rparr>;
                  s = tf_set np (tf_a 0) 0 s in
           kbind (kfold (\<lambda>i s.
             case ofile (procs s p) i of
               None \<Rightarrow> Ret () s
             | Some f \<Rightarrow> kbind (filedup f s) (\<lambda>g s.
                 Ret () (upd_proc np (\<lambda>x. x\<lparr>ofile := (ofile x)(i := Some g)\<rparr>) s))) [0..<NOFILE] s) (\<lambda>_ s.
           kbind (case cwd (procs s p) of None \<Rightarrow> Panic ''kerneltrap'' | Some ip \<Rightarrow> idup ip s) (\<lambda>ip s.
           let s = upd_proc np (\<lambda>x. x\<lparr>cwd := Some ip\<rparr>) s;
               s = upd_proc np (set_name (pname (procs s p))) s;
               pd = pid (procs s np) in
           kbind (release (ProcLock np) s) (\<lambda>_ s.
           kbind (with_lock WaitLock (\<lambda>s. Ret () (upd_proc np (\<lambda>x. x\<lparr>parent := Some p\<rparr>) s)) s) (\<lambda>_ s.
           kbind (with_lock (ProcLock np) (\<lambda>s. Ret () (upd_proc np (\<lambda>x. x\<lparr>state := RUNNABLE\<rparr>) s)) s) (\<lambda>_ s.
           Ret pd s))))))))"

text \<open>\<open>wakeup\<close> of a process; no process sleeps on the null channel.\<close>

definition wakeup_proc :: "nat option \<Rightarrow> 'z kproc_scheme \<Rightarrow> (unit, 'z kproc_scheme) kres" where
  "wakeup_proc q s = (case q of None \<Rightarrow> Ret () s | Some q \<Rightarrow> wakeup (ChProc q) s)"

definition reparent :: "nat \<Rightarrow> 'z kproc_scheme \<Rightarrow> (unit, 'z kproc_scheme) kres" where
  "reparent p s = kfold (\<lambda>pp s.
     if parent (procs s pp) = Some p
     then wakeup_proc (initproc s) (upd_proc pp (\<lambda>x. x\<lparr>parent := initproc s\<rparr>) s)
     else Ret () s) [0..<NPROC] s"

definition kexit :: "int \<Rightarrow> 'z kfile_scheme \<Rightarrow> (unit, 'z kfile_scheme) kres" where
  "kexit status s =
     kbind (curproc s) (\<lambda>p s.
     if Some p = initproc s then Panic ''init exiting''
     else kbind (kfold (\<lambda>fd s.
         case ofile (procs s p) fd of
           None \<Rightarrow> Ret () s
         | Some f \<Rightarrow> kbind (fileclose f s) (\<lambda>_ s.
             Ret () (upd_proc p (\<lambda>x. x\<lparr>ofile := (ofile x)(fd := None)\<rparr>) s))) [0..<NOFILE] s) (\<lambda>_ s.
       kbind (begin_op s) (\<lambda>_ s.
       kbind (case cwd (procs s p) of None \<Rightarrow> Panic ''kerneltrap'' | Some ip \<Rightarrow> iput ip s) (\<lambda>_ s.
       kbind (end_op s) (\<lambda>_ s.
       let s = upd_proc p (\<lambda>x. x\<lparr>cwd := None\<rparr>) s in
       kbind (acquire WaitLock s) (\<lambda>_ s.
       kbind (reparent p s) (\<lambda>_ s.
       kbind (wakeup_proc (parent (procs s p)) s) (\<lambda>_ s.
       kbind (acquire (ProcLock p) s) (\<lambda>_ s.
       let s = upd_proc p (\<lambda>x. x\<lparr>xstate := status, state := ZOMBIE\<rparr>) s in
       kbind (release WaitLock s) (\<lambda>_ s.
       kbind (sched ctx0 s) (\<lambda>_ s.
       Panic ''zombie exit'')))))))))))"

text \<open>The scan of \<open>kwait\<close>: the value to return, if any, and \<open>havekids\<close>.\<close>

fun kwait_scan :: "nat list \<Rightarrow> nat \<Rightarrow> u64 \<Rightarrow> bool \<Rightarrow> 'z kproc_scheme \<Rightarrow> (int option \<times> bool, 'z kproc_scheme) kres" where
  "kwait_scan [] p addr havekids s = Ret (None, havekids) s"
| "kwait_scan (pp # pps) p addr havekids s =
     (if parent (procs s pp) = Some p
      then kbind (acquire (ProcLock pp) s) (\<lambda>_ s.
        if state (procs s pp) = ZOMBIE
        then let pd = pid (procs s pp) in
          kbind (if addr \<noteq> 0
                 then copyout (pagetable (procs s p)) addr (le_bytes 4 (word_of_int (xstate (procs s pp)) :: u32)) s
                 else Ret 0 s) (\<lambda>r s.
          if r < 0
          then kbind (release (ProcLock pp) s) (\<lambda>_ s. kbind (release WaitLock s) (\<lambda>_ s. Ret (Some (- 1), True) s))
          else kbind (freeproc pp s) (\<lambda>_ s.
            kbind (release (ProcLock pp) s) (\<lambda>_ s.
            kbind (release WaitLock s) (\<lambda>_ s.
            Ret (Some pd, True) s))))
        else kbind (release (ProcLock pp) s) (\<lambda>_ s. kwait_scan pps p addr True s))
      else kwait_scan pps p addr havekids s)"

definition kwait :: "u64 \<Rightarrow> 'z kproc_scheme \<Rightarrow> (int, 'z kproc_scheme) kres" where
  "kwait addr s =
     kbind (curproc s) (\<lambda>p s.
     kbind (acquire WaitLock s) (\<lambda>_ s.
     kbind (kwait_scan [0..<NPROC] p addr False s) (\<lambda>(r, havekids) s.
     case r of
       Some v \<Rightarrow> Ret v s
     | None \<Rightarrow>
         kbind (if \<not> havekids then Ret True s else is_killed p s) (\<lambda>stop s.
         if stop then kbind (release WaitLock s) (\<lambda>_ s. Ret (- 1) s)
         else kbind (sleep ctx0 (ChProc p) WaitLock s) (\<lambda>_ s. Ret (- 1) s)))))"

section \<open>exec\<close>

definition MAXARG :: nat where "MAXARG = 32"
definition USERSTACK :: u64 where "USERSTACK = 2"
definition ELF_MAGIC :: u32 where "ELF_MAGIC = 0x464C457F"
definition ELF_PROG_LOAD :: u32 where "ELF_PROG_LOAD = 1"

definition flags2perm :: "u32 \<Rightarrow> u64" where
  "flags2perm flags =
     (let perm = (if flags AND 1 \<noteq> 0 then PTE_X else 0)
      in if flags AND 2 \<noteq> 0 then perm OR PTE_W else perm)"

definition fld16 :: "u8 list \<Rightarrow> nat \<Rightarrow> u16" where "fld16 bs off = of_le (take 2 (drop off bs))"
definition fld32 :: "u8 list \<Rightarrow> nat \<Rightarrow> u32" where "fld32 bs off = of_le (take 4 (drop off bs))"
definition fld64 :: "u8 list \<Rightarrow> nat \<Rightarrow> u64" where "fld64 bs off = of_le (take 8 (drop off bs))"

text \<open>The fields of \<open>struct elfhdr\<close> (64 bytes) and \<open>struct proghdr\<close> (56 bytes).\<close>

record elfhdr =
  elf_magic :: u32
  elf_entry :: u64
  elf_phoff :: u64
  elf_phnum :: u16

record proghdr =
  ph_type :: u32
  ph_flags :: u32
  ph_off :: u64
  ph_vaddr :: u64
  ph_filesz :: u64
  ph_memsz :: u64

definition elf_of :: "u8 list \<Rightarrow> elfhdr" where
  "elf_of bs = \<lparr>elf_magic = fld32 bs 0, elf_entry = fld64 bs 24, elf_phoff = fld64 bs 32, elf_phnum = fld16 bs 56\<rparr>"

definition ph_of :: "u8 list \<Rightarrow> proghdr" where
  "ph_of bs = \<lparr>ph_type = fld32 bs 0, ph_flags = fld32 bs 4, ph_off = fld64 bs 8, ph_vaddr = fld64 bs 16,
     ph_filesz = fld64 bs 32, ph_memsz = fld64 bs 40\<rparr>"

fun loadseg_loop :: "nat \<Rightarrow> u64 \<Rightarrow> u64 \<Rightarrow> nat \<Rightarrow> u32 \<Rightarrow> u32 \<Rightarrow> u32 \<Rightarrow> 'z kfs_scheme \<Rightarrow> (int, 'z kfs_scheme) kres" where
  "loadseg_loop f pt va ip offset len i s =
     (if i < len
      then (case f of
          0 \<Rightarrow> Wait s
        | Suc f \<Rightarrow>
            kbind (walkaddr pt (va + ucast i) s) (\<lambda>pa s.
            if pa = 0 then Panic ''loadseg: address should exist''
            else let n = (if len - i < 4096 then len - i else 4096) in
              kbind (readi ip (RKern pa) (offset + i) n s) (\<lambda>(r, _) s.
              if r \<noteq> int (unat n) then Ret (- 1) s
              else loadseg_loop f pt va ip offset len (i + 4096) s)))
      else Ret 0 s)"

definition loadseg :: "u64 \<Rightarrow> u64 \<Rightarrow> nat \<Rightarrow> u32 \<Rightarrow> u32 \<Rightarrow> 'z kfs_scheme \<Rightarrow> (int, 'z kfs_scheme) kres" where
  "loadseg pt va ip offset len s = loadseg_loop (Suc (unat len div 4096)) pt va ip offset len 0 s"

text \<open>
  The loop of \<open>kexec\<close> over the program headers, with \<open>k\<close> of them left: whether all were loaded,
  and \<open>sz\<close>. The file offset is an \<open>int\<close> that \<open>readi\<close> takes as a \<open>uint\<close>.
\<close>

fun load_segs :: "nat \<Rightarrow> u32 \<Rightarrow> u64 \<Rightarrow> u64 \<Rightarrow> nat \<Rightarrow> 'z kfs_scheme \<Rightarrow> (bool \<times> u64, 'z kfs_scheme) kres" where
  "load_segs 0 off pt len ip s = Ret (True, len) s"
| "load_segs (Suc k) off pt len ip s =
     kbind (readi ip RVar off 56 s) (\<lambda>(r, bs) s.
     if r \<noteq> 56 then Ret (False, len) s
     else let ph = ph_of bs in
       if ph_type ph \<noteq> ELF_PROG_LOAD then load_segs k (off + 56) pt len ip s
       else if ph_memsz ph < ph_filesz ph then Ret (False, len) s
       else if ph_vaddr ph + ph_memsz ph < ph_vaddr ph then Ret (False, len) s
       else if ph_vaddr ph mod PGSIZE \<noteq> 0 then Ret (False, len) s
       else kbind (uvmalloc pt len (ph_vaddr ph + ph_memsz ph) (flags2perm (ph_flags ph)) s) (\<lambda>sz1 s.
         if sz1 = 0 then Ret (False, len) s
         else kbind (loadseg pt (ph_vaddr ph) ip (ucast (ph_off ph)) (ucast (ph_filesz ph)) s) (\<lambda>r s.
           if r < 0 then Ret (False, sz1) s
           else load_segs k (off + 56) pt sz1 ip s)))"

text \<open>
  The loop of \<open>kexec\<close> over the argument strings: the stack pointer and \<open>ustack\<close>, or \<open>None\<close> on a
  jump to \<open>bad\<close>. A string is the bytes before its NUL.
\<close>

fun push_args :: "u8 list list \<Rightarrow> u64 \<Rightarrow> u64 \<Rightarrow> u64 \<Rightarrow> u64 list \<Rightarrow> 'z kproc_scheme
    \<Rightarrow> ((u64 \<times> u64 list) option, 'z kproc_scheme) kres" where
  "push_args [] pt stackbase sp ustack s = Ret (Some (sp, ustack)) s"
| "push_args (a # as) pt stackbase sp ustack s =
     (if length ustack \<ge> MAXARG then Ret None s
      else let sp = sp - of_nat (length a + 1);
               sp = sp - sp mod 16 in
        if sp < stackbase then Ret None s
        else kbind (copyout pt sp (a @ [0]) s) (\<lambda>r s.
          if r < 0 then Ret None s
          else push_args as pt stackbase sp (ustack @ [sp]) s))"

text \<open>The code at the label \<open>bad\<close>.\<close>

definition exec_bad :: "u64 \<Rightarrow> u64 \<Rightarrow> nat option \<Rightarrow> 'z kfs_scheme \<Rightarrow> (int, 'z kfs_scheme) kres" where
  "exec_bad pt len ipo s =
     kbind (if pt \<noteq> 0 then proc_freepagetable pt len s else Ret () s) (\<lambda>_ s.
     case ipo of
       None \<Rightarrow> Ret (- 1) s
     | Some ip \<Rightarrow> kbind (iunlockput ip s) (\<lambda>_ s. kbind (end_op s) (\<lambda>_ s. Ret (- 1) s)))"

fun last_elem :: "u8 list \<Rightarrow> u8 list \<Rightarrow> u8 list" where
  "last_elem l [] = l"
| "last_elem l (c # cs) = (if c = slash then last_elem cs cs else last_elem l cs)"

text \<open>The part of \<open>kexec\<close> after the program is in memory: the stack and the commit to the new image.\<close>

definition exec_stack :: "nat \<Rightarrow> u8 list \<Rightarrow> u8 list list \<Rightarrow> u64 \<Rightarrow> u64 \<Rightarrow> u64 \<Rightarrow> 'z kfs_scheme \<Rightarrow> (int, 'z kfs_scheme) kres" where
  "exec_stack p path argv entry_pc pt len s =
     (let oldsz = sz (procs s p);
          len = PGROUNDUP len in
     kbind (uvmalloc pt len (len + (USERSTACK + 1) * PGSIZE) PTE_W s) (\<lambda>sz1 s.
     if sz1 = 0 then exec_bad pt len None s
     else let len = sz1 in
       kbind (uvmclear pt (len - (USERSTACK + 1) * PGSIZE) s) (\<lambda>_ s.
       let stackbase = len - USERSTACK * PGSIZE in
       kbind (push_args argv pt stackbase len [] s) (\<lambda>r s.
       case r of
         None \<Rightarrow> exec_bad pt len None s
       | Some (sp, ustack) \<Rightarrow>
           let sp = sp - of_nat (length ustack + 1) * 8;
               sp = sp - sp mod 16 in
           if sp < stackbase then exec_bad pt len None s
           else kbind (copyout pt sp (concat (map (le_bytes 8) (ustack @ [0]))) s) (\<lambda>r s.
             if r < 0 then exec_bad pt len None s
             else let s = tf_set p (tf_a 1) sp s;
                      s = upd_proc p (set_name (last_elem path path)) s;
                      oldpt = pagetable (procs s p);
                      s = upd_proc p (\<lambda>x. x\<lparr>pagetable := pt, sz := len\<rparr>) s;
                      s = tf_set p tf_epc entry_pc s;
                      s = tf_set p tf_sp sp s in
               kbind (proc_freepagetable oldpt oldsz s) (\<lambda>_ s.
               Ret (int (length ustack)) s))))))"

definition kexec :: "u8 list \<Rightarrow> u8 list list \<Rightarrow> 'z kfs_scheme \<Rightarrow> (int, 'z kfs_scheme) kres" where
  "kexec path argv s =
     kbind (curproc s) (\<lambda>p s.
     kbind (begin_op s) (\<lambda>_ s.
     kbind (namei path s) (\<lambda>ipo s.
     case ipo of
       None \<Rightarrow> kbind (end_op s) (\<lambda>_ s. Ret (- 1) s)
     | Some ip \<Rightarrow>
         kbind (ilock (Some ip) s) (\<lambda>_ s.
         kbind (readi ip RVar 0 64 s) (\<lambda>(r, bs) s.
         if r \<noteq> 64 then exec_bad 0 0 (Some ip) s
         else let elf = elf_of bs in
           if elf_magic elf \<noteq> ELF_MAGIC then exec_bad 0 0 (Some ip) s
           else kbind (proc_pagetable p s) (\<lambda>pt s.
             if pt = 0 then exec_bad 0 0 (Some ip) s
             else kbind (load_segs (unat (elf_phnum elf)) (ucast (elf_phoff elf)) pt 0 ip s) (\<lambda>(ok, len) s.
               if \<not> ok then exec_bad pt len (Some ip) s
               else kbind (iunlockput ip s) (\<lambda>_ s.
                 kbind (end_op s) (\<lambda>_ s.
                 kbind (curproc s) (\<lambda>p s.
                 exec_stack p path argv (elf_entry elf) pt len s))))))))))"

declare loadseg_loop.simps [simp del] load_segs.simps [simp del] push_args.simps [simp del]
  kwait_scan.simps [simp del]

end
