(* ===== verification/Sysfile.thy ===== *)
theory Sysfile
  imports Procs
begin

text \<open>
  System calls: fetching arguments and the dispatch (\<^verbatim>\<open>kernel/syscall.c\<close>), the calls on
  processes (\<^verbatim>\<open>kernel/sysproc.c\<close>) and those on files (\<^verbatim>\<open>kernel/sysfile.c\<close>). A handler returns the
  64-bit value that goes to register \<open>a0\<close>; -1 is all ones.
\<close>

section \<open>Arguments\<close>

definition argraw :: "nat \<Rightarrow> 'z kproc_scheme \<Rightarrow> (u64, 'z kproc_scheme) kres" where
  "argraw n s =
     kbind (curproc s) (\<lambda>p s. if n \<le> 5 then Ret (tf_get p (tf_a n) s) s else Panic ''argraw'')"

definition argint :: "nat \<Rightarrow> 'z kproc_scheme \<Rightarrow> (int, 'z kproc_scheme) kres" where
  "argint n s = kbind (argraw n s) (\<lambda>v s. Ret (sint (ucast v :: u32)) s)"

definition argaddr :: "nat \<Rightarrow> 'z kproc_scheme \<Rightarrow> (u64, 'z kproc_scheme) kres" where
  "argaddr n s = argraw n s"

definition fetchaddr :: "u64 \<Rightarrow> 'z kproc_scheme \<Rightarrow> (u64 option, 'z kproc_scheme) kres" where
  "fetchaddr addr s =
     kbind (curproc s) (\<lambda>p s.
     if addr \<ge> sz (procs s p) \<or> addr + 8 > sz (procs s p) then Ret None s
     else kbind (copyin (pagetable (procs s p)) addr 8 s) (\<lambda>(r, bs) s.
       if r \<noteq> 0 then Ret None s else Ret (Some (of_le bs)) s))"

text \<open>\<open>fetchstr\<close> and \<open>argstr\<close> return the length or -1, and the bytes stored in \<open>buf\<close>.\<close>

definition str_of :: "u8 list \<Rightarrow> u8 list" where
  "str_of bs = takeWhile (\<lambda>c. c \<noteq> 0) bs"

definition fetchstr :: "u64 \<Rightarrow> nat \<Rightarrow> 'z kproc_scheme \<Rightarrow> (int \<times> u8 list, 'z kproc_scheme) kres" where
  "fetchstr addr mx s =
     kbind (curproc s) (\<lambda>p s.
     kbind (copyinstr (pagetable (procs s p)) addr mx s) (\<lambda>(r, bs) s.
     if r < 0 then Ret (- 1, bs) s else Ret (int (length (str_of bs)), bs) s))"

definition argstr :: "nat \<Rightarrow> nat \<Rightarrow> 'z kproc_scheme \<Rightarrow> (int \<times> u8 list, 'z kproc_scheme) kres" where
  "argstr n mx s = kbind (argaddr n s) (\<lambda>addr s. fetchstr addr mx s)"

section \<open>Processes\<close>

definition sys_exit :: "'z kfile_scheme \<Rightarrow> (u64, 'z kfile_scheme) kres" where
  "sys_exit s = kbind (argint 0 s) (\<lambda>n s. kbind (kexit n s) (\<lambda>_ s. Ret 0 s))"

definition sys_getpid :: "'z kproc_scheme \<Rightarrow> (u64, 'z kproc_scheme) kres" where
  "sys_getpid s = kbind (curproc s) (\<lambda>p s. Ret (word_of_int (pid (procs s p))) s)"

definition sys_fork :: "'z kfile_scheme \<Rightarrow> (u64, 'z kfile_scheme) kres" where
  "sys_fork s = kbind (kfork s) (\<lambda>r s. Ret (word_of_int r) s)"

definition sys_wait :: "'z kproc_scheme \<Rightarrow> (u64, 'z kproc_scheme) kres" where
  "sys_wait s = kbind (argaddr 0 s) (\<lambda>p s. kbind (kwait p s) (\<lambda>r s. Ret (word_of_int r) s))"

definition SBRK_EAGER :: int where "SBRK_EAGER = 1"
definition SBRK_LAZY :: int where "SBRK_LAZY = 2"

definition sys_sbrk :: "'z kproc_scheme \<Rightarrow> (u64, 'z kproc_scheme) kres" where
  "sys_sbrk s =
     kbind (argint 0 s) (\<lambda>n s.
     kbind (argint 1 s) (\<lambda>t s.
     kbind (curproc s) (\<lambda>p s.
     let addr = sz (procs s p) in
     if t = SBRK_EAGER \<or> n < 0
     then kbind (growproc n s) (\<lambda>r s. if r < 0 then Ret (- 1) s else Ret addr s)
     else if addr + word_of_int n < addr then Ret (- 1) s
     else Ret addr (upd_proc p (\<lambda>x. x\<lparr>sz := sz x + word_of_int n\<rparr>) s))))"

text \<open>The loop of \<open>sys_pause\<close>, entered with \<open>tickslock\<close> held at the start and after every wakeup.\<close>

definition pause_loop :: "u32 \<Rightarrow> int \<Rightarrow> 'z kproc_scheme \<Rightarrow> (u64, 'z kproc_scheme) kres" where
  "pause_loop ticks0 n s =
     (if ticks s - ticks0 < word_of_int n
      then kbind (curproc s) (\<lambda>p s.
           kbind (is_killed p s) (\<lambda>k s.
           if k then kbind (release TicksLock s) (\<lambda>_ s. Ret (- 1) s)
           else kbind (sleep ctx0 ChTicks TicksLock s) (\<lambda>_ s. Ret 0 s)))
      else kbind (release TicksLock s) (\<lambda>_ s. Ret 0 s))"

definition sys_pause :: "'z kproc_scheme \<Rightarrow> (u64, 'z kproc_scheme) kres" where
  "sys_pause s =
     kbind (argint 0 s) (\<lambda>n s.
     let n = (if n < 0 then 0 else n) in
     kbind (acquire TicksLock s) (\<lambda>_ s.
     pause_loop (ticks s) n s))"

definition sys_kill :: "'z kproc_scheme \<Rightarrow> (u64, 'z kproc_scheme) kres" where
  "sys_kill s = kbind (argint 0 s) (\<lambda>pd s. kbind (kkill pd s) (\<lambda>r s. Ret (word_of_int r) s))"

definition sys_uptime :: "'z kproc_scheme \<Rightarrow> (u64, 'z kproc_scheme) kres" where
  "sys_uptime s = kbind (with_lock TicksLock (\<lambda>s. Ret (ticks s) s) s) (\<lambda>x s. Ret (ucast x) s)"

section \<open>File descriptors\<close>

definition argfd :: "nat \<Rightarrow> 'z kproc_scheme \<Rightarrow> ((nat \<times> nat) option, 'z kproc_scheme) kres" where
  "argfd n s =
     kbind (argint n s) (\<lambda>fd s.
     if fd < 0 \<or> fd \<ge> int NOFILE then Ret None s
     else kbind (curproc s) (\<lambda>p s.
       case ofile (procs s p) (nat fd) of None \<Rightarrow> Ret None s | Some f \<Rightarrow> Ret (Some (nat fd, f)) s))"

definition fdalloc :: "nat \<Rightarrow> 'z kproc_scheme \<Rightarrow> (nat option, 'z kproc_scheme) kres" where
  "fdalloc f s =
     kbind (curproc s) (\<lambda>p s.
     case find (\<lambda>fd. ofile (procs s p) fd = None) [0..<NOFILE] of
       Some fd \<Rightarrow> Ret (Some fd) (upd_proc p (\<lambda>x. x\<lparr>ofile := (ofile x)(fd := Some f)\<rparr>) s)
     | None \<Rightarrow> Ret None s)"

definition sys_dup :: "'z kfile_scheme \<Rightarrow> (u64, 'z kfile_scheme) kres" where
  "sys_dup s =
     kbind (argfd 0 s) (\<lambda>r s. case r of None \<Rightarrow> Ret (- 1) s | Some (_, f) \<Rightarrow>
     kbind (fdalloc f s) (\<lambda>r s. case r of None \<Rightarrow> Ret (- 1) s | Some fd \<Rightarrow>
     kbind (filedup f s) (\<lambda>_ s. Ret (of_nat fd) s)))"

definition sys_read :: "'z kfile_scheme \<Rightarrow> (u64, 'z kfile_scheme) kres" where
  "sys_read s =
     kbind (argaddr 1 s) (\<lambda>p s.
     kbind (argint 2 s) (\<lambda>n s.
     kbind (argfd 0 s) (\<lambda>r s. case r of None \<Rightarrow> Ret (- 1) s | Some (_, f) \<Rightarrow>
     kbind (fileread f p n s) (\<lambda>r s. Ret (word_of_int r) s))))"

definition sys_write :: "'z kfile_scheme \<Rightarrow> (u64, 'z kfile_scheme) kres" where
  "sys_write s =
     kbind (argaddr 1 s) (\<lambda>p s.
     kbind (argint 2 s) (\<lambda>n s.
     kbind (argfd 0 s) (\<lambda>r s. case r of None \<Rightarrow> Ret (- 1) s | Some (_, f) \<Rightarrow>
     kbind (filewrite f p n s) (\<lambda>r s. Ret (word_of_int r) s))))"

definition sys_close :: "'z kfile_scheme \<Rightarrow> (u64, 'z kfile_scheme) kres" where
  "sys_close s =
     kbind (argfd 0 s) (\<lambda>r s. case r of None \<Rightarrow> Ret (- 1) s | Some (fd, f) \<Rightarrow>
     kbind (curproc s) (\<lambda>p s.
     let s = upd_proc p (\<lambda>x. x\<lparr>ofile := (ofile x)(fd := None)\<rparr>) s in
     kbind (fileclose f s) (\<lambda>_ s. Ret 0 s)))"

definition sys_fstat :: "'z kfile_scheme \<Rightarrow> (u64, 'z kfile_scheme) kres" where
  "sys_fstat s =
     kbind (argaddr 1 s) (\<lambda>a s.
     kbind (argfd 0 s) (\<lambda>r s. case r of None \<Rightarrow> Ret (- 1) s | Some (_, f) \<Rightarrow>
     kbind (filestat f a s) (\<lambda>r s. Ret (word_of_int r) s)))"

section \<open>Links and directories\<close>

definition MAXPATH :: nat where "MAXPATH = 128"

abbreviation new_name :: "u8 list" where "new_name \<equiv> replicate DIRSIZ 0"

definition link_bad :: "nat \<Rightarrow> 'z kfs_scheme \<Rightarrow> (u64, 'z kfs_scheme) kres" where
  "link_bad ip s =
     kbind (ilock (Some ip) s) (\<lambda>_ s.
     kbind (iupdate ip (upd_inode ip (\<lambda>n. n\<lparr>inlink := inlink n - 1\<rparr>) s)) (\<lambda>_ s.
     kbind (iunlockput ip s) (\<lambda>_ s.
     kbind (end_op s) (\<lambda>_ s.
     Ret (- 1) s))))"

definition sys_link :: "'z kfs_scheme \<Rightarrow> (u64, 'z kfs_scheme) kres" where
  "sys_link s =
     kbind (argstr 0 MAXPATH s) (\<lambda>(r, old) s. if r < 0 then Ret (- 1) s else
     kbind (argstr 1 MAXPATH s) (\<lambda>(r, new) s. if r < 0 then Ret (- 1) s else
     kbind (begin_op s) (\<lambda>_ s.
     kbind (namei (str_of old) s) (\<lambda>ipo s.
     case ipo of
       None \<Rightarrow> kbind (end_op s) (\<lambda>_ s. Ret (- 1) s)
     | Some ip \<Rightarrow>
         kbind (ilock (Some ip) s) (\<lambda>_ s.
         if itype (itable s ip) = T_DIR
         then kbind (iunlockput ip s) (\<lambda>_ s. kbind (end_op s) (\<lambda>_ s. Ret (- 1) s))
         else kbind (iupdate ip (upd_inode ip (\<lambda>n. n\<lparr>inlink := inlink n + 1\<rparr>) s)) (\<lambda>_ s.
           kbind (iunlock (Some ip) s) (\<lambda>_ s.
           kbind (nameiparent (str_of new) new_name s) (\<lambda>(dpo, name) s.
           case dpo of
             None \<Rightarrow> link_bad ip s
           | Some dp \<Rightarrow>
               kbind (ilock (Some dp) s) (\<lambda>_ s.
               kbind (if idev (itable s dp) \<noteq> idev (itable s ip) then Ret (- 1) s
                      else dirlink dp (cstr name) (inum (itable s ip)) s) (\<lambda>r s.
               if r < 0 then kbind (iunlockput dp s) (\<lambda>_ s. link_bad ip s)
               else kbind (iunlockput dp s) (\<lambda>_ s.
                 kbind (iput ip s) (\<lambda>_ s.
                 kbind (end_op s) (\<lambda>_ s.
                 Ret 0 s)))))))))))))"

fun isdirempty_loop :: "nat \<Rightarrow> nat \<Rightarrow> u32 \<Rightarrow> 'z kfs_scheme \<Rightarrow> (bool, 'z kfs_scheme) kres" where
  "isdirempty_loop f dp off s =
     (if off < isize (itable s dp)
      then (case f of
          0 \<Rightarrow> Wait s
        | Suc f \<Rightarrow>
            kbind (readi dp RVar off 16 s) (\<lambda>(r, de) s.
            if r \<noteq> 16 then Panic ''isdirempty: readi''
            else if de_inum de \<noteq> 0 then Ret False s
            else isdirempty_loop f dp (off + 16) s))
      else Ret True s)"

definition isdirempty :: "nat \<Rightarrow> 'z kfs_scheme \<Rightarrow> (bool, 'z kfs_scheme) kres" where
  "isdirempty dp s = isdirempty_loop (Suc (unat (isize (itable s dp)) div 16)) dp 32 s"

definition unlink_bad :: "nat \<Rightarrow> 'z kfs_scheme \<Rightarrow> (u64, 'z kfs_scheme) kres" where
  "unlink_bad dp s = kbind (iunlockput dp s) (\<lambda>_ s. kbind (end_op s) (\<lambda>_ s. Ret (- 1) s))"

definition sys_unlink :: "'z kfs_scheme \<Rightarrow> (u64, 'z kfs_scheme) kres" where
  "sys_unlink s =
     kbind (argstr 0 MAXPATH s) (\<lambda>(r, path) s. if r < 0 then Ret (- 1) s else
     kbind (begin_op s) (\<lambda>_ s.
     kbind (nameiparent (str_of path) new_name s) (\<lambda>(dpo, name) s.
     case dpo of
       None \<Rightarrow> kbind (end_op s) (\<lambda>_ s. Ret (- 1) s)
     | Some dp \<Rightarrow>
         kbind (ilock (Some dp) s) (\<lambda>_ s.
         if namecmp (cstr name) (cstr (str8 ''.'')) = 0 \<or> namecmp (cstr name) (cstr (str8 ''..'')) = 0 then unlink_bad dp s
         else kbind (dirlookup dp (cstr name) s) (\<lambda>r s.
           case r of
             None \<Rightarrow> unlink_bad dp s
           | Some (ip, off) \<Rightarrow>
               kbind (ilock (Some ip) s) (\<lambda>_ s.
               if sint (inlink (itable s ip)) < 1 then Panic ''unlink: nlink < 1''
               else kbind (if itype (itable s ip) = T_DIR then isdirempty ip s else Ret True s) (\<lambda>ok s.
                 if \<not> ok then kbind (iunlockput ip s) (\<lambda>_ s. unlink_bad dp s)
                 else kbind (writei dp (WVar (replicate 16 0)) off 16 s) (\<lambda>r s.
                   if r \<noteq> 16 then Panic ''unlink: writei''
                   else kbind (if itype (itable s ip) = T_DIR
                               then iupdate dp (upd_inode dp (\<lambda>n. n\<lparr>inlink := inlink n - 1\<rparr>) s)
                               else Ret () s) (\<lambda>_ s.
                     kbind (iunlockput dp s) (\<lambda>_ s.
                     kbind (iupdate ip (upd_inode ip (\<lambda>n. n\<lparr>inlink := inlink n - 1\<rparr>) s)) (\<lambda>_ s.
                     kbind (iunlockput ip s) (\<lambda>_ s.
                     kbind (end_op s) (\<lambda>_ s.
                     Ret 0 s)))))))))))))"

definition create_fail :: "nat \<Rightarrow> nat \<Rightarrow> 'z kfs_scheme \<Rightarrow> (nat option, 'z kfs_scheme) kres" where
  "create_fail ip dp s =
     kbind (iupdate ip (upd_inode ip (\<lambda>n. n\<lparr>inlink := 0\<rparr>) s)) (\<lambda>_ s.
     kbind (iunlockput ip s) (\<lambda>_ s.
     kbind (iunlockput dp s) (\<lambda>_ s.
     Ret None s)))"

definition create :: "u8 list \<Rightarrow> u16 \<Rightarrow> u16 \<Rightarrow> u16 \<Rightarrow> 'z kfs_scheme \<Rightarrow> (nat option, 'z kfs_scheme) kres" where
  "create path type major minor s =
     kbind (nameiparent path new_name s) (\<lambda>(dpo, name) s.
     case dpo of
       None \<Rightarrow> Ret None s
     | Some dp \<Rightarrow>
         kbind (ilock (Some dp) s) (\<lambda>_ s.
         kbind (dirlookup dp (cstr name) s) (\<lambda>r s.
         case r of
           Some (ip, _) \<Rightarrow>
             kbind (iunlockput dp s) (\<lambda>_ s.
             kbind (ilock (Some ip) s) (\<lambda>_ s.
             if type = T_FILE \<and> (itype (itable s ip) = T_FILE \<or> itype (itable s ip) = T_DEVICE)
             then Ret (Some ip) s
             else kbind (iunlockput ip s) (\<lambda>_ s. Ret None s)))
         | None \<Rightarrow>
             kbind (ialloc (idev (itable s dp)) type s) (\<lambda>ipo s.
             case ipo of
               None \<Rightarrow> kbind (iunlockput dp s) (\<lambda>_ s. Ret None s)
             | Some ip \<Rightarrow>
                 kbind (ilock (Some ip) s) (\<lambda>_ s.
                 kbind (iupdate ip (upd_inode ip (\<lambda>n. n\<lparr>imajor := major, iminor := minor, inlink := 1\<rparr>) s)) (\<lambda>_ s.
                 kbind (if type = T_DIR
                        then kbind (dirlink ip (cstr (str8 ''.'')) (inum (itable s ip)) s) (\<lambda>r s.
                             if r < 0 then Ret r s
                             else dirlink ip (cstr (str8 ''..'')) (inum (itable s dp)) s)
                        else Ret 0 s) (\<lambda>r s.
                 if r < 0 then create_fail ip dp s
                 else kbind (dirlink dp (cstr name) (inum (itable s ip)) s) (\<lambda>r s.
                   if r < 0 then create_fail ip dp s
                   else kbind (if type = T_DIR
                               then iupdate dp (upd_inode dp (\<lambda>n. n\<lparr>inlink := inlink n + 1\<rparr>) s)
                               else Ret () s) (\<lambda>_ s.
                     kbind (iunlockput dp s) (\<lambda>_ s.
                     Ret (Some ip) s))))))))))"

definition O_RDONLY :: u32 where "O_RDONLY = 0x000"
definition O_WRONLY :: u32 where "O_WRONLY = 0x001"
definition O_RDWR :: u32 where "O_RDWR = 0x002"
definition O_CREATE :: u32 where "O_CREATE = 0x200"
definition O_TRUNC :: u32 where "O_TRUNC = 0x400"

definition open_fail :: "nat \<Rightarrow> 'z kfs_scheme \<Rightarrow> (u64, 'z kfs_scheme) kres" where
  "open_fail ip s = kbind (iunlockput ip s) (\<lambda>_ s. kbind (end_op s) (\<lambda>_ s. Ret (- 1) s))"

text \<open>The stores into the new \<open>struct file\<close>.\<close>

definition open_file :: "u32 \<Rightarrow> nat \<Rightarrow> inode \<Rightarrow> fileobj \<Rightarrow> fileobj" where
  "open_file omode ip n x =
     (let x = (if itype n = T_DEVICE then x\<lparr>ftype := FD_DEVICE, fmajor := imajor n\<rparr>
               else x\<lparr>ftype := FD_INODE, foff := 0\<rparr>)
      in x\<lparr>fip := Some ip, readable := (omode AND O_WRONLY = 0),
           writable := (omode AND O_WRONLY \<noteq> 0 \<or> omode AND O_RDWR \<noteq> 0)\<rparr>)"

text \<open>The part of \<open>sys_open\<close> once \<open>ip\<close> is found or created, and locked.\<close>

definition open_inode :: "u32 \<Rightarrow> nat \<Rightarrow> 'z kfile_scheme \<Rightarrow> (u64, 'z kfile_scheme) kres" where
  "open_inode omode ip s =
     (if itype (itable s ip) = T_DEVICE \<and> (sint (imajor (itable s ip)) < 0 \<or> sint (imajor (itable s ip)) \<ge> NDEV)
      then open_fail ip s
      else kbind (filealloc s) (\<lambda>r s. case r of None \<Rightarrow> open_fail ip s | Some f \<Rightarrow>
        kbind (fdalloc f s) (\<lambda>r s. case r of None \<Rightarrow> kbind (fileclose f s) (\<lambda>_ s. open_fail ip s) | Some fd \<Rightarrow>
        let s = upd_file f (open_file omode ip (itable s ip)) s in
        kbind (if omode AND O_TRUNC \<noteq> 0 \<and> itype (itable s ip) = T_FILE then itrunc ip s else Ret () s) (\<lambda>_ s.
        kbind (iunlock (Some ip) s) (\<lambda>_ s.
        kbind (end_op s) (\<lambda>_ s.
        Ret (of_nat fd) s))))))"

definition sys_open :: "'z kfile_scheme \<Rightarrow> (u64, 'z kfile_scheme) kres" where
  "sys_open s =
     kbind (argint 1 s) (\<lambda>om s.
     let omode = word_of_int om in
     kbind (argstr 0 MAXPATH s) (\<lambda>(n, path) s. if n < 0 then Ret (- 1) s else
     kbind (begin_op s) (\<lambda>_ s.
     if omode AND O_CREATE \<noteq> 0
     then kbind (create (str_of path) T_FILE 0 0 s) (\<lambda>ipo s.
       case ipo of
         None \<Rightarrow> kbind (end_op s) (\<lambda>_ s. Ret (- 1) s)
       | Some ip \<Rightarrow> open_inode omode ip s)
     else kbind (namei (str_of path) s) (\<lambda>ipo s.
       case ipo of
         None \<Rightarrow> kbind (end_op s) (\<lambda>_ s. Ret (- 1) s)
       | Some ip \<Rightarrow>
           kbind (ilock (Some ip) s) (\<lambda>_ s.
           if itype (itable s ip) = T_DIR \<and> omode \<noteq> O_RDONLY then open_fail ip s
           else open_inode omode ip s)))))"

definition sys_mkdir :: "'z kfs_scheme \<Rightarrow> (u64, 'z kfs_scheme) kres" where
  "sys_mkdir s =
     kbind (begin_op s) (\<lambda>_ s.
     kbind (argstr 0 MAXPATH s) (\<lambda>(r, path) s.
     kbind (if r < 0 then Ret None s else create (str_of path) T_DIR 0 0 s) (\<lambda>ipo s.
     case ipo of
       None \<Rightarrow> kbind (end_op s) (\<lambda>_ s. Ret (- 1) s)
     | Some ip \<Rightarrow> kbind (iunlockput ip s) (\<lambda>_ s. kbind (end_op s) (\<lambda>_ s. Ret 0 s)))))"

definition sys_mknod :: "'z kfs_scheme \<Rightarrow> (u64, 'z kfs_scheme) kres" where
  "sys_mknod s =
     kbind (begin_op s) (\<lambda>_ s.
     kbind (argint 1 s) (\<lambda>major s.
     kbind (argint 2 s) (\<lambda>minor s.
     kbind (argstr 0 MAXPATH s) (\<lambda>(r, path) s.
     kbind (if r < 0 then Ret None s
            else create (str_of path) T_DEVICE (word_of_int major) (word_of_int minor) s) (\<lambda>ipo s.
     case ipo of
       None \<Rightarrow> kbind (end_op s) (\<lambda>_ s. Ret (- 1) s)
     | Some ip \<Rightarrow> kbind (iunlockput ip s) (\<lambda>_ s. kbind (end_op s) (\<lambda>_ s. Ret 0 s)))))))"

definition sys_chdir :: "'z kfs_scheme \<Rightarrow> (u64, 'z kfs_scheme) kres" where
  "sys_chdir s =
     kbind (curproc s) (\<lambda>p s.
     kbind (begin_op s) (\<lambda>_ s.
     kbind (argstr 0 MAXPATH s) (\<lambda>(r, path) s.
     kbind (if r < 0 then Ret None s else namei (str_of path) s) (\<lambda>ipo s.
     case ipo of
       None \<Rightarrow> kbind (end_op s) (\<lambda>_ s. Ret (- 1) s)
     | Some ip \<Rightarrow>
         kbind (ilock (Some ip) s) (\<lambda>_ s.
         if itype (itable s ip) \<noteq> T_DIR
         then kbind (iunlockput ip s) (\<lambda>_ s. kbind (end_op s) (\<lambda>_ s. Ret (- 1) s))
         else kbind (iunlock (Some ip) s) (\<lambda>_ s.
           kbind (case cwd (procs s p) of None \<Rightarrow> Panic ''kerneltrap'' | Some c \<Rightarrow> iput c s) (\<lambda>_ s.
           kbind (end_op s) (\<lambda>_ s.
           Ret 0 (upd_proc p (\<lambda>x. x\<lparr>cwd := Some ip\<rparr>) s)))))))))"

section \<open>exec and pipe\<close>

text \<open>
  The loop of \<open>sys_exec\<close> that copies the argument strings into pages, with \<open>k\<close> slots of \<open>argv\<close>
  left: the pages allocated so far, and the strings if the terminating null was reached.
\<close>

fun exec_args :: "nat \<Rightarrow> u64 \<Rightarrow> u64 list \<Rightarrow> u8 list list \<Rightarrow> 'z kproc_scheme
    \<Rightarrow> (u64 list \<times> u8 list list option, 'z kproc_scheme) kres" where
  "exec_args 0 uargv pages strs s = Ret (pages, None) s"
| "exec_args (Suc k) uargv pages strs s =
     kbind (fetchaddr uargv s) (\<lambda>r s.
     case r of
       None \<Rightarrow> Ret (pages, None) s
     | Some uarg \<Rightarrow>
         if uarg = 0 then Ret (pages, Some strs) s
         else kbind (kalloc s) (\<lambda>pg s.
           if pg = 0 then Ret (pages, None) s
           else kbind (fetchstr uarg 4096 s) (\<lambda>(n, bs) s.
             let s = s\<lparr>mem := store_bytes (mem s) pg bs\<rparr> in
             if n < 0 then Ret (pages @ [pg], None) s
             else exec_args k (uargv + 8) (pages @ [pg]) (strs @ [str_of bs]) s)))"

definition sys_exec :: "'z kfs_scheme \<Rightarrow> (u64, 'z kfs_scheme) kres" where
  "sys_exec s =
     kbind (argaddr 1 s) (\<lambda>uargv s.
     kbind (argstr 0 MAXPATH s) (\<lambda>(r, path) s. if r < 0 then Ret (- 1) s else
     kbind (exec_args MAXARG uargv [] [] s) (\<lambda>(pages, r) s.
     kbind (case r of None \<Rightarrow> Ret (- 1) s | Some argv \<Rightarrow> kexec (str_of path) argv s) (\<lambda>ret s.
     kbind (kfold kfree pages s) (\<lambda>_ s.
     Ret (word_of_int ret) s)))))"

definition clear_fd :: "nat \<Rightarrow> nat \<Rightarrow> 'z kproc_scheme \<Rightarrow> 'z kproc_scheme" where
  "clear_fd p fd s = upd_proc p (\<lambda>x. x\<lparr>ofile := (ofile x)(fd := None)\<rparr>) s"

definition close_both :: "nat \<Rightarrow> nat \<Rightarrow> 'z kfile_scheme \<Rightarrow> (u64, 'z kfile_scheme) kres" where
  "close_both rfl wfl s = kbind (fileclose rfl s) (\<lambda>_ s. kbind (fileclose wfl s) (\<lambda>_ s. Ret (- 1) s))"

definition sys_pipe :: "'z kfile_scheme \<Rightarrow> (u64, 'z kfile_scheme) kres" where
  "sys_pipe s =
     kbind (curproc s) (\<lambda>p s.
     kbind (argaddr 0 s) (\<lambda>fdarray s.
     kbind (pipealloc s) (\<lambda>r s. case r of None \<Rightarrow> Ret (- 1) s | Some (rfl, wfl) \<Rightarrow>
     kbind (fdalloc rfl s) (\<lambda>r s. case r of None \<Rightarrow> close_both rfl wfl s | Some fd0 \<Rightarrow>
     kbind (fdalloc wfl s) (\<lambda>r s. case r of None \<Rightarrow> close_both rfl wfl (clear_fd p fd0 s) | Some fd1 \<Rightarrow>
     kbind (copyout (pagetable (procs s p)) fdarray (le_bytes 4 (of_nat fd0 :: u32)) s) (\<lambda>r s.
     kbind (if r < 0 then Ret r s
            else copyout (pagetable (procs s p)) (fdarray + 4) (le_bytes 4 (of_nat fd1 :: u32)) s) (\<lambda>r s.
     if r < 0 then close_both rfl wfl (clear_fd p fd1 (clear_fd p fd0 s))
     else Ret 0 s)))))))"

section \<open>Dispatch\<close>

definition syscalls :: "int \<Rightarrow> ('z kfile_scheme \<Rightarrow> (u64, 'z kfile_scheme) kres) option" where
  "syscalls num =
     (if num = 1 then Some sys_fork else if num = 2 then Some sys_exit else if num = 3 then Some sys_wait
      else if num = 4 then Some sys_pipe else if num = 5 then Some sys_read else if num = 6 then Some sys_kill
      else if num = 7 then Some sys_exec else if num = 8 then Some sys_fstat else if num = 9 then Some sys_chdir
      else if num = 10 then Some sys_dup else if num = 11 then Some sys_getpid else if num = 12 then Some sys_sbrk
      else if num = 13 then Some sys_pause else if num = 14 then Some sys_uptime else if num = 15 then Some sys_open
      else if num = 16 then Some sys_write else if num = 17 then Some sys_mknod else if num = 18 then Some sys_unlink
      else if num = 19 then Some sys_link else if num = 20 then Some sys_mkdir else if num = 21 then Some sys_close
      else None)"

definition syscall :: "'z kfile_scheme \<Rightarrow> (unit, 'z kfile_scheme) kres" where
  "syscall s =
     kbind (curproc s) (\<lambda>p s.
     let num = sint (ucast (tf_get p (tf_a 7) s) :: u32) in
     case syscalls num of
       Some f \<Rightarrow> kbind (f s) (\<lambda>r s. Ret () (tf_set p (tf_a 0) r s))
     | None \<Rightarrow>
         kbind (printf (map ch ''%d %s: unknown sys call %d'' @ [10])
           [PNum (word_of_int (pid (procs s p))), PStr (Some (str_of (pname (procs s p)))), PNum (word_of_int num)] s) (\<lambda>_ s.
         Ret () (tf_set p (tf_a 0) (- 1) s)))"

declare isdirempty_loop.simps [simp del] exec_args.simps [simp del]

end
