(* ===== verification/Virtio.thy ===== *)
theory Virtio
  imports Procs
begin

text \<open>
  The driver of the virtio disk, \<^verbatim>\<open>kernel/virtio_disk.c\<close>, and the interrupt controller,
  \<^verbatim>\<open>kernel/plic.c\<close>. Below the synchronous \<open>virtio_disk_rw\<close> of the theory \<open>Bio\<close>, the driver
  formats a chain of three descriptors, notifies the device and sleeps until the interrupt
  handler clears \<open>b->disk\<close>.

  The device is hardware: loads of its registers return the next element of an arbitrary
  sequence, stores are recorded. The rings are memory that both sides write. A descriptor's address
  is the object it points at.
\<close>

section \<open>State\<close>

datatype dptr = DNull | DReq nat | DData nat | DStatus nat

record virtq_desc =
  d_addr :: dptr
  d_len :: u32
  d_flags :: u16
  d_next :: u16

record virtio_blk_req =
  req_type :: u32
  req_reserved :: u32
  req_sector :: u64

record kdisk = kfile +
  vdesc :: "nat \<Rightarrow> virtq_desc"
  avail_idx :: u16
  avail_ring :: "nat \<Rightarrow> u16"
  usedq_idx :: u16
  usedq_ring :: "nat \<Rightarrow> u32"
  dfree :: "nat \<Rightarrow> bool"
  used_idx :: u16
  info_b :: "nat \<Rightarrow> nat option"
  info_status :: "nat \<Rightarrow> u8"
  ops :: "nat \<Rightarrow> virtio_blk_req"
  bdisk :: "nat \<Rightarrow> bool"
  vq_pages :: "u64 \<times> u64 \<times> u64"
  mmio_in :: "nat \<Rightarrow> u32"
  mmio_n :: nat
  mmio_out :: "(u64 \<times> u32) list"

definition NUM :: nat where "NUM = 8"
definition VRING_DESC_F_NEXT :: u16 where "VRING_DESC_F_NEXT = 1"
definition VRING_DESC_F_WRITE :: u16 where "VRING_DESC_F_WRITE = 2"
definition VIRTIO_BLK_T_IN :: u32 where "VIRTIO_BLK_T_IN = 0"
definition VIRTIO_BLK_T_OUT :: u32 where "VIRTIO_BLK_T_OUT = 1"

definition VIRTIO_MMIO_MAGIC_VALUE :: u64 where "VIRTIO_MMIO_MAGIC_VALUE = 0x000"
definition VIRTIO_MMIO_VERSION :: u64 where "VIRTIO_MMIO_VERSION = 0x004"
definition VIRTIO_MMIO_DEVICE_ID :: u64 where "VIRTIO_MMIO_DEVICE_ID = 0x008"
definition VIRTIO_MMIO_VENDOR_ID :: u64 where "VIRTIO_MMIO_VENDOR_ID = 0x00c"
definition VIRTIO_MMIO_DEVICE_FEATURES :: u64 where "VIRTIO_MMIO_DEVICE_FEATURES = 0x010"
definition VIRTIO_MMIO_DRIVER_FEATURES :: u64 where "VIRTIO_MMIO_DRIVER_FEATURES = 0x020"
definition VIRTIO_MMIO_QUEUE_SEL :: u64 where "VIRTIO_MMIO_QUEUE_SEL = 0x030"
definition VIRTIO_MMIO_QUEUE_NUM_MAX :: u64 where "VIRTIO_MMIO_QUEUE_NUM_MAX = 0x034"
definition VIRTIO_MMIO_QUEUE_NUM :: u64 where "VIRTIO_MMIO_QUEUE_NUM = 0x038"
definition VIRTIO_MMIO_QUEUE_READY :: u64 where "VIRTIO_MMIO_QUEUE_READY = 0x044"
definition VIRTIO_MMIO_QUEUE_NOTIFY :: u64 where "VIRTIO_MMIO_QUEUE_NOTIFY = 0x050"
definition VIRTIO_MMIO_INTERRUPT_STATUS :: u64 where "VIRTIO_MMIO_INTERRUPT_STATUS = 0x060"
definition VIRTIO_MMIO_INTERRUPT_ACK :: u64 where "VIRTIO_MMIO_INTERRUPT_ACK = 0x064"
definition VIRTIO_MMIO_STATUS :: u64 where "VIRTIO_MMIO_STATUS = 0x070"
definition VIRTIO_MMIO_QUEUE_DESC_LOW :: u64 where "VIRTIO_MMIO_QUEUE_DESC_LOW = 0x080"
definition VIRTIO_MMIO_QUEUE_DESC_HIGH :: u64 where "VIRTIO_MMIO_QUEUE_DESC_HIGH = 0x084"
definition VIRTIO_MMIO_DRIVER_DESC_LOW :: u64 where "VIRTIO_MMIO_DRIVER_DESC_LOW = 0x090"
definition VIRTIO_MMIO_DRIVER_DESC_HIGH :: u64 where "VIRTIO_MMIO_DRIVER_DESC_HIGH = 0x094"
definition VIRTIO_MMIO_DEVICE_DESC_LOW :: u64 where "VIRTIO_MMIO_DEVICE_DESC_LOW = 0x0a0"
definition VIRTIO_MMIO_DEVICE_DESC_HIGH :: u64 where "VIRTIO_MMIO_DEVICE_DESC_HIGH = 0x0a4"

definition VIRTIO_CONFIG_S_ACKNOWLEDGE :: u32 where "VIRTIO_CONFIG_S_ACKNOWLEDGE = 1"
definition VIRTIO_CONFIG_S_DRIVER :: u32 where "VIRTIO_CONFIG_S_DRIVER = 2"
definition VIRTIO_CONFIG_S_DRIVER_OK :: u32 where "VIRTIO_CONFIG_S_DRIVER_OK = 4"
definition VIRTIO_CONFIG_S_FEATURES_OK :: u32 where "VIRTIO_CONFIG_S_FEATURES_OK = 8"

text \<open>The feature bits that the driver turns off, in the order of the code.\<close>

definition off_features :: "nat list" where
  "off_features = [5, 7, 11, 12, 27, 29, 28]"

section \<open>Device registers\<close>

definition mmio_read :: "u64 \<Rightarrow> 'z kdisk_scheme \<Rightarrow> (u32, 'z kdisk_scheme) kres" where
  "mmio_read r s = Ret (mmio_in s (mmio_n s)) (s\<lparr>mmio_n := Suc (mmio_n s)\<rparr>)"

definition mmio_write :: "u64 \<Rightarrow> u32 \<Rightarrow> 'z kdisk_scheme \<Rightarrow> 'z kdisk_scheme" where
  "mmio_write r v s = s\<lparr>mmio_out := mmio_out s @ [(VIRTIO0 + r, v)]\<rparr>"

text \<open>
  The condition of the first \<open>if\<close> of \<open>virtio_disk_init\<close> stops at the first register that differs.
\<close>

definition virtio_probe :: "'z kdisk_scheme \<Rightarrow> (bool, 'z kdisk_scheme) kres" where
  "virtio_probe s =
     kbind (mmio_read VIRTIO_MMIO_MAGIC_VALUE s) (\<lambda>v s. if v \<noteq> 0x74726976 then Ret False s else
     kbind (mmio_read VIRTIO_MMIO_VERSION s) (\<lambda>v s. if v \<noteq> 2 then Ret False s else
     kbind (mmio_read VIRTIO_MMIO_DEVICE_ID s) (\<lambda>v s. if v \<noteq> 2 then Ret False s else
     kbind (mmio_read VIRTIO_MMIO_VENDOR_ID s) (\<lambda>v s. Ret (v = 0x554d4551) s))))"

text \<open>The second half of \<open>virtio_disk_init\<close>, from the allocation of the queue memory on.\<close>

definition virtio_queue_init :: "u32 \<Rightarrow> 'z kdisk_scheme \<Rightarrow> (unit, 'z kdisk_scheme) kres" where
  "virtio_queue_init status s =
     kbind (kalloc s) (\<lambda>dsc s.
     kbind (kalloc s) (\<lambda>avl s.
     kbind (kalloc s) (\<lambda>usd s.
     if dsc = 0 \<or> avl = 0 \<or> usd = 0 then Panic ''virtio disk kalloc''
     else let s = zero_page usd (zero_page avl (zero_page dsc s));
              s = s\<lparr>vq_pages := (dsc, avl, usd),
                    vdesc := (\<lambda>_. \<lparr>d_addr = DNull, d_len = 0, d_flags = 0, d_next = 0\<rparr>),
                    avail_idx := 0, avail_ring := (\<lambda>_. 0), usedq_idx := 0, usedq_ring := (\<lambda>_. 0)\<rparr>;
              s = mmio_write VIRTIO_MMIO_QUEUE_NUM (of_nat NUM) s;
              s = mmio_write VIRTIO_MMIO_QUEUE_DESC_LOW (ucast dsc) s;
              s = mmio_write VIRTIO_MMIO_QUEUE_DESC_HIGH (ucast (drop_bit 32 dsc)) s;
              s = mmio_write VIRTIO_MMIO_DRIVER_DESC_LOW (ucast avl) s;
              s = mmio_write VIRTIO_MMIO_DRIVER_DESC_HIGH (ucast (drop_bit 32 avl)) s;
              s = mmio_write VIRTIO_MMIO_DEVICE_DESC_LOW (ucast usd) s;
              s = mmio_write VIRTIO_MMIO_DEVICE_DESC_HIGH (ucast (drop_bit 32 usd)) s;
              s = mmio_write VIRTIO_MMIO_QUEUE_READY 1 s;
              s = s\<lparr>dfree := (\<lambda>i. if i < NUM then True else dfree s i)\<rparr>
       in Ret () (mmio_write VIRTIO_MMIO_STATUS (status OR VIRTIO_CONFIG_S_DRIVER_OK) s))))"

definition virtio_disk_init :: "'z kdisk_scheme \<Rightarrow> (unit, 'z kdisk_scheme) kres" where
  "virtio_disk_init s =
     (let s = initlock VdiskLock ''virtio_disk'' s in
     kbind (virtio_probe s) (\<lambda>ok s.
     if \<not> ok then Panic ''could not find virtio disk''
     else let s = mmio_write VIRTIO_MMIO_STATUS 0 s;
              status = VIRTIO_CONFIG_S_ACKNOWLEDGE;
              s = mmio_write VIRTIO_MMIO_STATUS status s;
              status = status OR VIRTIO_CONFIG_S_DRIVER;
              s = mmio_write VIRTIO_MMIO_STATUS status s in
       kbind (mmio_read VIRTIO_MMIO_DEVICE_FEATURES s) (\<lambda>features s.
       let features = fold (\<lambda>k f. f AND NOT (push_bit k 1)) off_features features;
           s = mmio_write VIRTIO_MMIO_DRIVER_FEATURES features s;
           status = status OR VIRTIO_CONFIG_S_FEATURES_OK;
           s = mmio_write VIRTIO_MMIO_STATUS status s in
       kbind (mmio_read VIRTIO_MMIO_STATUS s) (\<lambda>status s.
       if status AND VIRTIO_CONFIG_S_FEATURES_OK = 0 then Panic ''virtio disk FEATURES_OK unset''
       else let s = mmio_write VIRTIO_MMIO_QUEUE_SEL 0 s in
         kbind (mmio_read VIRTIO_MMIO_QUEUE_READY s) (\<lambda>rdy s.
         if rdy \<noteq> 0 then Panic ''virtio disk should not be ready''
         else kbind (mmio_read VIRTIO_MMIO_QUEUE_NUM_MAX s) (\<lambda>mx s.
           if mx = 0 then Panic ''virtio disk has no queue 0''
           else if mx < of_nat NUM then Panic ''virtio disk max queue too short''
           else virtio_queue_init status s))))))"

section \<open>Descriptors\<close>

definition alloc_desc :: "'z kdisk_scheme \<Rightarrow> (nat option, 'z kdisk_scheme) kres" where
  "alloc_desc s =
     (case find (dfree s) [0..<NUM] of
        Some i \<Rightarrow> Ret (Some i) (s\<lparr>dfree := (dfree s)(i := False)\<rparr>)
      | None \<Rightarrow> Ret None s)"

definition free_desc :: "nat \<Rightarrow> 'z kdisk_scheme \<Rightarrow> (unit, 'z kdisk_scheme) kres" where
  "free_desc i s =
     (if i \<ge> NUM then Panic ''free_desc 1''
      else if dfree s i then Panic ''free_desc 2''
      else wakeup ChDiskFree
        (s\<lparr>vdesc := (vdesc s)(i := \<lparr>d_addr = DNull, d_len = 0, d_flags = 0, d_next = 0\<rparr>),
           dfree := (dfree s)(i := True)\<rparr>))"

text \<open>
  A descriptor cannot be freed twice, so a chain ends or \<open>free_desc\<close> panics within \<open>NUM + 1\<close> rounds.
\<close>

fun free_chain_loop :: "nat \<Rightarrow> nat \<Rightarrow> 'z kdisk_scheme \<Rightarrow> (unit, 'z kdisk_scheme) kres" where
  "free_chain_loop 0 i s = Wait s"
| "free_chain_loop (Suc f) i s =
     (let flag = d_flags (vdesc s i); nxt = unat (d_next (vdesc s i)) in
      kbind (free_desc i s) (\<lambda>_ s.
      if flag AND VRING_DESC_F_NEXT \<noteq> 0 then free_chain_loop f nxt s else Ret () s))"

definition free_chain :: "nat \<Rightarrow> 'z kdisk_scheme \<Rightarrow> (unit, 'z kdisk_scheme) kres" where
  "free_chain i s = free_chain_loop (Suc NUM) i s"

definition alloc3_desc :: "'z kdisk_scheme \<Rightarrow> ((nat \<times> nat \<times> nat) option, 'z kdisk_scheme) kres" where
  "alloc3_desc s =
     kbind (alloc_desc s) (\<lambda>r s. case r of None \<Rightarrow> Ret None s | Some i0 \<Rightarrow>
     kbind (alloc_desc s) (\<lambda>r s. case r of None \<Rightarrow> kbind (free_desc i0 s) (\<lambda>_ s. Ret None s) | Some i1 \<Rightarrow>
     kbind (alloc_desc s) (\<lambda>r s. case r of
         None \<Rightarrow> kbind (free_desc i0 s) (\<lambda>_ s. kbind (free_desc i1 s) (\<lambda>_ s. Ret None s))
       | Some i2 \<Rightarrow> Ret (Some (i0, i1, i2)) s)))"

section \<open>Requests\<close>

text \<open>The stores of \<open>virtio_disk_rw\<close> between the allocation and the wait.\<close>

definition disk_submit :: "nat \<Rightarrow> bool \<Rightarrow> nat \<times> nat \<times> nat \<Rightarrow> 'z kdisk_scheme \<Rightarrow> 'z kdisk_scheme" where
  "disk_submit b write idx s =
     (case idx of (i0, i1, i2) \<Rightarrow>
      let sector = ucast (blockno (bufs s b) * 2);
          s = s\<lparr>ops := (ops s)(i0 := \<lparr>req_type = (if write then VIRTIO_BLK_T_OUT else VIRTIO_BLK_T_IN),
                req_reserved = 0, req_sector = sector\<rparr>)\<rparr>;
          s = s\<lparr>vdesc := (vdesc s)(i0 := \<lparr>d_addr = DReq i0, d_len = 16, d_flags = VRING_DESC_F_NEXT,
                d_next = of_nat i1\<rparr>)\<rparr>;
          s = s\<lparr>vdesc := (vdesc s)(i1 := \<lparr>d_addr = DData b, d_len = of_nat BSIZE,
                d_flags = (if write then 0 else VRING_DESC_F_WRITE) OR VRING_DESC_F_NEXT, d_next = of_nat i2\<rparr>)\<rparr>;
          s = s\<lparr>info_status := (info_status s)(i0 := 0xff)\<rparr>;
          s = s\<lparr>vdesc := (vdesc s)(i2 := \<lparr>d_addr = DStatus i0, d_len = 1, d_flags = VRING_DESC_F_WRITE, d_next = 0\<rparr>)\<rparr>;
          s = s\<lparr>bdisk := (bdisk s)(b := True), info_b := (info_b s)(i0 := Some b)\<rparr>;
          s = s\<lparr>avail_ring := (avail_ring s)(unat (avail_idx s mod of_nat NUM) := of_nat i0)\<rparr>;
          s = s\<lparr>avail_idx := avail_idx s + 1\<rparr>
      in mmio_write VIRTIO_MMIO_QUEUE_NOTIFY 0 s)"

text \<open>The code after the wait.\<close>

definition disk_finish :: "nat \<Rightarrow> 'z kdisk_scheme \<Rightarrow> (unit, 'z kdisk_scheme) kres" where
  "disk_finish i0 s =
     kbind (free_chain i0 (s\<lparr>info_b := (info_b s)(i0 := None)\<rparr>)) (\<lambda>_ s.
     release VdiskLock s)"

text \<open>
  The whole driver function. It sleeps twice: for free descriptors, then for the completion; each
  time the state it sleeps in is the outcome, and \<open>disk_finish\<close> is what runs in the end.
\<close>

definition disk_rw :: "nat \<Rightarrow> bool \<Rightarrow> 'z kdisk_scheme \<Rightarrow> (unit, 'z kdisk_scheme) kres" where
  "disk_rw b write s =
     kbind (acquire VdiskLock s) (\<lambda>_ s.
     kbind (alloc3_desc s) (\<lambda>r s.
     case r of
       None \<Rightarrow> sleep ctx0 ChDiskFree VdiskLock s
     | Some idx \<Rightarrow>
         let s = disk_submit b write idx s in
         if bdisk s b then sleep ctx0 (ChBuf b) VdiskLock s
         else disk_finish (fst idx) s))"

text \<open>The loop of the interrupt handler over the entries that the device has added to the used ring.\<close>

fun disk_intr_loop :: "nat \<Rightarrow> 'z kdisk_scheme \<Rightarrow> (unit, 'z kdisk_scheme) kres" where
  "disk_intr_loop f s =
     (if used_idx s \<noteq> usedq_idx s
      then (case f of
          0 \<Rightarrow> Wait s
        | Suc f \<Rightarrow>
            let i = unat (usedq_ring s (unat (used_idx s mod of_nat NUM))) in
            if info_status s i \<noteq> 0 then Panic ''virtio_disk_intr status''
            else (case info_b s i of
                None \<Rightarrow> Panic ''kerneltrap''
              | Some b \<Rightarrow>
                  kbind (wakeup (ChBuf b) (s\<lparr>bdisk := (bdisk s)(b := False)\<rparr>)) (\<lambda>_ s.
                  disk_intr_loop f (s\<lparr>used_idx := used_idx s + 1\<rparr>))))
      else Ret () s)"

definition virtio_disk_intr :: "'z kdisk_scheme \<Rightarrow> (unit, 'z kdisk_scheme) kres" where
  "virtio_disk_intr s = with_lock VdiskLock (\<lambda>s.
     kbind (mmio_read VIRTIO_MMIO_INTERRUPT_STATUS s) (\<lambda>v s.
     let s = mmio_write VIRTIO_MMIO_INTERRUPT_ACK (v AND 3) s in
     disk_intr_loop (unat (usedq_idx s - used_idx s)) s)) s"

section \<open>The interrupt controller\<close>

definition UART0_IRQ :: u32 where "UART0_IRQ = 10"
definition VIRTIO0_IRQ :: u32 where "VIRTIO0_IRQ = 1"
definition PLIC_SENABLE :: "nat \<Rightarrow> u64" where "PLIC_SENABLE h = PLIC + 0x2080 + of_nat h * 0x100"
definition PLIC_SPRIORITY :: "nat \<Rightarrow> u64" where "PLIC_SPRIORITY h = PLIC + 0x201000 + of_nat h * 0x2000"
definition PLIC_SCLAIM :: "nat \<Rightarrow> u64" where "PLIC_SCLAIM h = PLIC + 0x201004 + of_nat h * 0x2000"

text \<open>The registers of the controller are loaded and stored the same way as those of the disk.\<close>

definition plic_write :: "u64 \<Rightarrow> u32 \<Rightarrow> 'z kdisk_scheme \<Rightarrow> 'z kdisk_scheme" where
  "plic_write a v s = s\<lparr>mmio_out := mmio_out s @ [(a, v)]\<rparr>"

definition plicinit :: "'z kdisk_scheme \<Rightarrow> 'z kdisk_scheme" where
  "plicinit s = plic_write (PLIC + ucast VIRTIO0_IRQ * 4) 1 (plic_write (PLIC + ucast UART0_IRQ * 4) 1 s)"

definition plicinithart :: "'z kdisk_scheme \<Rightarrow> 'z kdisk_scheme" where
  "plicinithart s =
     (let h = cpuid s;
          s = plic_write (PLIC_SENABLE h) (push_bit (unat UART0_IRQ) 1 OR push_bit (unat VIRTIO0_IRQ) 1) s
      in plic_write (PLIC_SPRIORITY h) 0 s)"

definition plic_claim :: "'z kdisk_scheme \<Rightarrow> (u32, 'z kdisk_scheme) kres" where
  "plic_claim s = mmio_read (PLIC_SCLAIM (cpuid s)) s"

definition plic_complete :: "u32 \<Rightarrow> 'z kdisk_scheme \<Rightarrow> 'z kdisk_scheme" where
  "plic_complete irq s = plic_write (PLIC_SCLAIM (cpuid s)) irq s"

declare disk_intr_loop.simps [simp del] free_chain_loop.simps [simp del]

end
