(* ===== verification/Trap.thy ===== *)
theory Trap
  imports Sysfile Virtio
begin

text \<open>
  Traps (\<^verbatim>\<open>kernel/trap.c\<close>), the first steps of a process (\<open>forkret\<close> of \<^verbatim>\<open>kernel/proc.c\<close>) and the
  boot sequence (\<^verbatim>\<open>kernel/start.c\<close>, \<^verbatim>\<open>kernel/main.c\<close>), which composes all components. The
  control and status registers are a function of the hart and the register's name; the
  \<open>SSTATUS_SIE\<close> bit of \<open>sstatus\<close> is the field \<open>sie\<close> that the spin locks use.
\<close>

section \<open>Registers\<close>

datatype csr = Scause | Sepc | Stval | Sstatus | Stvec | Stimecmp | Time | Sie
  | Mstatus | Mepc | Medeleg | Mideleg | Mie | Menvcfg | Mcounteren | Pmpaddr0 | Pmpcfg0 | Mhartid

record ktrap = kdisk +
  csrs :: "nat \<Rightarrow> csr \<Rightarrow> u64"
  forkret_first :: bool
  started :: bool
  sym_main :: u64

definition r_csr :: "csr \<Rightarrow> 'z ktrap_scheme \<Rightarrow> u64" where
  "r_csr c s = csrs s (hart s) c"

definition w_csr :: "csr \<Rightarrow> u64 \<Rightarrow> 'z ktrap_scheme \<Rightarrow> 'z ktrap_scheme" where
  "w_csr c v s = s\<lparr>csrs := (csrs s)(hart s := (csrs s (hart s))(c := v))\<rparr>"

definition SSTATUS_SPP :: u64 where "SSTATUS_SPP = push_bit 8 1"
definition SSTATUS_SPIE :: u64 where "SSTATUS_SPIE = push_bit 5 1"
definition SSTATUS_SIE :: u64 where "SSTATUS_SIE = push_bit 1 1"

definition r_sstatus :: "'z ktrap_scheme \<Rightarrow> u64" where
  "r_sstatus s = (r_csr Sstatus s AND NOT SSTATUS_SIE) OR (if sie s (hart s) then SSTATUS_SIE else 0)"

definition w_sstatus :: "u64 \<Rightarrow> 'z ktrap_scheme \<Rightarrow> 'z ktrap_scheme" where
  "w_sstatus x s = (w_csr Sstatus x s)\<lparr>sie := (sie s)(hart s := (x AND SSTATUS_SIE \<noteq> 0))\<rparr>"

section \<open>Interrupts\<close>

definition trapinit :: "'z kbase_scheme \<Rightarrow> 'z kbase_scheme" where
  "trapinit s = initlock TicksLock ''time'' s"

definition trapinithart :: "'z ktrap_scheme \<Rightarrow> 'z ktrap_scheme" where
  "trapinithart s = w_csr Stvec (sym_kernelvec s) s"

definition clockintr :: "'z ktrap_scheme \<Rightarrow> (unit, 'z ktrap_scheme) kres" where
  "clockintr s =
     kbind (if cpuid s = 0
            then with_lock TicksLock (\<lambda>s. wakeup ChTicks (s\<lparr>ticks := ticks s + 1\<rparr>)) s
            else Ret () s) (\<lambda>_ s.
     Ret () (w_csr Stimecmp (r_csr Time s + 1000000) s))"

definition devintr :: "'z ktrap_scheme \<Rightarrow> (int, 'z ktrap_scheme) kres" where
  "devintr s =
     (let scause = r_csr Scause s in
      if scause = 0x8000000000000009
      then kbind (plic_claim s) (\<lambda>irq s.
        kbind (if irq = UART0_IRQ then uartintr s
               else if irq = VIRTIO0_IRQ then virtio_disk_intr s
               else if irq \<noteq> 0
               then kbind (printf (map ch ''unexpected interrupt irq=%d'' @ [10]) [PNum (ucast irq)] s) (\<lambda>_ s. Ret () s)
               else Ret () s) (\<lambda>_ s.
        Ret 1 (if irq \<noteq> 0 then plic_complete irq s else s)))
      else if scause = 0x8000000000000005 then kbind (clockintr s) (\<lambda>_ s. Ret 2 s)
      else Ret 0 s)"

section \<open>Returning to user space\<close>

definition prepare_return :: "'z ktrap_scheme \<Rightarrow> (unit, 'z ktrap_scheme) kres" where
  "prepare_return s =
     kbind (curproc s) (\<lambda>p s.
     let s = intr_off s;
         s = w_csr Stvec (TRAMPOLINE + (sym_uservec s - sym_trampoline s)) s;
         s = tf_set p tf_kernel_satp (satp s (hart s)) s;
         s = tf_set p tf_kernel_sp (kstack (procs s p) + PGSIZE) s;
         s = tf_set p tf_kernel_trap (sym_usertrap s) s;
         s = tf_set p tf_kernel_hartid (of_nat (hart s)) s;
         x = r_sstatus s;
         x = x AND NOT SSTATUS_SPP;
         x = x OR SSTATUS_SPIE;
         s = w_sstatus x s
     in Ret () (w_csr Sepc (tf_get p tf_epc s) s))"

section \<open>Traps from user space and from the kernel\<close>

text \<open>
  The middle of \<open>usertrap\<close>: handle the trap; the value is \<open>which_dev\<close>.
\<close>

definition user_dispatch :: "nat \<Rightarrow> 'z ktrap_scheme \<Rightarrow> (int, 'z ktrap_scheme) kres" where
  "user_dispatch p s =
     (if r_csr Scause s = 8
      then kbind (is_killed p s) (\<lambda>k s.
        kbind (if k then kexit (- 1) s else Ret () s) (\<lambda>_ s.
        let s = tf_set p tf_epc (tf_get p tf_epc s + 4) s in
        kbind (syscall (intr_on s)) (\<lambda>_ s.
        Ret 0 s)))
      else kbind (devintr s) (\<lambda>which_dev s.
        if which_dev \<noteq> 0 then Ret which_dev s
        else kbind (if r_csr Scause s = 15 \<or> r_csr Scause s = 13
                    then vmfault (pagetable (procs s p)) (r_csr Stval s) (r_csr Scause s = 13) s
                    else Ret 0 s) (\<lambda>r s.
          if r \<noteq> 0 then Ret 0 s
          else kbind (printf (map ch ''usertrap(): unexpected scause 0x%lx pid=%d'' @ [10])
                 [PNum (r_csr Scause s), PNum (word_of_int (pid (procs s p)))] s) (\<lambda>_ s.
            kbind (printf (map ch ''            sepc=0x%lx stval=0x%lx'' @ [10])
                 [PNum (r_csr Sepc s), PNum (r_csr Stval s)] s) (\<lambda>_ s.
            kbind (setkilled p s) (\<lambda>_ s.
            Ret 0 s))))))"

definition usertrap :: "'z ktrap_scheme \<Rightarrow> (u64, 'z ktrap_scheme) kres" where
  "usertrap s =
     (if r_sstatus s AND SSTATUS_SPP \<noteq> 0 then Panic ''usertrap: not from user mode''
      else let s = w_csr Stvec (sym_kernelvec s) s in
        kbind (curproc s) (\<lambda>p s.
        let s = tf_set p tf_epc (r_csr Sepc s) s in
        kbind (user_dispatch p s) (\<lambda>which_dev s.
        kbind (is_killed p s) (\<lambda>k s.
        kbind (if k then kexit (- 1) s else Ret () s) (\<lambda>_ s.
        kbind (if which_dev = 2 then yield ctx0 s else Ret () s) (\<lambda>_ s.
        kbind (prepare_return s) (\<lambda>_ s.
        Ret (MAKE_SATP (pagetable (procs s p))) s)))))))"

definition kerneltrap :: "'z ktrap_scheme \<Rightarrow> (unit, 'z ktrap_scheme) kres" where
  "kerneltrap s =
     (let sepc = r_csr Sepc s; sstatus = r_sstatus s; scause = r_csr Scause s in
      if sstatus AND SSTATUS_SPP = 0 then Panic ''kerneltrap: not from supervisor mode''
      else if intr_get s then Panic ''kerneltrap: interrupts enabled''
      else kbind (devintr s) (\<lambda>which_dev s.
        if which_dev = 0
        then kbind (printf (map ch ''scause=0x%lx sepc=0x%lx stval=0x%lx'' @ [10])
               [PNum scause, PNum (r_csr Sepc s), PNum (r_csr Stval s)] s) (\<lambda>_ s. Panic ''kerneltrap'')
        else kbind (myproc s) (\<lambda>p s.
          kbind (if which_dev = 2 \<and> p \<noteq> None then yield ctx0 s else Ret () s) (\<lambda>_ s.
          Ret () (w_sstatus sstatus (w_csr Sepc sepc s))))))"

section \<open>The first return of a process\<close>

definition forkret :: "'z ktrap_scheme \<Rightarrow> (u64, 'z ktrap_scheme) kres" where
  "forkret s =
     kbind (curproc s) (\<lambda>p s.
     kbind (release (ProcLock p) s) (\<lambda>_ s.
     kbind (if forkret_first s
       then kbind (fsinit ROOTDEV s) (\<lambda>_ s.
         let s = s\<lparr>forkret_first := False\<rparr> in
         kbind (kexec (str8 ''/init'') [str8 ''/init''] s) (\<lambda>r s.
         let s = tf_set p (tf_a 0) (word_of_int r) s in
         if tf_get p (tf_a 0) s = - 1 then Panic ''exec'' else Ret () s))
       else Ret () s) (\<lambda>_ s.
     kbind (prepare_return s) (\<lambda>_ s.
     Ret (MAKE_SATP (pagetable (procs s p))) s))))"

section \<open>Boot\<close>

definition timerinit :: "'z ktrap_scheme \<Rightarrow> 'z ktrap_scheme" where
  "timerinit s =
     (let s = w_csr Mie (r_csr Mie s OR push_bit 5 1) s;
          s = w_csr Menvcfg (r_csr Menvcfg s OR push_bit 63 1) s;
          s = w_csr Mcounteren (r_csr Mcounteren s OR 2) s
      in w_csr Stimecmp (r_csr Time s + 1000000) s)"

text \<open>\<open>start\<close> runs in machine mode; the last step, \<open>mret\<close>, enters \<open>main\<close> in supervisor mode.\<close>

definition start :: "'z ktrap_scheme \<Rightarrow> 'z ktrap_scheme" where
  "start s =
     (let x = r_csr Mstatus s;
          x = x AND NOT (push_bit 11 3);
          x = x OR push_bit 11 1;
          s = w_csr Mstatus x s;
          s = w_csr Mepc (sym_main s) s;
          s = s\<lparr>satp := (satp s)(hart s := 0)\<rparr>;
          s = w_csr Medeleg 0xffff s;
          s = w_csr Mideleg 0xffff s;
          s = w_csr Sie (r_csr Sie s OR push_bit 9 1 OR push_bit 5 1) s;
          s = w_csr Pmpaddr0 0x3fffffffffffff s;
          s = w_csr Pmpcfg0 0xf s;
          s = timerinit s
      in s\<lparr>hart := unat (r_csr Mhartid s)\<rparr>)"

definition main :: "'z ktrap_scheme \<Rightarrow> (nat option, 'z ktrap_scheme) kres" where
  "main s =
     kbind (if cpuid s = 0
       then let s = printfinit (consoleinit s) in
         kbind (printf [10] [] s) (\<lambda>_ s.
         kbind (printf (map ch ''xv6 kernel is booting'' @ [10]) [] s) (\<lambda>_ s.
         kbind (printf [10] [] s) (\<lambda>_ s.
         kbind (kinit s) (\<lambda>_ s.
         kbind (kvminit s) (\<lambda>_ s.
         let s = kvminithart s in
         kbind (procinit s) (\<lambda>_ s.
         let s = fileinit (iinit (binit (plicinithart (plicinit (trapinithart (trapinit s)))))) in
         kbind (virtio_disk_init s) (\<lambda>_ s.
         kbind (userinit s) (\<lambda>_ s.
         Ret () (s\<lparr>started := True\<rparr>)))))))))
       else if \<not> started s then Wait s
       else kbind (printf (map ch ''hart %d starting'' @ [10]) [PNum (of_nat (cpuid s))] s) (\<lambda>_ s.
         Ret () (plicinithart (trapinithart (kvminithart s))))) (\<lambda>_ s.
     scheduler_start s)"

end
