(* ===== verification/SysSpec.thy ===== *)
theory SysSpec
  imports Trap
begin

text \<open>
  What the system-call and trap layer guarantees: the arguments \<open>exec\<close> pushes, lazily grown
  memory, unknown system calls, and the state in which the kernel returns to user space.
\<close>

section \<open>Memory accesses\<close>

lemma disj_ranges:
  assumes "unat a + n \<le> unat b \<or> unat b + k \<le> unat a" "unat a + n \<le> 2 ^ 64" "unat b + k \<le> 2 ^ 64"
  shows "disj a n b k"
  unfolding disj_def
proof (intro allI impI)
  fix i assume i: "i < n"
  have u: "unat (a + of_nat i) = unat a + i" using assms(2) i by (intro unat_add_lt) simp_all
  show "k \<le> unat (a + of_nat i - b)"
    using assms i unfolding unat_sub_if' u by auto
qed

lemma copyin_past_maxva:
  assumes "cpu_ok s" "running s = Some p" "MAXVA < sz (procs s p)"
  shows "copyin pt MAXVA 1 s = Panic ''walk''"
proof -
  have r: "PGROUNDDOWN MAXVA = MAXVA" by (simp add: PGROUNDDOWN_def MAXVA_def)
  have "user_page pt MAXVA s = Panic ''walk''"
    using assms curproc_run [OF assms(1,2)]
    by (simp add: user_page_def walkaddr_def vmfault_def ismapped_def walk_def r Let_def)
  then show ?thesis by (simp add: copyin_def copyin_loop.simps r Let_def)
qed

section \<open>Growing memory\<close>

lemma sys_sbrk_lazy:
  assumes "cpu_ok s" "running s = Some p" "sint (ucast (tf_get p (tf_a 0) s) :: u32) = n" "0 \<le> n"
    "sint (ucast (tf_get p (tf_a 1) s) :: u32) = SBRK_LAZY"
    "sz (procs s p) \<le> sz (procs s p) + word_of_int n"
  shows "sys_sbrk s = Ret (sz (procs s p)) (upd_proc p (\<lambda>x. x\<lparr>sz := sz x + word_of_int n\<rparr>) s)"
  using assms curproc_run [OF assms(1,2)]
  by (auto simp: sys_sbrk_def argint_def argraw_def SBRK_LAZY_def SBRK_EAGER_def Let_def dest: leD)

text \<open>
  C35: A process can make the kernel panic. \<open>sys_sbrk\<close> with \<open>SBRK_LAZY\<close> checks only that the new
  size does not wrap around, so repeated calls grow \<open>p->sz\<close> past \<open>MAXVA\<close>; then \<open>copyin\<close> from user
  address \<open>MAXVA\<close>, which any system call with a pointer argument performs, takes the address for a
  lazily allocated page and panics in \<open>walk\<close>.
\<close>

theorem sbrk_past_maxva_panics:
  assumes "cpu_ok s" "running s = Some p" "sint (ucast (tf_get p (tf_a 0) s) :: u32) = n" "0 \<le> n"
    "sint (ucast (tf_get p (tf_a 1) s) :: u32) = SBRK_LAZY"
    "MAXVA < sz (procs s p) + word_of_int n" "sz (procs s p) \<le> MAXVA"
  shows "\<exists>t. sys_sbrk s = Ret (sz (procs s p)) t \<and> copyin (pagetable (procs t p)) MAXVA 1 t = Panic ''walk''"
proof -
  let ?t = "upd_proc p (\<lambda>x. x\<lparr>sz := sz x + word_of_int n\<rparr>) s"
  have "sys_sbrk s = Ret (sz (procs s p)) ?t"
    using assms by (intro sys_sbrk_lazy) auto
  moreover have "cpu_ok ?t" "running ?t = Some p" "MAXVA < sz (procs ?t p)"
    using assms by (simp_all add: upd_proc_def)
  ultimately show ?thesis using copyin_past_maxva [of ?t p] by blast
qed

definition demo_sbrk :: kproc where
  "demo_sbrk = tf_set 1 (tf_a 1) 2 (tf_set 1 (tf_a 0) 0x1000 (upd_proc 1 (\<lambda>x. x\<lparr>sz := MAXVA\<rparr>) demo_kproc))"

theorem sbrk_past_maxva_panics_witness:
  "\<exists>t. sys_sbrk demo_sbrk = Ret MAXVA t \<and> copyin (pagetable (procs t 1)) MAXVA 1 t = Panic ''walk''"
proof -
  have p: "procs demo_sbrk = procs (upd_proc 1 (\<lambda>x. x\<lparr>sz := MAXVA\<rparr>) demo_kproc)"
    by (simp add: demo_sbrk_def tf_set_def st_def)
  then have z: "sz (procs demo_sbrk 1) = MAXVA" "trapframe (procs demo_sbrk 1) = 0"
    by (simp_all add: upd_proc_def demo_kproc_procs boot_proc_def)
  have c: "cpu_ok demo_sbrk" "running demo_sbrk = Some 1"
    using demo_kproc_ok(1,4) by (simp_all add: demo_sbrk_def tf_set_def st_def upd_proc_def cpu_ok_def running_def)
  have a1: "tf_get 1 (tf_a 1) demo_sbrk = 2"
    by (simp add: tf_get_def ld_def z) (simp add: demo_sbrk_def tf_set_def st_def upd_proc_def demo_kproc_procs boot_proc_def)
  have "disj (112 :: u64) 8 120 8" by (rule disj_ranges) simp_all
  then have a0: "tf_get 1 (tf_a 0) demo_sbrk = 0x1000"
    by (simp add: tf_get_def ld_def z)
       (simp add: demo_sbrk_def tf_set_def st_def upd_proc_def demo_kproc_procs boot_proc_def tf_a_def load64_store64_disj)
  from sbrk_past_maxva_panics [OF c, of 4096] show ?thesis
    by (simp add: a0 a1 z SBRK_LAZY_def del: One_nat_def) (simp add: MAXVA_def)
qed

section \<open>Arguments of exec\<close>

lemma align_down_16: "(x - x mod 16) mod 16 = (0 :: u64)"
proof -
  have "x mod 16 \<le> x" by (simp add: word_le_nat_alt unat_mod)
  then have "unat (x - x mod 16) = unat x - unat x mod 16" by (simp add: unat_sub unat_mod)
  then have "unat ((x - x mod 16) mod 16) = 0" by (simp add: unat_mod minus_mod_eq_div_mult)
  then show ?thesis by (simp add: unat_eq_0)
qed

lemma push_args_Cons:
  assumes "push_args (a # as) pt base sp us s = Ret (Some r) t" "q = sp - of_nat (length a + 1)" "q' = q - q mod 16"
  shows "length us < MAXARG \<and> base \<le> q' \<and> (\<exists>u. push_args as pt base q' (us @ [q']) u = Ret (Some r) t)"
proof -
  have e: "push_args (a # as) pt base sp us s = (if length us \<ge> MAXARG then Ret None s else if q' < base then Ret None s
      else kbind (copyout pt q' (a @ [0]) s) (\<lambda>r s. if r < 0 then Ret None s else push_args as pt base q' (us @ [q']) s))"
    unfolding assms(2,3) by (simp only: push_args.simps Let_def)
  then have l: "length us < MAXARG" using assms(1) by (cases "MAXARG \<le> length us") simp_all
  with e have b: "base \<le> q'" using assms(1) by (cases "q' < base") simp_all
  have "kbind (copyout pt q' (a @ [0]) s) (\<lambda>r s. if r < 0 then Ret None s else push_args as pt base q' (us @ [q']) s)
      = Ret (Some r) t"
    using assms(1) e l leD [OF b] by simp
  then obtain v :: int and u where "(if v < 0 then Ret None u else push_args as pt base q' (us @ [q']) u) = Ret (Some r) t"
    by (rule kbind_RetE)
  then have "push_args as pt base q' (us @ [q']) u = Ret (Some r) t" by (cases "v < 0") simp_all
  with l b show ?thesis by blast
qed

lemma push_args_bounds:
  assumes "push_args as pt base sp us s = Ret (Some (sp', us')) t" "base \<le> sp" "sp mod 16 = 0" "length us \<le> MAXARG"
    "\<forall>u\<in>set us. base \<le> u \<and> u mod 16 = 0"
  shows "base \<le> sp' \<and> sp' mod 16 = 0 \<and> length us' = length us + length as \<and> length us' \<le> MAXARG
    \<and> (\<forall>u\<in>set us'. base \<le> u \<and> u mod 16 = 0)"
  using assms
proof (induction "as" arbitrary: sp us s)
  case Nil
  then show ?case by (simp add: push_args.simps)
next
  case (Cons a "as")
  define q where "q = sp - of_nat (length a + 1)"
  define q' where "q' = q - q mod 16"
  have al: "q' mod 16 = 0" unfolding q'_def by (rule align_down_16)
  from push_args_Cons [OF Cons.prems(1) q_def q'_def] obtain u where
    u: "length us < MAXARG" "base \<le> q'" "push_args as pt base q' (us @ [q']) u = Ret (Some (sp', us')) t" by blast
  have "length (us @ [q']) \<le> MAXARG" "\<forall>x\<in>set (us @ [q']). base \<le> x \<and> x mod 16 = 0"
    using u(1,2) Cons.prems(5) al by simp_all
  from Cons.IH [OF u(3,2) al this] show ?case by simp
qed

end
