(* ===== verification/BlockCache.thy ===== *)
theory BlockCache
  imports Bio
begin

text \<open>
  The contract between the buffer cache and its clients, by block number: which buffer a block
  is in, how many references it has, whether it is locked, its current content and the content
  on disk. The locale \<open>block_cache\<close> states the contract and proves the read-modify-write and
  copy sequences the log uses; the interpretation shows that \<^verbatim>\<open>bio.c\<close> meets it.
\<close>

locale block_cache =
  fixes rd :: "u32 \<Rightarrow> 's \<Rightarrow> (nat, 's) kres"
    and wr :: "nat \<Rightarrow> 's \<Rightarrow> (unit, 's) kres"
    and rel :: "nat \<Rightarrow> 's \<Rightarrow> (unit, 's) kres"
    and unpin :: "nat \<Rightarrow> 's \<Rightarrow> (unit, 's) kres"
    and pin :: "nat \<Rightarrow> 's \<Rightarrow> (unit, 's) kres"
    and data :: "'s \<Rightarrow> nat \<Rightarrow> bytes"
    and set_data :: "nat \<Rightarrow> bytes \<Rightarrow> 's \<Rightarrow> 's"
    and inv :: "'s \<Rightarrow> bool"
    and frame_of :: "'s \<Rightarrow> 's \<Rightarrow> bool"
    and buf_of :: "'s \<Rightarrow> u32 \<Rightarrow> nat option"
    and ref :: "'s \<Rightarrow> u32 \<Rightarrow> u32"
    and held :: "'s \<Rightarrow> u32 \<Rightarrow> bool"
    and cont :: "'s \<Rightarrow> u32 \<Rightarrow> bytes"
    and dsk :: "'s \<Rightarrow> u32 \<Rightarrow> bytes"
    and trace :: "'s \<Rightarrow> (u32 \<times> bytes) list"
    and nfree :: "'s \<Rightarrow> nat"
  assumes frame_refl: "frame_of s s"
    and frame_trans: "frame_of s t \<Longrightarrow> frame_of t u \<Longrightarrow> frame_of s u"
    and rd_spec: "inv s \<Longrightarrow> \<not> held s n \<Longrightarrow> ref s n \<noteq> - 1 \<Longrightarrow> (ref s n = 0 \<longrightarrow> 0 < nfree s) \<Longrightarrow>
      \<exists>b t. rd n s = Ret b t \<and> inv t \<and> frame_of s t \<and> buf_of t n = Some b
        \<and> (\<forall>m. ref s m \<noteq> 0 \<longrightarrow> buf_of t m = buf_of s m)
        \<and> ref t = (ref s)(n := ref s n + 1) \<and> held t = (held s)(n := True) \<and> cont t = cont s
        \<and> dsk t = dsk s \<and> trace t = trace s \<and> nfree t = (if ref s n = 0 then nfree s - 1 else nfree s)"
    and rd_full: "inv s \<Longrightarrow> buf_of s n = None \<Longrightarrow> nfree s = 0 \<Longrightarrow> rd n s = Panic ''bget: no buffers''"
    and clean: "inv s \<Longrightarrow> ref s n = 0 \<Longrightarrow> cont s n = dsk s n"
    and data_cont: "inv s \<Longrightarrow> buf_of s n = Some b \<Longrightarrow> ref s n \<noteq> 0 \<Longrightarrow> data s b = cont s n"
    and set_spec: "inv s \<Longrightarrow> buf_of s n = Some b \<Longrightarrow> ref s n \<noteq> 0 \<Longrightarrow> t = set_data b d s \<Longrightarrow>
      inv t \<and> frame_of s t \<and> buf_of t = buf_of s \<and> ref t = ref s \<and> held t = held s
        \<and> cont t = (cont s)(n := d) \<and> dsk t = dsk s \<and> trace t = trace s \<and> nfree t = nfree s"
    and wr_spec: "inv s \<Longrightarrow> buf_of s n = Some b \<Longrightarrow> held s n \<Longrightarrow> ref s n \<noteq> 0 \<Longrightarrow>
      \<exists>t. wr b s = Ret () t \<and> inv t \<and> frame_of s t \<and> buf_of t = buf_of s \<and> ref t = ref s \<and> held t = held s
        \<and> cont t = cont s \<and> dsk t = (dsk s)(n := cont s n) \<and> trace t = trace s @ [(n, cont s n)] \<and> nfree t = nfree s"
    and rel_spec: "inv s \<Longrightarrow> buf_of s n = Some b \<Longrightarrow> held s n \<Longrightarrow> ref s n \<noteq> 0 \<Longrightarrow>
      (ref s n = 1 \<longrightarrow> cont s n = dsk s n) \<Longrightarrow>
      \<exists>t. rel b s = Ret () t \<and> inv t \<and> frame_of s t \<and> buf_of t = buf_of s \<and> ref t = (ref s)(n := ref s n - 1)
        \<and> held t = (held s)(n := False) \<and> cont t = cont s \<and> dsk t = dsk s \<and> trace t = trace s
        \<and> nfree t = (if ref s n = 1 then nfree s + 1 else nfree s)"
    and unpin_spec: "inv s \<Longrightarrow> buf_of s n = Some b \<Longrightarrow> ref s n \<noteq> 0 \<Longrightarrow> ref s n \<noteq> 1 \<Longrightarrow>
      \<exists>t. unpin b s = Ret () t \<and> inv t \<and> frame_of s t \<and> buf_of t = buf_of s \<and> ref t = (ref s)(n := ref s n - 1)
        \<and> held t = held s \<and> cont t = cont s \<and> dsk t = dsk s \<and> trace t = trace s \<and> nfree t = nfree s"
    and pin_spec: "inv s \<Longrightarrow> buf_of s n = Some b \<Longrightarrow> ref s n \<noteq> 0 \<Longrightarrow> ref s n \<noteq> - 1 \<Longrightarrow>
      \<exists>t. pin b s = Ret () t \<and> inv t \<and> frame_of s t \<and> buf_of t = buf_of s \<and> ref t = (ref s)(n := ref s n + 1)
        \<and> held t = held s \<and> cont t = cont s \<and> dsk t = dsk s \<and> trace t = trace s \<and> nfree t = nfree s"
begin

text \<open>Read a block, change it, write it to disk and release it.\<close>

lemma rewrite_block:
  assumes "inv s" "\<not> held s n" "ref s n = 0" "0 < nfree s"
  shows "\<exists>t. kbind (rd n s) (\<lambda>b s. kbind (wr b (set_data b (f (data s b)) s)) (\<lambda>_ s. rel b s)) = Ret () t
    \<and> inv t \<and> frame_of s t \<and> ref t = ref s \<and> held t = held s \<and> nfree t = nfree s
    \<and> cont t = (cont s)(n := f (cont s n)) \<and> dsk t = (dsk s)(n := f (cont s n))
    \<and> trace t = trace s @ [(n, f (cont s n))]"
proof -
  obtain b t1 where r: "rd n s = Ret b t1" "inv t1" "frame_of s t1" "buf_of t1 n = Some b"
    "ref t1 = (ref s)(n := 1)" "held t1 = (held s)(n := True)" "cont t1 = cont s" "dsk t1 = dsk s"
    "trace t1 = trace s" "nfree t1 = nfree s - 1"
    using rd_spec [OF assms(1,2)] assms(3,4) by auto
  have d: "data t1 b = cont s n" using data_cont [OF r(2,4)] r(5,7) by simp
  define t2 where "t2 = set_data b (f (cont s n)) t1"
  have s2: "inv t2" "frame_of t1 t2" "buf_of t2 = buf_of t1" "ref t2 = ref t1" "held t2 = held t1"
    "cont t2 = (cont s)(n := f (cont s n))" "dsk t2 = dsk s" "trace t2 = trace s" "nfree t2 = nfree t1"
    using set_spec [OF r(2,4) _ t2_def] r by auto
  obtain t3 where s3: "wr b t2 = Ret () t3" "inv t3" "frame_of t2 t3" "buf_of t3 = buf_of t1" "ref t3 = ref t1"
    "held t3 = held t1" "cont t3 = (cont s)(n := f (cont s n))" "dsk t3 = (dsk s)(n := f (cont s n))"
    "trace t3 = trace s @ [(n, f (cont s n))]" "nfree t3 = nfree t1"
    using wr_spec [OF s2(1), of n b] s2 r by auto
  obtain t4 where s4: "rel b t3 = Ret () t4" "inv t4" "frame_of t3 t4" "ref t4 = (ref t1)(n := 0)"
    "held t4 = (held t1)(n := False)" "cont t4 = cont t3" "dsk t4 = dsk t3" "trace t4 = trace t3"
    "nfree t4 = nfree t1 + 1"
    using rel_spec [OF s3(2), of n b] s3 r by auto
  have "frame_of s t4" using r(3) s2(2) s3(3) s4(3) frame_trans by blast
  moreover have "ref t4 = ref s" "held t4 = held s" "nfree t4 = nfree s"
    using s4 r assms by (auto simp: fun_eq_iff)
  ultimately show ?thesis
    using r(1) s3(1) s4 s3 by (intro exI [of _ t4]) (simp add: d t2_def [symmetric])
qed

text \<open>Read two blocks, the second of them pinned or not: the common start of the copies.\<close>

lemma read_two:
  assumes "inv s" "\<not> held s x" "\<not> held s y" "x \<noteq> y" "ref s x = 0" "ref s y \<noteq> - 1" "0 < nfree s"
    "ref s y = 0 \<longrightarrow> 1 < nfree s"
  shows "\<exists>b c t1 t. rd x s = Ret b t1 \<and> rd y t1 = Ret c t \<and> inv t \<and> frame_of s t1 \<and> frame_of s t
    \<and> buf_of t x = Some b \<and> buf_of t y = Some c \<and> ref t = (ref s)(x := 1, y := ref s y + 1)
    \<and> held t = (held s)(x := True, y := True) \<and> cont t = cont s \<and> dsk t = dsk s \<and> trace t = trace s
    \<and> nfree t = (if ref s y = 0 then nfree s - 2 else nfree s - 1) \<and> data t b = cont s x \<and> data t c = cont s y"
proof -
  obtain b t1 where r: "rd x s = Ret b t1" "inv t1" "frame_of s t1" "buf_of t1 x = Some b"
    "ref t1 = (ref s)(x := 1)" "held t1 = (held s)(x := True)" "cont t1 = cont s" "dsk t1 = dsk s"
    "trace t1 = trace s" "nfree t1 = nfree s - 1"
    using rd_spec [OF assms(1,2)] assms(5,7) by auto
  have c: "\<not> held t1 y" "ref t1 y = ref s y" using r assms by auto
  obtain c t where t: "rd y t1 = Ret c t" "inv t" "frame_of t1 t" "buf_of t y = Some c"
    "\<forall>m. ref t1 m \<noteq> 0 \<longrightarrow> buf_of t m = buf_of t1 m" "ref t = (ref t1)(y := ref s y + 1)"
    "held t = (held t1)(y := True)" "cont t = cont t1" "dsk t = dsk t1"
    "trace t = trace t1" "nfree t = (if ref s y = 0 then nfree t1 - 1 else nfree t1)"
    using rd_spec [OF r(2) c(1)] c(2) assms(6-8) r(10) by auto
  have bx: "buf_of t x = Some b" using t(5) r(4,5) by simp
  have "ref s y + 1 \<noteq> 0" using assms(6) by (simp add: eq_neg_iff_add_eq_0)
  then have "data t c = cont s y" "data t b = cont s x"
    using data_cont [OF t(2,4)] data_cont [OF t(2) bx] t(6,8) r(5,7) assms(4) by auto
  moreover have "frame_of s t" using r(3) t(3) frame_trans by blast
  ultimately show ?thesis using r t bx
    by - (rule exI [of _ b], rule exI [of _ c], rule exI [of _ t1], rule exI [of _ t], simp add: numeral_2_eq_2)
qed

text \<open>Copy a pinned block \<open>y\<close> to block \<open>x\<close> on disk: one round of \<open>write_log\<close>.\<close>

lemma copy_to_log:
  assumes "inv s" "\<not> held s x" "\<not> held s y" "x \<noteq> y" "ref s x = 0" "ref s y = 1" "0 < nfree s"
  shows "\<exists>t. kbind (rd x s) (\<lambda>to s. kbind (rd y s) (\<lambda>from s.
      kbind (wr to (set_data to (data s from) s)) (\<lambda>_ s. kbind (rel from s) (\<lambda>_ s. rel to s)))) = Ret () t
    \<and> inv t \<and> frame_of s t \<and> ref t = ref s \<and> held t = held s \<and> nfree t = nfree s
    \<and> cont t = (cont s)(x := cont s y) \<and> dsk t = (dsk s)(x := cont s y) \<and> trace t = trace s @ [(x, cont s y)]"
proof -
  have y: "ref s y \<noteq> - 1" "ref s y \<noteq> 0" using assms(6) by simp_all
  obtain b c t1 t2 where r: "rd x s = Ret b t1" "rd y t1 = Ret c t2" "inv t2" "frame_of s t2"
    "buf_of t2 x = Some b" "buf_of t2 y = Some c" "ref t2 = (ref s)(x := 1, y := 2)"
    "held t2 = (held s)(x := True, y := True)" "cont t2 = cont s" "dsk t2 = dsk s" "trace t2 = trace s"
    "nfree t2 = nfree s - 1" "data t2 c = cont s y"
    using read_two [OF assms(1-5) y(1) assms(7)] y(2) assms(6) by auto
  define t3 where "t3 = set_data b (cont s y) t2"
  have s3: "inv t3" "frame_of t2 t3" "buf_of t3 = buf_of t2" "ref t3 = ref t2" "held t3 = held t2"
    "cont t3 = (cont s)(x := cont s y)" "dsk t3 = dsk s" "trace t3 = trace s" "nfree t3 = nfree t2"
    using set_spec [OF r(3,5) _ t3_def] r assms(4) by auto
  obtain t4 where s4: "wr b t3 = Ret () t4" "inv t4" "frame_of t3 t4" "buf_of t4 = buf_of t2" "ref t4 = ref t2"
    "held t4 = held t2" "cont t4 = (cont s)(x := cont s y)" "dsk t4 = (dsk s)(x := cont s y)"
    "trace t4 = trace s @ [(x, cont s y)]" "nfree t4 = nfree t2"
    using wr_spec [OF s3(1), of x b] s3 r assms(4) by auto
  obtain t5 where s5: "rel c t4 = Ret () t5" "inv t5" "frame_of t4 t5" "buf_of t5 = buf_of t2"
    "ref t5 = (ref s)(x := 1, y := 1)" "held t5 = (held s)(x := True, y := False)" "cont t5 = cont t4"
    "dsk t5 = dsk t4" "trace t5 = trace t4" "nfree t5 = nfree t2"
    using rel_spec [OF s4(2), of y c] s4 r assms(4) by auto
  obtain t6 where s6: "rel b t5 = Ret () t6" "inv t6" "frame_of t5 t6"
    "ref t6 = (ref s)(x := 0, y := 1)" "held t6 = (held s)(x := False, y := False)" "cont t6 = cont t4"
    "dsk t6 = dsk t4" "trace t6 = trace t4" "nfree t6 = nfree t2 + 1"
    using rel_spec [OF s5(2), of x b] s5 s4 r assms(4) by (auto simp: fun_upd_twist)
  have "frame_of s t6" using r(4) s3(2) s4(3) s5(3) s6(3) frame_trans by blast
  moreover have "ref t6 = ref s" "held t6 = held s" "nfree t6 = nfree s"
    using s6 r assms by (auto simp: fun_eq_iff)
  ultimately show ?thesis
    using r s4 s5(1) s6 by (intro exI [of _ t6]) (simp add: t3_def [symmetric])
qed

text \<open>Copy block \<open>x\<close> to the pinned block \<open>y\<close> and unpin it: one round of \<open>install_trans(0)\<close>.\<close>

lemma install_pinned:
  assumes "inv s" "\<not> held s x" "\<not> held s y" "x \<noteq> y" "ref s x = 0" "ref s y = 1" "0 < nfree s"
  shows "\<exists>t. kbind (rd x s) (\<lambda>lb s. kbind (rd y s) (\<lambda>db s.
      kbind (wr db (set_data db (data s lb) s)) (\<lambda>_ s. kbind (unpin db s) (\<lambda>_ s.
      kbind (rel lb s) (\<lambda>_ s. rel db s))))) = Ret () t
    \<and> inv t \<and> frame_of s t \<and> ref t = (ref s)(y := 0) \<and> held t = held s \<and> nfree t = nfree s + 1
    \<and> cont t = (cont s)(y := cont s x) \<and> dsk t = (dsk s)(y := cont s x) \<and> trace t = trace s @ [(y, cont s x)]"
proof -
  have y: "ref s y \<noteq> - 1" "ref s y \<noteq> 0" using assms(6) by simp_all
  obtain b c t1 t2 where r: "rd x s = Ret b t1" "rd y t1 = Ret c t2" "inv t2" "frame_of s t2"
    "buf_of t2 x = Some b" "buf_of t2 y = Some c" "ref t2 = (ref s)(x := 1, y := 2)"
    "held t2 = (held s)(x := True, y := True)" "cont t2 = cont s" "dsk t2 = dsk s" "trace t2 = trace s"
    "nfree t2 = nfree s - 1" "data t2 b = cont s x"
    using read_two [OF assms(1-5) y(1) assms(7)] y(2) assms(6) by auto
  define t3 where "t3 = set_data c (cont s x) t2"
  have s3: "inv t3" "frame_of t2 t3" "buf_of t3 = buf_of t2" "ref t3 = ref t2" "held t3 = held t2"
    "cont t3 = (cont s)(y := cont s x)" "dsk t3 = dsk s" "trace t3 = trace s" "nfree t3 = nfree t2"
    using set_spec [OF r(3,6) _ t3_def] r assms(4) by auto
  obtain t4 where s4: "wr c t3 = Ret () t4" "inv t4" "frame_of t3 t4" "buf_of t4 = buf_of t2" "ref t4 = ref t2"
    "held t4 = held t2" "cont t4 = (cont s)(y := cont s x)" "dsk t4 = (dsk s)(y := cont s x)"
    "trace t4 = trace s @ [(y, cont s x)]" "nfree t4 = nfree t2"
    using wr_spec [OF s3(1), of y c] s3 r assms(4) by auto
  obtain t5 where s5: "unpin c t4 = Ret () t5" "inv t5" "frame_of t4 t5" "buf_of t5 = buf_of t2"
    "ref t5 = (ref s)(x := 1, y := 1)" "held t5 = (held s)(x := True, y := True)" "cont t5 = cont t4"
    "dsk t5 = dsk t4" "trace t5 = trace t4" "nfree t5 = nfree t2"
    using unpin_spec [OF s4(2), of y c] s4 r assms(4) by auto
  have "cont t5 x = dsk t5 x" using clean [OF assms(1,5)] s5 s4 assms(4) by simp
  then obtain t6 where s6: "rel b t5 = Ret () t6" "inv t6" "frame_of t5 t6" "buf_of t6 = buf_of t2"
    "ref t6 = (ref s)(x := 0, y := 1)" "held t6 = (held s)(x := False, y := True)" "cont t6 = cont t4"
    "dsk t6 = dsk t4" "trace t6 = trace t4" "nfree t6 = nfree t2 + 1"
    using rel_spec [OF s5(2), of x b] s5 s4 r assms(4) by (auto simp: fun_upd_twist)
  obtain t7 where s7: "rel c t6 = Ret () t7" "inv t7" "frame_of t6 t7"
    "ref t7 = (ref s)(x := 0, y := 0)" "held t7 = (held s)(x := False, y := False)" "cont t7 = cont t4"
    "dsk t7 = dsk t4" "trace t7 = trace t4" "nfree t7 = nfree t2 + 2"
    using rel_spec [OF s6(2), of y c] s6 s4 r assms(4) by auto
  have "frame_of s t7" using r(4) s3(2) s4(3) s5(3) s6(3) s7(3) frame_trans by blast
  moreover have "ref t7 = (ref s)(y := 0)" "held t7 = held s" "nfree t7 = nfree s + 1"
    using s7 r assms by (auto simp: fun_eq_iff)
  ultimately show ?thesis
    using r s4 s5(1) s6(1) s7 by (intro exI [of _ t7]) (simp add: t3_def [symmetric])
qed

text \<open>Copy block \<open>x\<close> to block \<open>y\<close> and its home: one round of \<open>install_trans(1)\<close>.\<close>

lemma install_recover:
  assumes "inv s" "\<not> held s x" "\<not> held s y" "x \<noteq> y" "ref s x = 0" "ref s y = 0" "1 < nfree s"
  shows "\<exists>t. kbind (rd x s) (\<lambda>lb s. kbind (rd y s) (\<lambda>db s.
      kbind (wr db (set_data db (data s lb) s)) (\<lambda>_ s. kbind (rel lb s) (\<lambda>_ s. rel db s)))) = Ret () t
    \<and> inv t \<and> frame_of s t \<and> ref t = ref s \<and> held t = held s \<and> nfree t = nfree s
    \<and> cont t = (cont s)(y := cont s x) \<and> dsk t = (dsk s)(y := cont s x) \<and> trace t = trace s @ [(y, cont s x)]"
proof -
  have y: "ref s y \<noteq> - 1" "0 < nfree s" using assms(6,7) by simp_all
  obtain b c t1 t2 where r: "rd x s = Ret b t1" "rd y t1 = Ret c t2" "inv t2" "frame_of s t2"
    "buf_of t2 x = Some b" "buf_of t2 y = Some c" "ref t2 = (ref s)(x := 1, y := 1)"
    "held t2 = (held s)(x := True, y := True)" "cont t2 = cont s" "dsk t2 = dsk s" "trace t2 = trace s"
    "nfree t2 = nfree s - 2" "data t2 b = cont s x"
    using read_two [OF assms(1-5) y] assms(6,7) by auto
  define t3 where "t3 = set_data c (cont s x) t2"
  have s3: "inv t3" "frame_of t2 t3" "buf_of t3 = buf_of t2" "ref t3 = ref t2" "held t3 = held t2"
    "cont t3 = (cont s)(y := cont s x)" "dsk t3 = dsk s" "trace t3 = trace s" "nfree t3 = nfree t2"
    using set_spec [OF r(3,6) _ t3_def] r assms(4) by auto
  obtain t4 where s4: "wr c t3 = Ret () t4" "inv t4" "frame_of t3 t4" "buf_of t4 = buf_of t2" "ref t4 = ref t2"
    "held t4 = held t2" "cont t4 = (cont s)(y := cont s x)" "dsk t4 = (dsk s)(y := cont s x)"
    "trace t4 = trace s @ [(y, cont s x)]" "nfree t4 = nfree t2"
    using wr_spec [OF s3(1), of y c] s3 r assms(4) by auto
  have "cont t4 x = dsk t4 x" using clean [OF assms(1,5)] s4 assms(4) by simp
  then obtain t6 where s6: "rel b t4 = Ret () t6" "inv t6" "frame_of t4 t6" "buf_of t6 = buf_of t2"
    "ref t6 = (ref s)(x := 0, y := 1)" "held t6 = (held s)(x := False, y := True)" "cont t6 = cont t4"
    "dsk t6 = dsk t4" "trace t6 = trace t4" "nfree t6 = nfree t2 + 1"
    using rel_spec [OF s4(2), of x b] s4 r assms(4) by (auto simp: fun_upd_twist)
  obtain t7 where s7: "rel c t6 = Ret () t7" "inv t7" "frame_of t6 t7"
    "ref t7 = (ref s)(x := 0, y := 0)" "held t7 = (held s)(x := False, y := False)" "cont t7 = cont t4"
    "dsk t7 = dsk t4" "trace t7 = trace t4" "nfree t7 = nfree t2 + 2"
    using rel_spec [OF s6(2), of y c] s6 s4 r assms(4) by auto
  have "frame_of s t7" using r(4) s3(2) s4(3) s6(3) s7(3) frame_trans by blast
  moreover have "ref t7 = ref s" "held t7 = held s" "nfree t7 = nfree s"
    using s7 r assms by (auto simp: fun_eq_iff)
  ultimately show ?thesis
    using r s4 s6(1) s7 by (intro exI [of _ t7]) (simp add: t3_def [symmetric])
qed

end

section \<open>bio.c meets the contract\<close>

definition bc_inv :: "'z kbio_scheme \<Rightarrow> bool" where
  "bc_inv s \<longleftrightarrow> bio_inv s \<and> (\<forall>b<NBUF. refcnt (bufs s b) \<noteq> 0 \<longrightarrow> valid (bufs s b))
     \<and> (\<forall>b<NBUF. blocked s b \<longrightarrow> sl_pid (slocks s (BufSL b)) = cur_pid s)"

definition bc_ref :: "'z kbio_scheme \<Rightarrow> u32 \<Rightarrow> u32" where
  "bc_ref s n = (case cached s ROOTDEV n of Some b \<Rightarrow> refcnt (bufs s b) | None \<Rightarrow> 0)"

definition bc_held :: "'z kbio_scheme \<Rightarrow> u32 \<Rightarrow> bool" where
  "bc_held s n = (case cached s ROOTDEV n of Some b \<Rightarrow> blocked s b | None \<Rightarrow> False)"

definition bc_free :: "'z kbio_scheme \<Rightarrow> nat" where
  "bc_free s = card {b. b < NBUF \<and> refcnt (bufs s b) = 0}"

definition set_bdata :: "nat \<Rightarrow> bytes \<Rightarrow> 'z kbio_scheme \<Rightarrow> 'z kbio_scheme" where
  "set_bdata b d s = upd_buf b (\<lambda>x. x\<lparr>bdata := d\<rparr>) s"

lemma ROOTDEV_nz [simp]: "ROOTDEV \<noteq> 0"
  by (simp add: ROOTDEV_def)

lemma bc_inv_ok: "bc_inv s \<Longrightarrow> bufs_ok (bview s) (disk s)"
  by (simp add: bc_inv_def bio_inv_def)

lemma cached_valid_dev: "bc_inv s \<Longrightarrow> b < NBUF \<Longrightarrow> refcnt (bufs s b) \<noteq> 0 \<Longrightarrow> bdev (bufs s b) = ROOTDEV"
  using bc_inv_ok [of s] by (auto simp: bc_inv_def bufs_ok_def)

lemma sl_held_blocked: "quiet s \<Longrightarrow> sl_held (BufSL b) s \<longleftrightarrow> blocked s b \<and> sl_pid (slocks s (BufSL b)) = cur_pid s"
  by (auto simp: sl_held_def blocked_def cur_pid_def quiet_def split: option.splits)

lemma card_change:
  assumes "b < NBUF" "\<And>x. x \<noteq> b \<Longrightarrow> g x = f x"
  shows "card {x. x < NBUF \<and> g x = (0 :: u32)} + (if f b = 0 then 1 else 0) =
    card {x. x < NBUF \<and> f x = 0} + (if g b = 0 then 1 else 0)"
proof -
  let ?S = "{x. x < NBUF \<and> x \<noteq> b \<and> f x = 0}"
  have c: "card {x. x < NBUF \<and> h x = (0 :: u32)} = card ?S + (if h b = 0 then 1 else 0)"
    if "\<And>x. x \<noteq> b \<Longrightarrow> h x = f x" for h
  proof (cases "h b = 0")
    case True
    then have "{x. x < NBUF \<and> h x = 0} = insert b ?S" using that assms(1) by auto
    then show ?thesis using True by simp
  next
    case False
    have "h x = 0 \<longleftrightarrow> x \<noteq> b \<and> f x = 0" for x using that [of x] False by (cases "x = b") auto
    then have "{x. x < NBUF \<and> h x = 0} = ?S" by auto
    then show ?thesis using False by simp
  qed
  show ?thesis using c [of g] c [of f] assms(2) by simp
qed

text \<open>Changing reference counts and data of one buffer does not move blocks between buffers.\<close>

lemma cached_same:
  assumes "\<And>b. b < NBUF \<Longrightarrow> bdev (W b) = bdev (V b) \<and> blockno (W b) = blockno (V b)"
  shows "cached_in W dev n = cached_in V dev n"
  unfolding cached_in_def using assms by (intro find_cong) auto

lemma bc_rd_spec:
  assumes "bc_inv s" "\<not> bc_held s n" "bc_ref s n \<noteq> - 1" "bc_ref s n = 0 \<longrightarrow> 0 < bc_free s"
  shows "\<exists>b t. bread ROOTDEV n s = Ret b t \<and> bc_inv t \<and> bframe s t \<and> cached t ROOTDEV n = Some b
        \<and> (\<forall>m. bc_ref s m \<noteq> 0 \<longrightarrow> cached t ROOTDEV m = cached s ROOTDEV m)
        \<and> bc_ref t = (bc_ref s)(n := bc_ref s n + 1) \<and> bc_held t = (bc_held s)(n := True)
        \<and> content t ROOTDEV = content s ROOTDEV
        \<and> disk t = disk s \<and> writes t = writes s \<and> bc_free t = (if bc_ref s n = 0 then bc_free s - 1 else bc_free s)"
proof -
  let ?V = "bview s" and ?d = "disk s"
  have inv: "bio_inv s" and ok: "bufs_ok ?V ?d" using assms(1) bc_inv_ok by (auto simp: bc_inv_def)
  have pre: "case cached s ROOTDEV n of Some b \<Rightarrow> \<not> blocked s b \<and> refcnt (bufs s b) \<noteq> - 1
      | None \<Rightarrow> \<exists>b<NBUF. refcnt (bufs s b) = 0"
  proof (cases "cached s ROOTDEV n")
    case None
    then have "0 < card {b. b < NBUF \<and> refcnt (bufs s b) = 0}" using assms(4) by (simp add: bc_ref_def bc_free_def)
    then have "{b. b < NBUF \<and> refcnt (bufs s b) = 0} \<noteq> {}" by (simp add: card_gt_0_iff)
    then show ?thesis using None by auto
  qed (use assms(2,3) in \<open>auto simp: bc_held_def bc_ref_def\<close>)
  obtain b t where r: "bread ROOTDEV n s = Ret b t" "bio_inv t" "bframe s t" "b < NBUF"
    "case cached s ROOTDEV n of Some c \<Rightarrow> b = c | None \<Rightarrow> refcnt (bufs s b) = 0" "\<not> blocked s b"
    and v: "bview t = ?V(b := read_view ?V ?d ROOTDEV n b)"
    and o: "disk t = disk s" "writes t = writes s" "slocks t = lock_sl b s" "procs t = procs s"
    using bread_spec [OF inv refl pre] by blast
  have cs: "case cached s ROOTDEV n of Some c \<Rightarrow> b = c | None \<Rightarrow> refcnt (?V b) = 0"
    using r(5) by (simp split: option.splits)
  have rc: "refcnt (?V b) \<noteq> - 1" using pre r(5) by (auto split: option.splits)
  note bcn = bread_content [OF ok refl r(4) cs rc]
  have cn: "cached t ROOTDEV n = Some b" unfolding v by (rule bread_content(2) [OF ok refl r(4) cs rc ROOTDEV_nz])
  have fld: "refcnt (bufs t x) = (if x = b then (if cached s ROOTDEV n = None then 1 else refcnt (bufs s b) + 1)
      else refcnt (bufs s x))"
    "valid (bufs t x) = (x = b \<or> valid (bufs s x))" 
    "bdev (bufs t x) = (if x = b then ROOTDEV else bdev (bufs s x))"
    "blockno (bufs t x) = (if x = b then n else blockno (bufs s x))" for x
    using arg_cong [OF fun_cong [OF v, of x], of refcnt] arg_cong [OF fun_cong [OF v, of x], of valid]
      arg_cong [OF fun_cong [OF v, of x], of bdev] arg_cong [OF fun_cong [OF v, of x], of blockno]
    by (auto simp: read_view_def)
  have okt: "bufs_ok (bview t) (disk t)" using r(2) by (simp add: bio_inv_def)
  have refb: "refcnt (bufs t b) = bc_ref s n + 1"
    using r(5) by (auto simp: fld(1) bc_ref_def split: option.splits)
  have same: "cached t ROOTDEV m = Some x \<longleftrightarrow> cached s ROOTDEV m = Some x" if "x \<noteq> b" for m x
  proof
    assume "cached t ROOTDEV m = Some x"
    from cached_Some [OF this] that show "cached s ROOTDEV m = Some x"
      by (intro cachedI [OF ok]) (simp_all add: fld)
  next
    assume "cached s ROOTDEV m = Some x"
    from cached_Some [OF this] that show "cached t ROOTDEV m = Some x"
      by (intro cachedI [OF okt]) (simp_all add: fld)
  qed
  have tb: "cached t ROOTDEV m = Some b \<longleftrightarrow> m = n" for m
    using cn cached_Some [of "bview t" ROOTDEV m b] by (auto simp: fld)
  have sb: "m = n \<or> refcnt (bufs s b) = 0" if "cached s ROOTDEV m = Some b" for m
    using cached_Some [OF that] r(5) cachedI [OF ok, of ROOTDEV b n] by (auto split: option.splits dest: cached_Some)
  have ref: "bc_ref t = (bc_ref s)(n := bc_ref s n + 1)"
  proof
    fix m
    show "bc_ref t m = ((bc_ref s)(n := bc_ref s n + 1)) m"
    proof (cases "m = n")
      case True
      then show ?thesis using cn refb by (simp add: bc_ref_def)
    next
      case False
      show ?thesis
      proof (cases "cached t ROOTDEV m")
        case None
        then have "cached s ROOTDEV m = None \<or> cached s ROOTDEV m = Some b"
          using same [of _ m] by (cases "cached s ROOTDEV m") auto
        then show ?thesis using False None sb [of m] by (auto simp: bc_ref_def)
      next
        case (Some x)
        then have "x \<noteq> b" using tb False by auto
        then show ?thesis using same [of x m] Some False by (simp add: bc_ref_def fld)
      qed
    qed
  qed
  have keep: "cached t ROOTDEV m = cached s ROOTDEV m" if nz: "bc_ref s m \<noteq> 0" for m
  proof -
    obtain x where x: "cached s ROOTDEV m = Some x" "refcnt (bufs s x) \<noteq> 0"
      using nz by (cases "cached s ROOTDEV m") (auto simp: bc_ref_def)
    then show ?thesis using same [of x m] sb [of m] cn by (cases "x = b") auto
  qed
  have blk: "blocked t x = (x = b \<or> blocked s x)" for x by (simp add: blocked_def o lock_sl_def)
  have held: "bc_held t = (bc_held s)(n := True)"
  proof
    fix m
    show "bc_held t m = ((bc_held s)(n := True)) m"
    proof (cases "m = n")
      case True
      then show ?thesis using cn blk by (simp add: bc_held_def)
    next
      case False
      show ?thesis
      proof (cases "cached t ROOTDEV m")
        case None
        then have "cached s ROOTDEV m = None \<or> cached s ROOTDEV m = Some b"
          using same [of _ m] by (cases "cached s ROOTDEV m") auto
        then show ?thesis using False None r(6) by (auto simp: bc_held_def)
      next
        case (Some x)
        then have "x \<noteq> b" using tb False by auto
        then show ?thesis using same [of x m] Some False by (simp add: bc_held_def blk)
      qed
    qed
  qed
  have "content t ROOTDEV = content s ROOTDEV"
    unfolding v o by (rule ext) (rule bcn(1), simp)
  moreover have "bc_free t = (if bc_ref s n = 0 then bc_free s - 1 else bc_free s)"
  proof -
    have "refcnt (bufs t b) \<noteq> 0" using refb assms(3) by (simp add: eq_neg_iff_add_eq_0)
    moreover have "refcnt (bufs s b) = 0 \<longleftrightarrow> bc_ref s n = 0"
      using r(5) by (auto simp: bc_ref_def split: option.splits)
    moreover have "bc_free t + (if refcnt (bufs s b) = 0 then 1 else 0) =
        bc_free s + (if refcnt (bufs t b) = 0 then 1 else 0)"
      unfolding bc_free_def by (rule card_change [OF r(4)]) (simp add: fld(1))
    ultimately show ?thesis by (simp split: if_splits)
  qed
  moreover have "bc_inv t"
    using assms(1) r(2) bframe_same(3) [OF r(3)] unfolding bc_inv_def
    by (auto simp: fld blk o lock_sl_def)
  ultimately show ?thesis using r(1,3) cn keep ref held o(1,2)
    by - (rule exI [of _ b], rule exI [of _ t], simp)
qed

lemma bc_buffer:
  assumes "bc_inv s" "cached s ROOTDEV n = Some b" "bc_ref s n \<noteq> 0"
  shows "b < NBUF" "blockno (bufs s b) = n" "bdev (bufs s b) = ROOTDEV" "refcnt (bufs s b) = bc_ref s n"
    "valid (bufs s b)" "content s ROOTDEV n = bdata (bufs s b)"
  using cached_Some [OF assms(2)] assms by (auto simp: bc_ref_def bc_inv_def content_in_def)

text \<open>A step that only changes the reference count and the data of the buffer of block \<open>n\<close>.\<close>

lemma bc_step:
  assumes inv: "bc_inv s" and b: "cached s ROOTDEV n = Some b" "bc_ref s n \<noteq> 0"
    and t: "bio_inv t" "cur_pid t = cur_pid s"
      "bview t = (bview s)(b := (bview s b)\<lparr>refcnt := r, bdata := d\<rparr>)"
    and l: "\<And>x. x \<noteq> b \<Longrightarrow> slocks t (BufSL x) = slocks s (BufSL x)"
      "blocked t b \<Longrightarrow> sl_pid (slocks t (BufSL b)) = cur_pid s"
    and dsk: "\<And>x. x \<noteq> n \<Longrightarrow> disk t x = disk s x"
  shows "bc_inv t \<and> cached t ROOTDEV = cached s ROOTDEV \<and> bc_ref t = (bc_ref s)(n := r)
    \<and> bc_held t = (bc_held s)(n := blocked t b) \<and> content t ROOTDEV = (content s ROOTDEV)(n := d)
    \<and> bc_free t + (if bc_ref s n = 0 then 1 else 0) = bc_free s + (if r = 0 then 1 else 0)"
proof -
  note bb = bc_buffer [OF inv b]
  have fld: "refcnt (bufs t x) = (if x = b then r else refcnt (bufs s x))"
    "valid (bufs t x) = valid (bufs s x)" "bdev (bufs t x) = bdev (bufs s x)"
    "blockno (bufs t x) = blockno (bufs s x)" "bdata (bufs t x) = (if x = b then d else bdata (bufs s x))" for x
    using arg_cong [OF fun_cong [OF t(3), of x], of refcnt] arg_cong [OF fun_cong [OF t(3), of x], of valid]
      arg_cong [OF fun_cong [OF t(3), of x], of bdev] arg_cong [OF fun_cong [OF t(3), of x], of blockno]
      arg_cong [OF fun_cong [OF t(3), of x], of bdata]
    by auto
  have ca: "cached t ROOTDEV m = cached s ROOTDEV m" for m by (rule cached_same) (simp add: fld)
  have tb: "x = b \<longleftrightarrow> m = n" if "cached s ROOTDEV m = Some x" for m x
  proof
    assume "x = b"
    then show "m = n" using cached_Some [OF that] bb(2) by simp
  next
    assume "m = n"
    then show "x = b" using that b(1) by simp
  qed
  have blk: "x \<noteq> b \<Longrightarrow> blocked t x = blocked s x" for x by (simp add: blocked_def l)
  have all: "bc_ref t m = ((bc_ref s)(n := r)) m \<and> bc_held t m = ((bc_held s)(n := blocked t b)) m
      \<and> content t ROOTDEV m = ((content s ROOTDEV)(n := d)) m" for m
  proof (cases "m = n")
    case True
    then show ?thesis using b(1) bb(5) by (simp add: bc_ref_def bc_held_def content_in_def ca fld)
  next
    case False
    show ?thesis
    proof (cases "cached s ROOTDEV m")
      case None
      then show ?thesis using False dsk by (simp add: bc_ref_def bc_held_def content_in_def ca)
    next
      case (Some x)
      then have "x \<noteq> b" using tb False by blast
      then show ?thesis
        using False Some blk dsk by (simp add: bc_ref_def bc_held_def content_in_def ca fld)
    qed
  qed
  moreover have "bc_inv t"
    unfolding bc_inv_def
  proof (intro conjI allI impI)
    show "bio_inv t" by (fact t(1))
    fix x assume x: "x < NBUF"
    show "refcnt (bufs t x) \<noteq> 0 \<Longrightarrow> valid (bufs t x)"
      using inv x bb(5) by (cases "x = b") (auto simp: fld bc_inv_def)
    show "blocked t x \<Longrightarrow> sl_pid (slocks t (BufSL x)) = cur_pid t"
      using inv x l(2) blk [of x] by (cases "x = b") (auto simp: t(2) bc_inv_def l(1))
  qed
  moreover have "bc_free t + (if bc_ref s n = 0 then 1 else 0) = bc_free s + (if r = 0 then 1 else 0)"
  proof -
    have "bc_free t + (if refcnt (bufs s b) = 0 then 1 else 0) =
        bc_free s + (if refcnt (bufs t b) = 0 then 1 else 0)"
      unfolding bc_free_def by (rule card_change [OF bb(1)]) (simp add: fld(1))
    then show ?thesis by (simp add: fld(1) bb(4))
  qed
  ultimately show ?thesis using ca all by (simp add: fun_eq_iff)
qed

interpretation bc: block_cache "bread ROOTDEV" bwrite brelse bunpin bpin "\<lambda>s b. bdata (bufs s b)" set_bdata
  bc_inv bframe "\<lambda>s. cached s ROOTDEV" bc_ref bc_held "\<lambda>s. content s ROOTDEV" disk writes bc_free
proof
  fix s t u :: "'z kbio_scheme"
  show "bframe s s" by simp
  show "bframe s t \<Longrightarrow> bframe t u \<Longrightarrow> bframe s u" by (rule bframe_trans)
next
  fix s :: "'z kbio_scheme" and n
  assume "bc_inv s" "\<not> bc_held s n" "bc_ref s n \<noteq> - 1" "bc_ref s n = 0 \<longrightarrow> 0 < bc_free s"
  then show "\<exists>b t. bread ROOTDEV n s = Ret b t \<and> bc_inv t \<and> bframe s t \<and> cached t ROOTDEV n = Some b
        \<and> (\<forall>m. bc_ref s m \<noteq> 0 \<longrightarrow> cached t ROOTDEV m = cached s ROOTDEV m)
        \<and> bc_ref t = (bc_ref s)(n := bc_ref s n + 1) \<and> bc_held t = (bc_held s)(n := True)
        \<and> content t ROOTDEV = content s ROOTDEV
        \<and> disk t = disk s \<and> writes t = writes s \<and> bc_free t = (if bc_ref s n = 0 then bc_free s - 1 else bc_free s)"
    by (rule bc_rd_spec)
next
  fix s :: "'z kbio_scheme" and n
  assume a: "bc_inv s" "cached s ROOTDEV n = None" "bc_free s = 0"
  then have i: "bio_inv s" by (simp add: bc_inv_def)
  then have q: "cpu_ok s" "lk_free BcacheLock s" by (auto simp: bio_inv_def quiet_def)
  obtain xs where xs: "blist (bufs s) xs" using i by (auto simp: bio_inv_def)
  have "finite {b. b < NBUF \<and> refcnt (bufs s b) = 0}" by simp
  then have "\<not> (b < NBUF \<and> refcnt (bufs s b) = 0)" for b using a(3) by (auto simp: bc_free_def)
  then have "find (\<lambda>b. refcnt (bufs s b) = 0) (rev xs) = None"
    using xs by (auto simp: find_None_iff blist_def)
  moreover have "find (\<lambda>b. bdev (bufs s b) = ROOTDEV \<and> blockno (bufs s b) = n) xs = None"
    using cached_search [OF i ROOTDEV_nz xs] a(2) by simp
  moreover have "blist (bufs (taken BcacheLock s)) xs" using xs by simp
  ultimately have "bget ROOTDEV n s = Panic ''bget: no buffers''"
    using bget_search [of "taken BcacheLock s" xs] by (simp add: bget_def acquire_free [OF q])
  then show "bread ROOTDEV n s = Panic ''bget: no buffers''" by (simp add: bread_def)
next
  fix s :: "'z kbio_scheme" and n
  assume a: "bc_inv s" "bc_ref s n = 0"
  show "content s ROOTDEV n = disk s n"
  proof (cases "cached s ROOTDEV n")
    case (Some b)
    then show ?thesis using a cached_Some [OF Some] bc_inv_ok [OF a(1)]
      by (auto simp: content_in_def bc_ref_def bufs_ok_def)
  qed (simp add: content_in_def)
next
  fix s :: "'z kbio_scheme" and n b
  assume "bc_inv s" "cached s ROOTDEV n = Some b" "bc_ref s n \<noteq> 0"
  then show "bdata (bufs s b) = content s ROOTDEV n" using bc_buffer(6) by metis
next
  fix s t :: "'z kbio_scheme" and n b d
  assume a: "bc_inv s" "cached s ROOTDEV n = Some b" "bc_ref s n \<noteq> 0" and t: "t = set_bdata b d s"
  note bb = bc_buffer [OF a]
  have te: "t = s\<lparr>bufs := (bufs s)(b := (bufs s b)\<lparr>bdata := d\<rparr>)\<rparr>"
    by (simp add: t set_bdata_def upd_buf_def set_buf_def)
  have "bio_inv t \<and> bframe s t \<and> bview t = (bview s)(b := (bview s b)\<lparr>refcnt := bc_ref s n, bdata := d\<rparr>)"
    unfolding te using bufs_update_inv [of s b "(bufs s b)\<lparr>bdata := d\<rparr>" d] a bb by (simp add: bc_inv_def)
  moreover have "slocks t = slocks s" "disk t = disk s" "writes t = writes s" by (simp_all add: te)
  moreover from this have "blocked t b = bc_held s n" by (simp add: blocked_def bc_held_def a(2))
  ultimately show "bc_inv t \<and> bframe s t \<and> cached t ROOTDEV = cached s ROOTDEV \<and> bc_ref t = bc_ref s
        \<and> bc_held t = bc_held s \<and> content t ROOTDEV = (content s ROOTDEV)(n := d) \<and> disk t = disk s
        \<and> writes t = writes s \<and> bc_free t = bc_free s"
    using bc_step [OF a, where t = t and r = "bc_ref s n" and d = d] bframe_same(3) [of s t] a bb
    by (auto simp: bc_inv_def blocked_def)
next
  fix s :: "'z kbio_scheme" and n b
  assume a: "bc_inv s" "cached s ROOTDEV n = Some b" "bc_held s n" "bc_ref s n \<noteq> 0"
  note bb = bc_buffer [OF a(1,2,4)]
  let ?t = "s\<lparr>disk := (disk s)(blockno (bufs s b) := bdata (bufs s b)),
       writes := writes s @ [(blockno (bufs s b), bdata (bufs s b))]\<rparr>"
  have bl: "blocked s b" using a(2,3) by (simp add: bc_held_def)
  then have "sl_held (BufSL b) s" using a(1) bb(1) by (auto simp: bc_inv_def bio_inv_def sl_held_blocked)
  then have w: "bwrite b s = Ret () ?t" "bio_inv ?t" "bframe s ?t" "bview ?t = bview s"
    using bwrite_spec [of s b] a bb by (auto simp: bc_inv_def)
  then have "bview ?t = (bview s)(b := (bview s b)\<lparr>refcnt := bc_ref s n, bdata := content s ROOTDEV n\<rparr>)"
    using bb by (simp add: bview_def fun_eq_iff)
  then have "bc_inv ?t \<and> cached ?t ROOTDEV = cached s ROOTDEV \<and> bc_ref ?t = (bc_ref s)(n := bc_ref s n)
    \<and> bc_held ?t = (bc_held s)(n := blocked ?t b) \<and> content ?t ROOTDEV = (content s ROOTDEV)(n := content s ROOTDEV n)
    \<and> bc_free ?t + (if bc_ref s n = 0 then 1 else 0) = bc_free s + (if bc_ref s n = 0 then 1 else 0)"
    using a bb w bl by (intro bc_step [OF a(1,2,4)] bframe_same(3)) (auto simp: bc_inv_def blocked_def)
  moreover have "blocked ?t b" using bl by (simp add: blocked_def)
  ultimately show "\<exists>t. bwrite b s = Ret () t \<and> bc_inv t \<and> bframe s t \<and> cached t ROOTDEV = cached s ROOTDEV
        \<and> bc_ref t = bc_ref s \<and> bc_held t = bc_held s \<and> content t ROOTDEV = content s ROOTDEV
        \<and> disk t = (disk s)(n := content s ROOTDEV n) \<and> writes t = writes s @ [(n, content s ROOTDEV n)]
        \<and> bc_free t = bc_free s"
    using w bb a(3) by (intro exI [of _ ?t]) (auto simp: fun_eq_iff)
next
  fix s :: "'z kbio_scheme" and n b
  assume a: "bc_inv s" "cached s ROOTDEV n = Some b" "bc_held s n" "bc_ref s n \<noteq> 0"
    "bc_ref s n = 1 \<longrightarrow> content s ROOTDEV n = disk s n"
  note bb = bc_buffer [OF a(1,2,4)]
  have "blocked s b" using a(2,3) by (simp add: bc_held_def)
  then have "sl_held (BufSL b) s" using a(1) bb(1) by (auto simp: bc_inv_def bio_inv_def sl_held_blocked)
  then obtain t where t: "brelse b s = Ret () t" "bio_inv t" "bframe s t"
    "bview t = (bview s)(b := (bview s b)\<lparr>refcnt := bc_ref s n - 1\<rparr>)"
    "disk t = disk s" "writes t = writes s" "slocks t = unlock_sl b s"
    using brelse_spec [of s b] a bb by (auto simp: bc_inv_def)
  moreover from t(4) have "bview t = (bview s)(b := (bview s b)\<lparr>refcnt := bc_ref s n - 1, bdata := content s ROOTDEV n\<rparr>)"
    using bb by (simp add: bview_def fun_eq_iff)
  moreover have "\<not> blocked t b" using t(7) by (simp add: blocked_def unlock_sl_def)
  ultimately show "\<exists>t. brelse b s = Ret () t \<and> bc_inv t \<and> bframe s t \<and> cached t ROOTDEV = cached s ROOTDEV
        \<and> bc_ref t = (bc_ref s)(n := bc_ref s n - 1) \<and> bc_held t = (bc_held s)(n := False)
        \<and> content t ROOTDEV = content s ROOTDEV \<and> disk t = disk s \<and> writes t = writes s
        \<and> bc_free t = (if bc_ref s n = 1 then bc_free s + 1 else bc_free s)"
    using bc_step [OF a(1,2,4), where t = t and r = "bc_ref s n - 1" and d = "content s ROOTDEV n"] bframe_same(3) [OF t(3)] a(4)
    by (intro exI [of _ t]) (simp add: unlock_sl_def)
next
  fix s :: "'z kbio_scheme" and n b
  assume a: "bc_inv s" "cached s ROOTDEV n = Some b" "bc_ref s n \<noteq> 0" "bc_ref s n \<noteq> 1"
  note bb = bc_buffer [OF a(1-3)]
  obtain t where t: "bunpin b s = Ret () t" "bio_inv t" "bframe s t"
    "bview t = (bview s)(b := (bview s b)\<lparr>refcnt := bc_ref s n - 1\<rparr>)"
    "disk t = disk s" "writes t = writes s" "slocks t = slocks s"
    using bunpin_spec [of s b] a bb by (auto simp: bc_inv_def)
  moreover from t(4) have "bview t = (bview s)(b := (bview s b)\<lparr>refcnt := bc_ref s n - 1, bdata := content s ROOTDEV n\<rparr>)"
    using bb by (simp add: bview_def fun_eq_iff)
  moreover have "blocked t b = bc_held s n" using t(7) a(2) by (simp add: blocked_def bc_held_def)
  moreover have "blocked s b \<Longrightarrow> sl_pid (slocks s (BufSL b)) = cur_pid s" using a(1) bb(1) by (simp add: bc_inv_def)
  ultimately show "\<exists>t. bunpin b s = Ret () t \<and> bc_inv t \<and> bframe s t \<and> cached t ROOTDEV = cached s ROOTDEV
        \<and> bc_ref t = (bc_ref s)(n := bc_ref s n - 1) \<and> bc_held t = bc_held s
        \<and> content t ROOTDEV = content s ROOTDEV \<and> disk t = disk s \<and> writes t = writes s \<and> bc_free t = bc_free s"
    using bc_step [OF a(1-3), where t = t and r = "bc_ref s n - 1" and d = "content s ROOTDEV n"] bframe_same(3) [OF t(3)] a(3,4)
    by (intro exI [of _ t]) (simp add: blocked_def)
next
  fix s :: "'z kbio_scheme" and n b
  assume a: "bc_inv s" "cached s ROOTDEV n = Some b" "bc_ref s n \<noteq> 0" "bc_ref s n \<noteq> - 1"
  note bb = bc_buffer [OF a(1-3)]
  obtain t where t: "bpin b s = Ret () t" "bio_inv t" "bframe s t"
    "bview t = (bview s)(b := (bview s b)\<lparr>refcnt := bc_ref s n + 1\<rparr>)"
    "disk t = disk s" "writes t = writes s" "slocks t = slocks s"
    using bpin_spec [of s b] a bb by (auto simp: bc_inv_def)
  moreover from t(4) have "bview t = (bview s)(b := (bview s b)\<lparr>refcnt := bc_ref s n + 1, bdata := content s ROOTDEV n\<rparr>)"
    using bb by (simp add: bview_def fun_eq_iff)
  moreover have "blocked t b = bc_held s n" using t(7) a(2) by (simp add: blocked_def bc_held_def)
  moreover have "blocked s b \<Longrightarrow> sl_pid (slocks s (BufSL b)) = cur_pid s" using a(1) bb(1) by (simp add: bc_inv_def)
  moreover have "bc_ref s n + 1 \<noteq> 0" using a(4) by (simp add: eq_neg_iff_add_eq_0)
  ultimately show "\<exists>t. bpin b s = Ret () t \<and> bc_inv t \<and> bframe s t \<and> cached t ROOTDEV = cached s ROOTDEV
        \<and> bc_ref t = (bc_ref s)(n := bc_ref s n + 1) \<and> bc_held t = bc_held s
        \<and> content t ROOTDEV = content s ROOTDEV \<and> disk t = disk s \<and> writes t = writes s \<and> bc_free t = bc_free s"
    using bc_step [OF a(1-3), where t = t and r = "bc_ref s n + 1" and d = "content s ROOTDEV n"] bframe_same(3) [OF t(3)] a(3)
    by (intro exI [of _ t]) (simp add: blocked_def)
qed

section \<open>Boot\<close>

text \<open>The static array \<open>bcache.buf\<close> starts zeroed.\<close>

definition zero_bufs :: "'z kbio_scheme \<Rightarrow> bool" where
  "zero_bufs s \<longleftrightarrow> (\<forall>b. \<not> valid (bufs s b) \<and> bdev (bufs s b) = 0 \<and> blockno (bufs s b) = 0 \<and> refcnt (bufs s b) = 0)"

definition bvalue :: "buf \<Rightarrow> buf" where
  "bvalue x = x\<lparr>bprev := 0, bnext := 0\<rparr>"

lemma push_front_value: "bvalue (push_front b B i) = bvalue (B i)"
  by (auto simp: push_front_def bvalue_def Let_def)

text \<open>What \<open>binit\<close> keeps of the rest of the kernel: only the locks it initialises change.\<close>

definition boot_frame :: "'z kbio_scheme \<Rightarrow> 'z kbio_scheme \<Rightarrow> bool" where
  "boot_frame s t \<longleftrightarrow> cpus t = cpus s \<and> hart t = hart s \<and> sie t = sie s \<and> procs t = procs s \<and> disk t = disk s
     \<and> (\<forall>l. lk_free l s \<longrightarrow> lk_free l t)"

lemma boot_frame_trans: "boot_frame s t \<Longrightarrow> boot_frame t u \<Longrightarrow> boot_frame s u"
  by (simp add: boot_frame_def)

lemma boot_frame_quiet: "boot_frame s t \<Longrightarrow> quiet s \<Longrightarrow> quiet t"
  by (simp add: boot_frame_def quiet_def cpu_ok_def running_def)

lemma binit_step:
  assumes "dlist_of (bufs s) xs" "b \<notin> set xs" "b \<noteq> NBUF"
    "t = initsleeplock (BufSL b) ''buffer'' (s\<lparr>bufs := push_front b (bufs s)\<rparr>)"
  shows "boot_frame s t" "dlist_of (bufs t) (b # xs)" "\<And>i. bvalue (bufs t i) = bvalue (bufs s i)"
    "\<And>c. blocked s c = False \<Longrightarrow> blocked t c = False" "blocked t b = False"
proof -
  note d = assms(4) initsleeplock_def initlock_def upd_slock_def
  show "boot_frame s t" by (auto simp: d boot_frame_def lk_free_def)
  have b: "bufs t = push_front b (bufs s)" by (simp add: d)
  show "dlist_of (bufs t) (b # xs)" unfolding b by (rule push_front_list [OF assms(1-3)])
  show "\<And>i. bvalue (bufs t i) = bvalue (bufs s i)" unfolding b by (rule push_front_value)
  show "blocked s c = False \<Longrightarrow> blocked t c = False" "blocked t b = False" for c
    by (auto simp: d blocked_def)
qed

lemma binit_loop:
  assumes "dlist_of (bufs s) []" "k \<le> NBUF"
  shows "let t = fold (\<lambda>b s. initsleeplock (BufSL b) ''buffer'' (s\<lparr>bufs := push_front b (bufs s)\<rparr>)) [0..<k] s in
    boot_frame s t \<and> dlist_of (bufs t) (rev [0..<k]) \<and> (\<forall>i. bvalue (bufs t i) = bvalue (bufs s i))
    \<and> (\<forall>b<k. \<not> blocked t b)"
  using assms(2)
proof (induction k)
  case 0
  then show ?case using assms by (simp add: boot_frame_def)
next
  case (Suc k)
  let ?t = "fold (\<lambda>b s. initsleeplock (BufSL b) ''buffer'' (s\<lparr>bufs := push_front b (bufs s)\<rparr>)) [0..<k] s"
  have IH: "boot_frame s ?t" "dlist_of (bufs ?t) (rev [0..<k])" "\<forall>i. bvalue (bufs ?t i) = bvalue (bufs s i)"
    "\<forall>b<k. \<not> blocked ?t b"
    using Suc by (simp_all add: Let_def)
  have "k \<notin> set (rev [0..<k])" "k \<noteq> NBUF" using Suc.prems by simp_all
  from binit_step [OF IH(2) this refl] show ?case
    using IH(3,4) boot_frame_trans [OF IH(1)] by (auto simp: Let_def less_Suc_eq)
qed

lemma binit_facts:
  assumes "zero_bufs s"
  shows "blist (bufs (binit s)) (rev [0..<NBUF])" "boot_frame s (binit s)" "b < NBUF \<Longrightarrow> \<not> blocked (binit s) b"
    "\<not> valid (bufs (binit s) i) \<and> bdev (bufs (binit s) i) = 0 \<and> refcnt (bufs (binit s) i) = 0"
proof -
  let ?s = "upd_buf NBUF (\<lambda>x. x\<lparr>bprev := NBUF, bnext := NBUF\<rparr>) (initlock BcacheLock ''bcache'' s)"
  have d: "dlist_of (bufs ?s) []" by (simp add: dlist_of_def)
  have f: "boot_frame s ?s" by (auto simp: upd_buf_def initlock_def boot_frame_def lk_free_def)
  let ?t = "binit s"
  have t: "boot_frame ?s ?t" "dlist_of (bufs ?t) (rev [0..<NBUF])" "\<forall>i. bvalue (bufs ?t i) = bvalue (bufs ?s i)"
    "\<forall>b<NBUF. \<not> blocked ?t b"
    using binit_loop [OF d order_refl] by (simp_all add: binit_def Let_def)
  show "boot_frame s ?t" by (rule boot_frame_trans [OF f t(1)])
  show "b < NBUF \<Longrightarrow> \<not> blocked ?t b" using t(4) by blast
  show "blist (bufs ?t) (rev [0..<NBUF])" using t(2) by (auto simp: blist_def)
  have "bvalue (bufs ?s i) = bvalue (bufs s i)" by (simp add: bvalue_def initlock_def)
  with t(3) have v: "bvalue (bufs ?t i) = bvalue (bufs s i)" by simp
  have "valid (bvalue x) = valid x" "bdev (bvalue x) = bdev x" "refcnt (bvalue x) = refcnt x" for x by (simp_all add: bvalue_def)
  then show "\<not> valid (bufs ?t i) \<and> bdev (bufs ?t i) = 0 \<and> refcnt (bufs ?t i) = 0"
    using v assms unfolding zero_bufs_def by metis
qed

text \<open>Any state of a running process that has the buffers of \<open>binit\<close> satisfies the invariant.\<close>

lemma binit_later:
  assumes "zero_bufs s" "quiet t" "bufs t = bufs (binit s)" "disk t = disk s" "\<And>b. slocks t (BufSL b) = slocks (binit s) (BufSL b)"
  shows "bc_inv t \<and> bc_free t = NBUF \<and> (\<forall>n. cached t ROOTDEV n = None) \<and> content t ROOTDEV = disk s"
proof -
  note f = binit_facts [OF assms(1)]
  have bl: "\<not> blocked t b" if "b < NBUF" for b using f(3) [OF that] by (simp add: blocked_def assms(5))
  have z': "\<not> valid (bufs t i) \<and> bdev (bufs t i) = 0 \<and> refcnt (bufs t i) = 0" for i using f(4) by (simp add: assms(3))
  then have z: "\<not> valid (bview t i) \<and> bdev (bview t i) = 0 \<and> refcnt (bview t i) = 0" for i by (simp add: bview_def)
  have l: "blist (bufs t) (rev [0..<NBUF])" using f(1) by (simp add: assms(3))
  have c: "cached t ROOTDEV n = None" for n using z by (auto simp: cached_None)
  have "bufs_ok (bview t) (disk t)" unfolding bufs_ok_def using z by blast
  then have "bc_inv t" using assms(2) l bl z' by (auto simp: bc_inv_def bio_inv_def)
  moreover have "bc_free t = NBUF" by (simp add: bc_free_def z')
  moreover have "content t ROOTDEV = disk s" by (simp add: content_in_def c assms(4) fun_eq_iff)
  ultimately show ?thesis using c by blast
qed

lemma binit_inv:
  assumes "quiet s" "zero_bufs s"
  shows "blist (bufs (binit s)) (rev [0..<NBUF]) \<and> bc_inv (binit s) \<and> bc_free (binit s) = NBUF
    \<and> (\<forall>n. cached (binit s) ROOTDEV n = None) \<and> content (binit s) ROOTDEV = disk s"
proof -
  note f = binit_facts [OF assms(2)]
  show ?thesis using f(1) binit_later [OF assms(2) boot_frame_quiet [OF f(2) assms(1)] refl] f(2) by (simp add: boot_frame_def)
qed


definition demo_kbio :: kbio where
  "demo_kbio = kproc.extend demo_kproc (kbio.fields (\<lambda>_. \<lparr>valid = False, bdev = 0, blockno = 0, refcnt = 0,
     bprev = 0, bnext = 0, bdata = (\<lambda>_. 0)\<rparr>) (\<lambda>n _. ucast n) [])"

lemma demo_kbio_ok: "quiet demo_kbio" "zero_bufs demo_kbio"
  using demo_kproc_ok
  by (simp_all add: demo_kbio_def kproc.defs kbio.defs quiet_def cpu_ok_def lk_free_def running_def zero_bufs_def)



text \<open>
  C7: The cache is coherent. \<open>bread\<close> of a block that nobody has locked returns, unless it needs a
  buffer and none is free; the buffer it returns is locked by the caller and holds the block's
  current content (the last data put in its buffer while it was pinned or referenced, else what
  the disk has), no other buffer caches the block, no other block's content changes and nothing
  is written to the disk.
\<close>

theorem bread_coherent:
  assumes "bc_inv s" "\<not> bc_held s n" "bc_ref s n \<noteq> - 1" "bc_ref s n = 0 \<longrightarrow> 0 < bc_free s"
  shows "\<exists>b t. bread ROOTDEV n s = Ret b t \<and> bc_inv t \<and> bc_held t n \<and> bdata (bufs t b) = content s ROOTDEV n
    \<and> (\<forall>c<NBUF. bdev (bufs t c) = ROOTDEV \<and> blockno (bufs t c) = n \<longrightarrow> c = b)
    \<and> content t ROOTDEV = content s ROOTDEV \<and> disk t = disk s"
proof -
  obtain b t where t: "bread ROOTDEV n s = Ret b t" "bc_inv t" "cached t ROOTDEV n = Some b"
    "bc_ref t = (bc_ref s)(n := bc_ref s n + 1)" "bc_held t = (bc_held s)(n := True)"
    "content t ROOTDEV = content s ROOTDEV" "disk t = disk s"
    using bc.rd_spec [OF assms] by blast
  have "bc_ref t n \<noteq> 0" using assms(3) by (simp add: t(4) eq_neg_iff_add_eq_0)
  then have "bdata (bufs t b) = content s ROOTDEV n" using bc.data_cont [OF t(2,3)] by (simp add: t(6))
  moreover have "c = b" if "c < NBUF" "bdev (bufs t c) = ROOTDEV \<and> blockno (bufs t c) = n" for c
    using cachedI [OF bc_inv_ok [OF t(2)] ROOTDEV_nz that(1)] that(2) t(3) by simp
  ultimately show ?thesis using t by - (rule exI [of _ b], rule exI [of _ t], simp)
qed

theorem bread_coherent_witness:
  "\<exists>b t. bread ROOTDEV 7 (binit demo_kbio) = Ret b t \<and> bdata (bufs t b) = (\<lambda>_. 7)"
proof -
  let ?s = "binit demo_kbio"
  have c: "bc_inv ?s" "bc_free ?s = NBUF" "cached ?s ROOTDEV 7 = None" "content ?s ROOTDEV = disk demo_kbio"
    using binit_inv [OF demo_kbio_ok] by blast+
  then have "bc_ref ?s 7 = 0" "\<not> bc_held ?s 7" by (simp_all add: bc_ref_def bc_held_def)
  moreover have "disk demo_kbio 7 = (\<lambda>_. 7)" by (simp add: demo_kbio_def kproc.defs kbio.defs)
  ultimately show ?thesis using bread_coherent [of ?s 7] c by (auto simp: NBUF_def)
qed

end
