(* ===== verification/Crash.thy ===== *)
theory Crash
  imports Log BlockCache
begin

text \<open>
  Crash safety of the log. A crash during \<open>commit\<close> leaves the disk with some prefix of the
  writes \<open>commit\<close> does. The theory computes that sequence of writes from the code, runs the
  recovery code on the disk after every prefix of it, and shows that the result is the disk
  before the transaction or the disk after it, never a mixture.
\<close>

section \<open>Frames and congruence\<close>

lemma kbind_cong:
  "m = m' \<Longrightarrow> (\<And>a t. m' = Ret a t \<Longrightarrow> f a t = g a t) \<Longrightarrow> kbind m f = kbind m' g"
  by (cases m') auto

lemma bframe_log:
  fixes s t :: "'z klog_scheme"
  assumes "bframe s t"
  shows "log_dev t = log_dev s" "log_start t = log_start s" "lh_n t = lh_n s" "lh_block t = lh_block s"
    "log_outstanding t = log_outstanding s" "log_committing t = log_committing s"
  using assms by (auto simp: bframe_def)

lemma bframe_lh_n:
  fixes s t :: "'z klog_scheme"
  assumes "bframe s t"
  shows "bframe (s\<lparr>lh_n := k\<rparr>) (t\<lparr>lh_n := k\<rparr>)"
proof -
  obtain PR SL B D W where "t = s\<lparr>procs := PR, slocks := SL, bufs := B, disk := D, writes := W\<rparr>"
    "\<And>i. proc_same (PR i) (procs s i)" "\<And>j. SL (InodeSL j) = slocks s (InodeSL j)" using assms unfolding bframe_def by blast
  then show ?thesis by (intro bframeI [where PR = PR and SL = SL and B = B and D = D and W = W]) simp_all
qed

lemma bread_frame:
  assumes "bc_inv s" "\<not> bc_held s n" "bc_ref s n \<noteq> - 1" "bc_ref s n = 0 \<longrightarrow> 0 < bc_free s"
    "bread ROOTDEV n s = Ret b t"
  shows "bframe s t"
  using bc.rd_spec [OF assms(1-4)] assms(5) by auto

lemma bc_log_upd [simp]:
  fixes s :: "'z klog_scheme"
  shows "bc_inv (s\<lparr>lh_n := k\<rparr>) = bc_inv s" "bc_inv (s\<lparr>lh_block := f\<rparr>) = bc_inv s"
    "bc_ref (s\<lparr>lh_n := k\<rparr>) = bc_ref s" "bc_ref (s\<lparr>lh_block := f\<rparr>) = bc_ref s"
    "bc_held (s\<lparr>lh_n := k\<rparr>) = bc_held s" "bc_held (s\<lparr>lh_block := f\<rparr>) = bc_held s"
    "bc_free (s\<lparr>lh_n := k\<rparr>) = bc_free s" "bc_free (s\<lparr>lh_block := f\<rparr>) = bc_free s"
    "bview (s\<lparr>lh_n := k\<rparr>) = bview s" "bview (s\<lparr>lh_block := f\<rparr>) = bview s"
proof -
  show v: "bview (s\<lparr>lh_n := k\<rparr>) = bview s" "bview (s\<lparr>lh_block := f\<rparr>) = bview s"
    by (simp_all add: bview_def fun_eq_iff)
  show "bc_ref (s\<lparr>lh_n := k\<rparr>) = bc_ref s" "bc_ref (s\<lparr>lh_block := f\<rparr>) = bc_ref s"
    "bc_free (s\<lparr>lh_n := k\<rparr>) = bc_free s" "bc_free (s\<lparr>lh_block := f\<rparr>) = bc_free s"
    by (simp_all add: bc_ref_def bc_free_def v fun_eq_iff cong: option.case_cong)
  show "bc_held (s\<lparr>lh_n := k\<rparr>) = bc_held s" "bc_held (s\<lparr>lh_block := f\<rparr>) = bc_held s"
    by (simp_all add: bc_held_def v fun_eq_iff blocked_def cong: option.case_cong)
  show "bc_inv (s\<lparr>lh_n := k\<rparr>) = bc_inv s" "bc_inv (s\<lparr>lh_block := f\<rparr>) = bc_inv s"
    by (simp_all add: bc_inv_def bio_inv_def v quiet_def cpu_ok_def lk_free_def running_def cur_pid_def blocked_def
        cong: option.case_cong)
qed

section \<open>The header block\<close>

lemma get32_head_fold:
  assumes "\<And>i. i \<in> set is \<Longrightarrow> off \<noteq> 4 + 4 * i" "off mod 4 = 0"
  shows "get32 (fold (\<lambda>i d. put32 d (4 + 4 * i) (blk i)) is d) off = get32 d off"
  using assms
proof (induction "is" arbitrary: d)
  case (Cons i "is")
  have "off + 4 \<le> 4 + 4 * i \<or> 4 + 4 * i + 4 \<le> off"
    using Cons.prems(1) [of i] Cons.prems(2) by simp presburger
  then show ?case using Cons by (simp add: getput_other)
qed simp

lemma get32_head_n: "get32 (head_bytes n blk d) 0 = word_of_int n"
  unfolding head_bytes_def by (subst get32_head_fold) auto

lemma get32_head_block:
  assumes "i < nat n"
  shows "get32 (head_bytes n blk d) (4 + 4 * i) = blk i"
proof -
  have "[0..<nat n] = [0..<i] @ i # [Suc i..<nat n]"
    using upt_add_eq_append [of 0 i "nat n - i"] upt_conv_Cons [OF assms] assms by simp
  moreover have m: "(4 + 4 * i) mod 4 = 0" by presburger
  ultimately show ?thesis
    unfolding head_bytes_def by (simp only: fold_append fold_simps o_apply) (subst get32_head_fold, auto simp: m)
qed

section \<open>Pure description of the writes\<close>

abbreviation lblk :: "'z klog_scheme \<Rightarrow> nat \<Rightarrow> u32" where
  "lblk s i \<equiv> log_start s + of_nat i + 1"

definition apply_writes :: "(u32 \<times> bytes) list \<Rightarrow> (u32 \<Rightarrow> bytes) \<Rightarrow> u32 \<Rightarrow> bytes" where
  "apply_writes ws d = fold (\<lambda>(b, x) d. d(b := x)) ws d"

lemma apply_writes_simps [simp]:
  "apply_writes [] d = d" "apply_writes (w # ws) d = apply_writes ws (d(fst w := snd w))"
  "apply_writes (ws @ vs) d = apply_writes vs (apply_writes ws d)"
  by (simp_all add: apply_writes_def split: prod.splits)

lemma apply_writes_out: "x \<notin> fst ` set ws \<Longrightarrow> apply_writes ws d x = d x"
  by (induction ws arbitrary: d) auto

lemma apply_writes_in:
  "i \<in> set is \<Longrightarrow> inj_on f (set is) \<Longrightarrow> apply_writes (map (\<lambda>i. (f i, g i)) is) d (f i) = g i"
proof (induction "is" arbitrary: d rule: rev_induct)
  case (snoc j "is")
  show ?case
  proof (cases "j = i")
    case False
    then have "i \<in> set is" using snoc.prems(1) by auto
    moreover have "f i \<noteq> f j" using inj_onD [OF snoc.prems(2), of i j] snoc.prems(1) False by auto
    ultimately show ?thesis using snoc by simp
  qed simp
qed simp

section \<open>The loops of commit\<close>

text \<open>The state \<open>commit\<close> runs in: the logged blocks and only they are pinned, once each.\<close>

definition commit_ready :: "'z klog_scheme \<Rightarrow> bool" where
  "commit_ready s \<longleftrightarrow> bc_inv s \<and> log_dev s = ROOTDEV \<and> 0 < lh_n s \<and> lh_n s \<le> LOGBLOCKS \<and> (\<forall>x. \<not> bc_held s x)
     \<and> distinct (map (lh_block s) [0..<nat (lh_n s)])
     \<and> (\<forall>x. bc_ref s x = (if x \<in> lh_block s ` {0..<nat (lh_n s)} then 1 else 0))
     \<and> (\<forall>i<nat (lh_n s). \<forall>j\<le>30. lh_block s i \<noteq> log_start s + of_nat j) \<and> 0 < bc_free s"

definition same_log :: "'z klog_scheme \<Rightarrow> 'z klog_scheme \<Rightarrow> bool" where
  "same_log s t \<longleftrightarrow> bc_inv t \<and> bframe s t \<and> bc_held t = bc_held s"

lemma lblk_inj: "i < 30 \<Longrightarrow> j < 30 \<Longrightarrow> lblk s i = lblk s j \<Longrightarrow> i = j"
proof -
  assume "i < 30" "j < 30" "lblk s i = lblk s j"
  then have "(of_nat i :: u32) = of_nat j" by simp
  then have "unat (of_nat i :: u32) = unat (of_nat j :: u32)" by simp
  then show ?thesis using \<open>i < 30\<close> \<open>j < 30\<close> by (simp add: unat_of_nat take_bit_nat_eq_self)
qed

lemma lblk_not_start: "i < 30 \<Longrightarrow> lblk s i \<noteq> log_start s"
proof
  assume "i < 30" "lblk s i = log_start s"
  then have "(of_nat i :: u32) + 1 = 0" by (simp add: add.assoc)
  moreover have "(of_nat (i + 1) :: u32) = of_nat i + 1" by simp
  ultimately have "unat (of_nat (i + 1) :: u32) = 0" by (simp only: unat_0)
  moreover have "unat (of_nat (i + 1) :: u32) = i + 1"
    using \<open>i < 30\<close> by (simp only: unat_of_nat) (simp add: take_bit_nat_eq_self)
  ultimately show False by simp
qed

lemma write_log_loop:
  assumes "set is \<subseteq> {0..<k}" "k \<le> 30" "bc_inv s" "log_dev s = ROOTDEV" "\<forall>x. \<not> bc_held s x" "0 < bc_free s"
    "\<And>i. i < k \<Longrightarrow> bc_ref s (lh_block s i) = 1" "\<And>i. i < k \<Longrightarrow> bc_ref s (lblk s i) = 0"
  shows "\<exists>t. kfold (\<lambda>tail s.
     kbind (bread (log_dev s) (log_start s + of_nat tail + 1) s) (\<lambda>to s.
     kbind (bread (log_dev s) (lh_block s tail) s) (\<lambda>from s.
     let s = upd_buf to (\<lambda>x. x\<lparr>bdata := bdata (bufs s from)\<rparr>) s in
     kbind (bwrite to s) (\<lambda>_ s.
     kbind (brelse from s) (\<lambda>_ s.
     brelse to s))))) is s = Ret () t \<and> same_log s t \<and> bc_ref t = bc_ref s \<and> bc_free t = bc_free s
    \<and> writes t = writes s @ map (\<lambda>i. (lblk s i, content s ROOTDEV (lh_block s i))) is
    \<and> disk t = apply_writes (map (\<lambda>i. (lblk s i, content s ROOTDEV (lh_block s i))) is) (disk s)
    \<and> content t ROOTDEV = apply_writes (map (\<lambda>i. (lblk s i, content s ROOTDEV (lh_block s i))) is) (content s ROOTDEV)"
  using assms
proof (induction "is" arbitrary: s)
  case Nil
  then show ?case by (simp add: same_log_def)
next
  case (Cons i "is")
  let ?x = "lblk s i" and ?y = "lh_block s i"
  have i: "i < k" using Cons.prems(1) by simp
  have ry: "bc_ref s ?y = 1" and rx: "bc_ref s ?x = 0" using Cons.prems(7,8) i by auto
  then have xy: "?x \<noteq> ?y" by auto
  have h: "\<not> bc_held s ?x" "\<not> bc_held s ?y" using Cons.prems(5) by auto
  obtain t where t: "kbind (bread ROOTDEV ?x s) (\<lambda>to s. kbind (bread ROOTDEV ?y s) (\<lambda>from s.
      kbind (bwrite to (set_bdata to (bdata (bufs s from)) s)) (\<lambda>_ s. kbind (brelse from s) (\<lambda>_ s. brelse to s)))) = Ret () t"
    "bc_inv t" "bframe s t" "bc_ref t = bc_ref s" "bc_held t = bc_held s" "bc_free t = bc_free s"
    "content t ROOTDEV = (content s ROOTDEV)(?x := content s ROOTDEV ?y)"
    "disk t = (disk s)(?x := content s ROOTDEV ?y)" "writes t = writes s @ [(?x, content s ROOTDEV ?y)]"
    using bc.copy_to_log [OF Cons.prems(3) h xy rx ry Cons.prems(6)] by blast
  have body: "kbind (bread (log_dev s) (log_start s + of_nat i + 1) s) (\<lambda>to s.
     kbind (bread (log_dev s) (lh_block s i) s) (\<lambda>from s.
     let s = upd_buf to (\<lambda>x. x\<lparr>bdata := bdata (bufs s from)\<rparr>) s in
     kbind (bwrite to s) (\<lambda>_ s. kbind (brelse from s) (\<lambda>_ s. brelse to s)))) = Ret () t"
    unfolding t(1) [symmetric] Cons.prems(4)
  proof (rule kbind_cong [OF refl])
    fix b u assume "bread ROOTDEV ?x s = Ret b u"
    then have "bframe s u" using Cons.prems(3,6) h(1) rx by (intro bread_frame) auto
    from bframe_log(1,4) [OF this] Cons.prems(4)
    show "kbind (bread (log_dev u) (lh_block u i) u) (\<lambda>from s.
       let s = upd_buf b (\<lambda>x. x\<lparr>bdata := bdata (bufs s from)\<rparr>) s in
       kbind (bwrite b s) (\<lambda>_ s. kbind (brelse from s) (\<lambda>_ s. brelse b s))) =
      kbind (bread ROOTDEV ?y u) (\<lambda>from s. kbind (bwrite b (set_bdata b (bdata (bufs s from)) s))
       (\<lambda>_ s. kbind (brelse from s) (\<lambda>_ s. brelse b s)))"
      by (simp add: set_bdata_def Let_def)
  qed
  note fl = bframe_log [OF t(3)]
  have ne: "lh_block s j \<noteq> ?x" if "j < k" for j using Cons.prems(7) [OF that] rx by auto
  obtain u where u: "kfold (\<lambda>tail s.
     kbind (bread (log_dev s) (log_start s + of_nat tail + 1) s) (\<lambda>to s.
     kbind (bread (log_dev s) (lh_block s tail) s) (\<lambda>from s.
     let s = upd_buf to (\<lambda>x. x\<lparr>bdata := bdata (bufs s from)\<rparr>) s in
     kbind (bwrite to s) (\<lambda>_ s. kbind (brelse from s) (\<lambda>_ s. brelse to s))))) is t = Ret () u"
    "same_log t u" "bc_ref u = bc_ref t" "bc_free u = bc_free t"
    "writes u = writes t @ map (\<lambda>i. (lblk t i, content t ROOTDEV (lh_block t i))) is"
    "disk u = apply_writes (map (\<lambda>i. (lblk t i, content t ROOTDEV (lh_block t i))) is) (disk t)"
    "content u ROOTDEV = apply_writes (map (\<lambda>i. (lblk t i, content t ROOTDEV (lh_block t i))) is) (content t ROOTDEV)"
    using Cons.IH [of t] Cons.prems t(2,4-6) fl by auto
  have eq: "map (\<lambda>i. (lblk t i, content t ROOTDEV (lh_block t i))) is =
      map (\<lambda>i. (lblk s i, content s ROOTDEV (lh_block s i))) is"
    using Cons.prems(1) ne by (auto simp: fl t(7))
  have "same_log s u" using u(2) t(3,5) bframe_trans by (auto simp: same_log_def)
  moreover have "writes u = writes s @ map (\<lambda>i. (lblk s i, content s ROOTDEV (lh_block s i))) (i # is)"
    using u(5) [unfolded eq, unfolded t(9)] by (simp only: list.map append.assoc append.simps)
  moreover have "disk u = apply_writes (map (\<lambda>i. (lblk s i, content s ROOTDEV (lh_block s i))) (i # is)) (disk s)"
    using u(6) [unfolded eq, unfolded t(8)] by (simp only: list.map apply_writes_simps fst_conv snd_conv)
  moreover have "content u ROOTDEV = apply_writes (map (\<lambda>i. (lblk s i, content s ROOTDEV (lh_block s i))) (i # is)) (content s ROOTDEV)"
    using u(7) [unfolded eq, unfolded t(7)] by (simp only: list.map apply_writes_simps fst_conv snd_conv)
  moreover have "bc_ref u = bc_ref s" "bc_free u = bc_free s" using u(3,4) t(4,6) by simp_all
  ultimately show ?case
    unfolding kfold.simps body kbind.simps using u(1) by - (rule exI [of _ u], intro conjI)
qed

text \<open>\<open>inst\<close>: the writes of an installation.\<close>

definition inst :: "'z klog_scheme \<Rightarrow> nat list \<Rightarrow> (u32 \<times> bytes) list" where
  "inst s is = map (\<lambda>i. (lh_block s i, content s ROOTDEV (lblk s i))) is"

lemma install_commit_loop:
  assumes "set is \<subseteq> {0..<k}" "distinct is" "bc_inv s" "log_dev s = ROOTDEV" "\<forall>x. \<not> bc_held s x" "0 < bc_free s"
    "\<forall>i\<in>set is. bc_ref s (lh_block s i) = 1" "inj_on (lh_block s) (set is)"
    "\<forall>i<k. bc_ref s (lblk s i) = 0"
  shows "\<exists>t. kfold (\<lambda>tail s.
     kbind (bread (log_dev s) (log_start s + of_nat tail + 1) s) (\<lambda>lbuf s.
     kbind (bread (log_dev s) (lh_block s tail) s) (\<lambda>dbuf s.
     let s = upd_buf dbuf (\<lambda>x. x\<lparr>bdata := bdata (bufs s lbuf)\<rparr>) s in
     kbind (bwrite dbuf s) (\<lambda>_ s.
     kbind (if \<not> False then bunpin dbuf s else Ret () s) (\<lambda>_ s.
     kbind (brelse lbuf s) (\<lambda>_ s.
     brelse dbuf s)))))) is s = Ret () t \<and> same_log s t \<and> bc_free s \<le> bc_free t
    \<and> bc_ref t = (\<lambda>x. if x \<in> lh_block s ` set is then 0 else bc_ref s x)
    \<and> writes t = writes s @ inst s is \<and> disk t = apply_writes (inst s is) (disk s)
    \<and> content t ROOTDEV = apply_writes (inst s is) (content s ROOTDEV)"
  using assms
proof (induction "is" arbitrary: s)
  case Nil
  then show ?case by (simp add: same_log_def inst_def)
next
  case (Cons i "is")
  let ?x = "lblk s i" and ?y = "lh_block s i"
  have i: "i < k" using Cons.prems(1) by simp
  have ry: "bc_ref s ?y = 1" and rx: "bc_ref s ?x = 0" using Cons.prems(7,9) i by auto
  then have xy: "?x \<noteq> ?y" by auto
  have h: "\<not> bc_held s ?x" "\<not> bc_held s ?y" using Cons.prems(5) by auto
  obtain t where t: "kbind (bread ROOTDEV ?x s) (\<lambda>lb s. kbind (bread ROOTDEV ?y s) (\<lambda>db s.
      kbind (bwrite db (set_bdata db (bdata (bufs s lb)) s)) (\<lambda>_ s. kbind (bunpin db s) (\<lambda>_ s.
      kbind (brelse lb s) (\<lambda>_ s. brelse db s))))) = Ret () t"
    "bc_inv t" "bframe s t" "bc_ref t = (bc_ref s)(?y := 0)" "bc_held t = bc_held s" "bc_free t = bc_free s + 1"
    "content t ROOTDEV = (content s ROOTDEV)(?y := content s ROOTDEV ?x)"
    "disk t = (disk s)(?y := content s ROOTDEV ?x)" "writes t = writes s @ [(?y, content s ROOTDEV ?x)]"
    using bc.install_pinned [OF Cons.prems(3) h xy rx ry Cons.prems(6)] by blast
  have body: "kbind (bread (log_dev s) (log_start s + of_nat i + 1) s) (\<lambda>lbuf s.
     kbind (bread (log_dev s) (lh_block s i) s) (\<lambda>dbuf s.
     let s = upd_buf dbuf (\<lambda>x. x\<lparr>bdata := bdata (bufs s lbuf)\<rparr>) s in
     kbind (bwrite dbuf s) (\<lambda>_ s.
     kbind (if \<not> False then bunpin dbuf s else Ret () s) (\<lambda>_ s.
     kbind (brelse lbuf s) (\<lambda>_ s. brelse dbuf s))))) = Ret () t"
    unfolding t(1) [symmetric] Cons.prems(4)
  proof (rule kbind_cong [OF refl])
    fix b u assume "bread ROOTDEV ?x s = Ret b u"
    then have "bframe s u" using Cons.prems(3,6) h(1) rx by (intro bread_frame) auto
    from bframe_log(1,4) [OF this] Cons.prems(4)
    show "kbind (bread (log_dev u) (lh_block u i) u) (\<lambda>dbuf s.
       let s = upd_buf dbuf (\<lambda>x. x\<lparr>bdata := bdata (bufs s b)\<rparr>) s in
       kbind (bwrite dbuf s) (\<lambda>_ s. kbind (if \<not> False then bunpin dbuf s else Ret () s) (\<lambda>_ s.
       kbind (brelse b s) (\<lambda>_ s. brelse dbuf s)))) =
      kbind (bread ROOTDEV ?y u) (\<lambda>db s. kbind (bwrite db (set_bdata db (bdata (bufs s b)) s))
       (\<lambda>_ s. kbind (bunpin db s) (\<lambda>_ s. kbind (brelse b s) (\<lambda>_ s. brelse db s))))"
      by (simp add: set_bdata_def Let_def)
  qed
  note fl = bframe_log [OF t(3)]
  have yx: "?y \<noteq> lblk s j" if "j < k" for j using Cons.prems(9) that ry by auto
  have yh: "lh_block s j \<noteq> ?y" if "j \<in> set is" for j
    using Cons.prems(2) inj_onD [OF Cons.prems(8), of j i] that by auto
  have eq: "inst t is = inst s is"
  proof -
    have "lblk s j \<noteq> ?y" if "j \<in> set is" for j using Cons.prems(1) yx [of j] that by auto
    then show ?thesis unfolding inst_def by (simp add: fl t(7))
  qed
  obtain u where u: "kfold (\<lambda>tail s.
     kbind (bread (log_dev s) (log_start s + of_nat tail + 1) s) (\<lambda>lbuf s.
     kbind (bread (log_dev s) (lh_block s tail) s) (\<lambda>dbuf s.
     let s = upd_buf dbuf (\<lambda>x. x\<lparr>bdata := bdata (bufs s lbuf)\<rparr>) s in
     kbind (bwrite dbuf s) (\<lambda>_ s.
     kbind (if \<not> False then bunpin dbuf s else Ret () s) (\<lambda>_ s.
     kbind (brelse lbuf s) (\<lambda>_ s. brelse dbuf s)))))) is t = Ret () u"
    "same_log t u" "bc_free t \<le> bc_free u" "bc_ref u = (\<lambda>x. if x \<in> lh_block s ` set is then 0 else bc_ref t x)"
    "writes u = writes t @ inst s is" "disk u = apply_writes (inst s is) (disk t)"
    "content u ROOTDEV = apply_writes (inst s is) (content t ROOTDEV)"
  proof -
    have p: "set is \<subseteq> {0..<k}" "distinct is" "log_dev t = ROOTDEV" "\<forall>x. \<not> bc_held t x" "0 < bc_free t"
      "\<forall>i\<in>set is. bc_ref t (lh_block t i) = 1" "inj_on (lh_block t) (set is)"
      "\<forall>i<k. bc_ref t (lblk t i) = 0"
      using Cons.prems t(4-6) fl yh by (auto simp: inj_on_def)
    from Cons.IH [OF p(1,2) t(2) p(3-8)] show thesis unfolding fl eq by (elim exE conjE) (rule that)
  qed
  have ic: "inst s (i # is) = (?y, content s ROOTDEV ?x) # inst s is" by (simp add: inst_def)
  have "same_log s u" using u(2) t(3,5) bframe_trans by (auto simp: same_log_def)
  moreover have "writes u = writes s @ inst s (i # is)" using u(5) [unfolded t(9)] unfolding ic by simp
  moreover have "disk u = apply_writes (inst s (i # is)) (disk s)" using u(6) [unfolded t(8)] unfolding ic by simp
  moreover have "content u ROOTDEV = apply_writes (inst s (i # is)) (content s ROOTDEV)"
    using u(7) [unfolded t(7)] unfolding ic by simp
  moreover have "bc_ref u = (\<lambda>x. if x \<in> lh_block s ` set (i # is) then 0 else bc_ref s x)"
    using u(4) t(4) by (auto simp: fun_eq_iff)
  moreover have "bc_free s \<le> bc_free u" using u(3) t(6) by simp
  ultimately show ?case
    unfolding kfold.simps body kbind.simps using u(1) by - (rule exI [of _ u], intro conjI)
qed

lemma install_recover_loop:
  assumes "set is \<subseteq> {0..<k}" "bc_inv s" "log_dev s = ROOTDEV" "\<forall>x. \<not> bc_held s x" "1 < bc_free s"
    "\<forall>x. bc_ref s x = 0" "\<forall>i<k. \<forall>j<k. lh_block s i \<noteq> lblk s j"
  shows "\<exists>t. kfold (\<lambda>tail s.
     kbind (bread (log_dev s) (log_start s + of_nat tail + 1) s) (\<lambda>lbuf s.
     kbind (bread (log_dev s) (lh_block s tail) s) (\<lambda>dbuf s.
     let s = upd_buf dbuf (\<lambda>x. x\<lparr>bdata := bdata (bufs s lbuf)\<rparr>) s in
     kbind (bwrite dbuf s) (\<lambda>_ s.
     kbind (if \<not> True then bunpin dbuf s else Ret () s) (\<lambda>_ s.
     kbind (brelse lbuf s) (\<lambda>_ s.
     brelse dbuf s)))))) is s = Ret () t \<and> same_log s t \<and> bc_free t = bc_free s \<and> bc_ref t = bc_ref s
    \<and> disk t = apply_writes (inst s is) (disk s)"
  using assms
proof (induction "is" arbitrary: s)
  case Nil
  then show ?case by (intro exI [of _ s]) (simp add: same_log_def inst_def)
next
  case (Cons i "is")
  let ?x = "lblk s i" and ?y = "lh_block s i"
  have i: "i < k" using Cons.prems(1) by simp
  have ry: "bc_ref s ?y = 0" and rx: "bc_ref s ?x = 0" using Cons.prems(6) by auto
  have xy: "?x \<noteq> ?y" using Cons.prems(7) i by metis
  have h: "\<not> bc_held s ?x" "\<not> bc_held s ?y" using Cons.prems(4) by auto
  obtain t where t: "kbind (bread ROOTDEV ?x s) (\<lambda>lb s. kbind (bread ROOTDEV ?y s) (\<lambda>db s.
      kbind (bwrite db (set_bdata db (bdata (bufs s lb)) s)) (\<lambda>_ s.
      kbind (brelse lb s) (\<lambda>_ s. brelse db s)))) = Ret () t"
    "bc_inv t" "bframe s t" "bc_ref t = bc_ref s" "bc_held t = bc_held s" "bc_free t = bc_free s"
    "content t ROOTDEV = (content s ROOTDEV)(?y := content s ROOTDEV ?x)"
    "disk t = (disk s)(?y := content s ROOTDEV ?x)"
    using bc.install_recover [OF Cons.prems(2) h xy rx ry Cons.prems(5)] by blast
  have body: "kbind (bread (log_dev s) (log_start s + of_nat i + 1) s) (\<lambda>lbuf s.
     kbind (bread (log_dev s) (lh_block s i) s) (\<lambda>dbuf s.
     let s = upd_buf dbuf (\<lambda>x. x\<lparr>bdata := bdata (bufs s lbuf)\<rparr>) s in
     kbind (bwrite dbuf s) (\<lambda>_ s.
     kbind (if \<not> True then bunpin dbuf s else Ret () s) (\<lambda>_ s.
     kbind (brelse lbuf s) (\<lambda>_ s. brelse dbuf s))))) = Ret () t"
    unfolding t(1) [symmetric] Cons.prems(3)
  proof (rule kbind_cong [OF refl])
    fix b u assume "bread ROOTDEV ?x s = Ret b u"
    then have "bframe s u" using Cons.prems(2,5) h(1) rx by (intro bread_frame) auto
    from bframe_log(1,4) [OF this] Cons.prems(3)
    show "kbind (bread (log_dev u) (lh_block u i) u) (\<lambda>dbuf s.
       let s = upd_buf dbuf (\<lambda>x. x\<lparr>bdata := bdata (bufs s b)\<rparr>) s in
       kbind (bwrite dbuf s) (\<lambda>_ s. kbind (if \<not> True then bunpin dbuf s else Ret () s) (\<lambda>_ s.
       kbind (brelse b s) (\<lambda>_ s. brelse dbuf s)))) =
      kbind (bread ROOTDEV ?y u) (\<lambda>db s. kbind (bwrite db (set_bdata db (bdata (bufs s b)) s))
       (\<lambda>_ s. kbind (brelse b s) (\<lambda>_ s. brelse db s)))"
      by (simp add: set_bdata_def Let_def)
  qed
  note fl = bframe_log [OF t(3)]
  have eq: "inst t is = inst s is"
  proof -
    have "lblk s j \<noteq> ?y" if "j \<in> set is" for j using Cons.prems(1) Cons.prems(7) i that by fastforce
    then show ?thesis unfolding inst_def by (simp add: fl t(7))
  qed
  obtain u where u: "kfold (\<lambda>tail s.
     kbind (bread (log_dev s) (log_start s + of_nat tail + 1) s) (\<lambda>lbuf s.
     kbind (bread (log_dev s) (lh_block s tail) s) (\<lambda>dbuf s.
     let s = upd_buf dbuf (\<lambda>x. x\<lparr>bdata := bdata (bufs s lbuf)\<rparr>) s in
     kbind (bwrite dbuf s) (\<lambda>_ s.
     kbind (if \<not> True then bunpin dbuf s else Ret () s) (\<lambda>_ s.
     kbind (brelse lbuf s) (\<lambda>_ s. brelse dbuf s)))))) is t = Ret () u"
    "same_log t u" "bc_free u = bc_free t" "bc_ref u = bc_ref t" "disk u = apply_writes (inst s is) (disk t)"
  proof -
    have p: "set is \<subseteq> {0..<k}" "log_dev t = ROOTDEV" "\<forall>x. \<not> bc_held t x" "1 < bc_free t"
      "\<forall>x. bc_ref t x = 0" "\<forall>i<k. \<forall>j<k. lh_block t i \<noteq> lblk t j"
      using Cons.prems t(4-6) fl by auto
    from Cons.IH [OF p(1) t(2) p(2-6)] show thesis unfolding fl eq by (elim exE conjE) (rule that)
  qed
  have ic: "inst s (i # is) = (?y, content s ROOTDEV ?x) # inst s is" by (simp add: inst_def)
  have "same_log s u" using u(2) t(3,5) bframe_trans by (auto simp: same_log_def)
  moreover have "disk u = apply_writes (inst s (i # is)) (disk s)" using u(5) [unfolded t(8)] unfolding ic by simp
  moreover have "bc_free u = bc_free s" "bc_ref u = bc_ref s" using u(3,4) t(4,6) by simp_all
  ultimately show ?case
    unfolding kfold.simps body kbind.simps using u(1) by - (rule exI [of _ u], intro conjI)
qed

lemma install_commit:
  assumes "bc_inv s" "log_dev s = ROOTDEV" "\<forall>x. \<not> bc_held s x" "0 < bc_free s"
    "\<forall>i\<in>set [0..<nat (lh_n s)]. bc_ref s (lh_block s i) = 1" "inj_on (lh_block s) (set [0..<nat (lh_n s)])"
    "\<forall>i<nat (lh_n s). bc_ref s (lblk s i) = 0"
  shows "\<exists>t. install_trans False s = Ret () t \<and> same_log s t \<and> bc_free s \<le> bc_free t
    \<and> bc_ref t = (\<lambda>x. if x \<in> lh_block s ` set [0..<nat (lh_n s)] then 0 else bc_ref s x)
    \<and> writes t = writes s @ inst s [0..<nat (lh_n s)] \<and> disk t = apply_writes (inst s [0..<nat (lh_n s)]) (disk s)
    \<and> content t ROOTDEV = apply_writes (inst s [0..<nat (lh_n s)]) (content s ROOTDEV)"
  unfolding install_trans_def by (rule install_commit_loop [OF _ _ assms]) auto

lemma install_recovering:
  assumes "bc_inv s" "log_dev s = ROOTDEV" "\<forall>x. \<not> bc_held s x" "1 < bc_free s" "\<forall>x. bc_ref s x = 0"
    "\<forall>i<nat (lh_n s). \<forall>j<nat (lh_n s). lh_block s i \<noteq> lblk s j"
  shows "\<exists>t. install_trans True s = Ret () t \<and> same_log s t \<and> bc_free t = bc_free s \<and> bc_ref t = bc_ref s
    \<and> disk t = apply_writes (inst s [0..<nat (lh_n s)]) (disk s)"
  unfolding install_trans_def by (rule install_recover_loop [OF _ assms]) auto

section \<open>Header operations\<close>

lemma write_head_spec:
  assumes "bc_inv s" "log_dev s = ROOTDEV" "\<forall>x. \<not> bc_held s x" "0 < bc_free s" "bc_ref s (log_start s) = 0"
  shows "\<exists>t. write_head s = Ret () t \<and> same_log s t \<and> bc_free t = bc_free s \<and> bc_ref t = bc_ref s
    \<and> (let h = head_bytes (lh_n s) (lh_block s) (content s ROOTDEV (log_start s)) in
        disk t = (disk s)(log_start s := h) \<and> content t ROOTDEV = (content s ROOTDEV)(log_start s := h)
        \<and> writes t = writes s @ [(log_start s, h)])"
proof -
  let ?f = "head_bytes (lh_n s) (lh_block s)"
  obtain t where t: "kbind (bread ROOTDEV (log_start s) s) (\<lambda>b s.
      kbind (bwrite b (set_bdata b (?f (bdata (bufs s b))) s)) (\<lambda>_ s. brelse b s)) = Ret () t"
    "bc_inv t" "bframe s t" "bc_ref t = bc_ref s" "bc_held t = bc_held s" "bc_free t = bc_free s"
    "content t ROOTDEV = (content s ROOTDEV)(log_start s := ?f (content s ROOTDEV (log_start s)))"
    "disk t = (disk s)(log_start s := ?f (content s ROOTDEV (log_start s)))"
    "writes t = writes s @ [(log_start s, ?f (content s ROOTDEV (log_start s)))]"
    using bc.rewrite_block [OF assms(1) _ assms(5,4), of ?f] assms(3) by blast
  have "write_head s = Ret () t"
    unfolding t(1) [symmetric] write_head_def assms(2)
  proof (rule kbind_cong [OF refl])
    fix b u assume "bread ROOTDEV (log_start s) s = Ret b u"
    then have "bframe s u" using assms by (intro bread_frame) auto
    from bframe_log(3,4) [OF this]
    show "(let s = upd_buf b (\<lambda>x. x\<lparr>bdata := head_bytes (lh_n u) (lh_block u) (bdata x)\<rparr>) u in
       kbind (bwrite b s) (\<lambda>_ s. brelse b s)) =
      kbind (bwrite b (set_bdata b (?f (bdata (bufs u b))) u)) (\<lambda>_ s. brelse b s)"
      by (simp add: set_bdata_def upd_buf_def set_buf_def)
  qed
  with t show ?thesis unfolding same_log_def Let_def by (intro exI [of _ t] conjI)
qed

lemma read_head_loop:
  assumes "k \<le> 30"
  shows "kfold (\<lambda>i s. if int i \<ge> LOGBLOCKS then Panic ''undefined: log.lh.block''
         else Ret () (s\<lparr>lh_block := (lh_block s)(i := get32 d (4 + 4 * i))\<rparr>)) [0..<k] (s :: 'z klog_scheme)
    = Ret () (s\<lparr>lh_block := (\<lambda>i. if i < k then get32 d (4 + 4 * i) else lh_block s i)\<rparr>)"
  using assms
proof (induction k)
  case 0
  then show ?case by simp
next
  case (Suc k)
  have "(\<lambda>i. if i < k then get32 d (4 + 4 * i) else lh_block s i)(k := get32 d (4 + 4 * k))
      = (\<lambda>i. if i < Suc k then get32 d (4 + 4 * i) else lh_block s i)"
    by (auto simp: fun_eq_iff less_Suc_eq)
  with Suc show ?case
    by (simp add: kfold_append LOGBLOCKS_def MAXOPBLOCKS_def)
qed

lemma read_head_spec:
  assumes "bc_inv s" "log_dev s = ROOTDEV" "\<forall>x. \<not> bc_held s x" "0 < bc_free s" "bc_ref s (log_start s) = 0"
    "content s ROOTDEV (log_start s) = h" "sint (get32 h 0) \<le> LOGBLOCKS"
  shows "\<exists>t. read_head s = Ret () t \<and> bc_inv t \<and> bc_held t = bc_held s \<and> bc_free t = bc_free s \<and> bc_ref t = bc_ref s
    \<and> disk t = disk s \<and> content t ROOTDEV = content s ROOTDEV
    \<and> log_dev t = log_dev s \<and> log_start t = log_start s \<and> lh_n t = sint (get32 h 0)
    \<and> (\<forall>i<nat (lh_n t). lh_block t i = get32 h (4 + 4 * i))"
proof -
  let ?st = "log_start s" and ?n = "sint (get32 h 0)"
  have pre: "\<not> bc_held s ?st" "bc_ref s ?st \<noteq> - 1" "bc_ref s ?st = 0 \<longrightarrow> 0 < bc_free s"
    using assms(3-5) by auto
  obtain b u where u: "bread ROOTDEV ?st s = Ret b u" "bc_inv u" "bframe s u" "cached u ROOTDEV ?st = Some b"
    "bc_ref u = (bc_ref s)(?st := 1)" "bc_held u = (bc_held s)(?st := True)"
    "content u ROOTDEV = content s ROOTDEV" "disk u = disk s" "bc_free u = bc_free s - 1"
    using bc.rd_spec [OF assms(1) pre] assms(5) by auto
  have d: "bdata (bufs u b) = h" using bc.data_cont [OF u(2,4)] u(5,7) assms(6) by simp
  let ?B = "\<lambda>i. if i < nat ?n then get32 h (4 + 4 * i) else lh_block u i"
  let ?v = "u\<lparr>lh_n := ?n, lh_block := ?B\<rparr>"
  have loop: "kfold (\<lambda>i s. if int i \<ge> LOGBLOCKS then Panic ''undefined: log.lh.block''
         else Ret () (s\<lparr>lh_block := (lh_block s)(i := get32 h (4 + 4 * i))\<rparr>)) [0..<nat ?n] (u\<lparr>lh_n := ?n\<rparr>) = Ret () ?v"
    using read_head_loop [of "nat ?n" h "u\<lparr>lh_n := ?n\<rparr>"] assms(7)
    by (simp add: LOGBLOCKS_def MAXOPBLOCKS_def cong: if_cong)
  have v: "bc_inv ?v" "cached ?v ROOTDEV ?st = Some b" "bc_held ?v ?st" "bc_ref ?v ?st \<noteq> 0" "bc_ref ?v ?st = 1"
    "content ?v ROOTDEV ?st = disk ?v ?st" "content ?v ROOTDEV = content s ROOTDEV"
    using u bc.clean [OF assms(1,5)] by simp_all
  obtain t where t: "brelse b ?v = Ret () t" "bc_inv t" "bframe ?v t" "bc_ref t = (bc_ref ?v)(?st := 0)"
    "bc_held t = (bc_held ?v)(?st := False)" "content t ROOTDEV = content ?v ROOTDEV" "disk t = disk ?v"
    "bc_free t = bc_free ?v + 1"
    using bc.rel_spec [OF v(1-4)] v(5,6) by auto
  have "read_head s = Ret () t" 
    by (simp only: read_head_def assms(2) u(1) kbind.simps Let_def d) (simp add: loop t(1))
  moreover have "bc_held t = bc_held s" using t(5) u(6) assms(3) by (auto simp: fun_eq_iff)
  moreover have "bc_ref t = bc_ref s" using t(4) u(5) assms(5) by (auto simp: fun_eq_iff)
  moreover have "bc_free t = bc_free s" using t(8) u(9) assms(4) by simp
  moreover note bframe_log [OF t(3)] bframe_log [OF u(3)]
  ultimately show ?thesis using t(2,6,7) u(8) v(7) by (intro exI [of _ t]) simp
qed

section \<open>What commit writes\<close>

definition log_writes :: "'z klog_scheme \<Rightarrow> (u32 \<times> bytes) list" where
  "log_writes s = map (\<lambda>i. (lblk s i, content s ROOTDEV (lh_block s i))) [0..<nat (lh_n s)]"

definition home_writes :: "'z klog_scheme \<Rightarrow> (u32 \<times> bytes) list" where
  "home_writes s = map (\<lambda>i. (lh_block s i, content s ROOTDEV (lh_block s i))) [0..<nat (lh_n s)]"

definition head1 :: "'z klog_scheme \<Rightarrow> bytes" where
  "head1 s = head_bytes (lh_n s) (lh_block s) (content s ROOTDEV (log_start s))"

definition head0 :: "'z klog_scheme \<Rightarrow> bytes" where
  "head0 s = head_bytes 0 (lh_block s) (head1 s)"

definition commit_writes :: "'z klog_scheme \<Rightarrow> (u32 \<times> bytes) list" where
  "commit_writes s = log_writes s @ (log_start s, head1 s) # home_writes s @ [(log_start s, head0 s)]"

lemma commit_readyD:
  assumes "commit_ready s"
  shows "bc_inv s" "log_dev s = ROOTDEV" "0 < lh_n s" "nat (lh_n s) \<le> 30" "\<forall>x. \<not> bc_held s x" "0 < bc_free s"
    "inj_on (lh_block s) {0..<nat (lh_n s)}"
    "\<And>i. i < nat (lh_n s) \<Longrightarrow> bc_ref s (lh_block s i) = 1"
    "\<And>i. i < nat (lh_n s) \<Longrightarrow> bc_ref s (lblk s i) = 0" "bc_ref s (log_start s) = 0"
    "\<And>i j. i < nat (lh_n s) \<Longrightarrow> j \<le> 30 \<Longrightarrow> lh_block s i \<noteq> log_start s + of_nat j"
proof -
  note r = assms [unfolded commit_ready_def LOGBLOCKS_def MAXOPBLOCKS_def]
  show "bc_inv s" "log_dev s = ROOTDEV" "0 < lh_n s" "nat (lh_n s) \<le> 30" "\<forall>x. \<not> bc_held s x" "0 < bc_free s"
    using r by auto
  show "inj_on (lh_block s) {0..<nat (lh_n s)}" using r by (simp add: distinct_map)
  show "\<And>i. i < nat (lh_n s) \<Longrightarrow> bc_ref s (lh_block s i) = 1" using r by auto
  show ne: "\<And>i j. i < nat (lh_n s) \<Longrightarrow> j \<le> 30 \<Longrightarrow> lh_block s i \<noteq> log_start s + of_nat j" using r by blast
  show "bc_ref s (lblk s i) = 0" if "i < nat (lh_n s)" for i
  proof -
    have "i + 1 \<le> 30" using r that by auto
    then have "lh_block s j \<noteq> lblk s i" if "j < nat (lh_n s)" for j
      using ne [OF that, of "i + 1"] by (simp add: add_ac)
    then have "lblk s i \<notin> lh_block s ` {0..<nat (lh_n s)}" by (metis imageE atLeastLessThan_iff)
    then show ?thesis using r by simp
  qed
  have "lh_block s i \<noteq> log_start s" if "i < nat (lh_n s)" for i using ne [OF that, of 0] by simp
  then have "log_start s \<notin> lh_block s ` {0..<nat (lh_n s)}" by (metis imageE atLeastLessThan_iff)
  then show "bc_ref s (log_start s) = 0" using r by simp
qed

lemma commit_spec:
  assumes "commit_ready s"
  shows "\<exists>t. commit s = Ret () t \<and> writes t = writes s @ commit_writes s \<and> disk t = apply_writes (commit_writes s) (disk s)
    \<and> bc_inv t \<and> (\<forall>x. bc_ref t x = 0) \<and> lh_n t = 0 \<and> (\<forall>x. \<not> bc_held t x) \<and> bframe (s\<lparr>lh_n := 0\<rparr>) t"
proof -
  note c = commit_readyD [OF assms]
  let ?n = "nat (lh_n s)" and ?st = "log_start s"
  obtain t1 where t1: "write_log s = Ret () t1" "same_log s t1" "bc_ref t1 = bc_ref s" "bc_free t1 = bc_free s"
    "writes t1 = writes s @ log_writes s" "disk t1 = apply_writes (log_writes s) (disk s)"
    "content t1 ROOTDEV = apply_writes (log_writes s) (content s ROOTDEV)"
    using write_log_loop [of "[0..<?n]" ?n s] c unfolding write_log_def log_writes_def by auto
  note f1 = bframe_log [of s t1]
  have s1: "bc_inv t1" "bframe s t1" "bc_held t1 = bc_held s" using t1(2) by (auto simp: same_log_def)
  have stn: "?st \<notin> fst ` set (log_writes s)"
    using lblk_not_start [of _ s] c(4) by (auto simp: log_writes_def)
  obtain t2 where t2: "write_head t1 = Ret () t2" "same_log t1 t2" "bc_free t2 = bc_free t1" "bc_ref t2 = bc_ref t1"
    "disk t2 = (disk t1)(?st := head1 s)" "content t2 ROOTDEV = (content t1 ROOTDEV)(?st := head1 s)"
    "writes t2 = writes t1 @ [(?st, head1 s)]"
    using write_head_spec [of t1] s1 t1 c f1 apply_writes_out [OF stn, of "content s ROOTDEV"]
    unfolding head1_def Let_def by auto
  have s2: "bc_inv t2" "bframe t1 t2" "bc_held t2 = bc_held s" using t2(2) s1(3) by (auto simp: same_log_def)
  note f2 = bframe_log [OF s1(2)] bframe_log [OF s2(2)]
  have inst: "inst t2 [0..<?n] = home_writes s"
    unfolding inst_def home_writes_def
  proof (rule map_cong [OF refl])
    fix i assume i: "i \<in> set [0..<?n]"
    have "lblk s i \<noteq> ?st" using lblk_not_start [of i s] c(4) i by simp
    moreover have "apply_writes (log_writes s) (content s ROOTDEV) (lblk s i) = content s ROOTDEV (lh_block s i)"
      unfolding log_writes_def using i lblk_inj [of _ _ s] c(4)
      by (intro apply_writes_in) (auto simp: inj_on_def)
    ultimately have "content t2 ROOTDEV (lblk s i) = content s ROOTDEV (lh_block s i)" by (simp add: t2(6) t1(7))
    then show "(lh_block t2 i, content t2 ROOTDEV (lblk t2 i)) = (lh_block s i, content s ROOTDEV (lh_block s i))"
      by (simp add: f2)
  qed
  obtain t3 where t3: "install_trans False t2 = Ret () t3" "same_log t2 t3" "bc_free t2 \<le> bc_free t3"
    "bc_ref t3 = (\<lambda>x. if x \<in> lh_block t2 ` set [0..<?n] then 0 else bc_ref t2 x)"
    "writes t3 = writes t2 @ home_writes s" "disk t3 = apply_writes (home_writes s) (disk t2)"
    "content t3 ROOTDEV = apply_writes (home_writes s) (content t2 ROOTDEV)"
  proof -
    have p: "log_dev t2 = ROOTDEV" "\<forall>x. \<not> bc_held t2 x" "0 < bc_free t2"
      "\<forall>i\<in>set [0..<nat (lh_n t2)]. bc_ref t2 (lh_block t2 i) = 1" "inj_on (lh_block t2) (set [0..<nat (lh_n t2)])"
      "\<forall>i<nat (lh_n t2). bc_ref t2 (lblk t2 i) = 0"
      using c t2(3,4) t1(3,4) s2(3) by (simp_all add: f2)
    have n: "lh_n t2 = lh_n s" by (simp add: f2)
    from install_commit [OF s2(1) p] show thesis unfolding n inst by (elim exE conjE) (rule that)
  qed
  have s3: "bc_inv t3" "bframe t2 t3" "bc_held t3 = bc_held s" using t3(2) s2(3) by (auto simp: same_log_def)
  note f3 = bframe_log [OF s3(2)]
  have sth: "?st \<notin> fst ` set (home_writes s)"
  proof
    assume "?st \<in> fst ` set (home_writes s)"
    then obtain i where "i < ?n" "?st = lh_block s i" by (auto simp: home_writes_def)
    then show False using c(11) [of i 0] by simp
  qed
  let ?t3 = "t3\<lparr>lh_n := 0\<rparr>"
  have ref0: "bc_ref t3 x = 0" for x
    using assms by (auto simp: t3(4) t2(4) t1(3) f2 commit_ready_def)
  have st3: "content t3 ROOTDEV ?st = head1 s" using apply_writes_out [OF sth] t3(7) t2(6) by simp
  obtain t4 where t4: "write_head ?t3 = Ret () t4" "same_log ?t3 t4" "bc_ref t4 = bc_ref t3"
    "disk t4 = (disk t3)(?st := head0 s)" "writes t4 = writes t3 @ [(?st, head0 s)]"
    using write_head_spec [of ?t3] s3 t3 t2 t1 c ref0 st3 unfolding head0_def Let_def
    by (auto simp: f3 f2)
  have "commit s = Ret () t4" using c(3) t1(1) t2(1) t3(1) t4(1) by (simp add: commit_def)
  moreover have "writes t4 = writes s @ commit_writes s"
    by (simp add: t4(5) t3(5) t2(7) t1(5) commit_writes_def)
  moreover have "disk t4 = apply_writes (commit_writes s) (disk s)"
    by (simp add: t4(4) t3(6) t2(5) t1(6) commit_writes_def)
  moreover have "lh_n t4 = 0" "bc_inv t4" "bc_held t4 = bc_held s"
    using t4(2) bframe_log(3) [of ?t3 t4] s3(3) by (auto simp: same_log_def)
  moreover have "bframe (s\<lparr>lh_n := 0\<rparr>) t4"
    using bframe_trans [OF bframe_lh_n [OF bframe_trans [OF bframe_trans [OF s1(2) s2(2)] s3(2)]]] t4(2)
    by (simp add: same_log_def)
  ultimately show ?thesis using t4(3) ref0 c(5) by (intro exI [of _ t4]) simp
qed

section \<open>What recovery writes\<close>

text \<open>A machine that has just booted: nothing is referenced or locked, the log's place is known.\<close>

definition booted :: "'z klog_scheme \<Rightarrow> bool" where
  "booted r \<longleftrightarrow> bc_inv r \<and> log_dev r = ROOTDEV \<and> (\<forall>x. \<not> bc_held r x) \<and> (\<forall>x. bc_ref r x = 0) \<and> 1 < bc_free r"

definition rec_writes :: "u32 \<Rightarrow> (u32 \<Rightarrow> bytes) \<Rightarrow> (u32 \<times> bytes) list" where
  "rec_writes st d = map (\<lambda>i. (get32 (d st) (4 + 4 * i), d (st + of_nat i + 1))) [0..<nat (sint (get32 (d st) 0))]"

lemma recover_spec:
  assumes "booted r" "sint (get32 (disk r (log_start r)) 0) \<le> LOGBLOCKS"
    "\<And>i j. i < nat (sint (get32 (disk r (log_start r)) 0)) \<Longrightarrow> j \<le> 30 \<Longrightarrow>
       get32 (disk r (log_start r)) (4 + 4 * i) \<noteq> log_start r + of_nat j"
  shows "\<exists>t. recover_from_log r = Ret () t \<and> lh_n t = 0
    \<and> (\<forall>x. x \<noteq> log_start r \<longrightarrow> disk t x = apply_writes (rec_writes (log_start r) (disk r)) (disk r) x)
    \<and> get32 (disk t (log_start r)) 0 = 0"
proof -
  let ?st = "log_start r" and ?h = "disk r (log_start r)"
  let ?n = "nat (sint (get32 ?h 0))"
  have b: "bc_inv r" "log_dev r = ROOTDEV" "\<forall>x. \<not> bc_held r x" "\<forall>x. bc_ref r x = 0" "1 < bc_free r"
    using assms(1) by (auto simp: booted_def)
  have cl: "content r ROOTDEV = disk r" using bc.clean [OF b(1)] b(4) by (simp add: fun_eq_iff)
  obtain t1 where t1: "read_head r = Ret () t1" "bc_inv t1" "bc_held t1 = bc_held r" "bc_free t1 = bc_free r"
    "bc_ref t1 = bc_ref r" "disk t1 = disk r" "content t1 ROOTDEV = disk r"
    "log_dev t1 = log_dev r" "log_start t1 = log_start r" "lh_n t1 = sint (get32 ?h 0)"
    "\<forall>i<?n. lh_block t1 i = get32 ?h (4 + 4 * i)"
    using read_head_spec [of r ?h] b assms(2) unfolding cl by auto
  have n30: "?n \<le> 30" using assms(2) by (simp add: LOGBLOCKS_def MAXOPBLOCKS_def)
  have ne: "\<forall>i<nat (lh_n t1). \<forall>j<nat (lh_n t1). lh_block t1 i \<noteq> lblk t1 j"
  proof (intro allI impI)
    fix i j assume "i < nat (lh_n t1)" "j < nat (lh_n t1)"
    then have "i < ?n" "j + 1 \<le> 30" using n30 t1(10) by auto
    from assms(3) [OF this] t1(9,11) \<open>i < ?n\<close> show "lh_block t1 i \<noteq> lblk t1 j" by (simp add: add_ac)
  qed
  have pre: "log_dev t1 = ROOTDEV" "\<forall>x. \<not> bc_held t1 x" "1 < bc_free t1" "\<forall>x. bc_ref t1 x = 0"
    using t1 b by auto
  obtain t2 where t2: "install_trans True t1 = Ret () t2" "same_log t1 t2" "bc_free t2 = bc_free t1"
    "bc_ref t2 = bc_ref t1" "disk t2 = apply_writes (inst t1 [0..<nat (lh_n t1)]) (disk t1)"
    using install_recovering [OF t1(2) pre ne] by blast
  have s2: "bc_inv t2" "bframe t1 t2" "bc_held t2 = bc_held t1" using t2(2) by (auto simp: same_log_def)
  note f2 = bframe_log [OF s2(2)]
  have inst: "inst t1 [0..<nat (lh_n t1)] = rec_writes ?st (disk r)"
    using t1(11) by (simp add: inst_def rec_writes_def t1(7,9,10))
  obtain t3 where t3: "write_head (t2\<lparr>lh_n := 0\<rparr>) = Ret () t3" "same_log (t2\<lparr>lh_n := 0\<rparr>) t3"
    "disk t3 = (disk t2)(?st := head_bytes 0 (lh_block t2) (content t2 ROOTDEV ?st))"
    using write_head_spec [of "t2\<lparr>lh_n := 0\<rparr>"] s2 t2 t1 pre f2 unfolding Let_def by auto
  have "recover_from_log r = Ret () t3" by (simp add: recover_from_log_def t1(1) t2(1) t3(1))
  moreover have "lh_n t3 = 0" using t3(2) bframe_log(3) [of "t2\<lparr>lh_n := 0\<rparr>" t3] by (simp add: same_log_def)
  moreover have "disk t3 x = apply_writes (rec_writes ?st (disk r)) (disk r) x" if "x \<noteq> ?st" for x
    using that by (simp add: t3(3) t2(5) inst t1(6))
  moreover have "get32 (disk t3 ?st) 0 = 0" using get32_head_n [of 0 "lh_block t2"] by (simp add: t3(3))
  ultimately show ?thesis by blast
qed

section \<open>Atomicity\<close>

definition log_area :: "u32 \<Rightarrow> u32 set" where
  "log_area st = {st + of_nat j | j. j \<le> 30}"

lemma sint_small: "0 \<le> n \<Longrightarrow> n \<le> 30 \<Longrightarrow> sint (word_of_int n :: u32) = n"
  by (simp add: signed_of_int signed_take_bit_int_eq_self)

lemma head1_read:
  assumes "commit_ready s"
  shows "sint (get32 (head1 s) 0) = lh_n s" "i < nat (lh_n s) \<Longrightarrow> get32 (head1 s) (4 + 4 * i) = lh_block s i"
    "get32 (head0 s) 0 = 0"
  using assms get32_head_n [of 0 "lh_block s" "head1 s"]
  unfolding head0_def head1_def commit_ready_def LOGBLOCKS_def MAXOPBLOCKS_def
  by (auto simp: get32_head_n sint_small get32_head_block)

text \<open>The disk after the first \<open>k\<close> writes of a commit.\<close>

definition crash_disk :: "'z klog_scheme \<Rightarrow> nat \<Rightarrow> u32 \<Rightarrow> bytes" where
  "crash_disk s k = apply_writes (take k (commit_writes s)) (disk s)"

lemma take_commit_writes:
  "k \<le> nat (lh_n s) \<Longrightarrow> take k (commit_writes s) = take k (log_writes s)"
  "nat (lh_n s) < k \<Longrightarrow> k < 2 * nat (lh_n s) + 2 \<Longrightarrow> take k (commit_writes s) =
     log_writes s @ (log_start s, head1 s) # take (k - nat (lh_n s) - 1) (home_writes s)"
  "2 * nat (lh_n s) + 2 \<le> k \<Longrightarrow> take k (commit_writes s) = commit_writes s"
proof -
  have l: "length (log_writes s) = nat (lh_n s)" "length (home_writes s) = nat (lh_n s)"
    by (simp_all add: log_writes_def home_writes_def)
  show "k \<le> nat (lh_n s) \<Longrightarrow> take k (commit_writes s) = take k (log_writes s)"
    by (simp add: commit_writes_def l)
  show "2 * nat (lh_n s) + 2 \<le> k \<Longrightarrow> take k (commit_writes s) = commit_writes s"
    by (simp add: commit_writes_def l)
  assume k: "nat (lh_n s) < k" "k < 2 * nat (lh_n s) + 2"
  then obtain j where j: "k - nat (lh_n s) = Suc j" by (metis Suc_diff_Suc)
  then have "j \<le> nat (lh_n s)" using k by simp
  then show "take k (commit_writes s) = log_writes s @ (log_start s, head1 s) # take (k - nat (lh_n s) - 1) (home_writes s)"
    using k by (simp add: commit_writes_def l j)
qed

lemma log_writes_area: "commit_ready s \<Longrightarrow> fst ` set (log_writes s) \<subseteq> log_area (log_start s)"
proof
  fix x assume c: "commit_ready s" and "x \<in> fst ` set (log_writes s)"
  then obtain i where i: "i < nat (lh_n s)" "x = lblk s i" by (auto simp: log_writes_def)
  then have "i + 1 \<le> 30" using commit_readyD(4) [OF c] by simp
  moreover have "x = log_start s + of_nat (i + 1)" using i by (simp add: add_ac)
  ultimately show "x \<in> log_area (log_start s)" unfolding log_area_def by blast
qed

lemma home_not_area: "commit_ready s \<Longrightarrow> i < nat (lh_n s) \<Longrightarrow> lh_block s i \<notin> log_area (log_start s)"
  using commit_readyD(11) by (fastforce simp: log_area_def)

lemma start_in_area: "st \<in> log_area st"
  unfolding log_area_def by (rule CollectI, rule exI [of _ 0]) simp

lemma new_content:
  assumes "commit_ready s" "x \<notin> log_area (log_start s)"
  shows "apply_writes (home_writes s) (disk s) x = content s ROOTDEV x"
proof (cases "x \<in> lh_block s ` {0..<nat (lh_n s)}")
  case True
  then obtain i where "i \<in> set [0..<nat (lh_n s)]" "x = lh_block s i" by auto
  then show ?thesis
    unfolding home_writes_def using commit_readyD(7) [OF assms(1)] by (auto intro!: apply_writes_in)
next
  case False
  then have "bc_ref s x = 0" using assms(1) by (simp add: commit_ready_def)
  then have "content s ROOTDEV x = disk s x" by (rule bc.clean [OF commit_readyD(1) [OF assms(1)]])
  moreover have "x \<notin> fst ` set (home_writes s)" using False by (auto simp: home_writes_def)
  ultimately show ?thesis by (simp add: apply_writes_out)
qed

lemma apply_writes_cong: "x \<in> fst ` set ws \<or> d x = e x \<Longrightarrow> apply_writes ws d x = apply_writes ws e x"
  by (induction ws arbitrary: d e) auto

lemma home_writes_fst: "fst ` set (home_writes s) = lh_block s ` {0..<nat (lh_n s)}"
  by (auto simp: home_writes_def image_image)

lemma home_writes_area:
  "commit_ready s \<Longrightarrow> y \<in> log_area (log_start s) \<Longrightarrow> y \<notin> fst ` set (home_writes s)"
  unfolding home_writes_fst by (metis home_not_area imageE atLeastLessThan_iff)

lemma lblk_area: "commit_ready s \<Longrightarrow> i < nat (lh_n s) \<Longrightarrow> lblk s i \<in> log_area (log_start s)"
  using log_writes_area [of s] by (force simp: log_writes_def image_image)

text \<open>The three phases of a commit, as the disk a crash leaves.\<close>

lemma crash_before:
  assumes "commit_ready s" "k \<le> nat (lh_n s)"
  shows "crash_disk s k (log_start s) = disk s (log_start s)"
    "x \<notin> log_area (log_start s) \<Longrightarrow> crash_disk s k x = disk s x"
proof -
  have t: "fst ` set (take k (log_writes s)) \<subseteq> fst ` set (log_writes s)" by (intro image_mono set_take_subset)
  have "log_start s \<notin> fst ` set (log_writes s)"
    using lblk_not_start [of _ s] commit_readyD(4) [OF assms(1)] by (auto simp: log_writes_def)
  then show "crash_disk s k (log_start s) = disk s (log_start s)"
    unfolding crash_disk_def take_commit_writes(1) [OF assms(2)] using t by (intro apply_writes_out) blast
  show "crash_disk s k x = disk s x" if "x \<notin> log_area (log_start s)"
    unfolding crash_disk_def take_commit_writes(1) [OF assms(2)]
    using t log_writes_area [OF assms(1)] that by (intro apply_writes_out) blast
qed

lemma crash_middle:
  assumes "commit_ready s" "nat (lh_n s) < k" "k < 2 * nat (lh_n s) + 2"
  shows "crash_disk s k (log_start s) = head1 s"
    "i < nat (lh_n s) \<Longrightarrow> crash_disk s k (lblk s i) = content s ROOTDEV (lh_block s i)"
    "x \<notin> log_area (log_start s) \<Longrightarrow> x \<notin> fst ` set (home_writes s) \<Longrightarrow> crash_disk s k x = disk s x"
proof -
  let ?h = "take (k - nat (lh_n s) - 1) (home_writes s)"
  let ?d = "(apply_writes (log_writes s) (disk s))(log_start s := head1 s)"
  have d: "crash_disk s k = apply_writes ?h ?d"
    unfolding crash_disk_def take_commit_writes(2) [OF assms(2,3)] by simp
  have t: "fst ` set ?h \<subseteq> fst ` set (home_writes s)" by (intro image_mono set_take_subset)
  have out: "crash_disk s k y = ?d y" if "y \<notin> fst ` set (home_writes s)" for y
    unfolding d using t that by (intro apply_writes_out) blast
  note area = home_writes_area [OF assms(1)]
  show "crash_disk s k (log_start s) = head1 s" using out [OF area [OF start_in_area]] by simp
  show "crash_disk s k (lblk s i) = content s ROOTDEV (lh_block s i)" if i: "i < nat (lh_n s)"
  proof -
    have "apply_writes (log_writes s) (disk s) (lblk s i) = content s ROOTDEV (lh_block s i)"
      unfolding log_writes_def using i lblk_inj [of _ _ s] commit_readyD(4) [OF assms(1)]
      by (intro apply_writes_in) (auto simp: inj_on_def)
    moreover have "lblk s i \<noteq> log_start s" using i commit_readyD(4) [OF assms(1)] by (intro lblk_not_start) simp
    ultimately show ?thesis using out [OF area [OF lblk_area [OF assms(1) i]]] by simp
  qed
  show "crash_disk s k x = disk s x" if x: "x \<notin> log_area (log_start s)" "x \<notin> fst ` set (home_writes s)"
  proof -
    have "apply_writes (log_writes s) (disk s) x = disk s x"
      using log_writes_area [OF assms(1)] x(1) by (intro apply_writes_out) blast
    moreover have "x \<noteq> log_start s" using x(1) start_in_area by blast
    ultimately show ?thesis using out [OF x(2)] by simp
  qed
qed

lemma crash_after:
  assumes "commit_ready s" "2 * nat (lh_n s) + 2 \<le> k"
  shows "crash_disk s k (log_start s) = head0 s"
    "x \<notin> log_area (log_start s) \<Longrightarrow> crash_disk s k x = content s ROOTDEV x"
proof -
  have d: "crash_disk s k = (apply_writes (home_writes s)
      ((apply_writes (log_writes s) (disk s))(log_start s := head1 s)))(log_start s := head0 s)"
    unfolding crash_disk_def take_commit_writes(3) [OF assms(2)] by (simp add: commit_writes_def)
  show "crash_disk s k (log_start s) = head0 s" by (simp add: d)
  show "crash_disk s k x = content s ROOTDEV x" if x: "x \<notin> log_area (log_start s)"
  proof -
    have ns: "x \<noteq> log_start s" using x start_in_area by blast
    have "apply_writes (log_writes s) (disk s) x = disk s x"
      using log_writes_area [OF assms(1)] x by (intro apply_writes_out) blast
    then have "crash_disk s k x = apply_writes (home_writes s) (disk s) x"
      using ns by (simp add: d) (rule apply_writes_cong, simp)
    then show ?thesis using new_content [OF assms(1) x] by simp
  qed
qed

lemma rec_writes_none: "get32 (d st) 0 = 0 \<Longrightarrow> rec_writes st d = []"
  by (simp add: rec_writes_def)

lemma rec_writes_middle:
  assumes "commit_ready s" "nat (lh_n s) < k" "k < 2 * nat (lh_n s) + 2"
  shows "rec_writes (log_start s) (crash_disk s k) = home_writes s"
  unfolding rec_writes_def home_writes_def crash_middle(1) [OF assms] head1_read(1) [OF assms(1)]
  using crash_middle(2) [OF assms] head1_read(2) [OF assms(1)] by (intro map_cong) (auto simp: add_ac)

section \<open>A transaction for the witnesses\<close>

text \<open>
  The log starts at block 2 and is empty on disk. In \<open>demo_klog True\<close> a transaction has
  written block 50, which is pinned in buffer 0; \<open>demo_klog False\<close> has booted with an empty cache.
\<close>

definition demo_bufs :: "bool \<Rightarrow> nat \<Rightarrow> buf" where
  "demo_bufs p i = \<lparr>valid = (i = 0 \<and> p), bdev = (if i = 0 \<and> p then ROOTDEV else 0),
     blockno = (if i = 0 \<and> p then 50 else 0), refcnt = (if i = 0 \<and> p then 1 else 0),
     bprev = (if i = 0 then 30 else i - 1), bnext = (if i = 30 then 0 else i + 1), bdata = (\<lambda>_. 7)\<rparr>"

definition demo_klog :: "bool \<Rightarrow> (u32 \<Rightarrow> bytes) \<Rightarrow> klog" where
  "demo_klog p d = kbio.extend (kproc.extend demo_kproc (kbio.fields (demo_bufs p) d []))
     (klog.fields 2 0 False ROOTDEV (if p then 1 else 0) (\<lambda>_. 50))"

lemma demo_klog_sel [simp]:
  "bufs (demo_klog p d) = demo_bufs p" "disk (demo_klog p d) = d" "log_start (demo_klog p d) = 2"
  "log_dev (demo_klog p d) = ROOTDEV" "lh_n (demo_klog p d) = (if p then 1 else 0)"
  "lh_block (demo_klog p d) = (\<lambda>_. 50)" "writes (demo_klog p d) = []"
  by (simp_all add: demo_klog_def kbio.defs kproc.defs klog.defs)

lemma upt_4: "[0..<4] = [0, 1, 2, 3 :: nat]"
  by code_simp

lemma upt_30: "[0..<30] = [0, 1, 2, 3, 4, 5, 6, 7, 8, 9, 10, 11, 12, 13, 14, 15, 16, 17, 18, 19, 20, 21, 22, 23, 24, 25, 26, 27, 28, 29 :: nat]"
  by code_simp

lemma demo_blist: "blist (demo_bufs p) [0..<30]"
proof -
  have "dseg (nexts (demo_bufs p)) (prevs (demo_bufs p)) 30 [0..<30] 30"
    by (simp add: upt_30 demo_bufs_def)
  then show ?thesis by (auto simp: blist_def dlist_of_def NBUF_def)
qed

lemma demo_bc:
  "bc_inv (demo_klog p d)" "\<not> bc_held (demo_klog p d) x"
  "bc_ref (demo_klog p d) x = (if x = 50 \<and> p then 1 else 0)"
  "1 < bc_free (demo_klog p d)"
proof -
  let ?s = "demo_klog p d"
  have sl: "\<not> blocked ?s b" for b
    by (simp add: blocked_def demo_klog_def kbio.defs kproc.defs demo_kproc_def kmem.defs)
  have q: "quiet ?s"
    using demo_kproc_ok by (simp add: quiet_def demo_klog_def kbio.defs kproc.defs cpu_ok_def lk_free_def running_def)
  show inv: "bc_inv ?s"
    unfolding bc_inv_def bio_inv_def using demo_blist q
    by (auto simp: sl bufs_ok_def demo_bufs_def)
  show "\<not> bc_held ?s x" by (simp add: bc_held_def sl split: option.splits)
  have c: "cached ?s ROOTDEV x = (if x = 50 \<and> p then Some 0 else None)"
  proof (cases "x = 50 \<and> p")
    case True
    then show ?thesis using cachedI [OF bc_inv_ok [OF inv], of ROOTDEV 0] by (simp add: demo_bufs_def NBUF_def)
  next
    case False
    then show ?thesis by (auto simp: cached_None demo_bufs_def)
  qed
  show "bc_ref ?s x = (if x = 50 \<and> p then 1 else 0)" by (simp add: bc_ref_def c demo_bufs_def)
  have "{1, 2} \<subseteq> {b. b < NBUF \<and> refcnt (bufs ?s b) = 0}" by (auto simp: NBUF_def demo_bufs_def)
  then have "card {1, 2 :: nat} \<le> bc_free ?s" unfolding bc_free_def by (intro card_mono) simp_all
  then show "1 < bc_free ?s" by simp
qed

lemma demo_ready: "commit_ready (demo_klog True d)" "booted (demo_klog False d)"
proof -
  have "(50 :: u32) \<noteq> 2 + of_nat j" if "j \<le> 30" for j
  proof -
    have "unat (of_nat j :: u32) = j" using that by (simp add: unat_of_nat take_bit_nat_eq_self)
    then have "(of_nat j :: u32) \<noteq> 48" using that by auto
    moreover have "(of_nat j :: u32) = 50 - 2" if "(50 :: u32) = 2 + of_nat j" using that by (metis add_diff_cancel_left')
    ultimately show ?thesis by auto
  qed
  then show "commit_ready (demo_klog True d)"
    using demo_bc [of True d] by (simp add: commit_ready_def LOGBLOCKS_def MAXOPBLOCKS_def)
  show "booted (demo_klog False d)"
    using demo_bc [of False d] by (simp add: booted_def)
qed

text \<open>Recovery after the first \<open>k\<close> writes.\<close>

lemma recover_after_crash:
  assumes "commit_ready s" "get32 (disk s (log_start s)) 0 = 0"
    and "booted r" "log_start r = log_start s" "disk r = crash_disk s k"
  shows "\<exists>t. recover_from_log r = Ret () t \<and> lh_n t = 0 \<and> get32 (disk t (log_start s)) 0 = 0
    \<and> (\<forall>x. x \<notin> log_area (log_start s) \<longrightarrow>
          disk t x = (if k \<le> nat (lh_n s) then disk s x else content s ROOTDEV x))"
proof -
  let ?st = "log_start s"
  note c = commit_readyD [OF assms(1)]
  consider (before) "k \<le> nat (lh_n s)" | (middle) "nat (lh_n s) < k" "k < 2 * nat (lh_n s) + 2"
    | (after) "2 * nat (lh_n s) + 2 \<le> k" by linarith
  then have hd: "sint (get32 (crash_disk s k ?st) 0) \<le> LOGBLOCKS \<and>
      (\<forall>i j. i < nat (sint (get32 (crash_disk s k ?st) 0)) \<longrightarrow> j \<le> 30 \<longrightarrow>
        get32 (crash_disk s k ?st) (4 + 4 * i) \<noteq> ?st + of_nat j) \<and>
      (\<forall>x. x \<notin> log_area ?st \<longrightarrow> apply_writes (rec_writes ?st (crash_disk s k)) (crash_disk s k) x =
        (if k \<le> nat (lh_n s) then disk s x else content s ROOTDEV x))"
  proof cases
    case before
    then show ?thesis using crash_before [OF assms(1) before] assms(2)
      by (simp add: rec_writes_none LOGBLOCKS_def MAXOPBLOCKS_def)
  next
    case middle
    have "apply_writes (home_writes s) (crash_disk s k) x = content s ROOTDEV x" if x: "x \<notin> log_area ?st" for x
      using new_content [OF assms(1) x] crash_middle(3) [OF assms(1) middle x]
      by (metis apply_writes_cong)
    then show ?thesis using middle c(11) assms(1) head1_read [OF assms(1)]
      by (auto simp: rec_writes_middle [OF assms(1) middle] crash_middle(1) [OF assms(1) middle] commit_ready_def)
  next
    case after
    then show ?thesis using crash_after [OF assms(1) after] head1_read(3) [OF assms(1)]
      by (simp add: rec_writes_none LOGBLOCKS_def MAXOPBLOCKS_def)
  qed
  from recover_spec [OF assms(3)] hd have "\<exists>t. recover_from_log r = Ret () t \<and> lh_n t = 0
      \<and> (\<forall>x. x \<noteq> ?st \<longrightarrow> disk t x = apply_writes (rec_writes ?st (crash_disk s k)) (crash_disk s k) x)
      \<and> get32 (disk t ?st) 0 = 0"
    unfolding assms(4,5) by blast
  then show ?thesis using hd start_in_area by metis
qed

text \<open>
  C1: the transaction is atomic with respect to crashes. Take a state in which \<open>end_op\<close> calls
  \<open>commit\<close> (kernel/log.c) with an empty header on disk. \<open>commit\<close> returns. Let the machine crash after any
  part \<open>pre\<close> of the disk writes that \<open>commit\<close> issued, in the order it issued them, and let the boot code run
  \<open>recover_from_log\<close> on the disk that is left. Then recovery returns, the in-memory and the on-disk log are empty, and
  outside the log area the disk is exactly what it was before the commit (when no more than the \<open>n\<close> log copies
  had been written) or exactly what the transaction wrote (from the next write on).
\<close>

theorem commit_crash_atomic:
  assumes "commit_ready s" "get32 (disk s (log_start s)) 0 = 0"
  shows "\<exists>t. commit s = Ret () t \<and> (\<forall>pre rest r. writes t = writes s @ pre @ rest \<longrightarrow>
      booted r \<longrightarrow> log_start r = log_start s \<longrightarrow> disk r = apply_writes pre (disk s) \<longrightarrow>
      (\<exists>u. recover_from_log r = Ret () u \<and> lh_n u = 0 \<and> get32 (disk u (log_start s)) 0 = 0
        \<and> (\<forall>x. x \<notin> log_area (log_start s) \<longrightarrow>
              disk u x = (if length pre \<le> nat (lh_n s) then disk s x else content s ROOTDEV x))))"
proof -
  obtain t where t: "commit s = Ret () t" "writes t = writes s @ commit_writes s" using commit_spec [OF assms(1)] by blast
  show ?thesis
  proof (intro exI [of _ t] conjI allI impI)
    fix pre rest :: "(u32 \<times> bytes) list" and r
    assume w: "writes t = writes s @ pre @ rest" and r: "booted r" "log_start r = log_start s" "disk r = apply_writes pre (disk s)"
    have "pre = take (length pre) (commit_writes s)" using w t(2) by (metis append_eq_conv_conj same_append_eq)
    then have "disk r = crash_disk s (length pre)" unfolding crash_disk_def using r(3) by simp
    then show "\<exists>u. recover_from_log r = Ret () u \<and> lh_n u = 0 \<and> get32 (disk u (log_start s)) 0 = 0
        \<and> (\<forall>x. x \<notin> log_area (log_start s) \<longrightarrow>
              disk u x = (if length pre \<le> nat (lh_n s) then disk s x else content s ROOTDEV x))"
      by (rule recover_after_crash [OF assms r(1,2)])
  qed (rule t(1))
qed

theorem commit_crash_atomic_witness:
  "\<exists>t w1 w2 ws u. commit (demo_klog True (\<lambda>_ _. 0)) = Ret () t \<and> writes t = w1 # w2 # ws
     \<and> recover_from_log (demo_klog False (apply_writes [w1, w2] (\<lambda>_ _. 0))) = Ret () u \<and> lh_n u = 0"
proof -
  let ?s = "demo_klog True (\<lambda>_ _. 0)"
  have "get32 (disk ?s (log_start ?s)) 0 = 0" by (simp add: get32_def rd_def upt_4)
  from commit_crash_atomic [OF demo_ready(1) this] obtain t where t: "commit ?s = Ret () t" and
    rec: "\<And>pre rest r :: klog. writes t = writes ?s @ pre @ rest \<Longrightarrow> booted r \<Longrightarrow> log_start r = log_start ?s \<Longrightarrow>
      disk r = apply_writes pre (disk ?s) \<Longrightarrow> \<exists>u. recover_from_log r = Ret () u \<and> lh_n u = 0"
    by (elim exE conjE) (rule that, assumption, blast)
  have "length (commit_writes ?s) = 4" by (simp add: commit_writes_def log_writes_def home_writes_def)
  moreover have "writes t = commit_writes ?s" using commit_spec [OF demo_ready(1), of "\<lambda>_ _. 0"] t by auto
  ultimately obtain w1 w2 ws where w: "writes t = w1 # w2 # ws" by (auto simp: numeral_eq_Suc length_Suc_conv)
  let ?r = "demo_klog False (apply_writes [w1, w2] (\<lambda>_ _. 0))"
  have "\<exists>u. recover_from_log ?r = Ret () u \<and> lh_n u = 0" by (rule rec [of "[w1, w2]" ws]) (simp_all add: w demo_ready(2))
  then show ?thesis using t w by blast
qed

text \<open>
  C2: \<open>commit\<close> implements the transaction. From the same states the code returns, the writes it
  issues are the copies of the pinned blocks into the log, the header, the installation in the
  home locations and the cleared header, in that order, and afterwards the header on disk is empty
  and every block outside the log area holds the content the buffer cache had.
\<close>

theorem commit_installs:
  assumes "commit_ready s"
  shows "\<exists>t. commit s = Ret () t \<and> writes t = writes s @ commit_writes s \<and> lh_n t = 0
    \<and> (\<forall>x. bc_ref t x = 0) \<and> get32 (disk t (log_start s)) 0 = 0
    \<and> (\<forall>x. x \<notin> log_area (log_start s) \<longrightarrow> disk t x = content s ROOTDEV x)"
proof -
  obtain t where t: "commit s = Ret () t" "writes t = writes s @ commit_writes s" "lh_n t = 0"
    "\<forall>x. bc_ref t x = 0" "disk t = apply_writes (commit_writes s) (disk s)"
    using commit_spec [OF assms] by blast
  have d: "disk t = crash_disk s (2 * nat (lh_n s) + 2)"
    unfolding crash_disk_def take_commit_writes(3) [OF order_refl] by (rule t(5))
  show ?thesis using t(1-4) crash_after [OF assms order_refl] head1_read(3) [OF assms] by (auto simp: d)
qed

theorem commit_installs_witness:
  "\<exists>t. commit (demo_klog True (\<lambda>_ _. 0)) = Ret () t \<and> disk t 51 = (\<lambda>_. 0)"
proof -
  have "51 \<notin> log_area (2 :: u32)"
  proof
    assume "51 \<in> log_area (2 :: u32)"
    then obtain j where j: "(51 :: u32) = 2 + of_nat j" "j \<le> 30" by (auto simp: log_area_def)
    from j(1) have "(of_nat j :: u32) = 51 - 2" by (metis add_diff_cancel_left')
    then have "unat (of_nat j :: u32) = 49" by simp
    then show False using j(2) by (simp add: unat_of_nat take_bit_nat_eq_self)
  qed
  moreover have "content (demo_klog True (\<lambda>_ _. 0)) ROOTDEV 51 = (\<lambda>_. 0)"
    using bc.clean [OF demo_bc(1), of True "\<lambda>_ _. 0" 51] demo_bc(3) [of True "\<lambda>_ _. 0" 51] by simp
  ultimately show ?thesis using commit_installs [OF demo_ready(1), of "\<lambda>_ _. 0"] by fastforce
qed

section \<open>A full log\<close>

text \<open>
  Every buffer is pinned by the transaction, which is as large as the log allows
  (\<open>LOGBLOCKS = NBUF\<close> in kernel/param.h).
\<close>

definition full_log :: "'z klog_scheme \<Rightarrow> bool" where
  "full_log s \<longleftrightarrow> bc_inv s \<and> log_dev s = ROOTDEV \<and> lh_n s = LOGBLOCKS
     \<and> distinct (map (lh_block s) [0..<nat (lh_n s)])
     \<and> (\<forall>i<nat (lh_n s). bc_ref s (lh_block s i) = 1 \<and> lh_block s i \<noteq> lblk s 0)"

lemma full_log_buffers:
  assumes "full_log s" "b < NBUF"
  shows "\<exists>i<30. cached s ROOTDEV (lh_block s i) = Some b"
proof -
  note f = assms(1) [unfolded full_log_def LOGBLOCKS_def MAXOPBLOCKS_def]
  let ?g = "\<lambda>i. the (cached s ROOTDEV (lh_block s i))"
  have c: "cached s ROOTDEV (lh_block s i) = Some (?g i)" if "i < 30" for i
  proof -
    have "bc_ref s (lh_block s i) = 1" using f that by simp
    then show ?thesis by (auto simp: bc_ref_def split: option.splits)
  qed
  have "inj_on ?g {0..<30}"
  proof (rule inj_onI)
    fix i j assume ij: "i \<in> {0..<30}" "j \<in> {0..<30}" "?g i = ?g j"
    then have "lh_block s i = lh_block s j"
      using cached_Some [OF c [of i]] cached_Some [OF c [of j]] by simp
    moreover have "inj_on (lh_block s) {0..<30}" using f by (auto simp: distinct_map)
    ultimately show "i = j" using ij by (simp add: inj_on_def)
  qed
  moreover have "?g ` {0..<30} \<subseteq> {0..<NBUF}" using cached_Some [OF c] by auto
  ultimately have "?g ` {0..<30} = {0..<NBUF}" by (intro card_subset_eq) (simp_all add: card_image NBUF_def)
  then have "b \<in> ?g ` {0..<30}" using assms(2) by simp
  then show ?thesis using c by auto
qed

text \<open>
  C29: a transaction that uses the whole log cannot be committed. \<open>begin_op\<close> admits three
  operations of \<open>MAXOPBLOCKS\<close> blocks, so \<open>lh.n\<close> may reach \<open>LOGBLOCKS\<close> = 30; then all \<open>NBUF\<close> = 30
  buffers are pinned, and the first \<open>bread\<close> of \<open>write_log\<close> panics with "bget: no buffers".
\<close>

theorem full_commit_panics:
  assumes "full_log s"
  shows "commit s = Panic ''bget: no buffers''"
proof -
  note f = assms [unfolded full_log_def LOGBLOCKS_def MAXOPBLOCKS_def]
  have b: "refcnt (bufs s b) = 1 \<and> blockno (bufs s b) \<noteq> lblk s 0" if bn: "b < NBUF" for b
  proof -
    obtain i where i: "i < 30" "cached s ROOTDEV (lh_block s i) = Some b" using full_log_buffers [OF assms bn] by blast
    then have "bc_ref s (lh_block s i) = 1" "lh_block s i \<noteq> lblk s 0" using f by auto
    then show ?thesis using cached_Some [OF i(2)] i(2) by (simp add: bc_ref_def)
  qed
  have "{b. b < NBUF \<and> refcnt (bufs s b) = 0} = {}" using b by auto
  then have "bc_free s = 0" unfolding bc_free_def by (simp only: card.empty)
  moreover have "cached s ROOTDEV (lblk s 0) = None" using b by (auto simp: cached_None)
  ultimately have "bread ROOTDEV (lblk s 0) s = Panic ''bget: no buffers''" using f by (intro bc.rd_full) auto
  then show ?thesis using f by (simp add: commit_def write_log_def upt_30)
qed

definition demo_full :: klog where
  "demo_full = (demo_klog True (\<lambda>_ _. 0))\<lparr>lh_n := 30, lh_block := (\<lambda>i. 50 + of_nat i),
     bufs := (\<lambda>i. (demo_bufs True i)\<lparr>valid := True, bdev := ROOTDEV, blockno := 50 + of_nat i, refcnt := 1\<rparr>)\<rparr>"

lemma small32: "i < 40 \<Longrightarrow> unat (of_nat i :: u32) = i"
  by (simp add: unat_of_nat take_bit_nat_eq_self)

lemma demo_full_log: "full_log demo_full"
proof -
  let ?s = demo_full
  have inj: "(50 + of_nat i :: u32) = 50 + of_nat j \<longleftrightarrow> i = j" if "i < 30" "j < 30" for i j
  proof
    assume "(50 + of_nat i :: u32) = 50 + of_nat j"
    then have "(of_nat i :: u32) = of_nat j" by (rule add_left_imp_eq)
    then have "unat (of_nat i :: u32) = unat (of_nat j :: u32)" by (rule arg_cong)
    then show "i = j" using small32 [of i] small32 [of j] that by linarith
  qed (simp only:)
  have "blist (bufs ?s) [0..<30]"
    using demo_blist [of True] blist_links [of "bufs ?s" "demo_bufs True"] by (simp add: demo_full_def)
  moreover have "quiet ?s" "\<not> blocked ?s b" for b
    using demo_kproc_ok
    by (simp_all add: demo_full_def quiet_def demo_klog_def kbio.defs kproc.defs cpu_ok_def lk_free_def running_def
        blocked_def demo_kproc_def kmem.defs)
  moreover have "bufs_ok (bview ?s) (disk ?s)"
    using inj by (auto simp: bufs_ok_def NBUF_def demo_full_def)
  ultimately have inv: "bc_inv ?s" by (auto simp: bc_inv_def bio_inv_def demo_full_def)
  have c: "cached ?s ROOTDEV (50 + of_nat i) = Some i" if "i < 30" for i
    using that by (intro cachedI [OF bc_inv_ok [OF inv]]) (simp_all add: demo_full_def NBUF_def)
  have "bc_ref ?s (50 + of_nat i) = 1" if "i < 30" for i
    using c [OF that] by (simp add: bc_ref_def) (simp add: demo_full_def)
  moreover have "(50 + of_nat i :: u32) \<noteq> 3" if "i < 30" for i
  proof
    assume "(50 + of_nat i :: u32) = 3"
    then have "(of_nat i :: u32) = 3 - 50" by (metis add_diff_cancel_left')
    then show False using small32 [of i] that by simp
  qed
  ultimately show ?thesis
    using inv inj unfolding full_log_def LOGBLOCKS_def MAXOPBLOCKS_def
    by (auto simp: demo_full_def distinct_map inj_on_def)
qed

theorem full_commit_panics_witness: "commit demo_full = Panic ''bget: no buffers''"
  by (rule full_commit_panics [OF demo_full_log])

end
