(* ===== verification/Txn.thy ===== *)
theory Txn
  imports Crash
begin

text \<open>
  Transactions as the file system uses them: between \<open>begin_op\<close> and \<open>end_op\<close> code reads blocks,
  changes them, hands them to \<open>log_write\<close> and releases them. The invariant \<open>tinv\<close> describes the
  states in between: \<open>logged\<close> blocks are pinned, the blocks in \<open>H\<close> are held by the running
  process, every other block agrees with the disk. Nothing reaches the disk before \<open>end_op\<close>.
\<close>

section \<open>The invariant\<close>

definition logged :: "'z klog_scheme \<Rightarrow> u32 set" where
  "logged s = lh_block s ` {0..<nat (lh_n s)}"

definition tinv :: "u32 set \<Rightarrow> 'z klog_scheme \<Rightarrow> bool" where
  "tinv H s \<longleftrightarrow> bc_inv s \<and> log_dev s = ROOTDEV \<and> 0 < log_outstanding s \<and> 0 \<le> lh_n s \<and> finite H
     \<and> distinct (map (lh_block s) [0..<nat (lh_n s)]) \<and> logged s \<inter> log_area (log_start s) = {}
     \<and> (\<forall>x. bc_held s x \<longleftrightarrow> x \<in> H) \<and> (\<forall>x. bc_ref s x = of_bool (x \<in> logged s) + of_bool (x \<in> H))
     \<and> (\<forall>x. x \<notin> logged s \<longrightarrow> content s ROOTDEV x = disk s x)"

text \<open>A step inside a transaction: the cache and the header of the log may change, the disk may not.\<close>

definition tframe :: "'z klog_scheme \<Rightarrow> 'z klog_scheme \<Rightarrow> bool" where
  "tframe s t \<longleftrightarrow> (\<exists>u n blk. bframe s u \<and> t = u\<lparr>lh_n := n, lh_block := blk\<rparr>) \<and> disk t = disk s"

lemma tframe_bframe: "bframe s t \<Longrightarrow> disk t = disk s \<Longrightarrow> tframe s (t :: 'z klog_scheme)"
  unfolding tframe_def by (intro conjI exI [of _ t] exI [of _ "lh_n t"] exI [of _ "lh_block t"]) simp_all

lemma bframe_log_upd:
  fixes s :: "'z klog_scheme"
  assumes "bframe (s\<lparr>lh_n := n, lh_block := blk\<rparr>) t"
  shows "\<exists>u. bframe s u \<and> t = u\<lparr>lh_n := n, lh_block := blk\<rparr>"
proof -
  obtain PR SL B D W where t: "t = s\<lparr>lh_n := n, lh_block := blk, procs := PR, slocks := SL, bufs := B, disk := D, writes := W\<rparr>"
    "\<forall>i. proc_same (PR i) (procs s i)" "\<forall>j. SL (InodeSL j) = slocks s (InodeSL j)"
    using assms unfolding bframe_def by auto
  let ?u = "s\<lparr>procs := PR, slocks := SL, bufs := B, disk := D, writes := W\<rparr>"
  have "bframe s ?u" unfolding bframe_def using t(2,3) by blast
  moreover have "t = ?u\<lparr>lh_n := n, lh_block := blk\<rparr>" by (simp add: t(1))
  ultimately show ?thesis by blast
qed

lemma tframe_refl [simp]: "tframe s s"
  by (simp add: tframe_bframe)

lemma tframe_trans: "tframe s t \<Longrightarrow> tframe t u \<Longrightarrow> tframe s u"
proof -
  assume "tframe s t" "tframe t u"
  then obtain v n blk w m clk where v: "bframe s v" "t = v\<lparr>lh_n := n, lh_block := blk\<rparr>" "disk t = disk s"
    and w: "bframe t w" "u = w\<lparr>lh_n := m, lh_block := clk\<rparr>" "disk u = disk t" unfolding tframe_def by blast
  obtain x where x: "bframe v x" "w = x\<lparr>lh_n := n, lh_block := blk\<rparr>" using bframe_log_upd w(1) unfolding v(2) by blast
  have "bframe s x" using v(1) x(1) by (rule bframe_trans)
  moreover have "u = x\<lparr>lh_n := m, lh_block := clk\<rparr>" using w(2) x(2) by simp
  ultimately show "tframe s u" unfolding tframe_def using v(3) w(3) by metis
qed

lemma tframe_same:
  fixes s t :: "'z klog_scheme"
  assumes "tframe s t"
  shows "klog.more t = klog.more s" "disk t = disk s" "log_start t = log_start s" "log_dev t = log_dev s"
    "log_outstanding t = log_outstanding s" "log_committing t = log_committing s" "mem t = mem s"
    "running t = running s" "quiet t = quiet s" "cur_pid t = cur_pid s" "\<And>i. proc_same (procs t i) (procs s i)"
    "\<And>j. slocks t (InodeSL j) = slocks s (InodeSL j)"
proof -
  obtain u n blk where u: "bframe s u" "t = u\<lparr>lh_n := n, lh_block := blk\<rparr>" "disk t = disk s"
    using assms unfolding tframe_def by blast
  have m: "kbio.more u = kbio.more s" using bframe_same(1) [OF u(1)] .
  show "klog.more t = klog.more s" using u(1,2) by (auto simp: bframe_def)
  show "disk t = disk s" by (fact u(3))
  show "log_start t = log_start s" "log_dev t = log_dev s" "log_outstanding t = log_outstanding s"
    "log_committing t = log_committing s" using bframe_log [OF u(1)] by (simp_all add: u(2))
  show "mem t = mem s" "running t = running s" "quiet t = quiet s" "cur_pid t = cur_pid s"
    using bframe_same [OF u(1)] by (simp_all add: u(2) running_def quiet_def cpu_ok_def lk_free_def cur_pid_def split: option.splits)
  show "\<And>i. proc_same (procs t i) (procs s i)" "\<And>j. slocks t (InodeSL j) = slocks s (InodeSL j)"
    using bframe_same [OF u(1)] by (simp_all add: u(2))
qed

section \<open>Free buffers\<close>

text \<open>Referenced buffers and referenced blocks correspond one to one.\<close>

lemma bc_free_card:
  assumes "bc_inv s"
  shows "bc_free s + card {x. bc_ref s x \<noteq> 0} = NBUF"
proof -
  let ?R = "{b. b < NBUF \<and> refcnt (bufs s b) \<noteq> 0}"
  have c: "cached s ROOTDEV (blockno (bufs s b)) = Some b" if "b \<in> ?R" for b
    by (rule cachedI [OF bc_inv_ok [OF assms] ROOTDEV_nz]) (use that cached_valid_dev [OF assms, of b] in simp_all)
  have ref: "bc_ref s (blockno (bufs s b)) = refcnt (bufs s b)" if "b \<in> ?R" for b
    by (simp add: bc_ref_def c [OF that])
  have inj: "inj_on (\<lambda>b. blockno (bufs s b)) ?R"
  proof (rule inj_onI)
    fix b c' assume h: "b \<in> ?R" "c' \<in> ?R" "blockno (bufs s b) = blockno (bufs s c')"
    have "Some b = Some c'" using c [OF h(1)] c [OF h(2)] unfolding h(3) by (rule trans [OF sym])
    then show "b = c'" by simp
  qed
  have img: "(\<lambda>b. blockno (bufs s b)) ` ?R = {x. bc_ref s x \<noteq> 0}"
  proof
    show "(\<lambda>b. blockno (bufs s b)) ` ?R \<subseteq> {x. bc_ref s x \<noteq> 0}"
    proof (rule image_subsetI)
      fix b assume "b \<in> ?R"
      then show "blockno (bufs s b) \<in> {x. bc_ref s x \<noteq> 0}" using ref [of b] by simp
    qed
    show "{x. bc_ref s x \<noteq> 0} \<subseteq> (\<lambda>b. blockno (bufs s b)) ` ?R"
    proof
      fix x assume "x \<in> {x. bc_ref s x \<noteq> 0}"
      then obtain b where b: "cached s ROOTDEV x = Some b" "refcnt (bufs s b) \<noteq> 0"
        by (auto simp: bc_ref_def split: option.splits)
      then show "x \<in> (\<lambda>b. blockno (bufs s b)) ` ?R" using cached_Some [OF b(1)] by auto
    qed
  qed
  have "card {x. bc_ref s x \<noteq> 0} = card ?R" unfolding img [symmetric] by (rule card_image [OF inj])
  moreover have "card {b. b < NBUF \<and> refcnt (bufs s b) = 0} + card ?R = NBUF"
  proof -
    have "card ({b. b < NBUF \<and> refcnt (bufs s b) = 0} \<union> ?R) = card {b. b < NBUF \<and> refcnt (bufs s b) = 0} + card ?R"
      by (rule card_Un_disjoint) auto
    moreover have "{b. b < NBUF \<and> refcnt (bufs s b) = 0} \<union> ?R = {b. b < NBUF}" by blast
    ultimately show ?thesis by simp
  qed
  ultimately show ?thesis by (simp add: bc_free_def)
qed

lemma tinvD:
  assumes "tinv H s"
  shows "bc_inv s" "log_dev s = ROOTDEV" "0 < log_outstanding s" "0 \<le> lh_n s" "finite H"
    "distinct (map (lh_block s) [0..<nat (lh_n s)])" "logged s \<inter> log_area (log_start s) = {}"
    "\<And>x. bc_held s x \<longleftrightarrow> x \<in> H" "\<And>x. bc_ref s x = of_bool (x \<in> logged s) + of_bool (x \<in> H)"
    "\<And>x. x \<notin> logged s \<Longrightarrow> content s ROOTDEV x = disk s x" "quiet s"
  using assms unfolding tinv_def by (auto simp: bc_inv_def bio_inv_def)

lemma card_logged: "tinv H s \<Longrightarrow> card (logged s) = nat (lh_n s)"
  using tinvD(6) [of H s] by (simp add: logged_def card_image distinct_map)

lemma tinv_free:
  assumes "tinv H s"
  shows "bc_free s + card (logged s \<union> H) = NBUF"
proof -
  have "{x. bc_ref s x \<noteq> 0} = logged s \<union> H"
    using tinvD(9) [OF assms] by (auto simp: of_bool_def split: if_splits)
  then show ?thesis using bc_free_card [OF tinvD(1) [OF assms]] by simp
qed

text \<open>\<open>room k\<close>: \<open>k\<close> more blocks can be logged or held.\<close>

definition room :: "nat \<Rightarrow> u32 set \<Rightarrow> 'z klog_scheme \<Rightarrow> bool" where
  "room k H s \<longleftrightarrow> nat (lh_n s) + card H + k \<le> NBUF"

lemma room_free:
  assumes "tinv H s" "room (Suc k) H s"
  shows "0 < bc_free s"
proof -
  have "card (logged s \<union> H) \<le> nat (lh_n s) + card H"
    using card_Un_le [of "logged s" H] card_logged [OF assms(1)] by simp
  then show ?thesis using tinv_free [OF assms(1)] assms(2) by (simp add: room_def)
qed

section \<open>Reading and releasing\<close>

lemma logged_bframe: "bframe s t \<Longrightarrow> logged t = logged s"
  by (simp add: logged_def bframe_log)

lemma tread:
  assumes "tinv H s" "n \<notin> H" "room 1 H s"
  shows "\<exists>b t. bread ROOTDEV n s = Ret b t \<and> tinv (insert n H) t \<and> cached t ROOTDEV n = Some b
    \<and> bdata (bufs t b) = content s ROOTDEV n \<and> content t ROOTDEV = content s ROOTDEV \<and> tframe s t
    \<and> lh_n t = lh_n s \<and> logged t = logged s \<and> (\<forall>m\<in>H. cached t ROOTDEV m = cached s ROOTDEV m)"
proof -
  note d = tinvD [OF assms(1)]
  have r: "bc_ref s n = of_bool (n \<in> logged s)" using d(9) assms(2) by simp
  have "\<not> bc_held s n" "bc_ref s n \<noteq> - 1" "bc_ref s n = 0 \<longrightarrow> 0 < bc_free s"
    using d(8) assms(2) r room_free [OF assms(1), of 0] assms(3) by auto
  from bc.rd_spec [OF d(1) this] obtain b t where t: "bread ROOTDEV n s = Ret b t" "bc_inv t" "bframe s t"
    "cached t ROOTDEV n = Some b" "\<forall>m. bc_ref s m \<noteq> 0 \<longrightarrow> cached t ROOTDEV m = cached s ROOTDEV m"
    "bc_ref t = (bc_ref s)(n := bc_ref s n + 1)" "bc_held t = (bc_held s)(n := True)"
    "content t ROOTDEV = content s ROOTDEV" "disk t = disk s" by blast
  note f = bframe_log [OF t(3)]
  have l: "logged t = logged s" by (rule logged_bframe [OF t(3)])
  have ti: "tinv (insert n H) t"
    unfolding tinv_def l f using d t(2,6-9) r assms(2) by (auto simp: logged_def)
  have "bc_ref t n \<noteq> 0" using t(6) r by simp
  then have "bdata (bufs t b) = content s ROOTDEV n" using bc.data_cont [OF t(2,4)] t(8) by simp
  moreover have "\<forall>m\<in>H. cached t ROOTDEV m = cached s ROOTDEV m" using t(5) d(9) by auto
  ultimately show ?thesis
    using t ti l f(3) tframe_bframe [OF t(3,9)] by - (rule exI [of _ b], rule exI [of _ t], simp)
qed

lemma trel:
  assumes "tinv H s" "n \<in> H" "cached s ROOTDEV n = Some b"
  shows "\<exists>t. brelse b s = Ret () t \<and> tinv (H - {n}) t \<and> content t ROOTDEV = content s ROOTDEV \<and> tframe s t
    \<and> lh_n t = lh_n s \<and> logged t = logged s \<and> cached t ROOTDEV = cached s ROOTDEV"
proof -
  note d = tinvD [OF assms(1)]
  have r: "bc_ref s n = of_bool (n \<in> logged s) + 1" using d(9) assms(2) by simp
  have nz: "bc_ref s n \<noteq> 0" using r by auto
  have "bc_ref s n = 1 \<longrightarrow> content s ROOTDEV n = disk s n" using d(10) r by auto
  from bc.rel_spec [OF d(1) assms(3) _ nz this] d(8) assms(2) obtain t where t: "brelse b s = Ret () t" "bc_inv t" "bframe s t"
    "cached t ROOTDEV = cached s ROOTDEV" "bc_ref t = (bc_ref s)(n := bc_ref s n - 1)"
    "bc_held t = (bc_held s)(n := False)" "content t ROOTDEV = content s ROOTDEV" "disk t = disk s" by blast
  note f = bframe_log [OF t(3)]
  have l: "logged t = logged s" by (rule logged_bframe [OF t(3)])
  have "tinv (H - {n}) t"
    unfolding tinv_def l f using d t(2,5-8) r assms(2) by (auto simp: logged_def)
  then show ?thesis using t l f(3) tframe_bframe [OF t(3,8)] by (intro exI [of _ t]) simp
qed

section \<open>Logging a block\<close>

lemma absorb_prefix:
  "i \<le> absorb i k bno blk \<and> absorb i k bno blk \<le> i + k
   \<and> (absorb i k bno blk < i + k \<longrightarrow> blk (absorb i k bno blk) = bno)
   \<and> (absorb i k bno blk = i + k \<longrightarrow> bno \<notin> blk ` {i..<i + k})"
proof (induction k arbitrary: i)
  case 0
  show ?case by simp
next
  case (Suc k)
  have "{i..<i + Suc k} = insert i {Suc i..<Suc i + k}" by auto
  then show ?case using Suc [of "Suc i"] by auto
qed

lemma bpin_run:
  assumes "cpu_ok s" "lk_free BcacheLock s"
  shows "bpin b s = Ret () (upd_buf b (\<lambda>x. x\<lparr>refcnt := refcnt x + 1\<rparr>) s)"
proof -
  let ?body = "\<lambda>s. Ret () (upd_buf b (\<lambda>x. x\<lparr>refcnt := refcnt x + 1\<rparr>) s)"
  have "?body (taken BcacheLock s) = Ret () ((taken BcacheLock s)\<lparr>bufs := set_buf b (\<lambda>x. x\<lparr>refcnt := refcnt x + 1\<rparr>) (bufs s)\<rparr>)"
    by (simp add: upd_buf_def taken_def)
  from with_lock_run [where body = ?body, OF assms this] show ?thesis
    unfolding bpin_def by (simp add: same_base_def) (simp add: taken_def upd_buf_def)
qed

definition append_head :: "u32 \<Rightarrow> 'z klog_scheme \<Rightarrow> 'z klog_scheme" where
  "append_head n s = s\<lparr>lh_block := (lh_block s)(nat (lh_n s) := n), lh_n := lh_n s + 1\<rparr>"

lemma log_write_run:
  fixes s :: "'z klog_scheme"
  assumes "quiet s" "0 \<le> lh_n s" "lh_n s < LOGBLOCKS" "0 < log_outstanding s" "blockno (bufs s b) = n"
  shows "n \<in> logged s \<Longrightarrow> log_write b s = Ret () s"
    "n \<notin> logged s \<Longrightarrow> bpin b s = Ret () u \<Longrightarrow> log_write b s = Ret () (append_head n u)"
proof -
  let ?k = "nat (lh_n s)" and ?i = "absorb 0 (nat (lh_n s)) n (lh_block s)"
  have q: "cpu_ok s" "lk_free LogLock s" "lk_free BcacheLock s" using assms(1) by (simp_all add: quiet_def)
  have a: "?i \<le> ?k" "?i < ?k \<Longrightarrow> lh_block s ?i = n" "?i = ?k \<Longrightarrow> n \<notin> logged s"
    using absorb_prefix [of 0 ?k n "lh_block s"] by (simp_all add: logged_def)
  have g: "\<not> LOGBLOCKS \<le> lh_n (taken LogLock s)" "\<not> log_outstanding (taken LogLock s) < 1"
    "lh_n (taken LogLock s) = lh_n s" "bufs (taken LogLock s) = bufs s" "lh_block (taken LogLock s) = lh_block s"
    using assms(3,4) by (simp_all add: taken_def)
  have rel: "release LogLock (v :: 'z klog_scheme) = Ret () (v\<lparr>cpus := cpus s, sie := sie s, locks := locks s\<rparr>)"
    if "same_base v (taken LogLock s)" for v by (rule release_taken [OF q(1,2) that])
  {
    assume "n \<in> logged s"
    then have i: "?i < ?k" using a by linarith
    then have "int ?i \<noteq> lh_n s" using assms(2) by linarith
    moreover have "(lh_block s)(?i := n) = lh_block s" using a(2) [OF i] by auto
    ultimately show "log_write b s = Ret () s"
      unfolding log_write_def acquire_free [OF q(1,2)] kbind.simps g assms(5) Let_def
      using g by (simp add: rel same_base_def taken_def)
  }
  assume "n \<notin> logged s" "bpin b s = Ret () u"
  have i: "?i = ?k"
  proof (rule ccontr)
    assume "?i \<noteq> ?k"
    then have "?i < ?k" using a(1) by simp
    then have "n \<in> logged s" using a(2) unfolding logged_def by (intro image_eqI [of n _ ?i]) simp_all
    then show False using \<open>n \<notin> logged s\<close> by blast
  qed
  then have "int ?i = lh_n s" using assms(2) by simp
  moreover have "cpu_ok (taken LogLock s)" "lk_free BcacheLock (taken LogLock s)" using q by simp_all
  moreover have "u = upd_buf b (\<lambda>x. x\<lparr>refcnt := refcnt x + 1\<rparr>) s" using bpin_run [OF q(1,3), of b] \<open>bpin b s = _\<close> by simp
  ultimately show "log_write b s = Ret () (append_head n u)"
    unfolding log_write_def acquire_free [OF q(1,2)] kbind.simps g assms(5) Let_def
    using g(1,2) i
    by (simp add: bpin_run cpu_ok_def lk_free_def rel same_base_def upd_buf_def taken_def append_head_def)
qed

lemma append_head_sel [simp]:
  fixes s :: "'z klog_scheme"
  shows "bc_inv (append_head n s) = bc_inv s" "bc_ref (append_head n s) = bc_ref s" "bc_held (append_head n s) = bc_held s"
    "bview (append_head n s) = bview s" "disk (append_head n s) = disk s" "log_dev (append_head n s) = log_dev s"
    "log_start (append_head n s) = log_start s" "log_outstanding (append_head n s) = log_outstanding s"
    "lh_n (append_head n s) = lh_n s + 1" "log_committing (append_head n s) = log_committing s"
  by (simp_all add: append_head_def)

lemma logged_append:
  assumes "0 \<le> lh_n s"
  shows "logged (append_head n s) = insert n (logged s)"
    "distinct (map (lh_block (append_head n s)) [0..<nat (lh_n s + 1)]) \<longleftrightarrow>
       distinct (map (lh_block s) [0..<nat (lh_n s)]) \<and> n \<notin> logged s"
proof -
  let ?k = "nat (lh_n s)"
  have k: "nat (lh_n s + 1) = Suc ?k" using assms by simp
  have eq: "lh_block (append_head n s) i = lh_block s i" if "i < ?k" for i using that by (simp add: append_head_def)
  have kk: "lh_block (append_head n s) ?k = n" by (simp add: append_head_def)
  have im: "lh_block (append_head n s) ` {0..<?k} = logged s"
    unfolding logged_def by (rule image_cong [OF refl]) (simp add: eq)
  show "logged (append_head n s) = insert n (logged s)"
    unfolding logged_def [of "append_head n s"] append_head_sel k atLeast0_lessThan_Suc image_insert im kk ..
  have mp: "map (lh_block (append_head n s)) [0..<?k] = map (lh_block s) [0..<?k]"
    by (rule map_cong [OF refl]) (simp add: eq)
  show "distinct (map (lh_block (append_head n s)) [0..<nat (lh_n s + 1)]) \<longleftrightarrow>
      distinct (map (lh_block s) [0..<?k]) \<and> n \<notin> logged s"
    unfolding k upt_Suc_append [OF le0] map_append mp list.map kk by (auto simp: logged_def)
qed

lemma tlog:
  fixes s :: "'z klog_scheme"
  assumes "tinv H s" "n \<in> H" "cached s ROOTDEV n = Some b" "lh_n s < LOGBLOCKS" "n \<notin> log_area (log_start s)"
  shows "\<exists>t. log_write b (set_bdata b d s) = Ret () t \<and> tinv H t \<and> content t ROOTDEV = (content s ROOTDEV)(n := d)
    \<and> tframe s t \<and> logged t = insert n (logged s) \<and> lh_n t = (if n \<in> logged s then lh_n s else lh_n s + 1)
    \<and> cached t ROOTDEV = cached s ROOTDEV"
proof -
  note td = tinvD [OF assms(1)]
  have r: "bc_ref s n = of_bool (n \<in> logged s) + 1" using td(9) assms(2) by simp
  then have nz: "bc_ref s n \<noteq> 0" "bc_ref s n \<noteq> - 1" by auto
  let ?v = "set_bdata b d s"
  from bc.set_spec [OF td(1) assms(3) nz(1) refl, of d]
  have v: "bc_inv ?v" "bframe s ?v" "cached ?v ROOTDEV = cached s ROOTDEV" "bc_ref ?v = bc_ref s"
    "bc_held ?v = bc_held s" "content ?v ROOTDEV = (content s ROOTDEV)(n := d)" "disk ?v = disk s" by blast+
  note f = bframe_log [OF v(2)] and lg = logged_bframe [OF v(2)]
  have bn: "blockno (bufs ?v b) = n" using cached_Some [of "bview ?v" ROOTDEV n b] assms(3) v(3) by (simp add: bview_def)
  have q: "quiet ?v" using v(1) by (simp add: bc_inv_def bio_inv_def)
  show ?thesis
  proof (cases "n \<in> logged s")
    case True
    have "log_write b ?v = Ret () ?v" using log_write_run(1) [OF q _ _ _ bn] f td(3,4) assms(4) True lg by simp
    moreover have "tinv H ?v" unfolding tinv_def lg f using td v True by (auto simp: logged_def)
    ultimately show ?thesis using v lg f(3) True tframe_bframe [OF v(2,7)] by (intro exI [of _ ?v]) (auto simp: insert_absorb)
  next
    case False
    from bc.pin_spec [OF v(1), of n b] v(3,4) assms(3) nz obtain u where u: "bpin b ?v = Ret () u" "bc_inv u" "bframe ?v u"
      "cached u ROOTDEV = cached ?v ROOTDEV" "bc_ref u = (bc_ref ?v)(n := bc_ref ?v n + 1)" "bc_held u = bc_held ?v"
      "content u ROOTDEV = content ?v ROOTDEV" "disk u = disk ?v" by auto
    have su: "bframe s u" by (rule bframe_trans [OF v(2) u(3)])
    note g = bframe_log [OF su] and lu = logged_bframe [OF su]
    let ?t = "append_head n u"
    have "log_write b ?v = Ret () ?t"
      using log_write_run(2) [OF q _ _ _ bn _ u(1)] f td(3,4) assms(4) False lg by simp
    moreover have lt: "logged ?t = insert n (logged s)" using logged_append(1) [of u n] g(3) td(4) lu by simp
    moreover have "tinv H ?t"
      unfolding tinv_def lt using td u(2,5-8) v(4-7) g r assms(2,5) False logged_append(2) [of u n] lu
      by (auto simp: logged_def)
    moreover have "tframe s ?t"
      unfolding tframe_def append_head_def using su u(8) v(7)
      by (intro conjI exI [of _ u] exI [of _ "lh_n u + 1"] exI [of _ "(lh_block u)(nat (lh_n u) := n)"]) simp_all
    ultimately show ?thesis using u v g False by (intro exI [of _ ?t]) simp
  qed
qed

section \<open>Opening and closing a transaction\<close>

text \<open>No system call is inside a transaction and nothing waits in the log.\<close>

definition tidle :: "'z klog_scheme \<Rightarrow> bool" where
  "tidle s \<longleftrightarrow> bc_inv s \<and> log_dev s = ROOTDEV \<and> log_outstanding s = 0 \<and> \<not> log_committing s \<and> lh_n s = 0
     \<and> (\<forall>x. \<not> bc_held s x) \<and> (\<forall>x. bc_ref s x = 0)"

definition topen :: "'z klog_scheme \<Rightarrow> bool" where
  "topen s \<longleftrightarrow> tinv {} s \<and> log_outstanding s = 1 \<and> \<not> log_committing s"

lemma bc_out_upd [simp]:
  fixes s :: "'z klog_scheme"
  shows "bc_inv (s\<lparr>log_outstanding := k\<rparr>) = bc_inv s" "bc_inv (s\<lparr>log_committing := c\<rparr>) = bc_inv s"
    "bc_ref (s\<lparr>log_outstanding := k\<rparr>) = bc_ref s" "bc_ref (s\<lparr>log_committing := c\<rparr>) = bc_ref s"
    "bc_held (s\<lparr>log_outstanding := k\<rparr>) = bc_held s" "bc_held (s\<lparr>log_committing := c\<rparr>) = bc_held s"
    "bc_free (s\<lparr>log_outstanding := k\<rparr>) = bc_free s" "bc_free (s\<lparr>log_committing := c\<rparr>) = bc_free s"
    "bview (s\<lparr>log_outstanding := k\<rparr>) = bview s" "bview (s\<lparr>log_committing := c\<rparr>) = bview s"
proof -
  show v: "bview (s\<lparr>log_outstanding := k\<rparr>) = bview s" "bview (s\<lparr>log_committing := c\<rparr>) = bview s"
    by (simp_all add: bview_def fun_eq_iff)
  show "bc_ref (s\<lparr>log_outstanding := k\<rparr>) = bc_ref s" "bc_ref (s\<lparr>log_committing := c\<rparr>) = bc_ref s"
    "bc_free (s\<lparr>log_outstanding := k\<rparr>) = bc_free s" "bc_free (s\<lparr>log_committing := c\<rparr>) = bc_free s"
    by (simp_all add: bc_ref_def bc_free_def v fun_eq_iff cong: option.case_cong)
  show "bc_held (s\<lparr>log_outstanding := k\<rparr>) = bc_held s" "bc_held (s\<lparr>log_committing := c\<rparr>) = bc_held s"
    by (simp_all add: bc_held_def v fun_eq_iff blocked_def cong: option.case_cong)
  show "bc_inv (s\<lparr>log_outstanding := k\<rparr>) = bc_inv s" "bc_inv (s\<lparr>log_committing := c\<rparr>) = bc_inv s"
    by (simp_all add: bc_inv_def bio_inv_def v quiet_def cpu_ok_def lk_free_def running_def cur_pid_def blocked_def
        cong: option.case_cong)
qed

lemma begin_op_run:
  fixes s :: "'z klog_scheme"
  assumes "quiet s" "\<not> log_committing s" "lh_n s + (log_outstanding s + 1) * MAXOPBLOCKS \<le> LOGBLOCKS"
  shows "begin_op s = Ret () (s\<lparr>log_outstanding := log_outstanding s + 1\<rparr>)"
proof -
  have q: "cpu_ok s" "lk_free LogLock s" using assms(1) by (simp_all add: quiet_def)
  have "same_base ((taken LogLock s)\<lparr>log_outstanding := log_outstanding s + 1\<rparr>) (taken LogLock s)" by (simp add: same_base_def)
  from release_taken [OF q this] show ?thesis
    using assms(2,3) by (simp add: begin_op_def acquire_free [OF q]) (simp add: taken_def)
qed

lemma tidle_begin:
  fixes s :: "'z klog_scheme"
  assumes "tidle s"
  shows "\<exists>t. begin_op s = Ret () t \<and> topen t \<and> t = s\<lparr>log_outstanding := 1\<rparr> \<and> logged t = {} \<and> content t ROOTDEV = disk s"
proof -
  let ?t = "s\<lparr>log_outstanding := 1\<rparr>"
  note d = assms [unfolded tidle_def]
  have c: "content s ROOTDEV x = disk s x" for x using bc.clean [of s x] d by simp
  have "begin_op s = Ret () ?t"
    using begin_op_run [of s] d by (simp add: bc_inv_def bio_inv_def MAXOPBLOCKS_def LOGBLOCKS_def)
  moreover have "topen ?t" unfolding topen_def tinv_def using d c by (simp add: logged_def)
  ultimately show ?thesis using c d by (simp add: logged_def fun_eq_iff)
qed

lemma wakeup_locked:
  fixes s :: "'z klog_scheme"
  assumes "quiet s"
  shows "\<exists>t. kbind (acquire LogLock s) (\<lambda>_ s. kbind (wakeup ChLog (s\<lparr>log_committing := False\<rparr>)) (\<lambda>_ s. release LogLock s)) = Ret () t
    \<and> bframe (s\<lparr>log_committing := False\<rparr>) t \<and> bufs t = bufs s \<and> disk t = disk s \<and> slocks t = slocks s"
proof -
  have q: "cpu_ok s" "lk_free LogLock s" "\<forall>i. lk_free (ProcLock i) s" using assms by (simp_all add: quiet_def)
  let ?u = "(taken LogLock s)\<lparr>log_committing := False\<rparr>"
  let ?P = "\<lambda>i. if i < NPROC then woken ChLog (running ?u) i (procs ?u i) else procs ?u i"
  have "cpu_ok (taken LogLock s)" "\<forall>i. lk_free (ProcLock i) (taken LogLock s)" using q by simp_all
  then have "proc_ready ?u" unfolding proc_ready_def by (simp add: cpu_ok_def lk_free_def)
  then have w: "wakeup ChLog ?u = Ret () (?u\<lparr>procs := ?P\<rparr>)" by (rule wakeup_run)
  let ?t = "s\<lparr>log_committing := False, procs := ?P\<rparr>"
  have "release LogLock (?u\<lparr>procs := ?P\<rparr>) = Ret () ?t"
    by (subst release_taken [OF q(1,2)]) (simp_all add: same_base_def taken_def)
  then have "kbind (acquire LogLock s) (\<lambda>_ s. kbind (wakeup ChLog (s\<lparr>log_committing := False\<rparr>)) (\<lambda>_ s. release LogLock s)) = Ret () ?t"
    by (simp add: acquire_free [OF q(1,2)] w)
  moreover have "bframe (s\<lparr>log_committing := False\<rparr>) ?t"
    by (rule bframeI [where PR = ?P and SL = "slocks s" and B = "bufs s" and D = "disk s" and W = "writes s"])
      (simp_all add: proc_same_def woken_def taken_def)
  ultimately show ?thesis by (intro exI [of _ ?t]) simp
qed

lemma bc_same:
  assumes "bc_inv s" "bframe s t" "bufs t = bufs s" "disk t = disk s" "slocks t = slocks s"
  shows "bc_inv t" "bc_ref t = bc_ref s" "bc_held t = bc_held s" "bview t = bview s"
proof -
  show v: "bview t = bview s" using assms(3) by (simp add: bview_def fun_eq_iff)
  have b: "blocked t = blocked s" using assms(5) by (simp add: blocked_def fun_eq_iff)
  show "bc_inv t" using assms bframe_same(3,4) [OF assms(2)] by (simp add: bc_inv_def bio_inv_def v b)
  show "bc_ref t = bc_ref s" "bc_held t = bc_held s" by (simp_all add: bc_ref_def bc_held_def v b assms(3) fun_eq_iff cong: option.case_cong)
qed

lemma end_op_last:
  fixes s :: "'z klog_scheme"
  assumes "quiet s" "log_outstanding s = 1" "\<not> log_committing s"
    "commit (s\<lparr>log_outstanding := 0, log_committing := True\<rparr>) = Ret () u" "quiet u"
  shows "\<exists>t. end_op s = Ret () t \<and> bframe (u\<lparr>log_committing := False\<rparr>) t \<and> bufs t = bufs u \<and> disk t = disk u \<and> slocks t = slocks u"
proof -
  have q: "cpu_ok s" "lk_free LogLock s" using assms(1) by (simp_all add: quiet_def)
  have "release LogLock ((taken LogLock s)\<lparr>log_outstanding := 0, log_committing := True\<rparr>)
      = Ret () (s\<lparr>log_outstanding := 0, log_committing := True\<rparr>)"
    by (subst release_taken [OF q]) (simp_all add: same_base_def taken_def)
  moreover have "log_outstanding (taken LogLock s) = 1" "\<not> log_committing (taken LogLock s)"
    using assms(2,3) by (simp_all add: taken_def)
  ultimately have "end_op s = kbind (acquire LogLock u) (\<lambda>_ s. kbind (wakeup ChLog (s\<lparr>log_committing := False\<rparr>)) (\<lambda>_ s. release LogLock s))"
    unfolding end_op_def acquire_free [OF q] Let_def using assms(4) by simp
  then show ?thesis using wakeup_locked [OF assms(5)] by simp
qed

text \<open>Closing the last transaction commits: every block outside the log gets its cached content.\<close>

lemma topen_end:
  fixes s :: "'z klog_scheme"
  assumes "topen s" "lh_n s < LOGBLOCKS"
  shows "\<exists>t. end_op s = Ret () t \<and> tidle t \<and> log_start t = log_start s
    \<and> (\<forall>x. x \<notin> log_area (log_start s) \<longrightarrow> disk t x = content s ROOTDEV x)"
proof -
  let ?s = "s\<lparr>log_outstanding := 0, log_committing := True\<rparr>"
  have o: "tinv {} s" "log_outstanding s = 1" "\<not> log_committing s" using assms(1) by (simp_all add: topen_def)
  note d = tinvD [OF o(1)]
  obtain u where u: "commit ?s = Ret () u" "bc_inv u" "\<forall>x. bc_ref u x = 0" "lh_n u = 0" "\<forall>x. \<not> bc_held u x"
    "log_dev u = ROOTDEV" "log_outstanding u = 0" "log_start u = log_start s"
    "\<forall>x. x \<notin> log_area (log_start s) \<longrightarrow> disk u x = content s ROOTDEV x"
  proof (cases "lh_n s = 0")
    case True
    then have "logged s = {}" by (simp add: logged_def)
    then have "commit ?s = Ret () ?s" "\<forall>x. bc_ref ?s x = 0" using True d(9) by (simp_all add: commit_def)
    then show thesis using that [of ?s] d True \<open>logged s = {}\<close> by simp
  next
    case False
    have "\<forall>i<nat (lh_n s). \<forall>j\<le>30. lh_block s i \<noteq> log_start s + of_nat j"
      using d(7) by (fastforce simp: logged_def log_area_def)
    moreover have "0 < bc_free s"
      using tinv_free [OF o(1)] card_logged [OF o(1)] assms(2) by (simp add: NBUF_def LOGBLOCKS_def MAXOPBLOCKS_def)
    ultimately have ready: "commit_ready ?s"
      unfolding commit_ready_def using d False assms(2) by (simp add: logged_def)
    obtain u where u: "commit ?s = Ret () u" "disk u = apply_writes (commit_writes ?s) (disk ?s)" "bc_inv u"
      "\<forall>x. bc_ref u x = 0" "lh_n u = 0" "\<forall>x. \<not> bc_held u x" "bframe (?s\<lparr>lh_n := 0\<rparr>) u"
      using commit_spec [OF ready] by (elim exE conjE) (rule that)
    have "disk u = crash_disk ?s (2 * nat (lh_n ?s) + 2)"
      unfolding crash_disk_def take_commit_writes(3) [OF order_refl] by (rule u(2))
    then show thesis using that [OF u(1,3-6)] crash_after(2) [OF ready order_refl] bframe_log [OF u(7)] d(2) by simp
  qed
  have "quiet u" using u(2) by (simp add: bc_inv_def bio_inv_def)
  then obtain t where t: "end_op s = Ret () t" "bframe (u\<lparr>log_committing := False\<rparr>) t" "bufs t = bufs u" "disk t = disk u" "slocks t = slocks u"
    using end_op_last [OF d(11) o(2,3) u(1)] by blast
  have b: "bc_inv t" "bc_ref t = bc_ref u" "bc_held t = bc_held u"
    using bc_same [of "u\<lparr>log_committing := False\<rparr>" t] u(2) t by simp_all
  then have "tidle t" unfolding tidle_def using u bframe_log [OF t(2)] by simp
  then show ?thesis using t(1,4) u(8,9) bframe_log(2) [OF t(2)] by simp
qed

section \<open>Block updates\<close>

text \<open>
  The idiom of \<open>bzero\<close>, \<open>balloc\<close>, \<open>bfree\<close>, \<open>ialloc\<close> and \<open>iupdate\<close> in kernel/fs.c: read a block,
  change the buffer, log it, release it.
\<close>

definition update_block :: "u32 \<Rightarrow> (bytes \<Rightarrow> bytes) \<Rightarrow> 'z klog_scheme \<Rightarrow> (unit, 'z klog_scheme) kres" where
  "update_block n f s =
     kbind (bread ROOTDEV n s) (\<lambda>b s.
     kbind (log_write b (upd_buf b (\<lambda>x. x\<lparr>bdata := f (bdata x)\<rparr>) s)) (\<lambda>_ s.
     brelse b s))"

lemma tupdate:
  fixes s :: "'z klog_scheme"
  assumes "tinv H s" "n \<notin> H" "room 1 H s" "lh_n s < LOGBLOCKS" "n \<notin> log_area (log_start s)"
  shows "\<exists>t. update_block n f s = Ret () t \<and> tinv H t
    \<and> content t ROOTDEV = (content s ROOTDEV)(n := f (content s ROOTDEV n)) \<and> tframe s t
    \<and> logged t = insert n (logged s) \<and> lh_n t = (if n \<in> logged s then lh_n s else lh_n s + 1)
    \<and> (\<forall>m\<in>H. cached t ROOTDEV m = cached s ROOTDEV m)"
proof -
  obtain b u where u: "bread ROOTDEV n s = Ret b u" "tinv (insert n H) u" "cached u ROOTDEV n = Some b"
    "bdata (bufs u b) = content s ROOTDEV n" "content u ROOTDEV = content s ROOTDEV" "tframe s u" "lh_n u = lh_n s"
    "logged u = logged s" "\<forall>m\<in>H. cached u ROOTDEV m = cached s ROOTDEV m" using tread [OF assms(1-3)] by blast
  let ?d = "f (content s ROOTDEV n)"
  have sd: "upd_buf b (\<lambda>x. x\<lparr>bdata := f (bdata x)\<rparr>) u = set_bdata b ?d u"
    by (simp add: set_bdata_def upd_buf_def set_buf_def u(4))
  obtain v where v: "log_write b (set_bdata b ?d u) = Ret () v" "tinv (insert n H) v"
    "content v ROOTDEV = (content u ROOTDEV)(n := ?d)" "tframe u v" "logged v = insert n (logged u)"
    "lh_n v = (if n \<in> logged u then lh_n u else lh_n u + 1)" "cached v ROOTDEV = cached u ROOTDEV"
    using tlog [OF u(2) insertI1 u(3), where d = ?d] u(6,7) assms(4,5) tframe_same(3) [OF u(6)] by auto
  obtain t where t: "brelse b v = Ret () t" "tinv (insert n H - {n}) t" "content t ROOTDEV = content v ROOTDEV" "tframe v t"
    "lh_n t = lh_n v" "logged t = logged v" "cached t ROOTDEV = cached v ROOTDEV"
    using trel [OF v(2) insertI1, of b] v(7) u(3) by auto
  have "update_block n f s = Ret () t" by (simp add: update_block_def u(1) sd v(1) t(1))
  moreover have "insert n H - {n} = H" using assms(2) by blast
  moreover have "tframe s t" by (rule tframe_trans [OF u(6) tframe_trans [OF v(4) t(4)]])
  ultimately show ?thesis using t u v by (intro exI [of _ t]) simp
qed

section \<open>The interface of transactions\<close>

text \<open>
  What kernel/fs.c relies on: between \<open>begin_op\<close> and \<open>end_op\<close> updates are seen at once through the
  cache, and \<open>end_op\<close> makes all of them durable. \<open>inside k\<close> holds in a transaction that has
  logged at most \<open>k\<close> blocks, \<open>area\<close> are the blocks of the log itself.
\<close>

locale transactions =
  fixes start_t :: "'s \<Rightarrow> (unit, 's) kres"
    and upd :: "u32 \<Rightarrow> (bytes \<Rightarrow> bytes) \<Rightarrow> 's \<Rightarrow> (unit, 's) kres"
    and end_t :: "'s \<Rightarrow> (unit, 's) kres"
    and idle :: "'s \<Rightarrow> bool"
    and inside :: "nat \<Rightarrow> 's \<Rightarrow> bool"
    and val :: "'s \<Rightarrow> u32 \<Rightarrow> bytes"
    and dsk :: "'s \<Rightarrow> u32 \<Rightarrow> bytes"
    and area :: "'s \<Rightarrow> u32 set"
    and cap :: nat
  assumes start_law: "idle s \<Longrightarrow> \<exists>t. start_t s = Ret () t \<and> inside 0 t \<and> val t = dsk s \<and> area t = area s"
    and upd_law: "inside k s \<Longrightarrow> k < cap \<Longrightarrow> n \<notin> area s \<Longrightarrow>
      \<exists>t. upd n f s = Ret () t \<and> inside (Suc k) t \<and> val t = (val s)(n := f (val s n)) \<and> dsk t = dsk s \<and> area t = area s"
    and end_law: "inside k s \<Longrightarrow> k \<le> cap \<Longrightarrow>
      \<exists>t. end_t s = Ret () t \<and> idle t \<and> area t = area s \<and> (\<forall>x. x \<notin> area s \<longrightarrow> dsk t x = val s x)"
begin

lemma updates:
  assumes "inside k s" "k + length us \<le> cap" "\<forall>u\<in>set us. fst u \<notin> area s"
  shows "\<exists>t. kfold (\<lambda>u. upd (fst u) (snd u)) us s = Ret () t \<and> inside (k + length us) t \<and> dsk t = dsk s \<and> area t = area s
    \<and> val t = fold (\<lambda>u d. d(fst u := snd u (d (fst u)))) us (val s)"
  using assms
proof (induction us arbitrary: k s)
  case Nil
  then show ?case by simp
next
  case (Cons u us)
  obtain t where t: "upd (fst u) (snd u) s = Ret () t" "inside (Suc k) t" "dsk t = dsk s" "area t = area s"
    "val t = (val s)(fst u := snd u (val s (fst u)))"
    using upd_law [of k s "fst u" "snd u"] Cons.prems by auto
  from Cons.IH [OF t(2)] Cons.prems t show ?case by auto
qed

lemma transaction:
  assumes "idle s" "length us \<le> cap" "\<forall>u\<in>set us. fst u \<notin> area s"
  shows "\<exists>t. kbind (start_t s) (\<lambda>_ s. kbind (kfold (\<lambda>u. upd (fst u) (snd u)) us s) (\<lambda>_ s. end_t s)) = Ret () t \<and> idle t
    \<and> (\<forall>x. x \<notin> area s \<longrightarrow> dsk t x = fold (\<lambda>u d. d(fst u := snd u (d (fst u)))) us (dsk s) x)"
proof -
  obtain a where a: "start_t s = Ret () a" "inside 0 a" "val a = dsk s" "area a = area s" using start_law [OF assms(1)] by blast
  obtain b where b: "kfold (\<lambda>u. upd (fst u) (snd u)) us a = Ret () b" "inside (length us) b" "area b = area s"
    "val b = fold (\<lambda>u d. d(fst u := snd u (d (fst u)))) us (dsk s)"
    using updates [OF a(2), of us] assms(2,3) a(3,4) by auto
  obtain t where "end_t b = Ret () t" "idle t" "\<forall>x. x \<notin> area s \<longrightarrow> dsk t x = val b x"
    using end_law [OF b(2) assms(2)] b(3) by auto
  then show ?thesis using a b by simp
qed

end

definition within :: "nat \<Rightarrow> 'z klog_scheme \<Rightarrow> bool" where
  "within k s \<longleftrightarrow> topen s \<and> lh_n s \<le> int k"

interpretation tx: transactions begin_op update_block end_op tidle within "\<lambda>s. content s ROOTDEV" disk
  "\<lambda>s. log_area (log_start s)" 29
proof
  fix s :: "'z klog_scheme"
  assume i: "tidle s"
  obtain t where t: "begin_op s = Ret () t" "topen t" "t = s\<lparr>log_outstanding := 1\<rparr>" "content t ROOTDEV = disk s"
    using tidle_begin [OF i] by blast
  moreover have "lh_n t = 0" using i t(3) by (simp add: tidle_def)
  ultimately show "\<exists>t. begin_op s = Ret () t \<and> within 0 t \<and> content t ROOTDEV = disk s \<and> log_area (log_start t) = log_area (log_start s)"
    by (intro exI [of _ t]) (simp add: within_def)
next
  fix s :: "'z klog_scheme" and k n f
  assume a: "within k s" "k < 29" "n \<notin> log_area (log_start s)"
  have i: "tinv {} s" "log_outstanding s = 1" "\<not> log_committing s" "lh_n s \<le> int k" using a(1) by (simp_all add: within_def topen_def)
  then have "room 1 {} s" "lh_n s < LOGBLOCKS"
    using a(2) by (simp_all add: room_def NBUF_def LOGBLOCKS_def MAXOPBLOCKS_def)
  from tupdate [OF i(1) _ this a(3), of f] obtain t where t: "update_block n f s = Ret () t" "tinv {} t"
    "content t ROOTDEV = (content s ROOTDEV)(n := f (content s ROOTDEV n))" "tframe s t"
    "lh_n t = (if n \<in> logged s then lh_n s else lh_n s + 1)" by auto
  then show "\<exists>t. update_block n f s = Ret () t \<and> within (Suc k) t
      \<and> content t ROOTDEV = (content s ROOTDEV)(n := f (content s ROOTDEV n)) \<and> disk t = disk s
      \<and> log_area (log_start t) = log_area (log_start s)"
    using i(2-4) tframe_same [OF t(4)] by (intro exI [of _ t]) (simp add: within_def topen_def)
next
  fix s :: "'z klog_scheme" and k
  assume "within k s" "k \<le> 29"
  then show "\<exists>t. end_op s = Ret () t \<and> tidle t \<and> log_area (log_start t) = log_area (log_start s)
      \<and> (\<forall>x. x \<notin> log_area (log_start s) \<longrightarrow> disk t x = content s ROOTDEV x)"
    using topen_end [of s] by (fastforce simp: within_def LOGBLOCKS_def MAXOPBLOCKS_def)
qed

section \<open>Transactions refine atomic updates\<close>

text \<open>
  C3: A transaction is one atomic update of the disk. From a state with no open transaction,
  \<open>begin_op\<close>, any sequence of at most 29 block updates (read a block, change it, \<open>log_write\<close>,
  \<open>brelse\<close>) outside the log area, and \<open>end_op\<close> all return; afterwards no transaction is open and
  every block outside the log area holds on disk what the updates, applied one after the other to the
  old disk, make of it. An update sees the effect of the earlier ones, and a block updated several
  times takes one slot of the log.
\<close>

theorem transaction_applies:
  assumes "tidle s" "length us \<le> 29" "\<forall>u\<in>set us. fst u \<notin> log_area (log_start s)"
  shows "\<exists>t. kbind (begin_op s) (\<lambda>_ s. kbind (kfold (\<lambda>u. update_block (fst u) (snd u)) us s) (\<lambda>_ s. end_op s)) = Ret () t
    \<and> tidle t \<and> (\<forall>x. x \<notin> log_area (log_start s) \<longrightarrow>
      disk t x = fold (\<lambda>u d. d(fst u := snd u (d (fst u)))) us (disk s) x)"
  by (rule tx.transaction [OF assms])

lemma notin_log_area: "30 < unat (x - a) \<Longrightarrow> x \<notin> log_area a"
proof
  assume h: "30 < unat (x - a)" "x \<in> log_area a"
  then obtain j where j: "x = a + of_nat j" "j \<le> 30" by (auto simp: log_area_def)
  then have "x - a = of_nat j" by simp
  then show False using h(1) j(2) by (simp add: unat_of_nat take_bit_nat_eq_self)
qed

lemma demo_idle: "tidle (demo_klog False d)"
  using demo_bc [of False d] by (simp add: tidle_def) (simp add: demo_klog_def klog.defs kbio.defs kproc.defs)

theorem transaction_applies_witness:
  "\<exists>t. kbind (begin_op (demo_klog False (\<lambda>_ _. 0))) (\<lambda>_ s. kbind (kfold (\<lambda>u. update_block (fst u) (snd u))
     [(50, \<lambda>d. d(0 := 7)), (51, \<lambda>_ _. 1), (50, \<lambda>d. d(1 := d 0))] s) (\<lambda>_ s. end_op s)) = Ret () t
   \<and> disk t 50 0 = 7 \<and> disk t 50 1 = 7 \<and> disk t 51 5 = 1"
proof -
  let ?us = "[(50 :: u32, \<lambda>d :: bytes. d(0 := 7)), (51, \<lambda>_ _. 1), (50, \<lambda>d. d(1 := d 0))]"
  have n: "(50 :: u32) \<notin> log_area 2" "(51 :: u32) \<notin> log_area 2" by (rule notin_log_area, simp)+
  have "\<forall>u\<in>set ?us. fst u \<notin> log_area (log_start (demo_klog False (\<lambda>_ _. 0)))" using n by simp
  from transaction_applies [OF demo_idle _ this] n show ?thesis by auto
qed

end
