(* ===== verification/FsSpec.thy ===== *)
theory FsSpec
  imports Fs Txn
begin

text \<open>
  Properties of \<^verbatim>\<open>kernel/fs.c\<close> inside a transaction: the layout of inodes on disk, the block
  bitmap, path elements. The block operations rest on the interface of transactions in \<open>Txn\<close>.
\<close>

section \<open>Inodes on disk\<close>

lemma put_out:
  "x < off \<or> off + 2 \<le> x \<Longrightarrow> put16 d off v x = d x"
  "x < off \<or> off + 4 \<le> x \<Longrightarrow> put32 d off w x = d x"
  by (auto simp: put16_def put32_def wr_def)

definition put_addrs :: "(nat \<Rightarrow> u32) \<Rightarrow> nat \<Rightarrow> nat \<Rightarrow> bytes \<Rightarrow> bytes" where
  "put_addrs f a k d = fold (\<lambda>i d. put32 d (a + 4 * i) (f i)) [0..<k] d"

lemma put_addrs_Suc: "put_addrs f a (Suc k) d = put32 (put_addrs f a k d) (a + 4 * k) (f k)"
  by (simp add: put_addrs_def)

lemma put_addrs_out: "x < a \<or> a + 4 * k \<le> x \<Longrightarrow> put_addrs f a k d x = d x"
proof (induction k)
  case 0
  show ?case by (simp add: put_addrs_def)
next
  case (Suc k)
  then show ?case by (auto simp: put_addrs_Suc put_out)
qed

lemma get_put_addrs: "i < k \<Longrightarrow> get32 (put_addrs f a k d) (a + 4 * i) = f i"
proof (induction k)
  case (Suc k)
  show ?case
  proof (cases "i = k")
    case True
    then show ?thesis by (simp add: put_addrs_Suc)
  next
    case False
    then show ?thesis using Suc by (simp add: put_addrs_Suc getput_other)
  qed
qed simp

lemma get_out:
  assumes "\<And>x. off \<le> x \<Longrightarrow> x < off + 4 \<Longrightarrow> e x = d x"
  shows "get32 e off = get32 d off" "get16 e off = get16 d off"
  unfolding get32_def get16_def rd_def by (rule arg_cong [of _ _ of_le], rule map_cong [OF refl], simp add: assms)+

lemma store_dinode_eq:
  "store_dinode n off d =
     put_addrs (iaddrs n) (off + 12) 13
       (put32 (put16 (put16 (put16 (put16 d off (itype n)) (off + 2) (imajor n)) (off + 4) (iminor n)) (off + 6) (inlink n))
         (off + 8) (isize n))"
  by (simp add: store_dinode_def put_addrs_def NDIRECT_def Let_def del: upt_Suc)

lemma store_dinode_out: "x < off \<or> off + 64 \<le> x \<Longrightarrow> store_dinode n off d x = d x"
  by (auto simp: store_dinode_eq put_addrs_out put_out)

text \<open>The fields of an inode that live on disk.\<close>

definition same_inode :: "inode \<Rightarrow> inode \<Rightarrow> bool" where
  "same_inode m n \<longleftrightarrow> itype m = itype n \<and> imajor m = imajor n \<and> iminor m = iminor n \<and> inlink m = inlink n
     \<and> isize m = isize n \<and> (\<forall>i\<le>NDIRECT. iaddrs m i = iaddrs n i)"

lemma load_store_dinode: "same_inode (load_dinode (store_dinode n off d) off m) n"
proof -
  let ?h = "put32 (put16 (put16 (put16 (put16 d off (itype n)) (off + 2) (imajor n)) (off + 4) (iminor n)) (off + 6) (inlink n))
         (off + 8) (isize n)"
  have low: "get32 (store_dinode n off d) x = get32 ?h x" "get16 (store_dinode n off d) x = get16 ?h x" if "x + 4 \<le> off + 12" for x
    unfolding store_dinode_eq using that by (intro get_out put_addrs_out; simp)+
  have "get32 (store_dinode n off d) (off + 12 + 4 * i) = iaddrs n i" if "i \<le> NDIRECT" for i
    unfolding store_dinode_eq using that by (intro get_put_addrs) (simp add: NDIRECT_def)
  then show ?thesis
    unfolding same_inode_def load_dinode_def using low by (simp add: getput_other)
qed

lemma load_store_other:
  assumes "off + 64 \<le> o2 \<or> o2 + 64 \<le> off"
  shows "load_dinode (store_dinode n o2 d) off m = load_dinode d off m"
proof -
  have g: "get32 (store_dinode n o2 d) x = get32 d x" "get16 (store_dinode n o2 d) x = get16 d x"
    if "off \<le> x" "x + 4 \<le> off + 64" for x
    using that assms by (intro get_out store_dinode_out; auto)+
  have "(\<lambda>i. if i < NDIRECT + 1 then get32 (store_dinode n o2 d) (off + 12 + 4 * i) else iaddrs m i)
      = (\<lambda>i. if i < NDIRECT + 1 then get32 d (off + 12 + 4 * i) else iaddrs m i)"
    by (rule ext) (simp add: g NDIRECT_def)
  then show ?thesis unfolding load_dinode_def by (simp add: g)
qed

text \<open>Two inodes in the same block do not overlap.\<close>

lemma dip_off_disj:
  assumes "IBLOCK i b = IBLOCK j b" "i \<noteq> j"
  shows "dip_off i + 64 \<le> dip_off j \<or> dip_off j + 64 \<le> dip_off i"
proof -
  have "i div 16 = j div 16" using assms(1) by (simp add: IBLOCK_def IPB_def BSIZE_def)
  then have "unat i div 16 = unat j div 16" using unat_div [of i 16] unat_div [of j 16] by simp
  moreover have "unat i \<noteq> unat j" using assms(2) by (simp add: word_unat_eq_iff)
  ultimately have "unat i mod 16 \<noteq> unat j mod 16" by (metis div_mult_mod_eq)
  then have "unat i mod 16 < unat j mod 16 \<or> unat j mod 16 < unat i mod 16" by linarith
  then show ?thesis by (auto simp: dip_off_def IPB_def BSIZE_def)
qed

section \<open>Inode operations\<close>

lemma tframe_fs:
  fixes s t :: "'z kfs_scheme"
  assumes "tframe s t"
  shows "itable t = itable s" "sb t = sb s" "kfs.more t = kfs.more s"
proof -
  obtain u n blk where u: "bframe s u" "t = u\<lparr>lh_n := n, lh_block := blk\<rparr>" using assms unfolding tframe_def by blast
  then show "itable t = itable s" "sb t = sb s" "kfs.more t = kfs.more s" by (auto simp: bframe_def)
qed

text \<open>A transaction can still log a block.\<close>

definition tspace :: "'z klog_scheme \<Rightarrow> bool" where
  "tspace s \<longleftrightarrow> tinv {} s \<and> lh_n s < LOGBLOCKS"

lemma tspace_room:
  assumes "tspace s"
  shows "tinv {} s" "room 1 {} s" "lh_n s < LOGBLOCKS"
proof -
  show i: "tinv {} s" "lh_n s < LOGBLOCKS" using assms by (simp_all add: tspace_def)
  have "nat (lh_n s) \<le> 29" using i(2) by (simp add: LOGBLOCKS_def MAXOPBLOCKS_def)
  then show "room 1 {} s" by (simp add: room_def NBUF_def MAXOPBLOCKS_def)
qed

lemma iupdate_eq:
  fixes s :: "'z kfs_scheme"
  assumes "tspace s" "idev (itable s ip) = ROOTDEV"
  shows "iupdate ip s = update_block (IBLOCK (inum (itable s ip)) (sb s))
    (store_dinode (itable s ip) (dip_off (inum (itable s ip)))) s"
proof -
  note r = tspace_room [OF assms(1)]
  obtain b u where u: "bread ROOTDEV (IBLOCK (inum (itable s ip)) (sb s)) s = Ret b u" "tframe s u"
    using tread [OF r(1) _ r(2), of "IBLOCK (inum (itable s ip)) (sb s)"] by auto
  show ?thesis
    unfolding iupdate_def update_block_def Let_def using assms(2) u(1) tframe_fs(1) [OF u(2)] by simp
qed

text \<open>
  C16: \<open>iupdate\<close> inside a transaction returns, changes one block, and in it only the 64 bytes of its
  inode: loading the inode back the way \<open>ilock\<close> does gives every field \<open>iupdate\<close> was asked to
  store, and loading any other inode gives what it gave before.
\<close>

theorem iupdate_roundtrip:
  fixes s :: "'z kfs_scheme"
  assumes "tspace s" "idev (itable s ip) = ROOTDEV"
    "IBLOCK (inum (itable s ip)) (sb s) \<notin> log_area (log_start s)"
  shows "\<exists>t. iupdate ip s = Ret () t \<and> tinv {} t \<and> itable t = itable s \<and> disk t = disk s
    \<and> (\<forall>m. same_inode (load_dinode (content t ROOTDEV (IBLOCK (inum (itable s ip)) (sb s))) (dip_off (inum (itable s ip))) m)
         (itable s ip))
    \<and> (\<forall>i m. i \<noteq> inum (itable s ip) \<longrightarrow>
         load_dinode (content t ROOTDEV (IBLOCK i (sb s))) (dip_off i) m = load_dinode (content s ROOTDEV (IBLOCK i (sb s))) (dip_off i) m)"
proof -
  let ?n = "IBLOCK (inum (itable s ip)) (sb s)" and ?o = "dip_off (inum (itable s ip))"
  note r = tspace_room [OF assms(1)]
  obtain t where t: "update_block ?n (store_dinode (itable s ip) ?o) s = Ret () t" "tinv {} t" "tframe s t"
    "content t ROOTDEV = (content s ROOTDEV)(?n := store_dinode (itable s ip) ?o (content s ROOTDEV ?n))"
    using tupdate [OF r(1) _ r(2,3) assms(3), of "store_dinode (itable s ip) ?o"] by auto
  have "load_dinode (content t ROOTDEV (IBLOCK i (sb s))) (dip_off i) m = load_dinode (content s ROOTDEV (IBLOCK i (sb s))) (dip_off i) m"
    if "i \<noteq> inum (itable s ip)" for i m
    using that load_store_other [OF dip_off_disj [of i "sb s" "inum (itable s ip)"], of "itable s ip"] by (auto simp: t(4))
  then show ?thesis
    using t iupdate_eq [OF assms(1,2)] tframe_fs(1) [OF t(3)] tframe_same(2) [OF t(3)]
    by (intro exI [of _ t]) (simp add: load_store_dinode)
qed

section \<open>The block bitmap\<close>

lemma bit_set_bit: "bit_set d bi \<longleftrightarrow> bit (d (bi div 8)) (bi mod 8)"
  unfolding bit_set_def by (simp add: and_exp_eq_0_iff_not_bit push_bit_of_1)

lemma bit_position: "(i :: nat) div 8 = j div 8 \<Longrightarrow> i mod 8 = j mod 8 \<longleftrightarrow> i = j"
  by (metis div_mult_mod_eq)

lemma bit_push_1: "n < 8 \<Longrightarrow> bit (push_bit m 1 :: u8) n \<longleftrightarrow> n = m"
  by (auto simp: bit_exp_iff)

lemma bit_set_mark:
  "bit_set (d(bi div 8 := d (bi div 8) OR push_bit (bi mod 8) 1)) bj \<longleftrightarrow> bj = bi \<or> bit_set d bj"
proof (cases "bj div 8 = bi div 8")
  case True
  show ?thesis
    unfolding bit_set_bit True using bit_position [OF True] bit_push_1 [of "bj mod 8" "bi mod 8"] by (auto simp: bit_or_iff)
next
  case False
  then show ?thesis by (auto simp: bit_set_bit)
qed

lemma bit_set_clear:
  "bit_set (d(bi div 8 := d (bi div 8) AND NOT (push_bit (bi mod 8) 1))) bj \<longleftrightarrow> bj \<noteq> bi \<and> bit_set d bj"
proof (cases "bj div 8 = bi div 8")
  case True
  show ?thesis
    unfolding bit_set_bit True using bit_position [OF True] bit_push_1 [of "bj mod 8" "bi mod 8"]
    by (auto simp: bit_and_iff bit_not_iff)
next
  case False
  then show ?thesis by (auto simp: bit_set_bit)
qed

definition allocated :: "'z kfs_scheme \<Rightarrow> nat \<Rightarrow> bool" where
  "allocated s b \<longleftrightarrow> bit_set (content s ROOTDEV (BBLOCK (of_nat b) (sb s))) (b mod BPB)"

text \<open>
  The layout \<open>mkfs\<close> establishes: the bitmap lies outside the log, and the boot block, the log and
  the bitmap itself are marked as allocated.
\<close>

definition bitmap_ok :: "'z kfs_scheme \<Rightarrow> bool" where
  "bitmap_ok s \<longleftrightarrow> unat (sb_size (sb s)) < 2 ^ 31 \<and> allocated s 0
     \<and> (\<forall>b<unat (sb_size (sb s)). BBLOCK (of_nat b) (sb s) \<notin> log_area (log_start s)
        \<and> (\<not> allocated s b \<longrightarrow> of_nat b \<notin> log_area (log_start s)
             \<and> (\<forall>c<unat (sb_size (sb s)). of_nat b \<noteq> BBLOCK (of_nat c) (sb s))))"

lemma BBLOCK_of_nat: "b < 2 ^ 32 \<Longrightarrow> BBLOCK (of_nat b) x = of_nat (b div BPB) + bmapstart x"
proof -
  assume "b < 2 ^ 32"
  then have "(of_nat b :: u32) div of_nat BPB = of_nat (b div BPB)"
    by (simp add: word_unat_eq_iff unat_div unat_of_nat take_bit_nat_eq_self BPB_def BSIZE_def)
  then show ?thesis by (simp add: BBLOCK_def)
qed

lemma BBLOCK_inj:
  "b < 2 ^ 32 \<Longrightarrow> c < 2 ^ 32 \<Longrightarrow> BBLOCK (of_nat b) x = BBLOCK (of_nat c) x \<longleftrightarrow> b div BPB = c div BPB"
proof -
  assume b: "b < 2 ^ 32" "c < 2 ^ 32"
  have "b div BPB < 2 ^ 32" "c div BPB < 2 ^ 32" using b div_le_dividend le_less_trans by blast+
  then have "(of_nat (b div BPB) :: u32) = of_nat (c div BPB) \<longleftrightarrow> b div BPB = c div BPB"
    by (simp add: word_unat_eq_iff unat_of_nat take_bit_nat_eq_self)
  then show ?thesis unfolding BBLOCK_of_nat [OF b(1)] BBLOCK_of_nat [OF b(2)] by simp
qed

text \<open>\<open>bzero\<close> is an update of its block.\<close>

lemma bzero_eq: "bzero ROOTDEV n s = update_block n (\<lambda>d. wr d 0 (replicate BSIZE 0)) s"
  by (simp add: bzero_def update_block_def Let_def)

lemma mark_eq:
  fixes s :: "'z klog_scheme"
  shows "kbind (bread ROOTDEV n s) (\<lambda>bp s. kbind (log_write bp (upd_buf bp (\<lambda>x. x\<lparr>bdata := f (bdata x)\<rparr>) s)) (\<lambda>_ s.
     kbind (brelse bp s) (\<lambda>_ s. k s))) = kbind (update_block n f s) (\<lambda>_ s. k s)"
  by (simp add: update_block_def kbind_assoc)

lemma allocated_mark:
  fixes s t :: "'z kfs_scheme"
  assumes "sb t = sb s" "b < 2 ^ 32" "c < 2 ^ 32" "n = BBLOCK (of_nat b) (sb s)"
    "content t ROOTDEV n = (content s ROOTDEV n)(b mod BPB div 8 :=
       content s ROOTDEV n (b mod BPB div 8) OR push_bit (b mod BPB mod 8) 1)"
    "\<And>x. x \<noteq> n \<Longrightarrow> x = BBLOCK (of_nat c) (sb s) \<Longrightarrow> content t ROOTDEV x = content s ROOTDEV x"
  shows "allocated t c \<longleftrightarrow> c = b \<or> allocated s c"
proof (cases "b div BPB = c div BPB")
  case True
  then have e: "BBLOCK (of_nat c) (sb s) = n" using BBLOCK_inj [OF assms(2,3)] assms(4) by simp
  have "c mod BPB = b mod BPB \<longleftrightarrow> c = b" using True by (metis div_mult_mod_eq)
  then show ?thesis unfolding allocated_def assms(1) e assms(5) bit_set_mark by simp
next
  case False
  then have "BBLOCK (of_nat c) (sb s) \<noteq> n" using BBLOCK_inj [OF assms(3,2)] assms(4) by simp
  then show ?thesis unfolding allocated_def assms(1) using assms(6) False by auto
qed

abbreviation bm_find :: "'z kfs_scheme \<Rightarrow> nat \<Rightarrow> nat option" where
  "bm_find s k \<equiv> find (\<lambda>bi. \<not> bit_set (content s ROOTDEV (BBLOCK (of_nat (k * BPB)) (sb s))) bi)
     [0..<min BPB (unat (sb_size (sb s)) - k * BPB)]"

lemma balloc_block_full:
  fixes s :: "'z kfs_scheme"
  assumes "tspace s" "bm_find s k = None"
  shows "\<exists>t. balloc_block ROOTDEV k s = Ret None t \<and> tspace t \<and> tframe s t \<and> lh_n t = lh_n s
    \<and> content t ROOTDEV = content s ROOTDEV"
proof -
  let ?n = "BBLOCK (of_nat (k * BPB)) (sb s)"
  note r = tspace_room [OF assms(1)]
  obtain b u where u: "bread ROOTDEV ?n s = Ret b u" "tinv {?n} u" "cached u ROOTDEV ?n = Some b"
    "bdata (bufs u b) = content s ROOTDEV ?n" "content u ROOTDEV = content s ROOTDEV" "tframe s u" "lh_n u = lh_n s"
    using tread [OF r(1) _ r(2), of ?n] by auto
  obtain t where t: "brelse b u = Ret () t" "tinv {} t" "content t ROOTDEV = content u ROOTDEV" "tframe u t" "lh_n t = lh_n u"
    using trel [OF u(2) _ u(3)] by auto
  have "balloc_block ROOTDEV k s = Ret None t"
    unfolding balloc_block_def Let_def u(1) kbind.simps u(4) tframe_fs(2) [OF u(6)] assms(2) option.case t(1) ..
  then show ?thesis using t u r(3) tframe_trans [OF u(6) t(4)] by (simp add: tspace_def)
qed

lemma balloc_block_found:
  fixes s :: "'z kfs_scheme"
  assumes "tinv {} s" "lh_n s + 2 \<le> LOGBLOCKS" "bm_find s k = Some bi" "b = k * BPB + bi"
    "n = BBLOCK (of_nat (k * BPB)) (sb s)" "n \<notin> log_area (log_start s)" "of_nat b \<notin> log_area (log_start s)"
  shows "\<exists>t. balloc_block ROOTDEV k s = Ret (Some (of_nat b)) t \<and> tinv {} t \<and> tframe s t \<and> lh_n t \<le> lh_n s + 2
    \<and> content t ROOTDEV = (let c = (content s ROOTDEV)(n := (content s ROOTDEV n)(bi div 8 :=
         content s ROOTDEV n (bi div 8) OR push_bit (bi mod 8) 1)) in c(of_nat b := wr (c (of_nat b)) 0 (replicate BSIZE 0)))"
proof -
  let ?mark = "\<lambda>d :: bytes. d(bi div 8 := d (bi div 8) OR push_bit (bi mod 8) 1)"
  have r: "room 1 {} s" "lh_n s < LOGBLOCKS" using tspace_room [of s] assms(1,2) by (simp_all add: tspace_def)
  obtain bp u where u: "bread ROOTDEV n s = Ret bp u" "bdata (bufs u bp) = content s ROOTDEV n" "tframe s u"
    using tread [OF assms(1) _ r(1), of n] by auto
  have eq: "balloc_block ROOTDEV k s = kbind (update_block n ?mark s) (\<lambda>_ s. kbind (bzero ROOTDEV (of_nat b) s) (\<lambda>_ s. Ret (Some (of_nat b)) s))"
    unfolding balloc_block_def mark_eq [symmetric] Let_def assms(5) [symmetric] u(1) kbind.simps u(2) tframe_fs(2) [OF u(3)]
    using assms(3) unfolding assms(5) [symmetric] by (simp add: assms(4))
  obtain v where v: "update_block n ?mark s = Ret () v" "tinv {} v" "tframe s v"
    "content v ROOTDEV = (content s ROOTDEV)(n := ?mark (content s ROOTDEV n))" "lh_n v \<le> lh_n s + 1"
    using tupdate [OF assms(1) _ r assms(6), of ?mark] by fastforce
  have r': "room 1 {} v" "lh_n v < LOGBLOCKS" "of_nat b \<notin> log_area (log_start v)"
    using tspace_room [of v] assms(2,7) v(2,5) tframe_same(3) [OF v(3)] by (simp_all add: tspace_def)
  obtain t where t: "update_block (of_nat b) (\<lambda>d. wr d 0 (replicate BSIZE 0)) v = Ret () t" "tinv {} t" "tframe v t"
    "content t ROOTDEV = (content v ROOTDEV)(of_nat b := wr (content v ROOTDEV (of_nat b)) 0 (replicate BSIZE 0))"
    "lh_n t \<le> lh_n v + 1"
    using tupdate [OF v(2) _ r', of "\<lambda>d. wr d 0 (replicate BSIZE 0)"] by fastforce
  have "balloc_block ROOTDEV k s = Ret (Some (of_nat b)) t" unfolding eq v(1) kbind.simps bzero_eq t(1) ..
  then show ?thesis using t v(4,5) tframe_trans [OF v(3) t(3)] by (auto simp: Let_def)
qed

lemma allocated_in:
  assumes "bi < BPB" "k * BPB + bi < 2 ^ 32"
  shows "allocated s (k * BPB + bi) \<longleftrightarrow> bit_set (content s ROOTDEV (BBLOCK (of_nat (k * BPB)) (sb s))) bi"
proof -
  have "BBLOCK (of_nat (k * BPB + bi)) (sb s) = BBLOCK (of_nat (k * BPB)) (sb s)"
    by (subst BBLOCK_inj) (use assms in auto)
  then show ?thesis using assms(1) by (simp add: allocated_def)
qed

lemma bm_find_None:
  assumes "bm_find s k = None" "unat (sb_size (sb s)) < 2 ^ 31" "k * BPB \<le> b" "b < Suc k * BPB" "b < unat (sb_size (sb s))"
  shows "allocated s b"
proof -
  let ?bi = "b - k * BPB"
  have b: "b = k * BPB + ?bi" "?bi < BPB" "?bi < unat (sb_size (sb s)) - k * BPB" using assms(3-5) by auto
  have "allocated s (k * BPB + ?bi)"
    using assms(1,2,5) b by (subst allocated_in) (auto simp: find_None_iff)
  then show ?thesis using b(1) by simp
qed

lemma bm_find_Some:
  assumes "bm_find s k = Some bi" "unat (sb_size (sb s)) < 2 ^ 31"
  shows "bi < BPB" "k * BPB + bi < unat (sb_size (sb s))" "\<not> allocated s (k * BPB + bi)"
    "\<And>c. k * BPB \<le> c \<Longrightarrow> c < k * BPB + bi \<Longrightarrow> allocated s c"
proof -
  obtain i where i: "i < min BPB (unat (sb_size (sb s)) - k * BPB)" "bi = i"
    "\<not> bit_set (content s ROOTDEV (BBLOCK (of_nat (k * BPB)) (sb s))) i"
    "\<And>j. j < i \<Longrightarrow> bit_set (content s ROOTDEV (BBLOCK (of_nat (k * BPB)) (sb s))) j"
    using assms(1) by (auto simp: find_Some_iff)
  show b: "bi < BPB" "k * BPB + bi < unat (sb_size (sb s))" using i(1,2) by auto
  show "\<not> allocated s (k * BPB + bi)" using i b assms(2) by (subst allocated_in) auto
  fix c assume c: "k * BPB \<le> c" "c < k * BPB + bi"
  then have e: "c = k * BPB + (c - k * BPB)" "c - k * BPB < bi" by auto
  have "allocated s (k * BPB + (c - k * BPB))" using i(2,4) b e assms(2) by (subst allocated_in) auto
  then show "allocated s c" using e(1) by simp
qed

text \<open>What \<open>balloc\<close> promises: the first free block, marked and zeroed, or nothing when all are in use.\<close>

definition balloc_post :: "'z kfs_scheme \<Rightarrow> u32 option \<Rightarrow> 'z kfs_scheme \<Rightarrow> bool" where
  "balloc_post s r t \<longleftrightarrow>
     (case r of
        None \<Rightarrow> (\<forall>b<unat (sb_size (sb s)). allocated s b) \<and> content t ROOTDEV = content s ROOTDEV
      | Some a \<Rightarrow> \<exists>b<unat (sb_size (sb s)). a = of_nat b \<and> \<not> allocated s b \<and> (\<forall>c<b. allocated s c)
          \<and> (\<forall>c<unat (sb_size (sb s)). allocated t c \<longleftrightarrow> c = b \<or> allocated s c)
          \<and> rd (content t ROOTDEV a) 0 BSIZE = replicate BSIZE 0
          \<and> (\<forall>x. x \<noteq> a \<longrightarrow> x \<noteq> BBLOCK a (sb s) \<longrightarrow> content t ROOTDEV x = content s ROOTDEV x))"

lemma balloc_block_post:
  fixes s :: "'z kfs_scheme"
  assumes "tinv {} s" "lh_n s + 2 \<le> LOGBLOCKS" "bitmap_ok s" "bm_find s k = Some bi"
    "\<forall>b<k * BPB. b < unat (sb_size (sb s)) \<longrightarrow> allocated s b"
  shows "\<exists>a t. balloc_block ROOTDEV k s = Ret (Some a) t \<and> tinv {} t \<and> tframe s t \<and> lh_n t \<le> lh_n s + 2 \<and> balloc_post s (Some a) t"
proof -
  let ?b = "k * BPB + bi" and ?n = "BBLOCK (of_nat (k * BPB)) (sb s)"
  have sz: "unat (sb_size (sb s)) < 2 ^ 31" using assms(3) by (simp add: bitmap_ok_def)
  note f = bm_find_Some [OF assms(4) sz]
  have l: "?b < 2 ^ 32" "k * BPB < 2 ^ 32" using f(2) sz by auto
  have nb: "BBLOCK (of_nat ?b) (sb s) = ?n" by (subst BBLOCK_inj) (use l f(1) in auto)
  have ok: "?n \<notin> log_area (log_start s)" "of_nat ?b \<notin> log_area (log_start s)"
    "\<And>c. c < unat (sb_size (sb s)) \<Longrightarrow> of_nat ?b \<noteq> BBLOCK (of_nat c) (sb s)"
    using assms(3) f(2,3) nb unfolding bitmap_ok_def by metis+
  obtain t where t: "balloc_block ROOTDEV k s = Ret (Some (of_nat ?b)) t" "tinv {} t" "tframe s t" "lh_n t \<le> lh_n s + 2"
    "content t ROOTDEV = (let c = (content s ROOTDEV)(?n := (content s ROOTDEV ?n)(bi div 8 :=
       content s ROOTDEV ?n (bi div 8) OR push_bit (bi mod 8) 1)) in c(of_nat ?b := wr (c (of_nat ?b)) 0 (replicate BSIZE 0)))"
    using balloc_block_found [OF assms(1,2,4) refl refl ok(1,2)] by blast
  have bn: "of_nat ?b \<noteq> ?n" using ok(3) [OF f(2)] nb by simp
  have m: "bi mod BPB = bi" using f(1) by simp
  have alloc: "allocated t c \<longleftrightarrow> c = ?b \<or> allocated s c" if "c < unat (sb_size (sb s))" for c
    using l(1) that sz ok(3) [OF that] bn
    by (intro allocated_mark [OF tframe_fs(2) [OF t(3)] l(1) _ nb [symmetric]]) (auto simp: t(5) m Let_def)
  have below: "allocated s c" if "c < ?b" for c using f(2,4) assms(5) that by (cases "c < k * BPB") auto
  have zero: "rd (content t ROOTDEV (of_nat ?b)) 0 BSIZE = replicate BSIZE 0" by (simp add: t(5) Let_def)
  have rest: "content t ROOTDEV x = content s ROOTDEV x" if "x \<noteq> of_nat ?b" "x \<noteq> BBLOCK (of_nat ?b) (sb s)" for x
    using that nb by (simp add: t(5) Let_def)
  have "balloc_post s (Some (of_nat ?b)) t"
    unfolding balloc_post_def option.case using f(2,3) below alloc zero rest by (intro exI [of _ ?b]) simp
  then show ?thesis using t(1-4) by blast
qed

lemma balloc_search:
  fixes s :: "'z kfs_scheme"
  assumes "tinv {} s" "lh_n s + 2 \<le> LOGBLOCKS" "bitmap_ok s"
    "\<forall>b<k * BPB. b < unat (sb_size (sb s)) \<longrightarrow> allocated s b" "unat (sb_size (sb s)) \<le> m * BPB"
  shows "\<exists>r t. ksearch (balloc_block ROOTDEV) [k..<m] s = Ret r t \<and> tinv {} t \<and> tframe s t \<and> lh_n t \<le> lh_n s + 2 \<and> balloc_post s r t"
  using assms
proof (induction "m - k" arbitrary: k s)
  case 0
  then have "\<forall>b<unat (sb_size (sb s)). allocated s b" by (metis diff_is_0_eq le_less_trans less_le_trans mult_le_mono1 not_le)
  then show ?case using 0 by (auto simp: balloc_post_def)
next
  case (Suc d)
  then have up: "[k..<m] = k # [Suc k..<m]" by (simp add: upt_conv_Cons)
  show ?case
  proof (cases "bm_find s k")
    case (Some bi)
    then show ?thesis using balloc_block_post [OF Suc.prems(1-3) Some Suc.prems(4)] unfolding up by auto
  next
    case None
    have sz: "unat (sb_size (sb s)) < 2 ^ 31" using Suc.prems(3) by (simp add: bitmap_ok_def)
    obtain u where u: "balloc_block ROOTDEV k s = Ret None u" "tspace u" "tframe s u" "lh_n u = lh_n s"
      "content u ROOTDEV = content s ROOTDEV"
      using balloc_block_full [OF _ None] Suc.prems(1,2) by (auto simp: tspace_def)
    note g = tframe_fs(2) [OF u(3)] tframe_same(3) [OF u(3)]
    have dm: "d = m - Suc k" using Suc.hyps(2) by simp
    have al: "allocated u = allocated s" by (simp add: allocated_def fun_eq_iff u(5) g)
    have "\<forall>b<Suc k * BPB. b < unat (sb_size (sb s)) \<longrightarrow> allocated s b"
      using bm_find_None [OF None sz] Suc.prems(4) not_le by blast
    then obtain r t where t: "ksearch (balloc_block ROOTDEV) [Suc k..<m] u = Ret r t" "tinv {} t" "tframe u t"
      "lh_n t \<le> lh_n u + 2" "balloc_post u r t"
      using Suc.hyps(1) [of "Suc k" u] dm Suc.prems(2,3,5) u(2,4) by (auto simp: tspace_def bitmap_ok_def al g)
    have "balloc_post s r t" using t(5) unfolding balloc_post_def al u(5) g .
    then show ?thesis using t u tframe_trans [OF u(3) t(3)] unfolding up by auto
  qed
qed

text \<open>
  C8: \<open>balloc\<close> allocates correctly. Inside a transaction with room for two more blocks it returns; if
  every block of the file system is in use the result is 0 and no block changes, otherwise the
  result is the first free block, its bit and no other bit of the map is set, the block holds
  zeros, and no other block changes.
\<close>

theorem balloc_correct:
  fixes s :: "'z kfs_scheme"
  assumes "tinv {} s" "lh_n s + 2 \<le> LOGBLOCKS" "bitmap_ok s"
  shows "\<exists>a t. balloc ROOTDEV s = Ret a t \<and> tinv {} t \<and> disk t = disk s
    \<and> (if \<forall>b<unat (sb_size (sb s)). allocated s b then a = 0 \<and> content t ROOTDEV = content s ROOTDEV
       else a \<noteq> 0 \<and> unat a < unat (sb_size (sb s)) \<and> \<not> allocated s (unat a) \<and> (\<forall>c<unat a. allocated s c)
         \<and> (\<forall>c<unat (sb_size (sb s)). allocated t c \<longleftrightarrow> c = unat a \<or> allocated s c)
         \<and> rd (content t ROOTDEV a) 0 BSIZE = replicate BSIZE 0
         \<and> (\<forall>x. x \<noteq> a \<longrightarrow> x \<noteq> BBLOCK a (sb s) \<longrightarrow> content t ROOTDEV x = content s ROOTDEV x))"
proof -
  let ?m = "(unat (sb_size (sb s)) + BPB - 1) div BPB"
  have "unat (sb_size (sb s)) \<le> ?m * BPB" by (simp add: BPB_def BSIZE_def)
  then obtain r t where t: "ksearch (balloc_block ROOTDEV) [0..<?m] s = Ret r t" "tinv {} t" "tframe s t" "balloc_post s r t"
    using balloc_search [OF assms, of 0 ?m] by auto
  have b: "balloc ROOTDEV s = Ret (case r of Some b \<Rightarrow> b | None \<Rightarrow> 0) t" unfolding balloc_def t(1) by simp
  show ?thesis
  proof (cases r)
    case None
    then show ?thesis using b t(2,4) tframe_same(2) [OF t(3)] by (simp add: balloc_post_def)
  next
    case (Some a)
    have "\<exists>c<unat (sb_size (sb s)). a = of_nat c \<and> \<not> allocated s c \<and> (\<forall>d<c. allocated s d)
          \<and> (\<forall>d<unat (sb_size (sb s)). allocated t d \<longleftrightarrow> d = c \<or> allocated s d)
          \<and> rd (content t ROOTDEV a) 0 BSIZE = replicate BSIZE 0
          \<and> (\<forall>x. x \<noteq> a \<longrightarrow> x \<noteq> BBLOCK a (sb s) \<longrightarrow> content t ROOTDEV x = content s ROOTDEV x)"
      using t(4) unfolding Some balloc_post_def option.case .
    then obtain c where c: "c < unat (sb_size (sb s))" "a = of_nat c" "\<not> allocated s c" "\<forall>d<c. allocated s d"
      "\<forall>d<unat (sb_size (sb s)). allocated t d \<longleftrightarrow> d = c \<or> allocated s d"
      "rd (content t ROOTDEV a) 0 BSIZE = replicate BSIZE 0"
      "\<forall>x. x \<noteq> a \<longrightarrow> x \<noteq> BBLOCK a (sb s) \<longrightarrow> content t ROOTDEV x = content s ROOTDEV x" by blast
    have "c < 2 ^ 32" using c(1) assms(3) by (simp add: bitmap_ok_def)
    then have u: "unat a = c" using c(2) by (simp add: unat_of_nat take_bit_nat_eq_self)
    then have nz: "a \<noteq> 0" using c(3) assms(3) by (auto simp: bitmap_ok_def)
    have "\<not> (\<forall>b<unat (sb_size (sb s)). allocated s b)" using c(1,3) by blast
    then show ?thesis using b t(2) tframe_same(2) [OF t(3)] c(1,3-7) nz unfolding u Some option.case
      by (intro exI [of _ a] exI [of _ t]) (simp only: if_False u simp_thms)
  qed
qed

lemma allocated_clear:
  fixes s t :: "'z kfs_scheme"
  assumes "sb t = sb s" "b < 2 ^ 32" "c < 2 ^ 32" "n = BBLOCK (of_nat b) (sb s)"
    "content t ROOTDEV = (content s ROOTDEV)(n := (content s ROOTDEV n)(b mod BPB div 8 :=
       content s ROOTDEV n (b mod BPB div 8) AND NOT (push_bit (b mod BPB mod 8) 1)))"
  shows "allocated t c \<longleftrightarrow> c \<noteq> b \<and> allocated s c"
proof (cases "b div BPB = c div BPB")
  case True
  then have e: "BBLOCK (of_nat c) (sb s) = n" using BBLOCK_inj [OF assms(2,3)] assms(4) by simp
  have "c mod BPB = b mod BPB \<longleftrightarrow> c = b" using True by (metis div_mult_mod_eq)
  then show ?thesis unfolding allocated_def assms(1) e assms(5) fun_upd_same bit_set_clear by simp
next
  case False
  then have "BBLOCK (of_nat c) (sb s) \<noteq> n" using BBLOCK_inj [OF assms(3,2)] assms(4) by simp
  then show ?thesis unfolding allocated_def assms(1,5) using False by auto
qed

text \<open>
  C30: \<open>bfree\<close> of a block that is in use clears its bit and changes nothing else; of a block that is
  free it panics.
\<close>

theorem bfree_correct:
  fixes s :: "'z kfs_scheme"
  assumes "tspace s" "unat (sb_size (sb s)) < 2 ^ 31" "unat b < unat (sb_size (sb s))"
    "BBLOCK b (sb s) \<notin> log_area (log_start s)"
  shows "if allocated s (unat b)
    then \<exists>t. bfree ROOTDEV b s = Ret () t \<and> tinv {} t \<and> disk t = disk s
      \<and> (\<forall>c<unat (sb_size (sb s)). allocated t c \<longleftrightarrow> c \<noteq> unat b \<and> allocated s c)
      \<and> (\<forall>x. x \<noteq> BBLOCK b (sb s) \<longrightarrow> content t ROOTDEV x = content s ROOTDEV x)
    else bfree ROOTDEV b s = Panic ''freeing free block''"
proof -
  let ?n = "BBLOCK b (sb s)" and ?bi = "unat b mod BPB"
  let ?f = "\<lambda>d :: bytes. d(?bi div 8 := d (?bi div 8) AND NOT (push_bit (?bi mod 8) 1))"
  note r = tspace_room [OF assms(1)]
  obtain bp u where u: "bread ROOTDEV ?n s = Ret bp u" "bdata (bufs u bp) = content s ROOTDEV ?n"
    using tread [OF r(1) _ r(2), of ?n] by auto
  have al: "bit_set (content s ROOTDEV ?n) ?bi = allocated s (unat b)" by (simp add: allocated_def)
  show ?thesis
  proof (cases "allocated s (unat b)")
    case True
    obtain t where t: "update_block ?n ?f s = Ret () t" "tinv {} t" "tframe s t"
      "content t ROOTDEV = (content s ROOTDEV)(?n := ?f (content s ROOTDEV ?n))"
      using tupdate [OF r(1) _ r(2,3) assms(4), of ?f] by auto
    have "bfree ROOTDEV b s = Ret () t"
      using t(1) True unfolding bfree_def update_block_def u(1) kbind.simps Let_def u(2) al by simp
    moreover have "allocated t c \<longleftrightarrow> c \<noteq> unat b \<and> allocated s c" if "c < unat (sb_size (sb s))" for c
      using that assms(2,3) by (intro allocated_clear [OF tframe_fs(2) [OF t(3)]]) (auto simp: t(4))
    ultimately show ?thesis using True t(2,4) tframe_same(2) [OF t(3)] by simp
  next
    case False
    then show ?thesis unfolding bfree_def u(1) kbind.simps Let_def u(2) al by simp
  qed
qed

section \<open>A small file system\<close>

text \<open>The state of the upper layers does not matter for a transaction.\<close>

lemma extend_sel [simp]:
  "bufs (klog.extend s x) = bufs s" "disk (klog.extend s x) = disk s" "procs (klog.extend s x) = procs s"
  "slocks (klog.extend s x) = slocks s" "locks (klog.extend s x) = locks s" "cpus (klog.extend s x) = cpus s"
  "hart (klog.extend s x) = hart s" "sie (klog.extend s x) = sie s" "running (klog.extend s x) = running s"
  "lh_n (klog.extend s x) = lh_n s" "lh_block (klog.extend s x) = lh_block s" "log_start (klog.extend s x) = log_start s"
  "log_dev (klog.extend s x) = log_dev s" "log_outstanding (klog.extend s x) = log_outstanding s"
  "log_committing (klog.extend s x) = log_committing s" "mem (klog.extend s x) = mem s"
  by (simp_all add: klog.defs running_def)

lemma bc_extend [simp]:
  "bview (klog.extend s x) = bview s" "bc_ref (klog.extend s x) = bc_ref s" "bc_held (klog.extend s x) = bc_held s"
  "bc_inv (klog.extend s x) = bc_inv s" "logged (klog.extend s x) = logged s"
proof -
  show v: "bview (klog.extend s x) = bview s" by (simp add: bview_def fun_eq_iff)
  show "bc_ref (klog.extend s x) = bc_ref s" "bc_held (klog.extend s x) = bc_held s"
    by (simp_all add: bc_ref_def bc_held_def v fun_eq_iff blocked_def cong: option.case_cong)
  show "bc_inv (klog.extend s x) = bc_inv s"
    by (simp add: bc_inv_def bio_inv_def v quiet_def cpu_ok_def lk_free_def cur_pid_def blocked_def cong: option.case_cong)
  show "logged (klog.extend s x) = logged s" by (simp add: logged_def)
qed

lemma tinv_extend: "tinv H (klog.extend s x) = tinv H s"
  by (simp add: tinv_def)

text \<open>
  A file system of 2000 blocks inside a transaction: the log at block 2, the inodes at block 33, the
  bitmap at block 45, where the first 46 blocks are in use; everything else is zero.
\<close>

definition demo_disk :: "u32 \<Rightarrow> bytes" where
  "demo_disk n = (if n = 45 then (\<lambda>i. if i < 5 then 255 else if i = 5 then 63 else 0) else (\<lambda>_. 0))"

definition demo_sb :: superblock where
  "demo_sb = \<lparr>magic = FSMAGIC, sb_size = 2000, nblocks = 1954, ninodes = 200, nlog = 31, logstart = 2, inodestart = 33, bmapstart = 45\<rparr>"

definition demo_inode :: "nat \<Rightarrow> inode" where
  "demo_inode i = \<lparr>idev = ROOTDEV, inum = 17, iref = 1, ivalid = True, itype = T_FILE, imajor = 0, iminor = 0, inlink = 3,
     isize = 5, iaddrs = (\<lambda>_. 0)(0 := 50)\<rparr>"

definition demo_kfs :: kfs where
  "demo_kfs = klog.extend ((demo_klog False demo_disk)\<lparr>log_outstanding := 1\<rparr>) (kfs.fields demo_inode demo_sb)"

lemma demo_kfs_sel [simp]:
  "disk demo_kfs = demo_disk" "log_start demo_kfs = 2" "lh_n demo_kfs = 0" "itable demo_kfs = demo_inode" "sb demo_kfs = demo_sb"
  by (simp_all add: demo_kfs_def) (simp_all add: klog.defs kfs.defs)

lemma demo_tinv: "tinv {} demo_kfs" "content demo_kfs ROOTDEV = demo_disk" "tspace demo_kfs"
proof -
  obtain t where "begin_op (demo_klog False demo_disk) = Ret () t" "topen t" "t = (demo_klog False demo_disk)\<lparr>log_outstanding := 1\<rparr>"
    "content t ROOTDEV = demo_disk" using tidle_begin [OF demo_idle [of demo_disk]] by auto
  then show "tinv {} demo_kfs" "content demo_kfs ROOTDEV = demo_disk" by (simp_all add: demo_kfs_def tinv_extend topen_def)
  then show "tspace demo_kfs" by (simp add: tspace_def LOGBLOCKS_def MAXOPBLOCKS_def)
qed

theorem iupdate_roundtrip_witness:
  "\<exists>t. iupdate 7 demo_kfs = Ret () t \<and> itable t = itable demo_kfs
     \<and> same_inode (load_dinode (content t ROOTDEV 34) 64 (demo_inode 0)) (demo_inode 7)"
proof -
  have b: "IBLOCK 17 demo_sb = 34" "dip_off 17 = 64" by (simp_all add: IBLOCK_def IPB_def BSIZE_def demo_sb_def dip_off_def)
  have i: "inum (demo_inode 7) = 17" "idev (demo_inode 7) = ROOTDEV" by (simp_all add: demo_inode_def)
  have "(34 :: u32) \<notin> log_area 2" by (rule notin_log_area) simp
  then show ?thesis using iupdate_roundtrip [OF demo_tinv(3), of 7] by (auto simp: i b)
qed

lemma demo_BBLOCK: "b < 2000 \<Longrightarrow> BBLOCK (of_nat b) demo_sb = 45"
  by (simp add: BBLOCK_of_nat BPB_def BSIZE_def demo_sb_def)

lemma demo_allocated: "b < 2000 \<Longrightarrow> allocated demo_kfs b \<longleftrightarrow> b < 46"
proof -
  assume b: "b < 2000"
  have m: "(255 :: u8) = mask 8" "(63 :: u8) = mask 6" by (simp_all add: mask_eq_exp_minus_1)
  have "allocated demo_kfs b \<longleftrightarrow> bit (if b div 8 < 5 then 255 else if b div 8 = 5 then 63 else 0 :: u8) (b mod 8)"
    unfolding allocated_def demo_tinv(2) demo_kfs_sel(5) demo_BBLOCK [OF b] bit_set_bit using b
    by (simp add: demo_disk_def BPB_def BSIZE_def)
  also have "\<dots> \<longleftrightarrow> b < 46"
    unfolding m by (auto simp: bit_mask_iff) presburger+
  finally show ?thesis .
qed

lemma demo_bitmap: "bitmap_ok demo_kfs"
  unfolding bitmap_ok_def
proof (intro conjI allI impI)
  have sz: "unat (sb_size (sb demo_kfs)) = 2000" by (simp add: demo_sb_def)
  show "unat (sb_size (sb demo_kfs)) < 2 ^ 31" by (simp add: demo_sb_def)
  show "allocated demo_kfs 0" by (simp add: demo_allocated)
  fix b assume b: "b < unat (sb_size (sb demo_kfs))"
  have "(45 :: u32) \<notin> log_area 2" by (rule notin_log_area) simp
  then show "BBLOCK (of_nat b) (sb demo_kfs) \<notin> log_area (log_start demo_kfs)" using b sz by (simp add: demo_BBLOCK)
  assume "\<not> allocated demo_kfs b"
  then have c: "46 \<le> b" "b < 2000" using b demo_allocated [of b] sz by auto
  have u: "unat (of_nat b :: u32) = b" using c by (simp add: unat_of_nat take_bit_nat_eq_self)
  have "unat (of_nat b - 2 :: u32) = b - 2" using c u by (simp add: unat_sub word_le_nat_alt)
  then show "of_nat b \<notin> log_area (log_start demo_kfs)" using c by (intro notin_log_area) simp
  fix d assume "d < unat (sb_size (sb demo_kfs))"
  then show "of_nat b \<noteq> BBLOCK (of_nat d) (sb demo_kfs)" using sz c u by (auto simp: demo_BBLOCK)
qed

theorem balloc_correct_witness: "\<exists>t. balloc ROOTDEV demo_kfs = Ret 46 t \<and> allocated t 46 \<and> \<not> allocated t 47"
proof -
  have sz: "unat (sb_size (sb demo_kfs)) = 2000" by (simp add: demo_sb_def)
  have l: "lh_n demo_kfs + 2 \<le> LOGBLOCKS" by (simp add: LOGBLOCKS_def MAXOPBLOCKS_def)
  have no: "\<not> (\<forall>b<unat (sb_size (sb demo_kfs)). allocated demo_kfs b)"
    using demo_allocated [of 46] unfolding sz by (intro notI) (drule spec [of _ 46], simp)
  obtain a t where t: "balloc ROOTDEV demo_kfs = Ret a t" "unat a < 2000" "\<not> allocated demo_kfs (unat a)"
    "\<forall>c<unat a. allocated demo_kfs c" "\<forall>c<2000. allocated t c \<longleftrightarrow> c = unat a \<or> allocated demo_kfs c"
    using balloc_correct [OF demo_tinv(1) l demo_bitmap] unfolding if_not_P [OF no [unfolded sz]] sz if_not_P [OF no] by (auto simp only: if_not_P [OF no [unfolded sz]])
  have "46 \<le> unat a" using t(2,3) demo_allocated [of "unat a"] by simp
  moreover have "\<not> 46 < unat a" using t(4) demo_allocated [of 46] by auto
  ultimately have "unat a = 46" by simp
  then have "a = 46" by (simp add: word_unat_eq_iff)
  then show ?thesis using t(1,5) demo_allocated [of 47] by simp
qed

theorem bfree_correct_witness: "\<exists>t. bfree ROOTDEV 45 demo_kfs = Ret () t \<and> \<not> allocated t 45 \<and> allocated t 44"
proof -
  have b: "BBLOCK 45 demo_sb = 45" using demo_BBLOCK [of 45] by simp
  have "(45 :: u32) \<notin> log_area 2" by (rule notin_log_area) simp
  then have "BBLOCK 45 (sb demo_kfs) \<notin> log_area (log_start demo_kfs)" by (simp add: b)
  from bfree_correct [OF demo_tinv(3) _ _ this] show ?thesis
    using demo_allocated [of 45] demo_allocated [of 44] by (auto simp: demo_sb_def)
qed

section \<open>Path elements\<close>

text \<open>The reference: split the path at every slash and drop the empty pieces.\<close>

fun split_on :: "'a \<Rightarrow> 'a list \<Rightarrow> 'a list list" where
  "split_on c [] = [[]]"
| "split_on c (x # xs) =
     (if x = c then [] # split_on c xs
      else case split_on c xs of [] \<Rightarrow> [[x]] | y # ys \<Rightarrow> (x # y) # ys)"

definition path_elems :: "u8 list \<Rightarrow> u8 list list" where
  "path_elems p = filter (\<lambda>e. e \<noteq> []) (split_on slash p)"

lemma split_on_while:
  "split_on c xs = takeWhile (\<lambda>x. x \<noteq> c) xs # (case dropWhile (\<lambda>x. x \<noteq> c) xs of [] \<Rightarrow> [] | _ # ys \<Rightarrow> split_on c ys)"
  by (induction xs) (auto split: list.splits)

lemma path_elems_Nil [simp]: "path_elems [] = []"
  by (simp add: path_elems_def)

lemma path_elems_slash [simp]: "path_elems (slash # p) = path_elems p"
  by (simp add: path_elems_def)

lemma path_elems_skip [simp]: "path_elems (dropWhile (\<lambda>c. c = slash) p) = path_elems p"
  by (induction p) auto

lemma path_elems_first:
  assumes "p \<noteq> []" "hd p \<noteq> slash"
  shows "path_elems p = takeWhile (\<lambda>c. c \<noteq> slash) p # path_elems (dropWhile (\<lambda>c. c \<noteq> slash) p)"
proof -
  obtain x xs where p: "p = x # xs" "x \<noteq> slash" using assms by (cases p) auto
  have "path_elems p = takeWhile (\<lambda>c. c \<noteq> slash) p # filter (\<lambda>e. e \<noteq> [])
      (case dropWhile (\<lambda>c. c \<noteq> slash) p of [] \<Rightarrow> [] | _ # ys \<Rightarrow> split_on slash ys)"
    unfolding path_elems_def using p by (subst split_on_while) simp
  moreover have "filter (\<lambda>e. e \<noteq> []) (case dropWhile (\<lambda>c. c \<noteq> slash) p of [] \<Rightarrow> [] | _ # ys \<Rightarrow> split_on slash ys)
      = path_elems (dropWhile (\<lambda>c. c \<noteq> slash) p)"
  proof (cases "dropWhile (\<lambda>c. c \<noteq> slash) p")
    case Nil
    show ?thesis unfolding Nil by simp
  next
    case (Cons y ys)
    have "y = slash" using hd_dropWhile [of "\<lambda>c. c \<noteq> slash" p] unfolding Cons by simp
    then show ?thesis unfolding Cons by (simp add: path_elems_def)
  qed
  ultimately show ?thesis by (simp only:)
qed

text \<open>
  C31: \<open>skipelem\<close> takes a path apart the way splitting it at its slashes does, whatever the number of
  leading, doubled and trailing slashes. It fails exactly when the path has no element;
  otherwise the rest it returns has the remaining elements and starts with none of the slashes, and
  the array \<open>name\<close>, still of \<open>DIRSIZ\<close> bytes, reads as the first element cut to \<open>DIRSIZ\<close> bytes.
\<close>

theorem skipelem_splits:
  assumes "0 \<notin> set path" "length name = DIRSIZ"
  shows "case skipelem path name of
      None \<Rightarrow> path_elems path = []
    | Some (rest, nm) \<Rightarrow> path_elems path \<noteq> [] \<and> path_elems rest = tl (path_elems path)
        \<and> (rest = [] \<longleftrightarrow> tl (path_elems path) = []) \<and> length nm = DIRSIZ
        \<and> takeWhile (\<lambda>c. c \<noteq> 0) nm = take DIRSIZ (hd (path_elems path))"
proof -
  let ?p = "dropWhile (\<lambda>c. c = slash) path"
  show ?thesis
  proof (cases "?p = []")
    case True
    then have "path_elems path = []" using path_elems_skip [of path] by (simp only: path_elems_Nil)
    then show ?thesis using True by (simp add: skipelem_def)
  next
    case False
    let ?e = "takeWhile (\<lambda>c. c \<noteq> slash) ?p" and ?r = "dropWhile (\<lambda>c. c = slash) (dropWhile (\<lambda>c. c \<noteq> slash) ?p)"
    let ?nm = "if length ?e \<ge> DIRSIZ then take DIRSIZ ?e else ?e @ 0 # drop (length ?e + 1) name"
    have s: "skipelem path name = Some (?r, ?nm)" using False by (simp add: skipelem_def Let_def)
    have "hd ?p \<noteq> slash" using hd_dropWhile [OF False] .
    from path_elems_first [OF False this] have el: "path_elems path = ?e # path_elems ?r" by simp
    have "set ?e \<subseteq> set path" by (meson set_dropWhileD set_takeWhileD subsetI)
    then have z: "\<forall>c\<in>set ?e. c \<noteq> 0" using assms(1) by blast
    then have tw: "takeWhile (\<lambda>c. c \<noteq> 0) ?e = ?e" "takeWhile (\<lambda>c. c \<noteq> 0) (take DIRSIZ ?e) = take DIRSIZ ?e"
      by (meson takeWhile_eq_all_conv, meson in_set_takeD takeWhile_eq_all_conv)
    have nm: "takeWhile (\<lambda>c. c \<noteq> 0) ?nm = take DIRSIZ ?e" using tw z by (simp add: takeWhile_tail)
    have len: "length ?nm = DIRSIZ" using assms(2) by simp
    have "path_elems ?r = [] \<longleftrightarrow> ?r = []"
    proof
      assume r: "path_elems ?r = []"
      show "?r = []"
      proof (rule ccontr)
        assume n: "?r \<noteq> []"
        from path_elems_first [OF n hd_dropWhile [OF n]] r show False by (simp only: list.distinct)
      qed
    next
      assume "?r = []"
      then show "path_elems ?r = []" by (simp only: path_elems_Nil)
    qed
    then show ?thesis unfolding s option.case prod.case el list.sel using nm len by blast
  qed
qed

theorem skipelem_splits_witness:
  "skipelem [47, 47, 97, 98, 47, 47, 99] (replicate 14 1) = Some ([99], [97, 98, 0] @ replicate 11 1)
   \<and> path_elems [99] = tl (path_elems [47, 47, 97, 98, 47, 47, 99])"
proof -
  have s: "skipelem [47, 47, 97, 98, 47, 47, 99] (replicate 14 1) = Some ([99], [97, 98, 0] @ replicate 11 1)"
    by (simp add: skipelem_def slash_def DIRSIZ_def Let_def)
  then show ?thesis using skipelem_splits [of "[47, 47, 97, 98, 47, 47, 99]" "replicate 14 1"] by (simp add: DIRSIZ_def)
qed

end
