(* ===== verification/PipeSpec.thy ===== *)
theory PipeSpec
  imports File FsSpec
begin

text \<open>
  Ring buffers. A pipe and the console keep their bytes in an array indexed by counters that run on
  and wrap around at \<open>2^32\<close>; both refine a queue of bytes. On top of the queue, \<open>pipewrite\<close> and
  \<open>piperead\<close> are first in, first out across address spaces.
\<close>

section \<open>Ring buffers\<close>

definition ring :: "nat \<Rightarrow> (nat \<Rightarrow> u8) \<Rightarrow> u32 \<Rightarrow> u32 \<Rightarrow> u8 list" where
  "ring N d r w = map (\<lambda>i. d (unat (r + of_nat i) mod N)) [0..<unat (w - r)]"

lemma length_ring [simp]: "length (ring N d r w) = unat (w - r)"
  by (simp add: ring_def)

lemma ring_Nil: "ring N d r w = [] \<longleftrightarrow> r = w"
proof -
  have "unat (w - r) = 0 \<longleftrightarrow> w - r = 0" by (simp add: unat_eq_0)
  then show ?thesis by (auto simp: ring_def)
qed

lemma unat_wrap: "unat ((a :: u32) + b) = (unat a + unat b) mod 2 ^ 32"
  by (simp add: unat_word_ariths)

text \<open>Positions less than \<open>N\<close> apart are different in the array, across the wrap-around of the counters too.\<close>

lemma ring_pos_inj:
  assumes "N dvd 2 ^ 32" "0 < N" "i < N" "j < N" "unat ((r :: u32) + of_nat i) mod N = unat (r + of_nat j) mod N"
  shows "i = j"
proof -
  have N: "N \<le> 2 ^ 32" using assms(1) by (simp add: dvd_imp_le)
  have u: "unat (r + of_nat k) mod N = (unat r + k) mod N" if "k < N" for k
  proof -
    have "unat (of_nat k :: u32) = k" using that N by (simp add: unat_of_nat take_bit_nat_eq_self)
    then show ?thesis unfolding unat_wrap using assms(1) by (simp add: mod_mod_cancel)
  qed
  have eq: "(unat r + i) mod N = (unat r + j) mod N" using assms(5) u assms(3,4) by simp
  show ?thesis
  proof (rule linorder_cases [of i j])
    assume l: "i < j"
    then have "N dvd j - i" using mod_eq_dvd_iff_nat [of "unat r + i" "unat r + j" N] eq by simp
    then show ?thesis using dvd_imp_le [of N "j - i"] l assms(4) by simp
  next
    assume l: "j < i"
    then have "N dvd i - j" using mod_eq_dvd_iff_nat [of "unat r + j" "unat r + i" N] eq by simp
    then show ?thesis using dvd_imp_le [of N "i - j"] l assms(3) by simp
  qed
qed

lemma ring_put:
  assumes "N dvd 2 ^ 32" "N < 2 ^ 32" "unat (w - r) < N"
  shows "ring N (d(unat w mod N := c)) r (w + 1) = ring N d r w @ [c]"
proof -
  let ?n = "unat (w - r)"
  have w: "r + of_nat ?n = w" by simp
  have "unat (w - r + 1) = unat (w - r) + unat (1 :: u32)" using assms(2,3) unat_wrap [of "w - r" 1] by simp
  then have n: "unat (w + 1 - r) = Suc ?n" by (simp add: algebra_simps)
  have "(d(unat w mod N := c)) (unat (r + of_nat i) mod N) = d (unat (r + of_nat i) mod N)" if "i < ?n" for i
    using ring_pos_inj [OF assms(1) _ _ assms(3), of i r] that assms(3) w by auto
  then have "map (\<lambda>i. (d(unat w mod N := c)) (unat (r + of_nat i) mod N)) [0..<?n] = ring N d r w"
    unfolding ring_def by (intro map_cong [OF refl]) simp
  then show ?thesis unfolding ring_def [of _ _ _ "w + 1"] n upt_Suc_append [OF le0] map_append w by simp
qed

lemma ring_get:
  assumes "r \<noteq> w"
  shows "ring N d r w = d (unat r mod N) # ring N d (r + 1) w"
proof -
  have "w - r \<noteq> 0" using assms by simp
  then have "0 < unat (w - r)" by (simp add: unat_gt_0)
  moreover have "unat (w - r - 1) = unat (w - r) - 1" using \<open>w - r \<noteq> 0\<close> by (rule unat_minus_one)
  ultimately have n: "unat (w - r) = Suc (unat (w - (r + 1)))" by (simp add: algebra_simps)
  have "[0..<Suc m] = 0 # map Suc [0..<m]" for m by (simp add: map_Suc_upt upt_conv_Cons del: upt_Suc)
  then show ?thesis unfolding ring_def n by (simp add: comp_def add_ac del: upt_Suc)
qed

section \<open>The interface of a bounded queue\<close>

text \<open>
  What the readers and writers of a ring buffer rely on: the bytes in it are a list, a byte goes in
  at the end when there is room, and comes out at the front.
\<close>

locale byte_queue =
  fixes put :: "u8 \<Rightarrow> 'q \<Rightarrow> 'q"
    and front :: "'q \<Rightarrow> u8"
    and drop1 :: "'q \<Rightarrow> 'q"
    and items :: "'q \<Rightarrow> u8 list"
    and cap :: nat
  assumes put_law: "length (items q) < cap \<Longrightarrow> items (put c q) = items q @ [c]"
    and get_law: "items q \<noteq> [] \<Longrightarrow> items q = front q # items (drop1 q)"
begin

lemma puts: "length (items q) + length cs \<le> cap \<Longrightarrow> items (fold put cs q) = items q @ cs"
  by (induction cs arbitrary: q) (simp_all add: put_law)

lemma drops: "items ((drop1 ^^ k) q) = drop k (items q) \<or> length (items q) < k"
proof (induction k)
  case (Suc k)
  show ?case
  proof (cases "length (items q) < Suc k")
    case False
    then have e: "items ((drop1 ^^ k) q) = drop k (items q)" "drop k (items q) \<noteq> []" using Suc by auto
    then have "items ((drop1 ^^ Suc k) q) = tl (drop k (items q))" using get_law [of "(drop1 ^^ k) q"] by (metis funpow.simps(2) list.sel(3) o_apply)
    then show ?thesis by (simp add: drop_Suc tl_drop)
  qed simp
qed simp

text \<open>First in, first out: what goes into an empty queue comes out in the same order.\<close>

lemma fifo:
  assumes "items q = []" "length cs \<le> cap" "i < length cs"
  shows "front ((drop1 ^^ i) (fold put cs q)) = cs ! i"
proof -
  have l: "items (fold put cs q) = cs" using puts [of q cs] assms(1,2) by simp
  then have "items ((drop1 ^^ i) (fold put cs q)) = drop i cs" using drops [of i "fold put cs q"] assms(3) by auto
  then show ?thesis using get_law [of "(drop1 ^^ i) (fold put cs q)"] assms(3)
    by (metis Cons_nth_drop_Suc drop_eq_Nil list.inject not_le)
qed

end

section \<open>Pipes\<close>

definition pipe_bytes :: "pipe \<Rightarrow> u8 list" where
  "pipe_bytes p = ring 512 (pdata p) (nread p) (nwrite p)"

definition pipe_drop :: "pipe \<Rightarrow> pipe" where
  "pipe_drop p = p\<lparr>nread := nread p + 1\<rparr>"

lemma PIPESIZE_mod: "unat (w mod PIPESIZE) = unat w mod 512"
  by (simp add: PIPESIZE_def unat_mod)

interpretation pq: byte_queue pipe_put pipe_head pipe_drop pipe_bytes 512
proof
  fix q c
  assume "length (pipe_bytes q) < 512"
  then show "pipe_bytes (pipe_put c q) = pipe_bytes q @ [c]"
    unfolding pipe_bytes_def using ring_put [of 512 "nwrite q" "nread q" "pdata q" c]
    by (simp add: pipe_put_def PIPESIZE_mod)
next
  fix q assume "pipe_bytes q \<noteq> []"
  then have "nread q \<noteq> nwrite q" by (simp add: pipe_bytes_def ring_Nil)
  then show "pipe_bytes q = pipe_head q # pipe_bytes (pipe_drop q)"
    unfolding pipe_bytes_def by (subst ring_get) (simp_all add: pipe_head_def PIPESIZE_mod pipe_drop_def)
qed

lemma pipe_empty: "pipe_bytes p = [] \<longleftrightarrow> nread p = nwrite p"
  by (simp add: pipe_bytes_def ring_Nil)

lemma pipe_full: "length (pipe_bytes p) = 512 \<longleftrightarrow> nwrite p = nread p + PIPESIZE"
proof -
  have "unat (nwrite p - nread p) = 512 \<longleftrightarrow> nwrite p - nread p = PIPESIZE"
    by (auto simp: PIPESIZE_def word_unat_eq_iff)
  then show ?thesis by (simp add: pipe_bytes_def algebra_simps)
qed

section \<open>The console's input line\<close>

definition cons_bytes :: "'z kcons_scheme \<Rightarrow> u8 list" where
  "cons_bytes s = ring 128 (cons_buf s) (cons_r s) (cons_e s)"

definition cons_drop :: "'z kcons_scheme \<Rightarrow> 'z kcons_scheme" where
  "cons_drop s = s\<lparr>cons_r := cons_r s + 1\<rparr>"

lemma INPUT_mod: "unat (w mod INPUT_BUF_SIZE) = unat w mod 128"
  by (simp add: INPUT_BUF_SIZE_def unat_mod)

interpretation cq: byte_queue cons_store "\<lambda>s. cons_at s (cons_r s)" cons_drop cons_bytes 128
proof
  fix q :: "'z kcons_scheme" and c
  assume "length (cons_bytes q) < 128"
  then show "cons_bytes (cons_store c q) = cons_bytes q @ [c]"
    unfolding cons_bytes_def using ring_put [of 128 "cons_e q" "cons_r q" "cons_buf q" c]
    by (simp add: cons_store_def INPUT_mod)
next
  fix q :: "'z kcons_scheme" assume "cons_bytes q \<noteq> []"
  then have "cons_r q \<noteq> cons_e q" by (simp add: cons_bytes_def ring_Nil)
  then show "cons_bytes q = cons_at q (cons_r q) # cons_bytes (cons_drop q)"
    unfolding cons_bytes_def by (subst ring_get) (simp_all add: cons_at_def INPUT_mod cons_drop_def)
qed

section \<open>Writing to a pipe\<close>

lemma is_killed_run:
  assumes "cpu_ok s" "lk_free (ProcLock p) s"
  shows "is_killed p s = Ret (killed (procs s p)) s"
  using with_lock_run [OF assms, where body = "\<lambda>s. Ret (killed (procs s p)) s" and a = "killed (procs s p)" and t = "taken (ProcLock p) s"]
  by (simp add: is_killed_def same_base_def taken_def)

lemma upd_pipe_sel [simp]:
  "mem (upd_pipe pi g s) = mem s" "procs (upd_pipe pi g s) = procs s" "running (upd_pipe pi g s) = running s"
  "pipes (upd_pipe pi g s) = (pipes s)(pi := g (pipes s pi))" "proc_ready (upd_pipe pi g s) = proc_ready s"
  "user_range (upd_pipe pi g s) pt w va n = user_range s pt w va n" "ubytes (upd_pipe pi g s) pt va n = ubytes s pt va n"
  "same_base (upd_pipe pi g s) t = same_base s t" "uaddr (upd_pipe pi g s) = uaddr s"
  "user_pages_ok (upd_pipe pi g s) = user_pages_ok s" "taken lk (upd_pipe pi g s) = upd_pipe pi g (taken lk s)"
  by (simp_all add: upd_pipe_def proc_ready_def cpu_ok_def lk_free_def user_range_def ubytes_def uaddr_def same_base_def
      running_def fun_eq_iff user_pages_ok_def upages_def taken_def cong: option.case_cong)

lemma ubytes_Suc: "ubytes s pt va (Suc k) = mem s (uaddr s pt va) # ubytes s pt (va + 1) k"
  using ubytes_split [of 1 "Suc k" s pt va] by (simp add: ubytes_def)

lemma copyin_byte:
  assumes "pt_ok 2 (mem s) pt" "user_range s pt w va (Suc k)"
  shows "copyin pt va 1 s = Ret (0, [mem s (uaddr s pt va)]) s"
proof -
  have "user_range s pt w va 1" using assms(2) by (fastforce simp: user_range_def)
  from copyin_loop_run [OF assms(1) this order_refl, of "[]"] show ?thesis by (simp add: copyin_def ubytes_def)
qed

lemma pipewrite_loop_run:
  fixes s :: "'z kfile_scheme"
  assumes "proc_ready s" "readopen (pipes s pi)" "\<not> killed (procs s pr)" "pagetable (procs s pr) = pt" "pt_ok 2 (mem s) pt"
    "user_range s pt False (addr + of_nat i) k" "length (pipe_bytes (pipes s pi)) + k \<le> 512" "k \<le> f"
  shows "pipewrite_loop f pr pi addr (int i + int k) (int i) s =
    Ret (Some (int i + int k)) (upd_pipe pi (fold pipe_put (ubytes s pt (addr + of_nat i) k)) s)"
  using assms
proof (induction k arbitrary: f i s)
  case 0
  then show ?case by (simp add: upd_pipe_def ubytes_def pipewrite_loop.simps)
next
  case (Suc k)
  obtain g where g: "f = Suc g" "k \<le> g" using Suc.prems(8) by (cases f) auto
  let ?c = "mem s (uaddr s pt (addr + of_nat i))"
  let ?u = "upd_pipe pi (pipe_put ?c) s"
  have nf: "nwrite (pipes s pi) \<noteq> nread (pipes s pi) + PIPESIZE" using pipe_full [of "pipes s pi"] Suc.prems(7) by auto
  have kl: "is_killed pr s = Ret False s" using is_killed_run [of s pr] Suc.prems(1,3) by (simp add: proc_ready_def)
  have ci: "copyin pt (addr + of_nat i) 1 s = Ret (0, [?c]) s" by (rule copyin_byte [OF Suc.prems(5,6)])
  have va: "addr + of_nat i + 1 = addr + of_nat (Suc i)" by simp
  have rg: "user_range s pt False (addr + of_nat (Suc i)) k"
    using user_range_drop [OF Suc.prems(6), of 1] unfolding of_nat_1 va by simp
  have pb: "pipe_bytes (pipe_put ?c (pipes s pi)) = pipe_bytes (pipes s pi) @ [?c]" using Suc.prems(7) by (intro pq.put_law) simp
  have ro: "readopen (pipe_put ?c (pipes s pi))" using Suc.prems(2) by (simp add: pipe_put_def)
  have ih: "pipewrite_loop g pr pi addr (int (Suc i) + int k) (int (Suc i)) ?u =
      Ret (Some (int (Suc i) + int k)) (upd_pipe pi (fold pipe_put (ubytes ?u pt (addr + of_nat (Suc i)) k)) ?u)"
    using Suc.prems(1,3-5,7) g(2) rg pb ro by (intro Suc.IH) simp_all
  have "pipewrite_loop f pr pi addr (int i + int (Suc k)) (int i) s = pipewrite_loop g pr pi addr (int (Suc i) + int k) (int (Suc i)) ?u"
    unfolding g(1) using Suc.prems(2,4) nf kl ci by (subst pipewrite_loop.simps) (simp add: algebra_simps)
  also note ih
  also have "upd_pipe pi (fold pipe_put (ubytes ?u pt (addr + of_nat (Suc i)) k)) ?u
      = upd_pipe pi (fold pipe_put (ubytes s pt (addr + of_nat i) (Suc k))) s"
    unfolding ubytes_Suc va upd_pipe_sel(7) by (simp add: upd_pipe_def)
  finally show ?case by simp
qed

text \<open>Waking the other side and leaving the critical section.\<close>

definition woken_procs :: "chan \<Rightarrow> 'z kproc_scheme \<Rightarrow> nat \<Rightarrow> proc" where
  "woken_procs c s i = (if i < NPROC then woken c (running s) i (procs s i) else procs s i)"

lemma wakeup_release:
  fixes s :: "'z kfile_scheme"
  assumes "quiet s" "same_base u (taken (PipeLock pi) s)" "running u = running s"
  shows "kbind (wakeup c u) (\<lambda>_ s. kbind (release (PipeLock pi) s) (\<lambda>_ s. Ret (i :: int) s)) =
    Ret i (u\<lparr>procs := woken_procs c u, cpus := cpus s, sie := sie s, locks := locks s\<rparr>)"
proof -
  have q: "cpu_ok s" "lk_free (PipeLock pi) s" "\<forall>j. lk_free (ProcLock j) s" using assms(1) by (simp_all add: quiet_def)
  have "proc_ready (taken (PipeLock pi) s)" using q by (simp add: proc_ready_def)
  then have "proc_ready u" using assms(2) by (simp add: proc_ready_def cpu_ok_def lk_free_def same_base_def)
  from wakeup_run [OF this, of c] have w: "wakeup c u = Ret () (u\<lparr>procs := woken_procs c u\<rparr>)"
    by (simp add: woken_procs_def [abs_def])
  have "same_base (u\<lparr>procs := woken_procs c u\<rparr>) (taken (PipeLock pi) s)" using assms(2) by (simp add: same_base_def)
  from release_taken [OF q(1,2) this] show ?thesis by (simp add: w)
qed

lemma pipewrite_run:
  fixes s :: "'z kfile_scheme"
  assumes "quiet s" "running s = Some pr" "readopen (pipes s pi)" "\<not> killed (procs s pr)" "pagetable (procs s pr) = pt"
    "pt_ok 2 (mem s) pt" "user_range s pt False addr k" "length (pipe_bytes (pipes s pi)) + k \<le> 512"
  shows "pipewrite pi addr (int k) s = Ret (int k)
    (upd_pipe pi (fold pipe_put (ubytes s pt addr k)) (s\<lparr>procs := woken_procs (ChPipeR pi) s\<rparr>))"
proof -
  let ?u = "upd_pipe pi (fold pipe_put (ubytes s pt addr k)) (taken (PipeLock pi) s)"
  have q: "cpu_ok s" "lk_free (PipeLock pi) s" using assms(1) by (simp_all add: quiet_def)
  have pr: "proc_ready (taken (PipeLock pi) s)" using assms(1) by (simp add: quiet_def proc_ready_def)
  have t: "pipes (taken (PipeLock pi) s) = pipes s" "procs (taken (PipeLock pi) s) = procs s" "mem (taken (PipeLock pi) s) = mem s"
    by (simp_all add: taken_def)
  have ur: "user_range (taken (PipeLock pi) s) = user_range s" "ubytes (taken (PipeLock pi) s) = ubytes s"
    by (simp_all add: user_range_def ubytes_def uaddr_def t fun_eq_iff)
  have lp: "pipewrite_loop (nat (int k)) pr pi addr (int k) 0 (taken (PipeLock pi) s) = Ret (Some (int k)) ?u"
    using pipewrite_loop_run [of "taken (PipeLock pi) s" pi pr pt addr 0 k k] pr assms by (simp add: t ur)
  have run: "running ?u = running s" by (simp only: upd_pipe_sel) (simp add: running_def taken_def)
  have "pipewrite pi addr (int k) s = Ret (int k) (?u\<lparr>procs := woken_procs (ChPipeR pi) ?u, cpus := cpus s, sie := sie s, locks := locks s\<rparr>)"
    unfolding pipewrite_def curproc_run [OF q(1) assms(2)] kbind.simps acquire_free [OF q] lp option.case
    by (rule wakeup_release [OF assms(1) _ run]) (simp only: upd_pipe_sel, simp add: same_base_def)
  moreover have "woken_procs (ChPipeR pi) ?u = woken_procs (ChPipeR pi) s"
    by (rule ext) (simp add: woken_procs_def run t)
  ultimately show ?thesis by (simp add: upd_pipe_def taken_def)
qed

section \<open>Reading from a pipe\<close>

lemma copyout_byte:
  assumes "pt_ok 2 (mem s) pt" "user_range s pt True va (Suc k)"
  shows "copyout pt va [c] s = Ret 0 (s\<lparr>mem := (mem s)(uaddr s pt va := c)\<rparr>)"
proof -
  let ?e = "entry s pt va" and ?f = "pt_find 2 (mem s) pt (PGROUNDDOWN va)"
  note up = user_page_run [OF assms zero_less_Suc]
  have en: "entry s pt (PGROUNDDOWN va) = ?e" by (rule entry_same_page [OF same_page_PGROUNDDOWN])
  have ev: "?e AND PTE_V \<noteq> 0" "?e AND PTE_W \<noteq> 0"
    using assms(2) by (auto simp: user_range_def Let_def dest: spec [of _ 0])
  have wk: "walk pt (PGROUNDDOWN va) False s = Ret ?f s" using up(2) by (simp add: walk_def walk_noalloc)
  have pf: "?f \<noteq> 0" "ld ?f s = ?e"
    using pt_find_entry [OF assms(1), of "PGROUNDDOWN va"] ev(1) en by (auto simp: ld_def split: if_splits)
  have un: "unat (va - PGROUNDDOWN va) = pgoff va" using pgoff_less [of va] by (simp add: sub_PGROUNDDOWN unat_of_nat64)
  have m: "min (4096 - pgoff va) (Suc 0) = Suc 0" using pgoff_less [of va] by simp
  have st: "store_bytes (mem s) (PTE2PA ?e + (va - PGROUNDDOWN va)) [c] = (mem s)(uaddr s pt va := c)"
    unfolding store_bytes_def uaddr_def sub_PGROUNDDOWN by (rule ext) (auto simp: unat_eq_0)
  have "copyout_loop (Suc 0) pt va [c] s = copyout_loop 0 pt (PGROUNDDOWN va + PGSIZE) [] (s\<lparr>mem := (mem s)(uaddr s pt va := c)\<rparr>)"
    using up wk pf ev(2) by (subst copyout_loop.simps) (simp add: Let_def un m st)
  then show ?thesis by (simp add: copyout_def copyout_loop.simps [of 0])
qed

lemma uaddr_inj:
  assumes "unat va + n \<le> 2 ^ 38" "user_pages_ok s pt va n" "i < n" "j < n"
    "uaddr s pt (va + of_nat i) = uaddr s pt (va + of_nat j)"
  shows "i = j"
proof -
  let ?a = "va + of_nat i" and ?b = "va + of_nat j"
  have p: "unat (PTE2PA e) mod 4096 = 0" for e using PTE2PA_aligned [of e] by (simp add: aligned_unat)
  have off: "unat (PTE2PA e + of_nat (pgoff x)) mod 4096 = pgoff x" for e x
  proof -
    have "unat (PTE2PA e + of_nat (pgoff x)) = (unat (PTE2PA e) + pgoff x) mod 2 ^ 64"
      using pgoff_less [of x] by (simp add: unat_word_ariths unat_of_nat64)
    also have "\<dots> mod 4096 = (unat (PTE2PA e) + pgoff x) mod 4096" by (rule mod_mod_cancel) simp
    also have "\<dots> = pgoff x" using p [of e] pgoff_less [of x] by (metis mod_add_left_eq add_0 mod_less)
    finally show ?thesis .
  qed
  have o: "pgoff ?a = pgoff ?b" using assms(5) off [of "entry s pt ?a" ?a] off [of "entry s pt ?b" ?b] by (simp add: uaddr_def)
  then have "PTE2PA (entry s pt ?a) = PTE2PA (entry s pt ?b)" using assms(5) by (simp add: uaddr_def)
  then have "unat ?a div 4096 = unat ?b div 4096" using assms(2-4) unfolding user_pages_ok_def same_page_unat by blast
  then have "unat ?a = unat ?b" using o unfolding pgoff_def by (metis div_mult_mod_eq)
  then show ?thesis using unat_va [OF assms(1,3)] unat_va [OF assms(1,4)] by simp
qed

lemma copyout_byte_keeps:
  assumes "pt_ok 2 (mem s) pt" "user_range s pt True va (Suc k)" "user_pages_ok s pt va (Suc k)"
  shows "pt_ok 2 ((mem s)(uaddr s pt va := c)) pt" "entry (s\<lparr>mem := (mem s)(uaddr s pt va := c)\<rparr>) pt = entry s pt"
    "user_range (s\<lparr>mem := (mem s)(uaddr s pt va := c)\<rparr>) pt w = user_range s pt w"
    "user_pages_ok (s\<lparr>mem := (mem s)(uaddr s pt va := c)\<rparr>) pt = user_pages_ok s pt"
    "uaddr (s\<lparr>mem := (mem s)(uaddr s pt va := c)\<rparr>) pt = uaddr s pt"
proof -
  let ?p = "PTE2PA (entry s pt va)" and ?m = "(mem s)(uaddr s pt va := c)"
  have "unat (uaddr s pt va - ?p) < 4096" using pgoff_less [of va] by (simp add: uaddr_def unat_of_nat64)
  then have ag: "agree_except {?p} (mem s) ?m" by (auto simp: agree_except_def in_page_def)
  have "?p \<in> upages s pt va (Suc k)" by (auto simp: upages_def intro!: image_eqI [of _ _ 0])
  then have "{?p} \<inter> pt_pages 2 (mem s) pt = {}" using assms(3) by (auto simp: user_pages_ok_def)
  from mem_change [OF assms(1) ag this] show "pt_ok 2 ?m pt" "entry (s\<lparr>mem := ?m\<rparr>) pt = entry s pt"
    "user_range (s\<lparr>mem := ?m\<rparr>) pt w = user_range s pt w" "user_pages_ok (s\<lparr>mem := ?m\<rparr>) pt = user_pages_ok s pt"
    "uaddr (s\<lparr>mem := ?m\<rparr>) pt = uaddr s pt" by (simp_all add: PTE2PA_aligned)
qed

definition urange :: "'z kmem_scheme \<Rightarrow> u64 \<Rightarrow> u64 \<Rightarrow> nat \<Rightarrow> u64 set" where
  "urange s pt va k = (\<lambda>j. uaddr s pt (va + of_nat j)) ` {..<k}"

lemma urange_Suc: "urange s pt va (Suc k) = insert (uaddr s pt va) (urange s pt (va + 1) k)"
  unfolding urange_def lessThan_Suc_eq_insert_0 image_insert image_image by (simp add: add_ac)

lemma piperead_loop_run:
  fixes s :: "'z kfile_scheme"
  assumes "pagetable (procs s pr) = pt" "pt_ok 2 (mem s) pt" "user_range s pt True (addr + of_nat i) k"
    "user_pages_ok s pt (addr + of_nat i) k" "l = min k (length (pipe_bytes (pipes s pi)))"
  shows "\<exists>m. piperead_loop k pr pi addr (int i) s = Ret (int i + int l) (upd_pipe pi (pipe_drop ^^ l) (s\<lparr>mem := m\<rparr>))
    \<and> ubytes (s\<lparr>mem := m\<rparr>) pt (addr + of_nat i) l = take l (pipe_bytes (pipes s pi))
    \<and> entry (s\<lparr>mem := m\<rparr>) pt = entry s pt
    \<and> (\<forall>x. x \<notin> urange s pt (addr + of_nat i) l \<longrightarrow> m x = mem s x)"
  using assms
proof (induction k arbitrary: i s l)
  case 0
  then show ?case by (intro exI [of _ "mem s"]) (simp add: piperead_loop.simps ubytes_def upd_pipe_def)
next
  case (Suc k)
  let ?p = "pipes s pi" and ?va = "addr + of_nat i"
  show ?case
  proof (cases "pipe_bytes ?p = []")
    case True
    then show ?thesis using Suc.prems(5) pipe_empty [of ?p]
      by (intro exI [of _ "mem s"]) (simp add: piperead_loop.simps ubytes_def upd_pipe_def)
  next
    case False
    let ?c = "pipe_head ?p" and ?u = "upd_pipe pi pipe_drop s"
    let ?m1 = "(mem s)(uaddr s pt ?va := ?c)"
    let ?w = "s\<lparr>mem := ?m1\<rparr>" and ?v = "upd_pipe pi pipe_drop (s\<lparr>mem := ?m1\<rparr>)"
    have q: "pipe_bytes ?p = ?c # pipe_bytes (pipe_drop ?p)" by (rule pq.get_law [OF False])
    obtain l' where l: "l = Suc l'" "l' = min k (length (pipe_bytes (pipe_drop ?p)))" using Suc.prems(5) by (simp add: q)
    note ke = copyout_byte_keeps [OF Suc.prems(2-4), of ?c]
    have va: "?va + 1 = addr + of_nat (Suc i)" by simp
    have rg: "user_range s pt True (addr + of_nat (Suc i)) k" "user_pages_ok s pt (addr + of_nat (Suc i)) k"
      using user_range_drop [OF Suc.prems(3), of 1] user_pages_drop [OF Suc.prems(4), of 1] unfolding of_nat_1 va by simp_all
    have step: "piperead_loop (Suc k) pr pi addr (int i) s = piperead_loop k pr pi addr (int (Suc i)) ?v"
    proof -
      have "nread ?p \<noteq> nwrite ?p" using False by (simp add: pipe_empty)
      moreover have "copyout pt ?va [?c] ?u = Ret 0 ?v"
      proof -
        have "copyout pt ?va [?c] ?u = Ret 0 (?u\<lparr>mem := ?m1\<rparr>)"
          using copyout_byte [of ?u pt ?va k ?c] Suc.prems(2,3) by simp
        also have "?u\<lparr>mem := ?m1\<rparr> = ?v" by (simp add: upd_pipe_def)
        finally show ?thesis .
      qed
      moreover have "upd_pipe pi (\<lambda>p. p\<lparr>nread := nread p + 1\<rparr>) s = ?u" by (simp add: upd_pipe_def pipe_drop_def)
      ultimately show ?thesis using Suc.prems(1) by (simp add: piperead_loop.simps Let_def algebra_simps)
    qed
    have "\<exists>m. piperead_loop k pr pi addr (int (Suc i)) ?v = Ret (int (Suc i) + int l') (upd_pipe pi (pipe_drop ^^ l') (?v\<lparr>mem := m\<rparr>))
      \<and> ubytes (?v\<lparr>mem := m\<rparr>) pt (addr + of_nat (Suc i)) l' = take l' (pipe_bytes (pipes ?v pi))
      \<and> entry (?v\<lparr>mem := m\<rparr>) pt = entry ?v pt
      \<and> (\<forall>x. x \<notin> urange ?v pt (addr + of_nat (Suc i)) l' \<longrightarrow> m x = mem ?v x)"
      using Suc.prems(1) ke(1) ke(1) [unfolded fun_upd_def] ke(3,4) rg l(2) by (intro Suc.IH) simp_all
    then obtain m where m: "piperead_loop k pr pi addr (int (Suc i)) ?v = Ret (int (Suc i) + int l') (upd_pipe pi (pipe_drop ^^ l') (?v\<lparr>mem := m\<rparr>))"
      "ubytes (?v\<lparr>mem := m\<rparr>) pt (addr + of_nat (Suc i)) l' = take l' (pipe_bytes (pipe_drop ?p))"
      "entry (?v\<lparr>mem := m\<rparr>) pt = entry ?w pt" "\<forall>x. x \<notin> urange s pt (addr + of_nat (Suc i)) l' \<longrightarrow> m x = ?m1 x"
      by (auto simp: urange_def ke(5))
    have en: "entry (s\<lparr>mem := m\<rparr>) pt = entry s pt" using m(3) ke(2) by simp
    have ua: "uaddr (s\<lparr>mem := m\<rparr>) pt = uaddr s pt" using en by (simp add: uaddr_def fun_eq_iff)
    have "uaddr s pt ?va \<notin> urange s pt (addr + of_nat (Suc i)) l'"
    proof
      assume "uaddr s pt ?va \<in> urange s pt (addr + of_nat (Suc i)) l'"
      then obtain j where j: "j < l'" "uaddr s pt (?va + of_nat 0) = uaddr s pt (?va + of_nat (Suc j))"
        by (auto simp: urange_def algebra_simps)
      have "Suc j < Suc k" using j(1) l(2) by simp
      from uaddr_inj [OF _ Suc.prems(4) zero_less_Suc this j(2)] Suc.prems(3) show False by (simp add: user_range_def)
    qed
    then have c: "m (uaddr s pt ?va) = ?c" using m(4) by simp
    have "ubytes (s\<lparr>mem := m\<rparr>) pt (addr + of_nat (Suc i)) l' = take l' (pipe_bytes (pipe_drop ?p))"
      using m(2) by (simp add: ubytes_def uaddr_def)
    then have "ubytes (s\<lparr>mem := m\<rparr>) pt ?va l = take l (pipe_bytes ?p)"
      unfolding l(1) ubytes_Suc va q by (simp add: ua c)
    moreover have "upd_pipe pi (pipe_drop ^^ l') (?v\<lparr>mem := m\<rparr>) = upd_pipe pi (pipe_drop ^^ l) (s\<lparr>mem := m\<rparr>)"
      by (simp add: upd_pipe_def l(1) funpow_swap1)
    moreover have "m x = mem s x" if "x \<notin> urange s pt ?va l" for x
      using m(4) that unfolding l(1) urange_Suc va by auto
    moreover have "piperead_loop (Suc k) pr pi addr (int i) s = Ret (int i + int l) (upd_pipe pi (pipe_drop ^^ l') (?v\<lparr>mem := m\<rparr>))"
      unfolding step m(1) l(1) by simp
    ultimately show ?thesis using en by (intro exI [of _ m]) simp
  qed
qed

lemma piperead_run:
  fixes s :: "'z kfile_scheme"
  assumes "quiet s" "running s = Some pr" "pagetable (procs s pr) = pt" "pt_ok 2 (mem s) pt" "user_range s pt True addr k"
    "user_pages_ok s pt addr k" "pipe_bytes (pipes s pi) \<noteq> [] \<or> \<not> writeopen (pipes s pi)"
    "l = min k (length (pipe_bytes (pipes s pi)))"
  shows "\<exists>m. piperead pi addr (int k) s = Ret (int l) (upd_pipe pi (pipe_drop ^^ l) (s\<lparr>mem := m, procs := woken_procs (ChPipeW pi) s\<rparr>))
    \<and> map (\<lambda>i. m (uaddr s pt (addr + of_nat i))) [0..<l] = take l (pipe_bytes (pipes s pi))
    \<and> (\<forall>x. x \<notin> urange s pt addr l \<longrightarrow> m x = mem s x)"
proof -
  let ?t = "taken (PipeLock pi) s"
  have q: "cpu_ok s" "lk_free (PipeLock pi) s" using assms(1) by (simp_all add: quiet_def)
  have t: "pipes ?t = pipes s" "procs ?t = procs s" "mem ?t = mem s" by (simp_all add: taken_def)
  have ur: "user_range ?t = user_range s" "ubytes (?t\<lparr>mem := m\<rparr>) = ubytes (s\<lparr>mem := m\<rparr>)" "user_pages_ok ?t = user_pages_ok s"
    "urange ?t = urange s" for m
    by (simp_all add: user_range_def ubytes_def uaddr_def user_pages_ok_def upages_def urange_def t fun_eq_iff)
  have wait: "\<not> (nread (pipes s pi) = nwrite (pipes s pi) \<and> writeopen (pipes s pi))" using assms(7) by (simp add: pipe_empty)
  have "\<exists>m. piperead_loop k pr pi addr (int 0) ?t = Ret (int 0 + int l) (upd_pipe pi (pipe_drop ^^ l) (?t\<lparr>mem := m\<rparr>))
    \<and> ubytes (?t\<lparr>mem := m\<rparr>) pt (addr + of_nat 0) l = take l (pipe_bytes (pipes ?t pi))
    \<and> entry (?t\<lparr>mem := m\<rparr>) pt = entry ?t pt \<and> (\<forall>x. x \<notin> urange ?t pt (addr + of_nat 0) l \<longrightarrow> m x = mem ?t x)"
    using assms(3-6,8) by (intro piperead_loop_run) (simp_all add: t ur)
  then obtain m where m: "piperead_loop k pr pi addr 0 ?t = Ret (int l) (upd_pipe pi (pipe_drop ^^ l) (?t\<lparr>mem := m\<rparr>))"
    "ubytes (s\<lparr>mem := m\<rparr>) pt addr l = take l (pipe_bytes (pipes s pi))" "pt_entry 2 m pt = entry s pt"
    "\<forall>x. x \<notin> urange s pt addr l \<longrightarrow> m x = mem s x" by (auto simp: t ur)
  have bt: "map (\<lambda>i. m (uaddr s pt (addr + of_nat i))) [0..<l] = take l (pipe_bytes (pipes s pi))"
    using m(2) by (simp add: ubytes_def uaddr_def m(3))
  let ?u = "upd_pipe pi (pipe_drop ^^ l) (?t\<lparr>mem := m\<rparr>)"
  have run: "running ?u = running s" by (simp only: upd_pipe_sel) (simp add: running_def taken_def)
  have "piperead pi addr (int k) s = Ret (int l) (?u\<lparr>procs := woken_procs (ChPipeW pi) ?u, cpus := cpus s, sie := sie s, locks := locks s\<rparr>)"
    unfolding piperead_def curproc_run [OF q(1) assms(2)] kbind.simps acquire_free [OF q] t if_not_P [OF wait] nat_int m(1)
    by (rule wakeup_release [OF assms(1) _ run]) (simp only: upd_pipe_sel, simp add: same_base_def)
  moreover have "woken_procs (ChPipeW pi) ?u = woken_procs (ChPipeW pi) s"
    unfolding woken_procs_def [abs_def] run by (simp add: t cong: if_cong)
  moreover have "?u\<lparr>procs := P, cpus := cpus s, sie := sie s, locks := locks s\<rparr>
      = upd_pipe pi (pipe_drop ^^ l) (s\<lparr>mem := m, procs := P\<rparr>)" for P by (simp add: upd_pipe_def taken_def)
  ultimately show ?thesis using bt m(4) by (intro exI [of _ m]) simp
qed

section \<open>Properties\<close>

text \<open>
  C13: A pipe is first in, first out. A write of \<open>k\<close> bytes for which the ring has room returns
  \<open>k\<close>; the bytes of the writer's memory stand at the end of the queue, behind the bytes that were there,
  also when the counters wrap around; memory, the other pipes and the open ends are
  unchanged and exactly the processes that sleep on the read end become runnable.
\<close>

theorem pipewrite_appends:
  fixes s :: "'z kfile_scheme"
  assumes "quiet s" "running s = Some pr" "readopen (pipes s pi)" "\<not> killed (procs s pr)"
    "pt_ok 2 (mem s) (pagetable (procs s pr))" "user_range s (pagetable (procs s pr)) False addr k"
    "length (pipe_bytes (pipes s pi)) + k \<le> 512"
  shows "\<exists>t. pipewrite pi addr (int k) s = Ret (int k) t
    \<and> pipe_bytes (pipes t pi) = pipe_bytes (pipes s pi) @ ubytes s (pagetable (procs s pr)) addr k
    \<and> mem t = mem s \<and> (\<forall>j. j \<noteq> pi \<longrightarrow> pipes t j = pipes s j) \<and> locks t = locks s
    \<and> procs t = woken_procs (ChPipeR pi) s"
proof -
  let ?bs = "ubytes s (pagetable (procs s pr)) addr k"
  have "pipe_bytes (fold pipe_put ?bs (pipes s pi)) = pipe_bytes (pipes s pi) @ ?bs"
    using assms(7) by (intro pq.puts) (simp add: ubytes_def)
  then show ?thesis using pipewrite_run [OF assms(1-4) refl assms(5-7)] by (simp add: upd_pipe_def)
qed

text \<open>
  C14: A read of up to \<open>k\<close> bytes, when bytes are waiting or the write end is closed, returns the
  number of bytes it took, the smaller of \<open>k\<close> and what waits (0 at the end of the stream); the first
  bytes of the queue stand in order in the reader's memory, no other byte of memory
  changes, and the queue keeps the rest.
\<close>

theorem piperead_takes:
  fixes s :: "'z kfile_scheme"
  assumes "quiet s" "running s = Some pr" "pt_ok 2 (mem s) (pagetable (procs s pr))"
    "user_range s (pagetable (procs s pr)) True addr k" "user_pages_ok s (pagetable (procs s pr)) addr k"
    "pipe_bytes (pipes s pi) \<noteq> [] \<or> \<not> writeopen (pipes s pi)"
  shows "\<exists>l t. piperead pi addr (int k) s = Ret (int l) t \<and> l = min k (length (pipe_bytes (pipes s pi)))
    \<and> map (\<lambda>i. mem t (uaddr s (pagetable (procs s pr)) (addr + of_nat i))) [0..<l] = take l (pipe_bytes (pipes s pi))
    \<and> pipe_bytes (pipes t pi) = drop l (pipe_bytes (pipes s pi))
    \<and> (\<forall>x. x \<notin> urange s (pagetable (procs s pr)) addr l \<longrightarrow> mem t x = mem s x)
    \<and> (\<forall>j. j \<noteq> pi \<longrightarrow> pipes t j = pipes s j) \<and> procs t = woken_procs (ChPipeW pi) s"
proof -
  let ?l = "min k (length (pipe_bytes (pipes s pi)))" and ?pt = "pagetable (procs s pr)"
  obtain m where m: "piperead pi addr (int k) s = Ret (int ?l) (upd_pipe pi (pipe_drop ^^ ?l) (s\<lparr>mem := m, procs := woken_procs (ChPipeW pi) s\<rparr>))"
    "map (\<lambda>i. m (uaddr s ?pt (addr + of_nat i))) [0..<?l] = take ?l (pipe_bytes (pipes s pi))" "\<forall>x. x \<notin> urange s ?pt addr ?l \<longrightarrow> m x = mem s x"
    using piperead_run [OF assms(1,2) refl assms(3-6) refl] by blast
  have "pipe_bytes ((pipe_drop ^^ ?l) (pipes s pi)) = drop ?l (pipe_bytes (pipes s pi))"
    using pq.drops [of ?l "pipes s pi"] by auto
  then show ?thesis
    using m by (intro exI [of _ ?l] exI [of _ "upd_pipe pi (pipe_drop ^^ ?l) (s\<lparr>mem := m, procs := woken_procs (ChPipeW pi) s\<rparr>)"]) simp
qed

text \<open>
  A pipe whose counters are about to wrap around: one byte, 9, waits at position \<open>2^32 - 2\<close>. The
  running process has one page mapped at \<open>0x3000\<close>.
\<close>

definition demo_pipe :: pipe where
  "demo_pipe = \<lparr>pdata = (\<lambda>_. 0)(510 := 9), nread = 0xFFFFFFFE, nwrite = 0xFFFFFFFF, readopen = True, writeopen = True\<rparr>"

definition demo_kfile :: "memory \<Rightarrow> u64 \<Rightarrow> kfile" where
  "demo_kfile m pt = kcons.extend (kfs.extend
     (demo_kfs\<lparr>mem := m, procs := (procs demo_kfs)(1 := (procs demo_kfs 1)\<lparr>pagetable := pt\<rparr>)\<rparr>)
     (kcons.fields (\<lambda>_. 0) 0 [] 0 False False False (\<lambda>_. 0) 0 0 0 (\<lambda>_. None) (\<lambda>_. None)))
     (kfile.fields (\<lambda>_. \<lparr>ftype = FD_NONE, fref = 0, readable = False, writable = False, fpipe = 0, fip = None, foff = 0, fmajor = 0\<rparr>)
       (\<lambda>_. demo_pipe))"

lemma demo_kfile_sel [simp]:
  "mem (demo_kfile m pt) = m" "pagetable (procs (demo_kfile m pt) 1) = pt" "pipes (demo_kfile m pt) pi = demo_pipe"
  "running (demo_kfile m pt) = Some 1" "\<not> killed (procs (demo_kfile m pt) 1)" "quiet (demo_kfile m pt)"
proof -
  note d = demo_kfile_def kcons.defs kfs.defs kfile.defs
  have k: "locks demo_kfs = locks demo_kproc" "cpus demo_kfs = cpus demo_kproc" "hart demo_kfs = hart demo_kproc"
    "sie demo_kfs = sie demo_kproc" "procs demo_kfs = procs demo_kproc"
    by (simp_all add: demo_kfs_def) (simp_all add: demo_klog_def kbio.defs kproc.defs)
  have f: "locks (demo_kfile m pt) = locks demo_kproc" "cpus (demo_kfile m pt) = cpus demo_kproc"
    "hart (demo_kfile m pt) = hart demo_kproc" "sie (demo_kfile m pt) = sie demo_kproc"
    by (simp_all add: d k)
  show "mem (demo_kfile m pt) = m" "pagetable (procs (demo_kfile m pt) 1) = pt" "pipes (demo_kfile m pt) pi = demo_pipe"
    by (simp_all add: d)
  show r: "running (demo_kfile m pt) = Some 1" using demo_kproc_ok(4) by (simp add: running_def f)
  show "\<not> killed (procs (demo_kfile m pt) 1)" by (simp add: d k demo_kproc_procs boot_proc_def)
  show "quiet (demo_kfile m pt)"
    using demo_kproc_ok(1,2) r by (simp add: quiet_def cpu_ok_def lk_free_def f)
qed

lemma demo_pipe_bytes: "pipe_bytes demo_pipe = [9]"
  by (simp add: pipe_bytes_def ring_def demo_pipe_def)

lemma demo_user_page:
  "\<exists>m pt. pt_ok 2 m pt \<and> user_range (demo_kfile m pt) pt True 0x3000 2 \<and> user_pages_ok (demo_kfile m pt) pt 0x3000 2"
proof -
  obtain u :: kmem and pt where u: "pt_ok 2 (mem u) pt" "0x10000 \<notin> pt_pages 2 (mem u) pt"
    "\<And>va. same_page va 0x3000 \<Longrightarrow> va < MAXVA \<Longrightarrow> entry u pt va = PA2PTE 0x10000 OR (PTE_R OR PTE_W OR PTE_U) OR PTE_V"
    using boot_user_page by blast
  have ev: "PA2PTE 0x10000 OR (PTE_R OR PTE_W OR PTE_U) OR PTE_V = 0x4017" "PTE2PA 0x4017 = 0x10000"
    by (simp_all add: PA2PTE_def pte_flag_defs PTE2PA_def)
  have e: "pt_entry 2 (mem u) pt (0x3000 + of_nat i) = 0x4017" if "i < 2" for i
    unfolding ev(1) [symmetric] using that by (intro u(3)) (auto simp: same_page_unat MAXVA_def less_2_cases_iff)
  let ?s = "demo_kfile (mem u) pt"
  have "user_range ?s pt True 0x3000 2" using e by (simp add: user_range_def ev(2) pte_flag_defs)
  moreover have "user_pages_ok ?s pt 0x3000 2"
    using e u(2) by (auto simp: user_pages_ok_def upages_def ev(2) same_page_unat less_2_cases_iff)
  ultimately show ?thesis using u(1) by blast
qed

theorem pipewrite_appends_witness:
  "\<exists>(s :: kfile) t. pipewrite 0 0x3000 2 s = Ret 2 t \<and> length (pipe_bytes (pipes t 0)) = 3 \<and> nwrite (pipes s 0) = 0xFFFFFFFF"
proof -
  obtain m pt where m: "pt_ok 2 m pt" "user_range (demo_kfile m pt) pt True 0x3000 2" using demo_user_page by blast
  let ?s = "demo_kfile m pt"
  have r: "user_range ?s pt False 0x3000 2" using m(2) by (simp add: user_range_def Let_def)
  have ro: "readopen demo_pipe" by (simp add: demo_pipe_def)
  obtain t where t: "pipewrite 0 0x3000 (int 2) ?s = Ret (int 2) t" "pipe_bytes (pipes t 0) = [9] @ ubytes ?s pt 0x3000 2"
    using pipewrite_appends [of ?s 1 0 "0x3000" 2] m(1) r ro by (auto simp: demo_pipe_bytes simp del: One_nat_def)
  then show ?thesis by (intro exI [of _ ?s] exI [of _ t]) (simp add: ubytes_def demo_pipe_def)
qed

theorem piperead_takes_witness:
  "\<exists>(s :: kfile) t. piperead 0 0x3000 2 s = Ret 1 t \<and> pipe_bytes (pipes s 0) = [9] \<and> pipe_bytes (pipes t 0) = []"
proof -
  obtain m pt where m: "pt_ok 2 m pt" "user_range (demo_kfile m pt) pt True 0x3000 2" "user_pages_ok (demo_kfile m pt) pt 0x3000 2"
    using demo_user_page by blast
  let ?s = "demo_kfile m pt"
  obtain l t where t: "piperead 0 0x3000 (int 2) ?s = Ret (int l) t" "l = min 2 (length (pipe_bytes (pipes ?s 0)))"
    "pipe_bytes (pipes t 0) = drop l (pipe_bytes (pipes ?s 0))"
    using piperead_takes [of ?s 1 "0x3000" 2 0] m by (auto simp: demo_pipe_bytes simp del: One_nat_def)
  have "l = 1" using t(2) by (simp add: demo_pipe_bytes)
  then show ?thesis using t by (intro exI [of _ ?s] exI [of _ t]) (simp add: demo_pipe_bytes)
qed

end
