(* ===== verification/VirtioSpec.thy ===== *)
theory VirtioSpec
  imports Virtio PipeSpec
begin

text \<open>
  Descriptors of the disk queue: \<open>alloc3_desc\<close> takes three descriptors or none, and the chain that
  \<open>virtio_disk_rw\<close> builds gives back exactly its three descriptors.
\<close>

section \<open>Single descriptors\<close>

definition free_descs :: "'z kdisk_scheme \<Rightarrow> nat set" where
  "free_descs s = {i. i < NUM \<and> dfree s i}"

lemma alloc_desc_run:
  shows "free_descs s = {} \<Longrightarrow> alloc_desc s = Ret None s"
    "free_descs s \<noteq> {} \<Longrightarrow> \<exists>i\<in>free_descs s. alloc_desc s = Ret (Some i) (s\<lparr>dfree := (dfree s)(i := False)\<rparr>)"
proof -
  show "alloc_desc s = Ret None s" if "free_descs s = {}"
  proof -
    have "find (dfree s) [0..<NUM] = None" using that by (auto simp: find_None_iff free_descs_def)
    then show ?thesis by (simp add: alloc_desc_def)
  qed
  show "\<exists>i\<in>free_descs s. alloc_desc s = Ret (Some i) (s\<lparr>dfree := (dfree s)(i := False)\<rparr>)" if "free_descs s \<noteq> {}"
  proof -
    have "find (dfree s) [0..<NUM] \<noteq> None" using that by (auto simp: find_None_iff free_descs_def)
    then obtain i where i: "find (dfree s) [0..<NUM] = Some i" by blast
    then have "i \<in> free_descs s" by (auto simp: find_Some_iff free_descs_def)
    then show ?thesis using i by (intro bexI [of _ i]) (simp_all add: alloc_desc_def)
  qed
qed

lemma free_descs_upd [simp]:
  "free_descs (s\<lparr>dfree := (dfree s)(i := False)\<rparr>) = free_descs s - {i}"
  by (auto simp: free_descs_def)

lemma free_desc_run:
  assumes "proc_ready s" "i < NUM" "\<not> dfree s i"
  shows "\<exists>P. free_desc i s = Ret () (s\<lparr>vdesc := (vdesc s)(i := \<lparr>d_addr = DNull, d_len = 0, d_flags = 0, d_next = 0\<rparr>),
      dfree := (dfree s)(i := True), procs := P\<rparr>)"
proof -
  let ?u = "s\<lparr>vdesc := (vdesc s)(i := \<lparr>d_addr = DNull, d_len = 0, d_flags = 0, d_next = 0\<rparr>), dfree := (dfree s)(i := True)\<rparr>"
  have "proc_ready ?u" using assms(1) by (simp add: proc_ready_def cpu_ok_def lk_free_def)
  from wakeup_run [OF this, of ChDiskFree] show ?thesis using assms(2,3) by (simp add: free_desc_def) blast
qed

section \<open>Properties\<close>

text \<open>
  \<open>alloc3_desc\<close> takes three descriptors or none: it returns three different descriptors that were
  free and are now the only ones taken in addition, or, exactly when fewer than three were free, it fails
  and gives back what it had taken.
\<close>

theorem alloc3_all_or_nothing:
  assumes "proc_ready s"
  shows "\<exists>r t. alloc3_desc s = Ret r t \<and>
    (case r of
       Some (a, b, c) \<Rightarrow> distinct [a, b, c] \<and> {a, b, c} \<subseteq> free_descs s \<and> free_descs t = free_descs s - {a, b, c} \<and> vdesc t = vdesc s
     | None \<Rightarrow> card (free_descs s) < 3 \<and> free_descs t = free_descs s)"
proof (cases "free_descs s = {}")
  case True
  then show ?thesis using alloc_desc_run(1) [of s] by (simp add: alloc3_desc_def)
next
  case False
  obtain a where a: "a \<in> free_descs s" "alloc_desc s = Ret (Some a) (s\<lparr>dfree := (dfree s)(a := False)\<rparr>)" (is "_ = Ret _ ?u")
    using alloc_desc_run(2) [OF False] by blast
  have au: "a < NUM" "dfree s a" using a(1) by (simp_all add: free_descs_def)
  have pu: "proc_ready ?u" using assms by (simp add: proc_ready_def cpu_ok_def lk_free_def)
  show ?thesis
  proof (cases "free_descs ?u = {}")
    case True
    obtain P where f: "free_desc a ?u = Ret () (?u\<lparr>vdesc := (vdesc ?u)(a := \<lparr>d_addr = DNull, d_len = 0, d_flags = 0, d_next = 0\<rparr>),
        dfree := (dfree ?u)(a := True), procs := P\<rparr>)" (is "_ = Ret () ?t")
      using free_desc_run [OF pu au(1)] by auto
    have "free_descs ?t = free_descs s" using au by (auto simp: free_descs_def)
    moreover have "free_descs s = {a}" using True a(1) by auto
    ultimately show ?thesis using a(2) alloc_desc_run(1) [OF True] f by (simp add: alloc3_desc_def)
  next
    case False
    obtain b where b: "b \<in> free_descs ?u" "alloc_desc ?u = Ret (Some b) (?u\<lparr>dfree := (dfree ?u)(b := False)\<rparr>)" (is "_ = Ret _ ?v")
      using alloc_desc_run(2) [OF False] by blast
    have bu: "b < NUM" "dfree s b" "b \<noteq> a" "b \<in> free_descs s" using b(1) by (auto simp: free_descs_def split: if_splits)
    have pv: "proc_ready ?v" using assms by (simp add: proc_ready_def cpu_ok_def lk_free_def)
    have fv: "free_descs ?v = free_descs s - {a, b}" by (auto simp: free_descs_def)
    show ?thesis
    proof (cases "free_descs ?v = {}")
      case True
      obtain P where f: "free_desc a ?v = Ret () (?v\<lparr>vdesc := (vdesc ?v)(a := \<lparr>d_addr = DNull, d_len = 0, d_flags = 0, d_next = 0\<rparr>),
          dfree := (dfree ?v)(a := True), procs := P\<rparr>)" (is "_ = Ret () ?w")
        using free_desc_run [OF pv au(1)] bu(3) by auto
      have "proc_ready ?w" using assms by (simp add: proc_ready_def cpu_ok_def lk_free_def)
      then obtain Q where g: "free_desc b ?w = Ret () (?w\<lparr>vdesc := (vdesc ?w)(b := \<lparr>d_addr = DNull, d_len = 0, d_flags = 0, d_next = 0\<rparr>),
          dfree := (dfree ?w)(b := True), procs := Q\<rparr>)" (is "_ = Ret () ?t")
        using free_desc_run [of ?w b] bu(1,3) by auto
      have "free_descs ?t = free_descs s" using au bu by (auto simp: free_descs_def)
      moreover have "free_descs s \<subseteq> {a, b}" using True fv by auto
      then have "card (free_descs s) < 3" using card_mono [of "{a, b}" "free_descs s"] bu(3) by simp
      ultimately show ?thesis using a(2) b(2) alloc_desc_run(1) [OF True] f g by (simp add: alloc3_desc_def)
    next
      case False
      obtain c where c: "c \<in> free_descs ?v" "alloc_desc ?v = Ret (Some c) (?v\<lparr>dfree := (dfree ?v)(c := False)\<rparr>)" (is "_ = Ret _ ?t")
        using alloc_desc_run(2) [OF False] by blast
      have "free_descs ?t = free_descs s - {a, b, c}" by (auto simp: free_descs_def)
      moreover have "c \<in> free_descs s" "c \<noteq> a" "c \<noteq> b" using c(1) fv by auto
      ultimately show ?thesis using a b(2) c(2) bu by (simp add: alloc3_desc_def)
    qed
  qed
qed

lemma free_chain_step:
  assumes "proc_ready s" "i < NUM" "\<not> dfree s i"
  shows "\<exists>P. free_chain_loop (Suc f) i s =
    (let t = s\<lparr>vdesc := (vdesc s)(i := \<lparr>d_addr = DNull, d_len = 0, d_flags = 0, d_next = 0\<rparr>), dfree := (dfree s)(i := True), procs := P\<rparr> in
     if d_flags (vdesc s i) AND VRING_DESC_F_NEXT \<noteq> 0 then free_chain_loop f (unat (d_next (vdesc s i))) t else Ret () t)"
proof -
  obtain P where "free_desc i s = Ret () (s\<lparr>vdesc := (vdesc s)(i := \<lparr>d_addr = DNull, d_len = 0, d_flags = 0, d_next = 0\<rparr>),
      dfree := (dfree s)(i := True), procs := P\<rparr>)" using free_desc_run [OF assms] by blast
  then show ?thesis by (intro exI [of _ P]) (simp add: free_chain_loop.simps Let_def)
qed

text \<open>
  C21: A request gives back its descriptors. After \<open>virtio_disk_rw\<close> has written a request into three
  descriptors it holds, \<open>free_chain\<close> of the first one follows the chain, returns within its bound,
  and makes exactly these three descriptors free again, for reads and for writes.
\<close>

theorem request_frees_chain:
  assumes "proc_ready s" "distinct [i0, i1, i2]" "{i0, i1, i2} \<subseteq> {i. i < NUM \<and> \<not> dfree s i}"
  shows "\<exists>t. free_chain i0 (disk_submit b wrt (i0, i1, i2) s) = Ret () t \<and> free_descs t = free_descs s \<union> {i0, i1, i2}"
proof -
  let ?z = "\<lparr>d_addr = DNull, d_len = 0, d_flags = 0, d_next = 0\<rparr>"
  let ?s = "disk_submit b wrt (i0, i1, i2) s"
  have lt: "i0 < NUM" "i1 < NUM" "i2 < NUM" "\<not> dfree s i0" "\<not> dfree s i1" "\<not> dfree s i2" using assms(3) by auto
  have ne: "i0 \<noteq> i1" "i0 \<noteq> i2" "i1 \<noteq> i2" using assms(2) by auto
  have u: "unat (of_nat i1 :: u16) = i1" "unat (of_nat i2 :: u16) = i2"
    using lt(2,3) by (simp_all add: NUM_def unat_of_nat take_bit_nat_eq_self)
  have ds: "dfree ?s = dfree s" "proc_ready ?s" "d_flags (vdesc ?s i0) AND VRING_DESC_F_NEXT \<noteq> 0" "unat (d_next (vdesc ?s i0)) = i1"
    "d_flags (vdesc ?s i1) AND VRING_DESC_F_NEXT \<noteq> 0" "unat (d_next (vdesc ?s i1)) = i2" "d_flags (vdesc ?s i2) AND VRING_DESC_F_NEXT = 0"
    using assms(1) ne u
    by (simp_all add: disk_submit_def Let_def mmio_write_def proc_ready_def cpu_ok_def lk_free_def VRING_DESC_F_NEXT_def VRING_DESC_F_WRITE_def)
  obtain P0 where s0: "free_chain_loop 9 i0 ?s = free_chain_loop 8 i1 (?s\<lparr>vdesc := (vdesc ?s)(i0 := ?z), dfree := (dfree s)(i0 := True), procs := P0\<rparr>)"
    (is "_ = free_chain_loop 8 i1 ?u")
    using free_chain_step [OF ds(2) lt(1), of 8] lt(4) ds(1,3,4) by (auto simp: Let_def)
  have pu: "proc_ready ?u" using ds(2) by (simp add: proc_ready_def cpu_ok_def lk_free_def)
  obtain P1 where s1: "free_chain_loop 8 i1 ?u = free_chain_loop 7 i2 (?u\<lparr>vdesc := (vdesc ?u)(i1 := ?z), dfree := (dfree ?u)(i1 := True), procs := P1\<rparr>)"
    (is "_ = free_chain_loop 7 i2 ?v")
    using free_chain_step [OF pu lt(2), of 7] lt(5) ne ds(5,6) by (auto simp: Let_def)
  have pv: "proc_ready ?v" using ds(2) by (simp add: proc_ready_def cpu_ok_def lk_free_def)
  obtain P2 where s2: "free_chain_loop 7 i2 ?v = Ret () (?v\<lparr>vdesc := (vdesc ?v)(i2 := ?z), dfree := (dfree ?v)(i2 := True), procs := P2\<rparr>)"
    (is "_ = Ret () ?t")
    using free_chain_step [OF pv lt(3), of 6] lt(6) ne ds(7) by (auto simp: Let_def)
  have "free_chain i0 ?s = Ret () ?t" unfolding free_chain_def NUM_def using s0 s1 s2 by simp
  moreover have "free_descs ?t = free_descs s \<union> {i0, i1, i2}" using lt by (auto simp: free_descs_def)
  ultimately show ?thesis by blast
qed

text \<open>A disk with five of its eight descriptors taken.\<close>

definition demo_kdisk :: kdisk where
  "demo_kdisk = kfile.extend (demo_kfile (\<lambda>_. 0) 0)
     (kdisk.fields (\<lambda>_. \<lparr>d_addr = DNull, d_len = 0, d_flags = 0, d_next = 0\<rparr>) 0 (\<lambda>_. 0) 0 (\<lambda>_. 0) (\<lambda>i. 5 \<le> i) 0 (\<lambda>_. None)
       (\<lambda>_. 0) (\<lambda>_. \<lparr>req_type = 0, req_reserved = 0, req_sector = 0\<rparr>) (\<lambda>_. False) (0, 0, 0) (\<lambda>_. 0) 0 [])"

lemma demo_kdisk_ok: "proc_ready demo_kdisk" "dfree demo_kdisk = (\<lambda>i. 5 \<le> i)"
  using demo_kfile_sel(6) [of "\<lambda>_. 0" 0]
  by (simp_all add: demo_kdisk_def kfile.defs kdisk.defs proc_ready_def quiet_def cpu_ok_def lk_free_def)

lemma demo_free_descs: "free_descs demo_kdisk = {5, 6, 7}"
  by (auto simp: free_descs_def demo_kdisk_ok NUM_def)

theorem alloc3_all_or_nothing_witness: "\<exists>a b c t. alloc3_desc demo_kdisk = Ret (Some (a, b, c)) t \<and> free_descs t = {}"
proof -
  obtain r t where t: "alloc3_desc demo_kdisk = Ret r t" "case r of
       Some (a, b, c) \<Rightarrow> distinct [a, b, c] \<and> {a, b, c} \<subseteq> {5, 6, 7} \<and> free_descs t = {5, 6, 7} - {a, b, c} \<and> vdesc t = vdesc demo_kdisk
     | None \<Rightarrow> card {5, 6, 7 :: nat} < 3 \<and> free_descs t = {5, 6, 7}"
    using alloc3_all_or_nothing [OF demo_kdisk_ok(1)] unfolding demo_free_descs by blast
  then obtain a b c where r: "r = Some (a, b, c)" by (cases r) auto
  then have d: "distinct [a, b, c]" "{a, b, c} \<subseteq> {5, 6, 7}" "free_descs t = {5, 6, 7} - {a, b, c}" using t(2) by auto
  then have "{a, b, c} = {5, 6, 7}" by (intro card_subset_eq) auto
  then show ?thesis using t(1) r d(3) by auto
qed

theorem request_frees_chain_witness: "\<exists>t. free_chain 0 (disk_submit 3 True (0, 2, 1) demo_kdisk) = Ret () t \<and> free_descs t = {0, 1, 2, 5, 6, 7}"
proof -
  have "{0, 2, 1} \<subseteq> {i. i < NUM \<and> \<not> dfree demo_kdisk i}" by (simp add: demo_kdisk_ok NUM_def)
  from request_frees_chain [OF demo_kdisk_ok(1) _ this, of 3 True] show ?thesis unfolding demo_free_descs by (auto simp: insert_commute)
qed

end
