(* ===== verification/ConsSpec.thy ===== *)
theory ConsSpec
  imports PipeSpec
begin

text \<open>
  The console as a line editor: \<open>consoleintr\<close> of \<^verbatim>\<open>kernel/console.c\<close> refines an editor on two
  lists of bytes, the committed input that \<open>consoleread\<close> may take and the line that is being typed.
\<close>

section \<open>Output returns\<close>

text \<open>The transmitter becomes idle again and again; output then only reads and writes UART registers.\<close>

definition uart_ready :: "'z kcons_scheme \<Rightarrow> bool" where
  "uart_ready s \<longleftrightarrow> \<not> panicking s \<and> \<not> panicked s \<and> (\<forall>n. \<exists>k\<ge>n. uart_in s k AND LSR_TX_IDLE \<noteq> 0)"

definition uart_step :: "'z kcons_scheme \<Rightarrow> 'z kcons_scheme \<Rightarrow> bool" where
  "uart_step s t \<longleftrightarrow> (\<exists>n out. t = s\<lparr>uart_n := n, uart_out := out\<rparr>)"

lemma uart_step_refl [simp]: "uart_step s s"
  unfolding uart_step_def by (rule exI [of _ "uart_n s"], rule exI [of _ "uart_out s"]) simp

lemma uart_step_trans: "uart_step s t \<Longrightarrow> uart_step t u \<Longrightarrow> uart_step s u"
  unfolding uart_step_def by force

lemma uart_step_sel:
  assumes "uart_step s t"
  shows "uart_ready t = uart_ready s" "cpu_ok t = cpu_ok s" "lk_free lk t = lk_free lk s" "proc_ready t = proc_ready s"
    "cons_buf t = cons_buf s" "cons_r t = cons_r s" "cons_w t = cons_w s" "cons_e t = cons_e s" "procs t = procs s"
    "running t = running s" "same_base t v = same_base s v" "panicking t = panicking s"
  using assms by (auto simp: uart_step_def uart_ready_def cpu_ok_def lk_free_def proc_ready_def running_def same_base_def)

lemma tx_idle_at_Some:
  assumes "f m AND LSR_TX_IDLE \<noteq> 0" "k \<le> m"
  shows "\<exists>j. tx_idle_at f k = Some j"
  using assms(2)
proof (induction "m - k" arbitrary: k)
  case 0
  then show ?case using assms(1) by (subst tx_idle_at.simps) simp
next
  case (Suc d)
  then show ?case using Suc.hyps(1) [of "Suc k"] by (subst tx_idle_at.simps) simp
qed

lemma push_off_uart: "push_off (s\<lparr>uart_n := n, uart_out := out\<rparr>) = (push_off s)\<lparr>uart_n := n, uart_out := out\<rparr>"
  by (simp add: spin_defs Let_def)

lemma uartputc_sync_run:
  assumes "uart_ready s" "cpu_ok s"
  shows "\<exists>t. uartputc_sync c s = Ret () t \<and> uart_step s t"
proof -
  have p: "panicking (push_off s) = panicking s" "panicked (push_off s) = panicked s" "uart_in (push_off s) = uart_in s"
    "uart_n (push_off s) = uart_n s" "uart_out (push_off s) = uart_out s"
    by (simp_all add: spin_defs Let_def)
  obtain m where "m \<ge> uart_n s" "uart_in s m AND LSR_TX_IDLE \<noteq> 0" using assms(1) by (auto simp: uart_ready_def)
  then obtain k where k: "tx_idle_at (uart_in s) (uart_n s) = Some k" using tx_idle_at_Some by blast
  let ?t = "s\<lparr>uart_n := Suc k, uart_out := uart_out s @ [(THR, ucast c)]\<rparr>"
  have ok: "cpu_ok ?t" using assms(2) by (simp add: cpu_ok_def)
  have "uartputc_sync c s = pop_off (push_off ?t)"
    using assms(1) k unfolding push_off_uart by (simp add: uartputc_sync_def Let_def p WriteReg_def uart_ready_def)
  then have "uartputc_sync c s = Ret () ?t" unfolding pop_push_off [OF ok] .
  then show ?thesis unfolding uart_step_def by blast
qed

lemma consputc_run:
  assumes "uart_ready s" "cpu_ok s"
  shows "\<exists>t. consputc c s = Ret () t \<and> uart_step s t"
proof (cases "c = BACKSPACE")
  case False
  then show ?thesis using uartputc_sync_run [OF assms] by (simp add: consputc_def)
next
  case True
  obtain t where t: "uartputc_sync 8 s = Ret () t" "uart_step s t" using uartputc_sync_run [OF assms] by blast
  obtain u where u: "uartputc_sync 32 t = Ret () u" "uart_step t u"
    using uartputc_sync_run [of t] assms uart_step_sel [OF t(2)] by blast
  obtain v where "uartputc_sync 8 u = Ret () v" "uart_step u v"
    using uartputc_sync_run [of u] assms uart_step_sel [OF t(2)] uart_step_sel [OF u(2)] by blast
  then show ?thesis using True t u uart_step_trans by (simp add: consputc_def) blast
qed

text \<open>A loop of steps that only touch the UART only touches the UART.\<close>

lemma kfold_uart:
  assumes "\<And>x s. x \<in> set xs \<Longrightarrow> I s \<Longrightarrow> \<exists>t. f x s = Ret () t \<and> uart_step s t" "I s" "\<And>s t. uart_step s t \<Longrightarrow> I s \<Longrightarrow> I t"
  shows "\<exists>t. kfold f xs s = Ret () t \<and> uart_step s t"
  using assms(1,2)
proof (induction xs arbitrary: s)
  case (Cons x xs)
  obtain t where t: "f x s = Ret () t" "uart_step s t" using Cons.prems by force
  obtain u where "kfold f xs t = Ret () u" "uart_step t u" using Cons t(2) assms(3) by force
  then show ?case using t uart_step_trans by fastforce
qed simp

lemma printf_run:
  assumes "uart_ready s" "cpu_ok s" "lk_free PrLock s"
  shows "\<exists>t. printf fmt args s = Ret 0 t \<and> uart_step s t"
proof -
  have r: "uart_ready (taken PrLock s)" using assms(1) by (simp add: uart_ready_def taken_def)
  have np: "\<not> panicking s" "\<not> panicking (taken PrLock s)" using assms(1) r by (simp_all add: uart_ready_def)
  obtain t where t: "kfold consputc (printf_fmt fmt args) (taken PrLock s) = Ret () t" "uart_step (taken PrLock s) t"
    using kfold_uart [of "printf_fmt fmt args" "\<lambda>s. uart_ready s \<and> cpu_ok s" consputc "taken PrLock s"]
      consputc_run r cpu_ok_taken [OF assms(2)] uart_step_sel(1,2) by blast
  obtain n out where e: "t = (taken PrLock s)\<lparr>uart_n := n, uart_out := out\<rparr>" using t(2) by (auto simp: uart_step_def)
  have "release PrLock t = Ret () (t\<lparr>cpus := cpus s, sie := sie s, locks := locks s\<rparr>)"
    by (rule release_taken [OF assms(2,3)]) (simp add: e same_base_def)
  then have "printf fmt args s = Ret 0 (s\<lparr>uart_n := n, uart_out := out\<rparr>)"
    using np t(1) uart_step_sel(12) [OF t(2)] by (simp add: printf_def acquire_free [OF assms(2,3)] e) (simp add: taken_def)
  then show ?thesis unfolding uart_step_def by blast
qed

lemma procdump_run:
  assumes "uart_ready s" "cpu_ok s" "lk_free PrLock s"
  shows "\<exists>t. procdump s = Ret () t \<and> uart_step s t"
proof -
  let ?I = "\<lambda>s :: 'a kcons_scheme. uart_ready s \<and> cpu_ok s \<and> lk_free PrLock s"
  have pres: "?I t" if "uart_step s t" "?I s" for s t :: "'a kcons_scheme" using that uart_step_sel(1-3) by blast
  have two: "\<exists>t. kbind (printf f a s) (\<lambda>_ s. kbind (printf g b s) (\<lambda>_ s. Ret () s)) = Ret () t \<and> uart_step s t"
    if "?I s" for f a g b and s :: "'a kcons_scheme"
  proof -
    obtain t where t: "printf f a s = Ret 0 t" "uart_step s t" using printf_run [of s] \<open>?I s\<close> by blast
    obtain u where "printf g b t = Ret 0 u" "uart_step t u" using printf_run [of t] pres [OF t(2) \<open>?I s\<close>] by blast
    then show ?thesis using t uart_step_trans by fastforce
  qed
  obtain t where t: "printf [10] [] s = Ret 0 t" "uart_step s t" using printf_run [OF assms] by blast
  have "?I t" using pres [OF t(2)] assms by blast
  let ?f = "\<lambda>i (s :: 'a kcons_scheme). if state (procs s i) = UNUSED then Ret () s
       else kbind (printf (map ch ''%d %s %s'')
              [PNum (word_of_int (pid (procs s i))), PStr (Some (map ch (state_name (state (procs s i))))),
               PStr (Some (takeWhile (\<lambda>c. c \<noteq> 0) (pname (procs s i))))] s) (\<lambda>_ s.
            kbind (printf [10] [] s) (\<lambda>_ s. Ret () s))"
  have "\<exists>u. kfold ?f [0..<NPROC] t = Ret () u \<and> uart_step t u"
  proof (rule kfold_uart [where I = ?I])
    fix i :: nat and v :: "'a kcons_scheme"
    assume "?I v"
    then show "\<exists>t. ?f i v = Ret () t \<and> uart_step v t" using two [of v] by (cases "state (procs v i) = UNUSED") auto
  qed (use \<open>?I t\<close> pres in auto)
  then obtain u where "kfold ?f [0..<NPROC] t = Ret () u" "uart_step t u" by blast
  then show ?thesis using t uart_step_trans by (fastforce simp: procdump_def)
qed

section \<open>Two parts of a ring\<close>

lemma ring_split:
  assumes "unat (w - r) \<le> unat (e - r)"
  shows "ring N d r e = ring N d r w @ ring N d w e" "unat (e - w) = unat (e - r) - unat (w - r)"
proof -
  have "e - w = (e - r) - (w - r)" by simp
  then show n: "unat (e - w) = unat (e - r) - unat (w - r)" using assms by (metis unat_sub word_le_nat_alt)
  have "[0..<unat (e - r)] = [0..<unat (w - r)] @ map (\<lambda>i. i + unat (w - r)) [0..<unat (e - w)]"
    using upt_add_eq_append [of 0 "unat (w - r)" "unat (e - w)"] map_add_upt [of "unat (w - r)" "unat (e - w)"] n assms by simp
  moreover have "r + of_nat (i + unat (w - r)) = w + of_nat i" for i by (simp add: add_ac)
  ultimately show "ring N d r e = ring N d r w @ ring N d w e" unfolding ring_def by (simp add: comp_def add_ac)
qed

lemma ring_last:
  assumes "e \<noteq> w"
  shows "ring N d w e = ring N d w (e - 1) @ [d (unat (e - 1) mod N)]" "unat (e - w) = Suc (unat (e - 1 - w))"
proof -
  have nz: "e - w \<noteq> 0" using assms by simp
  have "unat (e - 1 - w) = unat (e - w) - 1" using unat_minus_one [OF nz] by (simp add: algebra_simps)
  moreover have "0 < unat (e - w)" using nz by (simp add: unat_gt_0)
  ultimately show n: "unat (e - w) = Suc (unat (e - 1 - w))" by simp
  have "w + of_nat (unat (e - 1 - w)) = e - 1" by simp
  then show "ring N d w e = ring N d w (e - 1) @ [d (unat (e - 1) mod N)]"
    unfolding ring_def n upt_Suc_append [OF le0] map_append by simp
qed

section \<open>The editor\<close>

text \<open>Committed input and the line being typed.\<close>

definition cons_line :: "'z kcons_scheme \<Rightarrow> u8 list \<times> u8 list" where
  "cons_line s = (ring 128 (cons_buf s) (cons_r s) (cons_w s), ring 128 (cons_buf s) (cons_w s) (cons_e s))"

definition cons_ok :: "'z kcons_scheme \<Rightarrow> bool" where
  "cons_ok s \<longleftrightarrow> unat (cons_w s - cons_r s) \<le> unat (cons_e s - cons_r s) \<and> unat (cons_e s - cons_r s) \<le> 128
     \<and> 10 \<notin> set (snd (cons_line s))"

text \<open>
  The specification: control-P edits nothing, control-U drops the line, backspace and delete its
  last byte; any other byte but NUL is appended while fewer than 128 bytes are held, with carriage
  return as newline. Newline, control-D and a full buffer commit the line.
\<close>

fun edit :: "u8 \<Rightarrow> u8 list \<times> u8 list \<Rightarrow> u8 list \<times> u8 list" where
  "edit c (com, cur) =
     (if c = 16 then (com, cur)
      else if c = 21 then (com, [])
      else if c = 8 \<or> c = 127 then (com, butlast cur)
      else if c = 0 \<or> length com + length cur \<ge> 128 then (com, cur)
      else let c = (if c = 13 then 10 else c) in
        if c = 10 \<or> c = 4 \<or> length com + length cur = 127 then (com @ cur @ [c], [])
        else (com, cur @ [c]))"

lemma cons_len: "cons_ok s \<Longrightarrow> length (fst (cons_line s)) + length (snd (cons_line s)) = unat (cons_e s - cons_r s)"
  using ring_split(2) [of "cons_w s" "cons_r s" "cons_e s"] by (simp add: cons_ok_def cons_line_def)

lemma cons_erase:
  assumes "cons_ok s" "cons_e s \<noteq> cons_w s" "t = s\<lparr>cons_e := cons_e s - 1\<rparr>"
  shows "cons_ok t" "cons_line t = (fst (cons_line s), butlast (snd (cons_line s)))"
    "cons_at s (cons_e s - 1) = last (snd (cons_line s))"
proof -
  note l = ring_last(1) [OF assms(2), of 128 "cons_buf s"] ring_last(2) [OF assms(2)]
  have u: "unat (cons_e s - cons_w s) = unat (cons_e s - cons_r s) - unat (cons_w s - cons_r s)"
    by (rule ring_split(2)) (use assms(1) in \<open>simp add: cons_ok_def\<close>)
  have ne: "cons_e s \<noteq> cons_r s" using u l(2) by auto
  have er: "unat (cons_e s - cons_r s) = Suc (unat (cons_e s - 1 - cons_r s))" by (rule ring_last(2) [OF ne])
  show "cons_line t = (fst (cons_line s), butlast (snd (cons_line s)))" using l(1) by (simp add: cons_line_def assms(3))
  moreover have "10 \<notin> set (butlast (snd (cons_line s)))" using assms(1) by (auto simp: cons_ok_def dest: in_set_butlastD)
  moreover have "unat (cons_w s - cons_r s) \<le> unat (cons_e s - 1 - cons_r s)" "unat (cons_e s - 1 - cons_r s) \<le> 128"
    using assms(1) u l(2) er unfolding cons_ok_def by linarith+
  ultimately show "cons_ok t" by (simp add: cons_ok_def assms(3))
  show "cons_at s (cons_e s - 1) = last (snd (cons_line s))" using l(1) by (simp add: cons_line_def cons_at_def INPUT_mod)
qed

lemma cons_empty: "snd (cons_line s) = [] \<longleftrightarrow> cons_e s = cons_w s"
  by (auto simp: cons_line_def ring_Nil)

lemma cons_line_uart: "uart_step s t \<Longrightarrow> cons_line t = cons_line s" "uart_step s t \<Longrightarrow> cons_ok t = cons_ok s"
  by (simp_all add: cons_line_def cons_ok_def uart_step_sel)

lemma kill_line_run:
  assumes "uart_ready s" "cpu_ok s" "cons_ok s" "f = unat (cons_e s - cons_w s)"
  shows "\<exists>t e. kill_line f s = Ret () t \<and> uart_step (s\<lparr>cons_e := e\<rparr>) t \<and> cons_ok t \<and> cons_line t = (fst (cons_line s), [])"
  using assms
proof (induction f arbitrary: s)
  case 0
  then have e: "cons_e s = cons_w s" by (metis eq_iff_diff_eq_0 unat_eq_0)
  have "s\<lparr>cons_e := cons_e s\<rparr> = s" by simp
  then have "uart_step (s\<lparr>cons_e := cons_e s\<rparr>) s" by (simp only: uart_step_refl)
  moreover have "kill_line 0 s = Ret () s" using e by (simp add: kill_line.simps)
  moreover have "cons_line s = (fst (cons_line s), [])" using e cons_empty [of s] by (simp add: prod_eq_iff)
  ultimately show ?case using 0(3) by blast
next
  case (Suc f)
  then have ne: "cons_e s \<noteq> cons_w s" by auto
  let ?u = "s\<lparr>cons_e := cons_e s - 1\<rparr>"
  note er = cons_erase [OF Suc.prems(3) ne refl]
  have "snd (cons_line s) \<noteq> []" using cons_empty [of s] ne by simp
  then have "last (snd (cons_line s)) \<in> set (snd (cons_line s))" by (rule last_in_set)
  then have "last (snd (cons_line s)) \<noteq> 10" using Suc.prems(3) unfolding cons_ok_def by metis
  then have at: "cons_at s (cons_e s - 1) \<noteq> 10" using er(3) by simp
  have ok: "uart_ready ?u" "cpu_ok ?u" using Suc.prems(1,2) by (simp_all add: uart_ready_def cpu_ok_def)
  obtain v where v: "consputc BACKSPACE ?u = Ret () v" "uart_step ?u v" using consputc_run [OF ok] by blast
  note vs = uart_step_sel [OF v(2)] and vl = cons_line_uart [OF v(2)]
  have "f = unat (cons_e v - cons_w v)" using ring_last(2) [OF ne] Suc.prems(4) vs by simp
  then obtain t e where t: "kill_line f v = Ret () t" "uart_step (v\<lparr>cons_e := e\<rparr>) t" "cons_ok t" "cons_line t = (fst (cons_line v), [])"
    using Suc.IH [of v] ok er(1) vs(1,2) vl by auto
  have "uart_step (s\<lparr>cons_e := e\<rparr>) (v\<lparr>cons_e := e\<rparr>)"
  proof -
    obtain n out where "v = s\<lparr>cons_e := cons_e s - 1, uart_n := n, uart_out := out\<rparr>" using v(2) unfolding uart_step_def by auto
    then show ?thesis unfolding uart_step_def by (intro exI [of _ n] exI [of _ out]) simp
  qed
  then have "uart_step (s\<lparr>cons_e := e\<rparr>) t" using t(2) by (rule uart_step_trans)
  moreover have "kill_line (Suc f) s = Ret () t" using ne at v(1) t(1) by (simp add: kill_line.simps [of "Suc f"])
  ultimately show ?case using t(3,4) vl er(2) by auto
qed

lemma cons_store_line:
  assumes "cons_ok s" "unat (cons_e s - cons_r s) < 128" "c \<noteq> 10 \<or> nl"
  defines "t \<equiv> cons_store c s"
  shows "if nl then cons_line (t\<lparr>cons_w := cons_e t\<rparr>) = (fst (cons_line s) @ snd (cons_line s) @ [c], []) \<and> cons_ok (t\<lparr>cons_w := cons_e t\<rparr>)
    else cons_line t = (fst (cons_line s), snd (cons_line s) @ [c]) \<and> cons_ok t"
proof -
  let ?r = "cons_r s" and ?w = "cons_w s" and ?e = "cons_e s" and ?d = "(cons_buf s)(unat (cons_e s) mod 128 := c)"
  have le: "unat (?w - ?r) \<le> unat (?e - ?r)" "10 \<notin> set (snd (cons_line s))" using assms(1) by (simp_all add: cons_ok_def)
  have "unat (?e + 1 - ?r) = unat (?e - ?r + 1)" by (simp add: algebra_simps)
  also have "\<dots> = Suc (unat (?e - ?r))" using assms(2) unat_wrap [of "?e - ?r" 1] by simp
  finally have e1: "unat (?e + 1 - ?r) = Suc (unat (?e - ?r))" .
  have all: "ring 128 ?d ?r (?e + 1) = ring 128 (cons_buf s) ?r ?e @ [c]" using ring_put [of 128 ?e ?r "cons_buf s" c] assms(2) by simp
  have s1: "ring 128 ?d ?r (?e + 1) = ring 128 ?d ?r ?w @ ring 128 ?d ?w (?e + 1)"
    by (rule ring_split(1)) (use le(1) e1 in simp)
  have s2: "ring 128 (cons_buf s) ?r ?e = fst (cons_line s) @ snd (cons_line s)"
    unfolding cons_line_def fst_conv snd_conv by (rule ring_split(1) [OF le(1)])
  have "ring 128 ?d ?r ?w @ ring 128 ?d ?w (?e + 1) = fst (cons_line s) @ snd (cons_line s) @ [c]"
    using s1 s2 all by simp
  moreover have "length (ring 128 ?d ?r ?w) = length (fst (cons_line s))" by (simp add: cons_line_def)
  ultimately have parts: "ring 128 ?d ?r ?w = fst (cons_line s)" "ring 128 ?d ?w (?e + 1) = snd (cons_line s) @ [c]" by simp_all
  have t: "cons_buf t = ?d" "cons_r t = ?r" "cons_w t = ?w" "cons_e t = ?e + 1" by (simp_all add: t_def cons_store_def INPUT_mod)
  have e2: "unat (1 + ?e - ?r) = Suc (unat (?e - ?r))" using e1 by (simp add: add.commute)
  show ?thesis
  proof (cases nl)
    case True
    have "cons_line (t\<lparr>cons_w := cons_e t\<rparr>) = (fst (cons_line s) @ snd (cons_line s) @ [c], [])"
      using all s2 by (simp add: cons_line_def t ring_def [of _ _ "cons_e s + 1"])
    then show ?thesis using True assms(2) e1 by (simp add: cons_ok_def t)
  next
    case False
    have "cons_line t = (fst (cons_line s), snd (cons_line s) @ [c])" unfolding cons_line_def [of t] t parts ..
    then show ?thesis using False assms(2,3) e1 le by (simp add: cons_ok_def t)
  qed
qed

section \<open>The interrupt handler\<close>

abbreviation intr_body :: "u8 \<Rightarrow> 'z kcons_scheme \<Rightarrow> (unit, 'z kcons_scheme) kres" where
  "intr_body c \<equiv> \<lambda>s.
     if c = 16 then procdump s
     else if c = 21 then kill_line (unat (cons_e s - cons_w s)) s
     else if c = 8 \<or> c = 0x7f
     then if cons_e s \<noteq> cons_w s then consputc BACKSPACE (s\<lparr>cons_e := cons_e s - 1\<rparr>) else Ret () s
     else if c \<noteq> 0 \<and> cons_e s - cons_r s < INPUT_BUF_SIZE
     then let c = (if c = 13 then 10 else c) in
       kbind (consputc (ucast c) s) (\<lambda>_ s.
       let s = cons_store c s in
       if c = 10 \<or> c = 4 \<or> cons_e s - cons_r s = INPUT_BUF_SIZE
       then wakeup ChCons (s\<lparr>cons_w := cons_e s\<rparr>)
       else Ret () s)
     else Ret () s"

definition edited :: "u8 \<Rightarrow> 'z kcons_scheme \<Rightarrow> 'z kcons_scheme \<Rightarrow> bool" where
  "edited c s t \<longleftrightarrow> same_base t s \<and> cons_ok t \<and> cons_line t = edit c (cons_line s)"

lemma uart_same_base: "uart_step s t \<Longrightarrow> same_base t s"
  by (auto simp: uart_step_def same_base_def)

lemma intr_append:
  assumes "uart_ready s" "proc_ready s" "cons_ok s" "c \<notin> {0, 8, 16, 21, 127}" "cons_e s - cons_r s < INPUT_BUF_SIZE"
  shows "\<exists>t. intr_body c s = Ret () t \<and> edited c s t"
proof -
  let ?c = "if c = 13 then 10 else c :: u8"
  have cpu: "cpu_ok s" using assms(2) by (simp add: proc_ready_def)
  obtain u where u: "consputc (ucast ?c) s = Ret () u" "uart_step s u" using consputc_run [OF assms(1) cpu] by blast
  note us = uart_step_sel [OF u(2)] and ul = cons_line_uart [OF u(2)]
  have sp: "unat (cons_e u - cons_r u) < 128"
    using assms(5) us by (simp add: INPUT_BUF_SIZE_def word_less_nat_alt)
  have oku: "cons_ok u" using ul assms(3) by simp
  let ?t = "cons_store ?c u"
  let ?nl = "?c = 10 \<or> ?c = 4 \<or> cons_e ?t - cons_r ?t = INPUT_BUF_SIZE"
  have pt: "proc_ready (?t\<lparr>cons_w := cons_e ?t\<rparr>)" using assms(2) us(4) by (simp add: cons_store_def proc_ready_def cpu_ok_def lk_free_def)
  note w = wakeup_run [OF pt, of ChCons]
  have len: "length (fst (cons_line s)) + length (snd (cons_line s)) = unat (cons_e s - cons_r s)" by (rule cons_len [OF assms(3)])
  have "cons_e ?t - cons_r ?t = cons_e s - cons_r s + 1" using us by (simp add: cons_store_def algebra_simps)
  then have "cons_e ?t - cons_r ?t = INPUT_BUF_SIZE \<longleftrightarrow> cons_e s - cons_r s = 127"
    by (simp add: INPUT_BUF_SIZE_def)
  then have full: "cons_e ?t - cons_r ?t = INPUT_BUF_SIZE \<longleftrightarrow> length (fst (cons_line s)) + length (snd (cons_line s)) = 127"
    unfolding len by (simp add: word_unat_eq_iff)
  obtain com cur where cl: "cons_line s = (com, cur)" by (cases "cons_line s")
  have ed: "edit c (com, cur) = (if ?nl then (com @ cur @ [?c], []) else (com, cur @ [?c]))"
    using assms(4) full len sp us unfolding cl by (simp add: Let_def)
  have run: "intr_body c s = (if ?nl then wakeup ChCons (?t\<lparr>cons_w := cons_e ?t\<rparr>) else Ret () ?t)"
    using assms(4,5) u(1) by (simp add: Let_def)
  have sb: "same_base ?t s" using uart_same_base [OF u(2)] by (simp add: cons_store_def same_base_def)
  note st = cons_store_line [OF oku sp, of ?c ?nl]
  show ?thesis
  proof (cases ?nl)
    case True
    let ?v = "?t\<lparr>cons_w := cons_e ?t\<rparr>"
    obtain P where P: "intr_body c s = Ret () (?v\<lparr>procs := P\<rparr>)" using run True w by auto
    have "cons_line ?v = (com @ cur @ [?c], [])" "cons_ok ?v" using st True ul cl by auto
    then have "edited c s (?v\<lparr>procs := P\<rparr>)"
      unfolding edited_def cl ed if_P [OF True] using sb by (simp add: cons_line_def cons_ok_def same_base_def)
    then show ?thesis using P by blast
  next
    case False
    have "cons_line ?t = (com, cur @ [?c])" "cons_ok ?t" using st False ul cl by auto
    then have "edited c s ?t" unfolding edited_def cl ed if_not_P [OF False] using sb by simp
    then show ?thesis using run False by auto
  qed
qed

lemma intr_body_run:
  assumes "uart_ready s" "proc_ready s" "lk_free PrLock s" "cons_ok s"
  shows "\<exists>t. intr_body c s = Ret () t \<and> edited c s t"
proof -
  have cpu: "cpu_ok s" using assms(2) by (simp add: proc_ready_def)
  obtain com cur where cl: "cons_line s = (com, cur)" by (cases "cons_line s")
  have len: "length com + length cur = unat (cons_e s - cons_r s)" using cons_len [OF assms(4)] by (simp add: cl)
  have id: "edited c s s" if "edit c (com, cur) = (com, cur)"
    using that assms(4) by (simp add: edited_def cl same_base_def)
  consider "c = 16" | "c = 21" | "c \<in> {8, 127}" | "c \<notin> {8, 16, 21, 127}" by blast
  then show ?thesis
  proof cases
    case 1
    obtain t where t: "procdump s = Ret () t" "uart_step s t" using procdump_run [OF assms(1) cpu assms(3)] by blast
    have "edited c s t" using cons_line_uart [OF t(2)] assms(4) uart_same_base [OF t(2)] 1 by (simp add: edited_def cl)
    then show ?thesis using 1 t(1) by simp
  next
    case 2
    obtain t e where t: "kill_line (unat (cons_e s - cons_w s)) s = Ret () t" "uart_step (s\<lparr>cons_e := e\<rparr>) t" "cons_ok t"
      "cons_line t = (com, [])" using kill_line_run [OF assms(1) cpu assms(4) refl] cl by auto
    have "same_base t s" using uart_same_base [OF t(2)] by (simp add: same_base_def)
    then have "edited c s t" using t(3,4) 2 by (simp add: edited_def cl)
    then show ?thesis using 2 t(1) by simp
  next
    case 3
    show ?thesis
    proof (cases "cons_e s = cons_w s")
      case True
      then have "cur = []" using cons_empty [of s] by (simp add: cl)
      then show ?thesis using 3 True id by auto
    next
      case False
      let ?u = "s\<lparr>cons_e := cons_e s - 1\<rparr>"
      note er = cons_erase [OF assms(4) False refl]
      have "uart_ready ?u" "cpu_ok ?u" using assms(1) cpu by (simp_all add: uart_ready_def cpu_ok_def)
      then obtain t where t: "consputc BACKSPACE ?u = Ret () t" "uart_step ?u t" using consputc_run by blast
      have "same_base t s" using uart_same_base [OF t(2)] by (simp add: same_base_def)
      then have "edited c s t" using 3 er cons_line_uart [OF t(2)] by (auto simp: edited_def cl)
      then show ?thesis using 3 False t(1) by auto
    qed
  next
    case 4
    show ?thesis
    proof (cases "c \<noteq> 0 \<and> cons_e s - cons_r s < INPUT_BUF_SIZE")
      case True
      then show ?thesis using intr_append [OF assms(1,2,4)] 4 by blast
    next
      case False
      then have "c = 0 \<or> 128 \<le> length com + length cur"
        unfolding len by (auto simp: INPUT_BUF_SIZE_def word_less_nat_alt)
      then have "edited c s s" using 4 id by auto
      moreover have "intr_body c s = Ret () s" using 4 False by auto
      ultimately show ?thesis by blast
    qed
  qed
qed

text \<open>
  C15: The console refines a line editor. For every input byte and every legal state of the input
  buffer, when the transmitter becomes idle now and then, \<open>consoleintr\<close> returns, keeps the buffer
  legal (at most 128 bytes, the read, write and edit positions in order across the wrap-around
  of the counters), and changes committed input and the line being typed exactly as the editor
  specifies.
\<close>

theorem consoleintr_edits:
  assumes "quiet s" "uart_ready s" "cons_ok s"
  shows "\<exists>t. consoleintr c s = Ret () t \<and> cons_ok t \<and> cons_line t = edit c (cons_line s) \<and> locks t = locks s"
proof -
  let ?u = "taken ConsLock s"
  have q: "cpu_ok s" "lk_free ConsLock s" using assms(1) by (simp_all add: quiet_def)
  have u: "uart_ready ?u" "proc_ready ?u" "lk_free PrLock ?u"
    using assms(1,2) by (simp_all add: uart_ready_def quiet_def proc_ready_def) (simp add: taken_def)
  have l: "cons_line ?u = cons_line s" by (simp add: cons_line_def taken_def)
  have "cons_ok ?u" using assms(3) by (simp add: cons_ok_def l) (simp add: taken_def)
  then obtain t where t: "intr_body c ?u = Ret () t" "edited c ?u t" using intr_body_run [OF u] by blast
  have "consoleintr c s = Ret () (t\<lparr>cpus := cpus s, sie := sie s, locks := locks s\<rparr>)"
    unfolding consoleintr_def using t(2) by (intro with_lock_run [where body = "intr_body c", OF q t(1)]) (simp add: edited_def)
  then show ?thesis using t(2) l by (simp add: edited_def cons_line_def cons_ok_def)
qed

text \<open>A console with \<open>hi\<close> typed, just before its counters wrap around.\<close>

definition demo_cons :: kfile where
  "demo_cons = (demo_kfile (\<lambda>_. 0) 0)\<lparr>uart_in := (\<lambda>_. 32), cons_r := 0xFFFFFFFE, cons_w := 0xFFFFFFFE, cons_e := 0,
     cons_buf := (\<lambda>_. 0)(126 := 104, 127 := 105)\<rparr>"

theorem consoleintr_edits_witness:
  "\<exists>t. consoleintr 13 demo_cons = Ret () t \<and> cons_line t = ([104, 105, 10], [])"
proof -
  have l: "cons_line demo_cons = ([], [104, 105])" by (simp add: cons_line_def demo_cons_def ring_def upt_rec)
  have "quiet demo_cons" using demo_kfile_sel(6) [of "\<lambda>_. 0" 0]
    by (simp add: demo_cons_def quiet_def cpu_ok_def lk_free_def running_def)
  moreover have "uart_ready demo_cons"
    by (auto simp: uart_ready_def demo_cons_def LSR_TX_IDLE_def demo_kfile_def kcons.defs kfs.defs kfile.defs)
  moreover have "cons_ok demo_cons" unfolding cons_ok_def l by (simp add: demo_cons_def)
  ultimately show ?thesis using consoleintr_edits [of demo_cons 13] l by (auto simp: Let_def)
qed

end
