(* ===== verification/TrapSpec.thy ===== *)
theory TrapSpec
  imports SysSpec VirtioSpec ConsSpec
begin

text \<open>
  Properties of the way back to user space, \<^verbatim>\<open>kernel/trap.c\<close>, and of the dispatch of system calls,
  \<^verbatim>\<open>kernel/syscall.c\<close>.
\<close>

section \<open>Fields of the trap frame\<close>

lemma tf_disj:
  fixes t :: u64
  assumes "i \<noteq> j" "i < 512" "j < 512"
  shows "disj (t + 8 * of_nat i) 8 (t + 8 * of_nat j) 8"
  unfolding disj_def
proof (intro allI impI)
  fix a :: nat assume a: "a < 8"
  have u: "unat (8 * of_nat i + of_nat a :: u64) = 8 * i + a" "unat (8 * of_nat j :: u64) = 8 * j"
    using assms a by (simp_all add: unat_word_ariths unat_of_nat64)
  have "t + 8 * of_nat i + of_nat a - (t + 8 * of_nat j) = (8 * of_nat i + of_nat a) - 8 * of_nat j" by simp
  then show "8 \<le> unat (t + 8 * of_nat i + of_nat a - (t + 8 * of_nat j))"
    using assms a by (simp only: unat_sub_if' u) auto
qed

definition tf_word :: "nat \<Rightarrow> nat \<Rightarrow> 'z kproc_scheme \<Rightarrow> u64" where
  "tf_word p i s = tf_get p (8 * of_nat i) s"

lemma tf_set_sel [simp]:
  "procs (tf_set p off v s) = procs s" "tf_get p off (tf_set p off v s) = v"
  by (simp_all add: tf_set_def tf_get_def st_def ld_def)

lemma tf_set_word: "i < 512 \<Longrightarrow> j < 512 \<Longrightarrow> tf_word p i (tf_set p (8 * of_nat j) v s) = (if i = j then v else tf_word p i s)"
  using load64_store64_disj [OF tf_disj [of i j "trapframe (procs s p)"], of "mem s" v]
  by (auto simp: tf_word_def tf_get_def tf_set_def st_def ld_def)

lemma tf_offsets:
  "tf_kernel_satp = 8 * of_nat 0" "tf_kernel_sp = 8 * of_nat 1" "tf_kernel_trap = 8 * of_nat 2" "tf_epc = 8 * of_nat 3"
  "tf_kernel_hartid = 8 * of_nat 4" "n < 100 \<Longrightarrow> tf_a n = 8 * of_nat (14 + n)"
  by (simp_all add: tf_kernel_satp_def tf_kernel_sp_def tf_kernel_trap_def tf_epc_def tf_kernel_hartid_def tf_a_def)

section \<open>Back to user space\<close>

text \<open>
  C20: \<open>prepare_return\<close> leaves the hart ready to enter user mode. It returns with interrupts off; the
  next \<open>sret\<close> goes to user mode (\<open>SPP\<close> clear) with interrupts on there (\<open>SPIE\<close> set), to the saved
  program counter; the next trap goes to \<open>uservec\<close> in the trampoline page; the trap frame holds the
  kernel page table, stack, handler and hart that \<open>uservec\<close> loads; and every user register saved
  in the trap frame is unchanged.
\<close>

theorem prepare_return_user:
  assumes "cpu_ok s" "running s = Some p"
  shows "\<exists>t. prepare_return s = Ret () t \<and> \<not> sie t (hart s) \<and> hart t = hart s
    \<and> r_sstatus t AND SSTATUS_SPP = 0 \<and> r_sstatus t AND SSTATUS_SPIE \<noteq> 0
    \<and> r_csr Sepc t = tf_get p tf_epc s \<and> r_csr Stvec t = TRAMPOLINE + (sym_uservec s - sym_trampoline s)
    \<and> tf_get p tf_kernel_satp t = satp s (hart s) \<and> tf_get p tf_kernel_sp t = kstack (procs s p) + PGSIZE
    \<and> tf_get p tf_kernel_trap t = sym_usertrap s \<and> tf_get p tf_kernel_hartid t = of_nat (hart s)
    \<and> (\<forall>i. 5 \<le> i \<longrightarrow> i < 36 \<longrightarrow> tf_word p i t = tf_word p i s)"
proof -
  define u where "u = w_csr Stvec (TRAMPOLINE + (sym_uservec s - sym_trampoline s)) (intr_off s)"
  define v where "v = tf_set p tf_kernel_hartid (of_nat (hart s)) (tf_set p tf_kernel_trap (sym_usertrap s)
    (tf_set p tf_kernel_sp (kstack (procs s p) + PGSIZE) (tf_set p tf_kernel_satp (satp s (hart s)) u)))"
  let ?x = "(r_sstatus v AND NOT SSTATUS_SPP) OR SSTATUS_SPIE"
  let ?t = "w_csr Sepc (tf_get p tf_epc (w_sstatus ?x v)) (w_sstatus ?x v)"
  have vw: "tf_word p i v = (if i = 4 then of_nat (hart s) else if i = 2 then sym_usertrap s else if i = 1 then kstack (procs s p) + PGSIZE
      else if i = 0 then satp s (hart s) else tf_word p i s)" if "i < 512" for i
  proof -
    have "tf_word p i u = tf_word p i s" by (simp add: u_def tf_word_def tf_get_def ld_def w_csr_def intr_off_def)
    moreover have "tf_word p i (tf_set p tf_kernel_satp x z) = (if i = 0 then x else tf_word p i z)" for x and z :: "'a ktrap_scheme"
      unfolding tf_offsets by (rule tf_set_word) (use that in simp_all)
    moreover have "tf_word p i (tf_set p tf_kernel_sp x z) = (if i = 1 then x else tf_word p i z)" for x and z :: "'a ktrap_scheme"
      unfolding tf_offsets by (rule tf_set_word) (use that in simp_all)
    moreover have "tf_word p i (tf_set p tf_kernel_trap x z) = (if i = 2 then x else tf_word p i z)" for x and z :: "'a ktrap_scheme"
      unfolding tf_offsets by (rule tf_set_word) (use that in simp_all)
    moreover have "tf_word p i (tf_set p tf_kernel_hartid x z) = (if i = 4 then x else tf_word p i z)" for x and z :: "'a ktrap_scheme"
      unfolding tf_offsets by (rule tf_set_word) (use that in simp_all)
    ultimately show ?thesis unfolding v_def by simp
  qed
  have vs: "hart v = hart s" "sie v (hart s) = False" "procs v = procs s" "r_csr Stvec v = TRAMPOLINE + (sym_uservec s - sym_trampoline s)"
    by (simp_all add: v_def u_def tf_set_def st_def w_csr_def intr_off_def r_csr_def)
  have mem: "tf_word p i ?t = tf_word p i v" "tf_get p off (w_sstatus ?x v) = tf_get p off v" "tf_get p off ?t = tf_get p off v" for i off
    by (simp_all add: tf_word_def tf_get_def ld_def w_csr_def w_sstatus_def)
  have xs: "?x AND SSTATUS_SIE = 0"
    using vs(1,2) by (intro bit_word_eqI) (auto simp: r_sstatus_def SSTATUS_SIE_def SSTATUS_SPIE_def bit_simps)
  have run: "prepare_return s = Ret () ?t"
    unfolding prepare_return_def curproc_run [OF assms] kbind.simps Let_def v_def u_def
    by (simp add: tf_set_def st_def w_csr_def intr_off_def)
  have st: "r_sstatus ?t = ?x"
  proof -
    have h: "hart ?t = hart s" "sie ?t (hart s) = False" using vs(1) xs by (simp_all add: w_csr_def w_sstatus_def)
    have c: "r_csr Sstatus ?t = ?x" using vs(1) by (simp add: w_csr_def w_sstatus_def r_csr_def)
    have "?x AND NOT SSTATUS_SIE = ?x"
      using vs(1,2) by (intro bit_word_eqI) (auto simp: r_sstatus_def SSTATUS_SIE_def SSTATUS_SPIE_def bit_simps)
    then show ?thesis unfolding r_sstatus_def [of ?t] h c by simp
  qed
  have gt: "tf_get p tf_kernel_satp ?t = tf_word p 0 v" "tf_get p tf_kernel_sp ?t = tf_word p 1 v" "tf_get p tf_kernel_trap ?t = tf_word p 2 v"
    "tf_get p tf_kernel_hartid ?t = tf_word p 4 v" "tf_get p tf_epc v = tf_word p 3 v" "tf_get p tf_epc s = tf_word p 3 s"
    unfolding mem(3) unfolding tf_offsets tf_word_def by simp_all
  have "SSTATUS_SPIE AND SSTATUS_SPP = 0" by (simp add: SSTATUS_SPP_def SSTATUS_SPIE_def)
  then have "?x AND SSTATUS_SPP = 0" unfolding bit.conj_disj_distrib2 by (simp add: and.assoc)
  moreover have "bit (?x AND SSTATUS_SPIE) 5" by (simp add: SSTATUS_SPIE_def bit_simps)
  then have "?x AND SSTATUS_SPIE \<noteq> 0" by (metis bit_0_eq bot_apply bot_bool_def)
  moreover have "\<not> sie ?t (hart s)" "hart ?t = hart s" using vs(1) xs by (simp_all add: w_csr_def w_sstatus_def)
  moreover have "r_csr Sepc ?t = tf_get p tf_epc s" using gt(5,6) vw [of 3] mem(2) by (simp add: r_csr_def w_csr_def w_sstatus_def)
  moreover have "r_csr Stvec ?t = TRAMPOLINE + (sym_uservec s - sym_trampoline s)"
    using vs(1,4) by (simp add: r_csr_def w_csr_def w_sstatus_def)
  moreover have "\<forall>i. 5 \<le> i \<longrightarrow> i < 36 \<longrightarrow> tf_word p i ?t = tf_word p i s" using mem(1) vw by simp
  ultimately show ?thesis unfolding run using st gt(1-4) vw [of 0] vw [of 1] vw [of 2] vw [of 4]
    by (intro exI [of _ ?t]) simp
qed

section \<open>An unknown system call\<close>

lemma syscalls_None: "num < 1 \<or> 21 < num \<Longrightarrow> syscalls num = None"
  by (simp add: syscalls_def) linarith

text \<open>
  A system call whose number is not one of the 21 of the table kills nothing: the call returns
  to the process after a message on the console, with -1 in its register \<open>a0\<close> and every other
  register saved in the trap frame unchanged, and no process table entry changes.
\<close>

theorem syscall_unknown:
  assumes "cpu_ok s" "lk_free PrLock s" "uart_ready s" "running s = Some p"
    and "num = sint (ucast (tf_get p (tf_a 7) s) :: u32)" "num < 1 \<or> 21 < num"
  shows "\<exists>t. syscall s = Ret () t \<and> tf_get p (tf_a 0) t = - 1 \<and> procs t = procs s
    \<and> (\<forall>i. i < 36 \<longrightarrow> i \<noteq> 14 \<longrightarrow> tf_word p i t = tf_word p i s)"
proof -
  obtain u where u: "printf (map ch ''%d %s: unknown sys call %d'' @ [10])
      [PNum (word_of_int (pid (procs s p))), PStr (Some (str_of (pname (procs s p)))), PNum (word_of_int num)] s = Ret 0 u" "uart_step s u"
    using printf_run [OF assms(3,1,2)] by blast
  have run: "syscall s = Ret () (tf_set p (tf_a 0) (- 1) u)"
    unfolding syscall_def curproc_run [OF assms(1,4)] kbind.simps Let_def assms(5) [symmetric] syscalls_None [OF assms(6)] option.case u(1) by simp
  have w: "tf_word p i (tf_set p (tf_a 0) (- 1) u) = tf_word p i s" if "i < 36" "i \<noteq> 14" for i
  proof -
    have "tf_a 0 = 8 * of_nat 14" using tf_offsets(6) [of 0] by simp
    then have "tf_word p i (tf_set p (tf_a 0) (- 1) u) = tf_word p i u" using tf_set_word [of i 14] that by simp
    moreover have "tf_word p i u = tf_word p i s" using u(2) by (auto simp: uart_step_def tf_word_def tf_get_def ld_def)
    ultimately show ?thesis by simp
  qed
  show ?thesis unfolding run using w uart_step_sel(9) [OF u(2)] by (intro exI [of _ "tf_set p (tf_a 0) (- 1) u"]) simp
qed

section \<open>Concrete instances\<close>

definition demo_ktrap :: ktrap where
  "demo_ktrap = kdisk.extend demo_kdisk (ktrap.fields (\<lambda>_ _. 0x122) False True 0)"

lemma demo_ktrap_ok: "cpu_ok demo_ktrap" "running demo_ktrap = Some 1"
  using demo_kfile_sel(4,6) [of "\<lambda>_. 0" 0]
  by (simp_all add: demo_ktrap_def demo_kdisk_def kfile.defs kdisk.defs ktrap.defs quiet_def cpu_ok_def lk_free_def running_def)

theorem prepare_return_user_witness:
  "\<exists>t. prepare_return demo_ktrap = Ret () t \<and> r_sstatus demo_ktrap AND SSTATUS_SPP \<noteq> 0 \<and> r_sstatus t AND SSTATUS_SPP = 0"
proof -
  have "csrs demo_ktrap h c = 0x122" for h c by (simp add: demo_ktrap_def kdisk.defs ktrap.defs)
  then have "r_sstatus demo_ktrap AND SSTATUS_SPP \<noteq> 0"
    by (simp add: r_sstatus_def r_csr_def SSTATUS_SPP_def SSTATUS_SIE_def)
  then show ?thesis using prepare_return_user [OF demo_ktrap_ok] by blast
qed

theorem syscall_unknown_witness: "\<exists>t. syscall demo_cons = Ret () t \<and> tf_get 1 (tf_a 0) t = - 1 \<and> tf_get 1 (tf_a 0) demo_cons = 0"
proof -
  note s = demo_kfile_sel(4,6) [of "\<lambda>_. 0" 0]
  have q: "cpu_ok demo_cons" "lk_free PrLock demo_cons" "running demo_cons = Some 1"
    using s by (simp_all add: demo_cons_def quiet_def cpu_ok_def lk_free_def running_def)
  have r: "uart_ready demo_cons"
    by (auto simp: uart_ready_def demo_cons_def LSR_TX_IDLE_def demo_kfile_def kcons.defs kfs.defs kfile.defs)
  have z: "tf_get 1 off demo_cons = 0" for off
    by (simp add: demo_cons_def tf_get_def ld_def load64_def load_bytes_def upt_rec)
  show ?thesis using syscall_unknown [OF q(1,2) r q(3) refl] z by auto
qed

end
