(* ===== verification/Queue.thy ===== *)
theory Queue
  imports Prelude
begin

text \<open>
  The linked queue of the user-level thread scheduler, \<^verbatim>\<open>th-scheduler/queue.c\<close>. The nodes live in a
  store from addresses to \<open>struct queue_entry\<close>; \<open>malloc\<close> of the host library is the parameter \<open>fresh\<close>
  of \<open>queue_new_node\<close>, the address it returns, or \<open>None\<close> when it fails.
\<close>

section \<open>Operations\<close>

record queue_entry =
  qdata :: u64
  qnext :: "nat option"
  qprev :: "nat option"

record queue =
  qhead :: "nat option"
  qtail :: "nat option"

type_synonym qstore = "nat \<Rightarrow> queue_entry"

definition queue_create :: queue where
  "queue_create = \<lparr>qhead = None, qtail = None\<rparr>"

definition queue_init :: "queue option \<Rightarrow> queue option" where
  "queue_init q = (case q of None \<Rightarrow> None | Some q \<Rightarrow> Some (q\<lparr>qhead := None, qtail := None\<rparr>))"

definition queue_new_node :: "nat option \<Rightarrow> u64 \<Rightarrow> qstore \<Rightarrow> nat option \<times> qstore" where
  "queue_new_node fresh d h =
     (case fresh of
        None \<Rightarrow> (None, h)
      | Some n \<Rightarrow> (Some n, h(n := \<lparr>qdata = d, qnext = None, qprev = None\<rparr>)))"

definition queue_insert_tail :: "queue option \<Rightarrow> nat option \<Rightarrow> qstore \<Rightarrow> queue option \<times> qstore" where
  "queue_insert_tail qo no h =
     (case (qo, no) of
        (Some q, Some n) \<Rightarrow>
          let h = h(n := (h n)\<lparr>qnext := None\<rparr>);
              h = h(n := (h n)\<lparr>qprev := qtail q\<rparr>)
          in (case qtail q of
                None \<Rightarrow> (Some (q\<lparr>qhead := Some n, qtail := Some n\<rparr>), h)
              | Some t \<Rightarrow> (Some (q\<lparr>qtail := Some n\<rparr>), h(t := (h t)\<lparr>qnext := Some n\<rparr>)))
      | _ \<Rightarrow> (qo, h))"

definition queue_peek_front :: "queue option \<Rightarrow> nat option" where
  "queue_peek_front qo = (case qo of None \<Rightarrow> None | Some q \<Rightarrow> qhead q)"

definition queue_pop_head :: "queue option \<Rightarrow> qstore \<Rightarrow> queue option \<times> qstore" where
  "queue_pop_head qo h =
     (case qo of
        None \<Rightarrow> (None, h)
      | Some q \<Rightarrow>
          (case qhead q of
             None \<Rightarrow> (Some q, h)
           | Some old \<Rightarrow>
               let q = q\<lparr>qhead := qnext (h old)\<rparr> in
               (case qhead q of
                  None \<Rightarrow> (Some (q\<lparr>qtail := None\<rparr>), h)
                | Some n \<Rightarrow> (Some q, h(n := (h n)\<lparr>qprev := None\<rparr>)))))"

section \<open>The queue as a list\<close>

fun first_of :: "'a list \<Rightarrow> 'a option" where
  "first_of [] = None"
| "first_of (x # xs) = Some x"

fun last_of :: "'a list \<Rightarrow> 'a option" where
  "last_of [] = None"
| "last_of [x] = Some x"
| "last_of (x # y # xs) = last_of (y # xs)"

text \<open>\<open>dll p h xs\<close>: the nodes \<open>xs\<close> are linked in order, the first one back to \<open>p\<close>.\<close>

fun dll :: "nat option \<Rightarrow> qstore \<Rightarrow> nat list \<Rightarrow> bool" where
  "dll p h [] \<longleftrightarrow> True"
| "dll p h (x # xs) \<longleftrightarrow> qprev (h x) = p \<and> qnext (h x) = first_of xs \<and> dll (Some x) h xs"

definition queue_rep :: "qstore \<Rightarrow> queue \<Rightarrow> nat list \<Rightarrow> bool" where
  "queue_rep h q xs \<longleftrightarrow> qhead q = first_of xs \<and> qtail q = last_of xs \<and> dll None h xs \<and> distinct xs"

lemma last_of_snoc [simp]: "last_of (xs @ [x]) = Some x"
  by (induction xs rule: last_of.induct) auto

lemma first_of_snoc: "first_of (xs @ [x]) = (case xs of [] \<Rightarrow> Some x | y # _ \<Rightarrow> Some y)"
  by (cases xs) auto

lemma last_of_None [simp]: "last_of xs = None \<longleftrightarrow> xs = []"
  by (induction xs rule: last_of.induct) auto

lemma dll_frame: "dll p h xs \<Longrightarrow> (\<And>x. x \<in> set xs \<Longrightarrow> h' x = h x) \<Longrightarrow> dll p h' xs"
  by (induction xs arbitrary: p) auto

text \<open>Appending a node behind the last one.\<close>

lemma dll_append:
  assumes "dll p h (xs @ [t])" "n \<notin> set (xs @ [t])" "distinct (xs @ [t])" "qprev (h n) = Some t" "qnext (h n) = None"
  shows "dll p (h(t := (h t)\<lparr>qnext := Some n\<rparr>)) (xs @ [t, n])"
  using assms
proof (induction xs arbitrary: p)
  case (Cons x xs)
  then have "x \<noteq> t" "x \<noteq> n" by auto
  with Cons show ?case by (cases xs) auto
qed auto

lemma insert_tail_rep:
  assumes "queue_rep h q xs" "n \<notin> set xs"
  shows "\<exists>q' h'. queue_insert_tail (Some q) (Some n) h = (Some q', h') \<and> queue_rep h' q' (xs @ [n])
    \<and> (\<forall>x. qdata (h' x) = qdata (h x)) \<and> (\<forall>x. x \<notin> insert n (set xs) \<longrightarrow> h' x = h x)"
proof (cases xs rule: rev_cases)
  case Nil
  then show ?thesis using assms by (auto simp: queue_rep_def queue_insert_tail_def Let_def)
next
  case (snoc ys t)
  let ?h = "h(n := (h n)\<lparr>qnext := None, qprev := Some t\<rparr>)"
  have d: "dll None h (ys @ [t])" "distinct (ys @ [t])" "qtail q = Some t" "qhead q = first_of (ys @ [t])" "n \<notin> set (ys @ [t])"
    using assms snoc by (simp_all add: queue_rep_def)
  have "dll None ?h (ys @ [t])" by (rule dll_frame [OF d(1)]) (use d(5) in auto)
  from dll_append [OF this d(5,2)] have l: "dll None (?h(t := (?h t)\<lparr>qnext := Some n\<rparr>)) (ys @ [t, n])" by simp
  have e: "queue_insert_tail (Some q) (Some n) h = (Some (q\<lparr>qtail := Some n\<rparr>), ?h(t := (?h t)\<lparr>qnext := Some n\<rparr>))"
    using d(3) by (simp add: queue_insert_tail_def Let_def)
  have "last_of (ys @ [t, n]) = Some n" using last_of_snoc [of "ys @ [t]" n] by simp
  then have "queue_rep (?h(t := (?h t)\<lparr>qnext := Some n\<rparr>)) (q\<lparr>qtail := Some n\<rparr>) (xs @ [n])"
    unfolding queue_rep_def using l d snoc by (cases ys) auto
  then show ?thesis unfolding e using snoc d(5) by auto
qed

lemma pop_head_rep:
  assumes "queue_rep h q (x # xs)"
  shows "\<exists>q' h'. queue_pop_head (Some q) h = (Some q', h') \<and> queue_rep h' q' xs
    \<and> (\<forall>y. qdata (h' y) = qdata (h y)) \<and> (\<forall>y. y \<notin> set xs \<longrightarrow> h' y = h y)"
proof (cases xs)
  case Nil
  then show ?thesis using assms by (auto simp: queue_rep_def queue_pop_head_def Let_def)
next
  case (Cons y ys)
  let ?h = "h(y := (h y)\<lparr>qprev := None\<rparr>)"
  have d: "qhead q = Some x" "qnext (h x) = Some y" "qnext (h y) = first_of ys" "dll (Some y) h ys" "y \<notin> set ys"
    "distinct xs" "qtail q = last_of xs"
    using assms Cons by (auto simp: queue_rep_def)
  have "dll (Some y) ?h ys" by (rule dll_frame [OF d(4)]) (use d(5) in auto)
  then have "queue_rep ?h (q\<lparr>qhead := Some y\<rparr>) xs" using d Cons by (simp add: queue_rep_def)
  then show ?thesis using d(1,2) Cons by (auto simp: queue_pop_head_def Let_def)
qed

section \<open>Properties\<close>

text \<open>
  C22: The scheduler's queue is first in, first out. When the linked nodes represent the list
  \<open>xs\<close>, \<open>queue_peek_front\<close> returns its first node, \<open>queue_insert_tail\<close> of a node that is not in the
  queue yields the list with the node at the end, and \<open>queue_pop_head\<close> the list without its first
  node (an empty queue stays empty); forward and backward links stay consistent, no payload changes
  and no node outside the queue is written.
\<close>

theorem queue_fifo:
  assumes "queue_rep h q xs" "n \<notin> set xs"
  shows "queue_peek_front (Some q) = first_of xs
    \<and> (\<exists>q' h'. queue_insert_tail (Some q) (Some n) h = (Some q', h') \<and> queue_rep h' q' (xs @ [n])
         \<and> (\<forall>x. qdata (h' x) = qdata (h x)) \<and> (\<forall>x. x \<notin> insert n (set xs) \<longrightarrow> h' x = h x))
    \<and> (\<exists>q' h'. queue_pop_head (Some q) h = (Some q', h') \<and> queue_rep h' q' (tl xs)
         \<and> (\<forall>x. qdata (h' x) = qdata (h x)) \<and> (\<forall>x. x \<notin> set xs \<longrightarrow> h' x = h x))"
proof (intro conjI)
  show "queue_peek_front (Some q) = first_of xs" using assms(1) by (simp add: queue_peek_front_def queue_rep_def)
  show "\<exists>q' h'. queue_insert_tail (Some q) (Some n) h = (Some q', h') \<and> queue_rep h' q' (xs @ [n])
      \<and> (\<forall>x. qdata (h' x) = qdata (h x)) \<and> (\<forall>x. x \<notin> insert n (set xs) \<longrightarrow> h' x = h x)"
    by (rule insert_tail_rep [OF assms])
  show "\<exists>q' h'. queue_pop_head (Some q) h = (Some q', h') \<and> queue_rep h' q' (tl xs)
      \<and> (\<forall>x. qdata (h' x) = qdata (h x)) \<and> (\<forall>x. x \<notin> set xs \<longrightarrow> h' x = h x)"
  proof (cases xs)
    case Nil
    then show ?thesis using assms(1) by (simp add: queue_rep_def queue_pop_head_def)
  next
    case (Cons x ys)
    then show ?thesis using pop_head_rep [of h q x ys] assms(1) by auto
  qed
qed

theorem queue_fifo_witness:
  "\<exists>q h. queue_insert_tail (Some queue_create) (Some 5) (\<lambda>_. \<lparr>qdata = 1, qnext = Some 9, qprev = Some 9\<rparr>) = (Some q, h)
     \<and> queue_rep h q [5]"
proof -
  have "queue_rep (\<lambda>_. \<lparr>qdata = 1, qnext = Some 9, qprev = Some 9\<rparr>) queue_create []"
    by (simp add: queue_rep_def queue_create_def)
  from queue_fifo [OF this, of 5] show ?thesis by auto
qed

end
