(* ===== verification/Ulib.thy ===== *)
theory Ulib
  imports Prelude
begin

text \<open>
  The parts of the user library, \<^verbatim>\<open>user/ulib.c\<close>, that the user programs build on, apart from the byte
  routines of \<^verbatim>\<open>KString\<close>. A C string is the list of its bytes before the terminating NUL.
\<close>

section \<open>Reading from a descriptor\<close>

text \<open>
  What a program sees of an open descriptor: the bytes still to come and, for each further call of
  \<open>read\<close>, whether it fails and how many bytes it is ready to deliver. A call delivers at least one
  byte unless the input has ended or nothing was asked for; without an entry in the plan it
  delivers as much as it can.
\<close>

record source =
  rdata :: "u8 list"
  rplan :: "nat option list"

definition read_some :: "nat \<Rightarrow> nat option list \<Rightarrow> source \<Rightarrow> u8 list option \<times> source" where
  "read_some n pl f = (Some (take n (rdata f)), f\<lparr>rdata := drop n (rdata f), rplan := pl\<rparr>)"

definition uread :: "nat \<Rightarrow> source \<Rightarrow> u8 list option \<times> source" where
  "uread want f =
     (case rplan f of
        [] \<Rightarrow> read_some want [] f
      | None # pl \<Rightarrow> (None, f\<lparr>rplan := pl\<rparr>)
      | Some k # pl \<Rightarrow> read_some (min want (max 1 k)) pl f)"

definition reliable :: "source \<Rightarrow> bool" where
  "reliable f \<longleftrightarrow> None \<notin> set (rplan f)"

lemma uread_reliable:
  assumes "reliable f"
  obtains bs g where "uread want f = (Some bs, g)" "reliable g" "rdata f = bs @ rdata g" "length bs \<le> want"
    "bs = [] \<longleftrightarrow> want = 0 \<or> rdata f = []"
proof (cases "rplan f")
  case Nil
  then show ?thesis using assms that [of "take want (rdata f)"] by (simp add: uread_def read_some_def reliable_def)
next
  case (Cons k pl)
  then obtain n where n: "k = Some n" using assms by (cases k) (auto simp: reliable_def)
  let ?m = "min want (max 1 n)"
  have m: "?m = 0 \<longleftrightarrow> want = 0" "min (length (rdata f)) ?m \<le> want" by auto
  show ?thesis using assms m by (intro that [of "take ?m (rdata f)" "f\<lparr>rdata := drop ?m (rdata f), rplan := pl\<rparr>"]) (simp_all add: Cons n uread_def read_some_def reliable_def)
qed

lemma take_Cons_shrinks: "take n xs = b # bs \<Longrightarrow> length (drop n xs) < length xs"
  by (cases n; cases xs) auto

lemma uread_shrinks: "uread want f = (Some (b # bs), g) \<Longrightarrow> length (rdata g) < length (rdata f)"
  by (cases f) (auto simp: uread_def read_some_def split: list.splits option.splits simp del: length_drop intro: take_Cons_shrinks)

section \<open>Strings\<close>

text \<open>\<open>strchr\<close> searches before the NUL, so it never finds a NUL.\<close>

fun strchr :: "u8 list \<Rightarrow> u8 \<Rightarrow> u8 list option" where
  "strchr [] c = None"
| "strchr (x # xs) c = (if x = 0 then None else if x = c then Some (x # xs) else strchr xs c)"

lemma strchr_hit: "c \<notin> set xs \<Longrightarrow> 0 \<notin> set xs \<Longrightarrow> c \<noteq> 0 \<Longrightarrow> strchr (xs @ c # ys) c = Some (c # ys)"
  by (induction xs) auto

lemma strchr_miss: "c \<notin> set xs \<Longrightarrow> strchr xs c = None"
  by (induction xs) auto

lemma strchr_found: "strchr xs c \<noteq> None \<longleftrightarrow> c \<noteq> 0 \<and> c \<in> set (takeWhile (\<lambda>x. x \<noteq> 0) xs)"
  by (induction xs) auto

lemma strchr_suffix: "strchr xs c = Some q \<Longrightarrow> \<exists>ps. xs = ps @ q \<and> q \<noteq> [] \<and> hd q = c \<and> 0 \<notin> set ps \<and> c \<notin> set ps"
proof (induction xs)
  case (Cons x xs)
  then consider "x \<noteq> 0" "x = c" "q = x # xs" | "x \<noteq> 0" "x \<noteq> c" "strchr xs c = Some q" by (auto split: if_splits)
  then show ?case
  proof cases
    case 1
    then show ?thesis by (intro exI [of _ "[]"]) simp
  next
    case 2
    then obtain ps where "xs = ps @ q" "q \<noteq> []" "hd q = c" "0 \<notin> set ps" "c \<notin> set ps" using Cons.IH by blast
    then show ?thesis using 2 by (intro exI [of _ "x # ps"]) simp
  qed
qed simp

text \<open>\<open>atoi\<close> stops at the first byte that is not a digit; its \<open>int\<close> wraps at 32 bits.\<close>

fun atoi_loop :: "u8 list \<Rightarrow> u32 \<Rightarrow> u32" where
  "atoi_loop [] n = n"
| "atoi_loop (c # s) n = (if 48 \<le> c \<and> c \<le> 57 then atoi_loop s (n * 10 + ucast c - 48) else n)"

definition atoi :: "u8 list \<Rightarrow> u32" where
  "atoi s = atoi_loop s 0"

section \<open>Lines\<close>

text \<open>\<open>gets\<close> stores at most \<open>max - 1\<close> bytes; the result is the string it leaves in the buffer.\<close>

fun gets_loop :: "nat \<Rightarrow> source \<Rightarrow> u8 list \<times> source" where
  "gets_loop 0 f = ([], f)"
| "gets_loop (Suc k) f =
     (case uread 1 f of
        (Some [c], f) \<Rightarrow>
          if c = 10 \<or> c = 13 then ([c], f)
          else (case gets_loop k f of (bs, f) \<Rightarrow> (c # bs, f))
      | (_, f) \<Rightarrow> ([], f))"

definition gets :: "nat \<Rightarrow> source \<Rightarrow> u8 list \<times> source" where
  "gets n f = gets_loop (n - 1) f"

definition is_eol :: "u8 \<Rightarrow> bool" where "is_eol c \<longleftrightarrow> c = 10 \<or> c = 13"

lemma gets_loop_line:
  assumes "reliable f"
  shows "\<exists>bs g. gets_loop k f = (bs, g) \<and> reliable g \<and> rdata f = bs @ rdata g
    \<and> bs = take k (takeWhile (\<lambda>c. \<not> is_eol c) (rdata f) @ take 1 (dropWhile (\<lambda>c. \<not> is_eol c) (rdata f)))"
  using assms
proof (induction k arbitrary: f)
  case (Suc k)
  obtain bs g where u: "uread 1 f = (Some bs, g)" "reliable g" "rdata f = bs @ rdata g" "length bs \<le> 1" "bs = [] \<longleftrightarrow> rdata f = []"
    by (rule uread_reliable [OF Suc.prems, of 1]) (simp only: one_neq_zero simp_thms)
  show ?case
  proof (cases bs)
    case Nil
    then have e: "rdata f = []" using u(5) by blast
    then have "rdata g = []" using u(3) Nil by simp
    have "gets_loop (Suc k) f = ([], g)" using u(1) Nil by simp
    then show ?thesis using e \<open>rdata g = []\<close> u(2) by simp
  next
    case (Cons c cs)
    then have "bs = [c]" using u(4) by simp
    then have c: "uread 1 f = (Some [c], g)" "rdata f = c # rdata g" using u(1,3) by simp_all
    show ?thesis
    proof (cases "is_eol c")
      case True
      then have "gets_loop (Suc k) f = ([c], g)" using c(1) by (auto simp: is_eol_def)
      then show ?thesis using c(2) u(2) True by simp
    next
      case False
      obtain cs h where h: "gets_loop k g = (cs, h)" "reliable h" "rdata g = cs @ rdata h"
        "cs = take k (takeWhile (\<lambda>c. \<not> is_eol c) (rdata g) @ take 1 (dropWhile (\<lambda>c. \<not> is_eol c) (rdata g)))"
        using Suc.IH [OF u(2)] by blast
      have "gets_loop (Suc k) f = (c # cs, h)" using c(1) False h(1) by (simp add: is_eol_def)
      moreover have "rdata f = (c # cs) @ rdata h" using c(2) h(3) by simp
      moreover have "c # cs = take (Suc k) (takeWhile (\<lambda>c. \<not> is_eol c) (rdata f) @ take 1 (dropWhile (\<lambda>c. \<not> is_eol c) (rdata f)))"
        unfolding c(2) using False h(4) by simp
      ultimately show ?thesis using h(2) by blast
    qed
  qed
qed simp

end
