(* ===== verification/Shell.thy ===== *)
theory Shell
  imports Ulib
begin

text \<open>
  The command parser of the shell, \<^verbatim>\<open>user/sh.c\<close>. The line is the list of its bytes without the
  terminating NUL; a \<open>char *\<close> into it is a position, and the byte at the end position is NUL. A
  \<open>struct cmd *\<close> is the tree it points to: \<open>argv\<close> and \<open>eargv\<close> are the list of the pairs of
  positions stored so far. \<open>panic\<close> of the shell ends the process; it is the result \<open>Bad\<close>.
\<close>

section \<open>Characters\<close>

definition chr_at :: "u8 list \<Rightarrow> nat \<Rightarrow> u8" where
  "chr_at buf i = (if i < length buf then buf ! i else 0)"

definition whitespace :: "u8 list" where "whitespace = [32, 9, 13, 10, 11]"
definition symbols :: "u8 list" where "symbols = [60, 124, 62, 38, 59, 40, 41]"

definition is_space :: "u8 \<Rightarrow> bool" where "is_space c \<longleftrightarrow> strchr whitespace c \<noteq> None"
definition is_symbol :: "u8 \<Rightarrow> bool" where "is_symbol c \<longleftrightarrow> strchr symbols c \<noteq> None"

function skip_ws :: "u8 list \<Rightarrow> nat \<Rightarrow> nat" where
  "skip_ws buf s = (if s < length buf \<and> is_space (chr_at buf s) then skip_ws buf (Suc s) else s)"
  by pat_completeness auto
termination
  by (relation "measure (\<lambda>(buf, s). length buf - s)") auto

function skip_word :: "u8 list \<Rightarrow> nat \<Rightarrow> nat" where
  "skip_word buf s =
     (if s < length buf \<and> \<not> is_space (chr_at buf s) \<and> \<not> is_symbol (chr_at buf s)
      then skip_word buf (Suc s) else s)"
  by pat_completeness auto
termination
  by (relation "measure (\<lambda>(buf, s). length buf - s)") auto

declare skip_ws.simps [simp del] skip_word.simps [simp del]

section \<open>Tokens\<close>

text \<open>\<open>gettoken\<close> returns the kind of the token, \<open>*q\<close>, \<open>*eq\<close> and the new \<open>*ps\<close>.\<close>

definition gettoken :: "u8 list \<Rightarrow> nat \<Rightarrow> u8 \<times> nat \<times> nat \<times> nat" where
  "gettoken buf s =
     (let s = skip_ws buf s; q = s; c = chr_at buf s;
          (ret, s) =
            (if c = 0 then (0, s)
             else if c = 124 \<or> c = 40 \<or> c = 41 \<or> c = 59 \<or> c = 38 \<or> c = 60 then (c, Suc s)
             else if c = 62 then (if chr_at buf (Suc s) = 62 then (43, Suc (Suc s)) else (62, Suc s))
             else (97, skip_word buf s))
      in (ret, q, s, skip_ws buf s))"

definition peek :: "u8 list \<Rightarrow> nat \<Rightarrow> u8 list \<Rightarrow> bool \<times> nat" where
  "peek buf s toks =
     (let s = skip_ws buf s in (chr_at buf s \<noteq> 0 \<and> strchr toks (chr_at buf s) \<noteq> None, s))"

section \<open>Commands\<close>

datatype cmd =
    EXEC "(nat \<times> nat) list"
  | REDIR cmd nat nat int int
  | PIPE cmd cmd
  | LIST cmd cmd
  | BACK cmd

definition MAXARGS :: nat where "MAXARGS = 10"

definition execcmd :: cmd where "execcmd = EXEC []"

definition redircmd :: "cmd \<Rightarrow> nat \<Rightarrow> nat \<Rightarrow> int \<Rightarrow> int \<Rightarrow> cmd" where
  "redircmd subcmd file efile mode fd = REDIR subcmd file efile mode fd"

definition pipecmd :: "cmd \<Rightarrow> cmd \<Rightarrow> cmd" where "pipecmd left right = PIPE left right"
definition listcmd :: "cmd \<Rightarrow> cmd \<Rightarrow> cmd" where "listcmd left right = LIST left right"
definition backcmd :: "cmd \<Rightarrow> cmd" where "backcmd subcmd = BACK subcmd"

text \<open>
  \<open>parseexec\<close> stores arguments through its pointer to the \<open>execcmd\<close> while \<open>ret\<close> may already be a
  chain of redirections around it.
\<close>

fun set_argv :: "cmd \<Rightarrow> (nat \<times> nat) list \<Rightarrow> cmd" where
  "set_argv (EXEC _) a = EXEC a"
| "set_argv (REDIR c file efile mode fd) a = REDIR (set_argv c a) file efile mode fd"
| "set_argv c a = c"

datatype 'a pres = Done 'a | Bad string | Fuel

fun pbind :: "'a pres \<Rightarrow> ('a \<Rightarrow> 'b pres) \<Rightarrow> 'b pres" where
  "pbind (Done a) f = f a"
| "pbind (Bad m) f = Bad m"
| "pbind Fuel f = Fuel"

section \<open>The parser\<close>

text \<open>
  Every round of the loops and every cycle of the mutual recursion consumes a token; \<open>f\<close> bounds
  their number, and \<open>parsecmd\<close> starts with enough.
\<close>

fun parseredirs :: "nat \<Rightarrow> u8 list \<Rightarrow> cmd \<Rightarrow> nat \<Rightarrow> (cmd \<times> nat) pres" where
  "parseredirs f buf cmd s =
     (case peek buf s [60, 62] of
        (False, s) \<Rightarrow> Done (cmd, s)
      | (True, s) \<Rightarrow>
          (case f of
             0 \<Rightarrow> Fuel
           | Suc f \<Rightarrow>
               (case gettoken buf s of (tok, _, _, s) \<Rightarrow>
                case gettoken buf s of (r, q, eq, s) \<Rightarrow>
                  if r \<noteq> 97 then Bad ''missing file for redirection''
                  else parseredirs f buf
                    (if tok = 60 then redircmd cmd q eq 0 0
                     else if tok = 62 then redircmd cmd q eq 0x601 1
                     else if tok = 43 then redircmd cmd q eq 0x201 1
                     else cmd) s)))"

text \<open>The loop of \<open>parseexec\<close> over the arguments, and the one of \<open>parseline\<close> over ampersands.\<close>

fun parseexec_loop :: "nat \<Rightarrow> u8 list \<Rightarrow> cmd \<Rightarrow> (nat \<times> nat) list \<Rightarrow> nat \<Rightarrow> (cmd \<times> nat) pres" where
  "parseexec_loop f buf ret argv s =
     (case peek buf s [124, 41, 38, 59] of
        (True, s) \<Rightarrow> Done (ret, s)
      | (False, s) \<Rightarrow>
          (case gettoken buf s of (tok, q, eq, s) \<Rightarrow>
             if tok = 0 then Done (ret, s)
             else if tok \<noteq> 97 then Bad ''syntax''
             else let argv = argv @ [(q, eq)]; ret = set_argv ret argv in
               if length argv \<ge> MAXARGS then Bad ''too many args''
               else (case f of
                   0 \<Rightarrow> Fuel
                 | Suc f \<Rightarrow> pbind (parseredirs (length buf) buf ret s) (\<lambda>(ret, s).
                     parseexec_loop f buf ret argv s))))"

fun parseline_back :: "nat \<Rightarrow> u8 list \<Rightarrow> cmd \<Rightarrow> nat \<Rightarrow> (cmd \<times> nat) pres" where
  "parseline_back f buf cmd s =
     (case peek buf s [38] of
        (False, s) \<Rightarrow> Done (cmd, s)
      | (True, s) \<Rightarrow>
          (case f of
             0 \<Rightarrow> Fuel
           | Suc f \<Rightarrow> (case gettoken buf s of (_, _, _, s) \<Rightarrow> parseline_back f buf (backcmd cmd) s)))"

fun parseline :: "nat \<Rightarrow> u8 list \<Rightarrow> nat \<Rightarrow> (cmd \<times> nat) pres"
and parsepipe :: "nat \<Rightarrow> u8 list \<Rightarrow> nat \<Rightarrow> (cmd \<times> nat) pres"
and parseexec :: "nat \<Rightarrow> u8 list \<Rightarrow> nat \<Rightarrow> (cmd \<times> nat) pres"
and parseblock :: "nat \<Rightarrow> u8 list \<Rightarrow> nat \<Rightarrow> (cmd \<times> nat) pres" where
  "parseline 0 buf s = Fuel"
| "parseline (Suc f) buf s =
     pbind (parsepipe f buf s) (\<lambda>(cmd, s).
     pbind (parseline_back (length buf) buf cmd s) (\<lambda>(cmd, s).
       case peek buf s [59] of
         (False, s) \<Rightarrow> Done (cmd, s)
       | (True, s) \<Rightarrow>
           (case gettoken buf s of (_, _, _, s) \<Rightarrow>
            pbind (parseline f buf s) (\<lambda>(r, s). Done (listcmd cmd r, s)))))"
| "parsepipe 0 buf s = Fuel"
| "parsepipe (Suc f) buf s =
     pbind (parseexec f buf s) (\<lambda>(cmd, s).
       case peek buf s [124] of
         (False, s) \<Rightarrow> Done (cmd, s)
       | (True, s) \<Rightarrow>
           (case gettoken buf s of (_, _, _, s) \<Rightarrow>
            pbind (parsepipe f buf s) (\<lambda>(r, s). Done (pipecmd cmd r, s))))"
| "parseexec 0 buf s = Fuel"
| "parseexec (Suc f) buf s =
     (case peek buf s [40] of
        (True, s) \<Rightarrow> parseblock f buf s
      | (False, s) \<Rightarrow>
          pbind (parseredirs (length buf) buf execcmd s) (\<lambda>(ret, s).
          parseexec_loop (length buf) buf ret [] s))"
| "parseblock 0 buf s = Fuel"
| "parseblock (Suc f) buf s =
     (case peek buf s [40] of
        (False, s) \<Rightarrow> Bad ''parseblock''
      | (True, s) \<Rightarrow>
          (case gettoken buf s of (_, _, _, s) \<Rightarrow>
           pbind (parseline f buf s) (\<lambda>(cmd, s).
             case peek buf s [41] of
               (False, s) \<Rightarrow> Bad ''syntax - missing )''
             | (True, s) \<Rightarrow> (case gettoken buf s of (_, _, _, s) \<Rightarrow> parseredirs (length buf) buf cmd s))))"

fun nulterminate :: "cmd \<Rightarrow> u8 list \<Rightarrow> u8 list" where
  "nulterminate (EXEC argv) buf = fold (\<lambda>(_, eq) buf. buf[eq := 0]) argv buf"
| "nulterminate (REDIR c file efile mode fd) buf = (nulterminate c buf)[efile := 0]"
| "nulterminate (PIPE l r) buf = nulterminate r (nulterminate l buf)"
| "nulterminate (LIST l r) buf = nulterminate r (nulterminate l buf)"
| "nulterminate (BACK c) buf = nulterminate c buf"

definition parsecmd :: "u8 list \<Rightarrow> (cmd \<times> u8 list) pres" where
  "parsecmd buf =
     pbind (parseline (4 * length buf + 4) buf 0) (\<lambda>(cmd, s).
       case peek buf s [] of (_, s) \<Rightarrow>
         if s \<noteq> length buf then Bad ''syntax''
         else Done (cmd, nulterminate cmd buf))"

declare parseredirs.simps [simp del] parseexec_loop.simps [simp del] parseline_back.simps [simp del]

section \<open>Positions\<close>

lemma skip_ws_bounds: "s \<le> length buf \<Longrightarrow> s \<le> skip_ws buf s \<and> skip_ws buf s \<le> length buf"
proof (induction buf s rule: skip_ws.induct)
  case (1 buf s)
  show ?case
  proof (cases "s < length buf \<and> is_space (chr_at buf s)")
    case True
    then show ?thesis using 1 by (subst (1 2) skip_ws.simps) auto
  next
    case False
    then show ?thesis using 1(2) by (subst (1 2) skip_ws.simps) auto
  qed
qed

lemma skip_ws_id: "\<not> (s < length buf \<and> is_space (chr_at buf s)) \<Longrightarrow> skip_ws buf s = s"
  by (subst skip_ws.simps) (rule if_not_P)

lemma skip_ws_stop: "skip_ws buf s < length buf \<Longrightarrow> \<not> is_space (chr_at buf (skip_ws buf s))"
proof (induction buf s rule: skip_ws.induct)
  case (1 buf s)
  show ?case
  proof (cases "s < length buf \<and> is_space (chr_at buf s)")
    case True
    then have "skip_ws buf s = skip_ws buf (Suc s)" by (simp add: skip_ws.simps [of buf s])
    then show ?thesis using 1 True by simp
  next
    case False
    have "skip_ws buf s = s" by (rule skip_ws_id [OF False])
    then show ?thesis using 1 False by simp
  qed
qed

lemma skip_ws_idem [simp]: "skip_ws buf (skip_ws buf s) = skip_ws buf s"
  using skip_ws_stop [of buf s] by (intro skip_ws_id) blast

definition is_word :: "u8 \<Rightarrow> bool" where
  "is_word c \<longleftrightarrow> c \<noteq> 0 \<and> \<not> is_space c \<and> \<not> is_symbol c"

text \<open>A maximal word of the line; lines hold no NUL.\<close>

definition word_ok :: "u8 list \<Rightarrow> nat \<times> nat \<Rightarrow> bool" where
  "word_ok buf w \<longleftrightarrow> fst w < snd w \<and> snd w \<le> length buf \<and> (\<forall>i. fst w \<le> i \<longrightarrow> i < snd w \<longrightarrow> is_word (buf ! i))
     \<and> (snd w < length buf \<longrightarrow> \<not> is_word (buf ! snd w))"

lemma skip_word_ok:
  assumes "s \<le> length buf" "0 \<notin> set buf"
  shows "s \<le> skip_word buf s \<and> skip_word buf s \<le> length buf
    \<and> (\<forall>i. s \<le> i \<longrightarrow> i < skip_word buf s \<longrightarrow> is_word (buf ! i))
    \<and> (skip_word buf s < length buf \<longrightarrow> \<not> is_word (buf ! skip_word buf s))"
  using assms
proof (induction buf s rule: skip_word.induct)
  case (1 buf s)
  let ?c = "s < length buf \<and> \<not> is_space (chr_at buf s) \<and> \<not> is_symbol (chr_at buf s)"
  show ?case
  proof (cases ?c)
    case True
    then have e: "skip_word buf s = skip_word buf (Suc s)" by (simp add: skip_word.simps [of buf s])
    have "buf ! s \<noteq> 0" using True 1(3) by (metis nth_mem)
    then have w: "is_word (buf ! s)" using True by (auto simp: is_word_def chr_at_def)
    have ih: "Suc s \<le> skip_word buf (Suc s) \<and> skip_word buf (Suc s) \<le> length buf
        \<and> (\<forall>i. Suc s \<le> i \<longrightarrow> i < skip_word buf (Suc s) \<longrightarrow> is_word (buf ! i))
        \<and> (skip_word buf (Suc s) < length buf \<longrightarrow> \<not> is_word (buf ! skip_word buf (Suc s)))"
      using 1(1) [OF True] True 1(3) by simp
    then show ?thesis unfolding e using w by (metis Suc_leD le_antisym not_less_eq_eq)
  next
    case False
    have "skip_word buf s = s" by (subst skip_word.simps) (rule if_not_P [OF False])
    then show ?thesis using 1(2) False by (auto simp: is_word_def chr_at_def)
  qed
qed

lemma symbol_cases: "is_symbol c \<longleftrightarrow> c \<in> {60, 124, 62, 38, 59, 40, 41}"
  by (auto simp: is_symbol_def symbols_def)

lemma gettoken_ok:
  assumes "gettoken buf s = (tok, q, eq, s')" "s \<le> length buf" "0 \<notin> set buf"
  shows "s \<le> q" "q \<le> eq" "eq \<le> s'" "s' \<le> length buf" "tok \<noteq> 0 \<Longrightarrow> q < eq" "tok = 97 \<Longrightarrow> word_ok buf (q, eq)"
    "tok = 0 \<longleftrightarrow> chr_at buf (skip_ws buf s) = 0"
proof -
  let ?q = "skip_ws buf s"
  let ?c = "chr_at buf ?q"
  have b: "s \<le> ?q" "?q \<le> length buf" using skip_ws_bounds [OF assms(2)] by auto
  have lt: "?q < length buf" if "?c \<noteq> 0" using that by (simp add: chr_at_def split: if_splits)
  have lt2: "Suc ?q < length buf" if "chr_at buf (Suc ?q) = 62" using that by (simp add: chr_at_def split: if_splits)
  define r where "r = (if ?c = 0 then (0, ?q)
             else if ?c = 124 \<or> ?c = 40 \<or> ?c = 41 \<or> ?c = 59 \<or> ?c = 38 \<or> ?c = 60 then (?c, Suc ?q)
             else if ?c = 62 then (if chr_at buf (Suc ?q) = 62 then (43, Suc (Suc ?q)) else (62, Suc ?q))
             else (97, skip_word buf ?q))"
  have e: "tok = fst r" "q = ?q" "eq = snd r" "s' = skip_ws buf (snd r)"
    using assms(1) by (auto simp: gettoken_def Let_def r_def split: if_splits)
  have word: "word_ok buf (?q, skip_word buf ?q)" if "?c \<noteq> 0" "\<not> is_symbol ?c"
  proof -
    note w = skip_word_ok [OF b(2) assms(3)]
    have "is_word (buf ! ?q)" using that lt [OF that(1)] skip_ws_stop [OF lt [OF that(1)]] by (simp add: is_word_def chr_at_def)
    then have "?q \<noteq> skip_word buf ?q" using w lt [OF that(1)] by metis
    then show ?thesis using w by (auto simp: word_ok_def)
  qed
  have r: "?q \<le> snd r \<and> snd r \<le> length buf \<and> (fst r \<noteq> 0 \<longrightarrow> ?q < snd r) \<and> (fst r = 97 \<longrightarrow> word_ok buf (?q, snd r)) \<and> (fst r = 0 \<longleftrightarrow> ?c = 0)"
    using b lt lt2 word unfolding r_def symbol_cases by (auto simp: word_ok_def)
  show "s \<le> q" "q \<le> eq" "tok \<noteq> 0 \<Longrightarrow> q < eq" "tok = 97 \<Longrightarrow> word_ok buf (q, eq)" "tok = 0 \<longleftrightarrow> ?c = 0" using r b e by auto
  show "eq \<le> s'" "s' \<le> length buf" using skip_ws_bounds [of "snd r" buf] r e by auto
qed

section \<open>The parser returns, with words of the line\<close>

fun words :: "cmd \<Rightarrow> (nat \<times> nat) list" where
  "words (EXEC argv) = argv"
| "words (REDIR c file efile mode fd) = words c @ [(file, efile)]"
| "words (PIPE l r) = words l @ words r"
| "words (LIST l r) = words l @ words r"
| "words (BACK c) = words c"

definition cmd_ok :: "u8 list \<Rightarrow> cmd \<Rightarrow> bool" where
  "cmd_ok buf c \<longleftrightarrow> (\<forall>w\<in>set (words c). word_ok buf w)"

text \<open>Fuel did not run out; a result moves forward and its words are words of the line.\<close>

definition parsed :: "u8 list \<Rightarrow> nat \<Rightarrow> (cmd \<times> nat) pres \<Rightarrow> bool" where
  "parsed buf s r \<longleftrightarrow>
     (case r of Fuel \<Rightarrow> False | Bad _ \<Rightarrow> True | Done (c, s') \<Rightarrow> s \<le> s' \<and> s' \<le> length buf \<and> cmd_ok buf c)"

lemma cmd_ok_simps [simp]:
  "cmd_ok buf (EXEC a) \<longleftrightarrow> (\<forall>w\<in>set a. word_ok buf w)" "cmd_ok buf (REDIR c q eq m fd) \<longleftrightarrow> cmd_ok buf c \<and> word_ok buf (q, eq)"
  "cmd_ok buf (PIPE l r) \<longleftrightarrow> cmd_ok buf l \<and> cmd_ok buf r" "cmd_ok buf (LIST l r) \<longleftrightarrow> cmd_ok buf l \<and> cmd_ok buf r"
  "cmd_ok buf (BACK c) \<longleftrightarrow> cmd_ok buf c"
  by (auto simp: cmd_ok_def)

lemma cmd_ok_set_argv: "cmd_ok buf c \<Longrightarrow> \<forall>w\<in>set a. word_ok buf w \<Longrightarrow> cmd_ok buf (set_argv c a)"
  by (induction c a rule: set_argv.induct) auto

lemma parsed_mono: "parsed buf t r \<Longrightarrow> s \<le> t \<Longrightarrow> parsed buf s r"
  by (auto simp: parsed_def split: pres.splits)

lemma parsed_bind:
  assumes "parsed buf s m" "\<And>c t. s \<le> t \<Longrightarrow> t \<le> length buf \<Longrightarrow> cmd_ok buf c \<Longrightarrow> parsed buf s (f (c, t))"
  shows "parsed buf s (pbind m f)"
  using assms by (cases m) (auto simp: parsed_def)

lemma peek_ok:
  assumes "peek buf s toks = (b, t)" "s \<le> length buf"
  shows "s \<le> t" "t \<le> length buf" "t = skip_ws buf s" "b \<Longrightarrow> t < length buf \<and> chr_at buf t \<noteq> 0"
  using assms skip_ws_bounds [OF assms(2)] by (auto simp: peek_def Let_def chr_at_def split: if_splits)

text \<open>A token that \<open>peek\<close> has announced is there to be taken.\<close>

lemma peek_gettoken:
  assumes "peek buf s toks = (True, t)" "gettoken buf t = (tok, q, eq, u)" "s \<le> length buf" "0 \<notin> set buf"
  shows "t < u" "u \<le> length buf" "tok \<noteq> 0"
proof -
  note p = peek_ok [OF assms(1,3)]
  have "skip_ws buf t = t" using p(3) by simp
  then show "tok \<noteq> 0" using gettoken_ok(7) [OF assms(2) p(2) assms(4)] p(4) by simp
  then show "t < u" "u \<le> length buf" using gettoken_ok(1-5) [OF assms(2) p(2) assms(4)] by auto
qed

lemma parseredirs_ok:
  assumes "0 \<notin> set buf" "s \<le> length buf" "length buf - s \<le> f" "cmd_ok buf c"
  shows "parsed buf s (parseredirs f buf c s)"
  using assms(2-4)
proof (induction f arbitrary: c s)
  case 0
  then have "fst (peek buf s [60, 62]) = False" using peek_ok(1,4) [of buf s] by (metis diff_is_0_eq leD le_antisym le_zero_eq prod.collapse)
  then show ?case using peek_ok [of buf s "[60, 62]"] 0
    by (subst parseredirs.simps) (auto simp: parsed_def split: prod.splits bool.splits)
next
  case (Suc f)
  obtain b t where p: "peek buf s [60, 62] = (b, t)" by (metis prod.collapse)
  note pk = peek_ok [OF p Suc.prems(1)]
  show ?case
  proof (cases b)
    case False
    then show ?thesis using p pk Suc.prems by (subst parseredirs.simps) (simp add: parsed_def)
  next
    case True
    obtain tok q0 e0 u where g: "gettoken buf t = (tok, q0, e0, u)" by (metis prod.collapse)
    obtain r q eq v where h: "gettoken buf u = (r, q, eq, v)" by (metis prod.collapse)
    have pT: "peek buf s [60, 62] = (True, t)" using p True by simp
    note g1 = peek_gettoken [OF pT g Suc.prems(1) assms(1)]
    note h1 = gettoken_ok [OF h g1(2) assms(1)]
    let ?c = "if tok = 60 then redircmd c q eq 0 0 else if tok = 62 then redircmd c q eq 0x601 1
      else if tok = 43 then redircmd c q eq 0x201 1 else c"
    have eq: "parseredirs (Suc f) buf c s = (if r \<noteq> 97 then Bad ''missing file for redirection'' else parseredirs f buf ?c v)"
      using True by (subst parseredirs.simps) (simp add: p g h)
    show ?thesis
    proof (cases "r = 97")
      case False
      then show ?thesis by (simp add: eq parsed_def)
    next
      case True
      have "cmd_ok buf ?c" using Suc.prems(3) h1(6) True by (simp add: redircmd_def)
      moreover have "s < v" "v \<le> length buf" using pk(1) g1(1) h1(1-4) by auto
      ultimately have "parsed buf v (parseredirs f buf ?c v)" using Suc.prems(2) by (intro Suc.IH) auto
      then show ?thesis using True parsed_mono [of buf v _ s] \<open>s < v\<close> by (simp only: eq simp_thms if_False)
    qed
  qed
qed

lemma parseline_back_ok:
  assumes "0 \<notin> set buf" "s \<le> length buf" "length buf - s \<le> f" "cmd_ok buf c"
  shows "parsed buf s (parseline_back f buf c s)"
  using assms(2-4)
proof (induction f arbitrary: c s)
  case 0
  then have "fst (peek buf s [38]) = False" using peek_ok(1,4) [of buf s] by (metis diff_is_0_eq leD le_antisym le_zero_eq prod.collapse)
  then show ?case using peek_ok [of buf s "[38]"] 0
    by (subst parseline_back.simps) (auto simp: parsed_def split: prod.splits bool.splits)
next
  case (Suc f)
  obtain b t where p: "peek buf s [38] = (b, t)" by (metis prod.collapse)
  note pk = peek_ok [OF p Suc.prems(1)]
  obtain tok q e u where g: "gettoken buf t = (tok, q, e, u)" by (metis prod.collapse)
  show ?case
  proof (cases b)
    case False
    then show ?thesis using p pk Suc.prems by (subst parseline_back.simps) (simp add: parsed_def)
  next
    case True
    then have pT: "peek buf s [38] = (True, t)" using p by simp
    note g1 = peek_gettoken [OF pT g Suc.prems(1) assms(1)]
    have "parsed buf u (parseline_back f buf (backcmd c) u)"
      using Suc.prems pk(1) g1 by (intro Suc.IH) (auto simp: backcmd_def)
    moreover have "parseline_back (Suc f) buf c s = parseline_back f buf (backcmd c) u"
      by (subst parseline_back.simps) (simp add: pT g)
    ultimately show ?thesis using parsed_mono [of buf u _ s] pk(1) g1(1) by simp
  qed
qed

lemma parseexec_loop_ok:
  assumes "0 \<notin> set buf" "s \<le> length buf" "length buf - s \<le> f" "cmd_ok buf c" "\<forall>w\<in>set a. word_ok buf w"
  shows "parsed buf s (parseexec_loop f buf c a s)"
  using assms(2-5)
proof (induction f arbitrary: c a s rule: less_induct)
  case (less f)
  obtain b t where p: "peek buf s [124, 41, 38, 59] = (b, t)" by (metis prod.collapse)
  note pk = peek_ok [OF p less.prems(1)]
  obtain tok q e u where g: "gettoken buf t = (tok, q, e, u)" by (metis prod.collapse)
  note g1 = gettoken_ok [OF g pk(2) assms(1)]
  let ?a = "a @ [(q, e)]"
  have un: "parseexec_loop f buf c a s = (if b then Done (c, t) else if tok = 0 then Done (c, u)
      else if tok \<noteq> 97 then Bad ''syntax'' else if MAXARGS \<le> length ?a then Bad ''too many args''
      else (case f of 0 \<Rightarrow> Fuel | Suc f \<Rightarrow> pbind (parseredirs (length buf) buf (set_argv c ?a) u) (\<lambda>(ret, s). parseexec_loop f buf ret ?a s)))"
    by (subst parseexec_loop.simps) (cases b; simp add: p g Let_def)
  consider "b" | "\<not> b" "tok = 0" | "\<not> b" "tok \<noteq> 0" "tok \<noteq> 97" | "\<not> b" "tok = 97" "MAXARGS \<le> length ?a" | "\<not> b" "tok = 97" "length ?a < MAXARGS"
    by linarith
  then show ?case
  proof cases
    case 5
    have su: "s < u" "u \<le> length buf" using pk(1) g1(1-5) 5(2) by auto
    obtain f' where f: "f = Suc f'" using less.prems(2) su by (cases f) auto
    have wk: "\<forall>w\<in>set ?a. word_ok buf w" using less.prems(4) g1(6) 5(2) by auto
    have ok: "cmd_ok buf (set_argv c ?a)" "\<forall>w\<in>set ?a. word_ok buf w"
      by (rule cmd_ok_set_argv [OF less.prems(3) wk], rule wk)
    have step: "parseexec_loop f buf c a s = pbind (parseredirs (length buf) buf (set_argv c ?a) u) (\<lambda>(ret, s). parseexec_loop f' buf ret ?a s)"
      using 5 f un by simp
    have "parsed buf u (pbind (parseredirs (length buf) buf (set_argv c ?a) u) (\<lambda>(ret, s). parseexec_loop f' buf ret ?a s))"
    proof (rule parsed_bind)
      show "parsed buf u (parseredirs (length buf) buf (set_argv c ?a) u)" using assms(1) su ok(1) by (intro parseredirs_ok) auto
      fix d v assume v: "u \<le> v" "v \<le> length buf" "cmd_ok buf d"
      have "parsed buf v (parseexec_loop f' buf d ?a v)"
        using v ok(2) less.prems(2) su f by (intro less.IH) auto
      then show "parsed buf u ((\<lambda>(ret, s). parseexec_loop f' buf ret ?a s) (d, v))" using parsed_mono v(1) by simp
    qed
    then show ?thesis unfolding step using parsed_mono su(1) by (meson less_imp_le)
  next
    case 1
    then show ?thesis using pk less.prems by (simp add: un parsed_def)
  next
    case 2
    then show ?thesis using pk g1 less.prems by (simp add: un parsed_def)
  next
    case 3
    then show ?thesis by (simp add: un parsed_def)
  next
    case 4
    then show ?thesis by (simp add: un parsed_def)
  qed
qed

text \<open>An operator of the grammar and what follows it.\<close>

lemma parse_right:
  assumes "0 \<notin> set buf" "s \<le> u" "u \<le> length buf" "cmd_ok buf d" "\<And>r. cmd_ok buf r \<Longrightarrow> cmd_ok buf (mk d r)"
    "\<And>w. u < w \<Longrightarrow> w \<le> length buf \<Longrightarrow> parsed buf w (P w)"
  shows "parsed buf s (case peek buf u toks of (False, v) \<Rightarrow> Done (d, v)
    | (True, v) \<Rightarrow> (case gettoken buf v of (_, _, _, w) \<Rightarrow> pbind (P w) (\<lambda>(r, x). Done (mk d r, x))))"
proof -
  obtain b v where p: "peek buf u toks = (b, v)" by (metis prod.collapse)
  note pk = peek_ok [OF p assms(3)]
  obtain tok q e w where g: "gettoken buf v = (tok, q, e, w)" by (metis prod.collapse)
  show ?thesis
  proof (cases b)
    case False
    then show ?thesis using assms(2,4) pk by (simp add: p parsed_def)
  next
    case True
    then have pT: "peek buf u toks = (True, v)" using p by simp
    note g1 = peek_gettoken [OF pT g assms(3,1)]
    have "parsed buf w (P w)" using assms(6) pk(1) g1(1,2) by simp
    then have pw: "parsed buf s (P w)" by (rule parsed_mono) (use assms(2) pk(1) g1(1) in simp)
    have "parsed buf s (pbind (P w) (\<lambda>(r, x). Done (mk d r, x)))"
      by (rule parsed_bind [OF pw]) (use assms(5) in \<open>simp add: parsed_def\<close>)
    then show ?thesis by (simp add: pT g)
  qed
qed

lemma parseblock_step:
  assumes "0 \<notin> set buf" "s \<le> length buf" "\<And>w. s < w \<Longrightarrow> w \<le> length buf \<Longrightarrow> parsed buf w (parseline f buf w)"
  shows "parsed buf s (parseblock (Suc f) buf s)"
proof -
  obtain b v where p: "peek buf s [40] = (b, v)" by (metis prod.collapse)
  note pk = peek_ok [OF p assms(2)]
  obtain tok q e w where g: "gettoken buf v = (tok, q, e, w)" by (metis prod.collapse)
  show ?thesis
  proof (cases b)
    case False
    then show ?thesis by (simp add: p parsed_def)
  next
    case True
    then have pT: "peek buf s [40] = (True, v)" using p by simp
    note g1 = peek_gettoken [OF pT g assms(2,1)]
    have pw: "parsed buf w (parseline f buf w)" using assms(3) pk(1) g1(1,2) by simp
    have "parsed buf w (pbind (parseline f buf w) (\<lambda>(cmd, s). case peek buf s [41] of
               (False, s) \<Rightarrow> Bad ''syntax - missing )''
             | (True, s) \<Rightarrow> (case gettoken buf s of (_, _, _, s) \<Rightarrow> parseredirs (length buf) buf cmd s)))"
    proof (rule parsed_bind [OF pw])
      fix c t assume t: "w \<le> t" "t \<le> length buf" "cmd_ok buf c"
      obtain b' v' where p': "peek buf t [41] = (b', v')" by (metis prod.collapse)
      note pk' = peek_ok [OF p' t(2)]
      obtain tok' q' e' w' where g': "gettoken buf v' = (tok', q', e', w')" by (metis prod.collapse)
      note g2 = gettoken_ok [OF g' pk'(2) assms(1)]
      have "parsed buf w' (parseredirs (length buf) buf c w')" using assms(1) g2(4) t(3) by (intro parseredirs_ok) auto
      then have "parsed buf w (parseredirs (length buf) buf c w')" by (rule parsed_mono) (use t(1) pk'(1) g2(1-3) in simp)
      then show "parsed buf w ((\<lambda>(cmd, s). case peek buf s [41] of (False, s) \<Rightarrow> Bad ''syntax - missing )''
             | (True, s) \<Rightarrow> (case gettoken buf s of (_, _, _, s) \<Rightarrow> parseredirs (length buf) buf cmd s)) (c, t))"
        by (cases b') (simp_all add: p' g' parsed_def)
    qed
    then show ?thesis using parsed_mono pk(1) g1(1) by (simp add: pT g)
  qed
qed

lemma parser_ok:
  assumes "0 \<notin> set buf"
  shows "(\<forall>s. s \<le> length buf \<longrightarrow> 4 * (length buf - s) + 4 \<le> f \<longrightarrow> parsed buf s (parseline f buf s))
    \<and> (\<forall>s. s \<le> length buf \<longrightarrow> 4 * (length buf - s) + 3 \<le> f \<longrightarrow> parsed buf s (parsepipe f buf s))
    \<and> (\<forall>s. s \<le> length buf \<longrightarrow> 4 * (length buf - s) + 2 \<le> f \<longrightarrow> parsed buf s (parseexec f buf s))
    \<and> (\<forall>s. s \<le> length buf \<longrightarrow> 4 * (length buf - s) + 1 \<le> f \<longrightarrow> parsed buf s (parseblock f buf s))"
proof (induction f)
  case (Suc f)
  show ?case
  proof (intro conjI allI impI)
    fix s assume s: "s \<le> length buf" "4 * (length buf - s) + 4 \<le> Suc f"
    show "parsed buf s (parseline (Suc f) buf s)" unfolding parseline.simps
    proof (rule parsed_bind, goal_cases)
      case 1
      show ?case using Suc s by simp
    next
      case (2 c t)
      show ?case unfolding prod.case
      proof (rule parsed_bind, goal_cases)
        case 1
        show ?case by (rule parsed_mono [OF parseline_back_ok [OF assms 2(2) _ 2(3)] 2(1)]) simp
      next
        case (2 d u)
        show ?case unfolding prod.case
          by (rule parse_right [OF assms 2]) (use Suc s 2 in \<open>auto simp: listcmd_def\<close>)
      qed
    qed
  next
    fix s assume s: "s \<le> length buf" "4 * (length buf - s) + 3 \<le> Suc f"
    show "parsed buf s (parsepipe (Suc f) buf s)" unfolding parsepipe.simps
    proof (rule parsed_bind, goal_cases)
      case 1
      show ?case using Suc s by simp
    next
      case (2 c t)
      show ?case unfolding prod.case
        by (rule parse_right [OF assms 2]) (use Suc s 2 in \<open>auto simp: pipecmd_def\<close>)
    qed
  next
    fix s assume s: "s \<le> length buf" "4 * (length buf - s) + 2 \<le> Suc f"
    obtain b v where p: "peek buf s [40] = (b, v)" by (metis prod.collapse)
    note pk = peek_ok [OF p s(1)]
    have "parsed buf v (pbind (parseredirs (length buf) buf execcmd v) (\<lambda>(ret, s). parseexec_loop (length buf) buf ret [] s))"
    proof (rule parsed_bind, goal_cases)
      case 1
      show ?case using assms pk(2) by (intro parseredirs_ok) (auto simp: execcmd_def)
    next
      case (2 c t)
      show ?case unfolding prod.case
        by (rule parsed_mono [OF parseexec_loop_ok [OF assms 2(2) _ 2(3)] 2(1)]) simp_all
    qed
    moreover have "parsed buf v (parseblock f buf v)" using Suc s pk by simp
    ultimately have "parsed buf v (parseexec (Suc f) buf s)" by (cases b) (simp_all add: p)
    then show "parsed buf s (parseexec (Suc f) buf s)" using parsed_mono pk(1) by blast
  next
    fix s assume s: "s \<le> length buf" "4 * (length buf - s) + 1 \<le> Suc f"
    show "parsed buf s (parseblock (Suc f) buf s)"
      by (rule parseblock_step [OF assms s(1)]) (use Suc s in auto)
  qed
qed simp

section \<open>Terminated strings\<close>

text \<open>\<open>nulterminate\<close> writes NULs exactly at the ends of the words.\<close>

lemma nth_nulterminate:
  "i < length buf \<Longrightarrow> length (nulterminate c buf) = length buf
    \<and> nulterminate c buf ! i = (if i \<in> snd ` set (words c) then 0 else buf ! i)"
proof (induction c buf rule: nulterminate.induct)
  case (1 argv buf)
  show ?case using 1
  proof (induction argv arbitrary: buf)
    case (Cons w argv)
    obtain q e where w: "w = (q, e)" by (cases w)
    have "length (nulterminate (EXEC argv) (buf[e := 0])) = length buf
        \<and> nulterminate (EXEC argv) (buf[e := 0]) ! i = (if i \<in> snd ` set (words (EXEC argv)) then 0 else buf[e := 0] ! i)"
      using Cons.IH [of "buf[e := 0]"] Cons.prems by simp
    then show ?case using Cons.prems w by (auto simp: nth_list_update)
  qed simp
next
  case (2 c fl efile mode fd buf)
  then show ?case by (cases "i = efile") simp_all
qed (simp_all add: image_Un)

lemma length_nulterminate [simp]: "length (nulterminate c buf) = length buf"
proof (cases "buf = []")
  case True
  have "length (fold (\<lambda>(_, eq) buf. buf[eq := 0]) argv b) = length b" for argv :: "(nat \<times> nat) list" and b :: "u8 list"
    by (induction argv arbitrary: b) auto
  then have "length (nulterminate c b) = length b" for b by (induction c b rule: nulterminate.induct) auto
  then show ?thesis .
next
  case False
  then show ?thesis using nth_nulterminate [of 0 buf c] by simp
qed

lemma word_read:
  assumes "cmd_ok buf c" "(q, e) \<in> set (words c)" "0 \<notin> set buf"
  shows "takeWhile (\<lambda>x. x \<noteq> 0) (drop q (nulterminate c buf)) = take (e - q) (drop q buf)"
proof -
  let ?b = "nulterminate c buf"
  have w: "q < e" "e \<le> length buf" "\<And>i. q \<le> i \<Longrightarrow> i < e \<Longrightarrow> is_word (buf ! i)" "word_ok buf (q, e)"
    using assms(1,2) by (auto simp: cmd_ok_def word_ok_def)
  have ends: "\<not> is_word (buf ! i)" if "i \<in> snd ` set (words c)" "i < length buf" for i
    using that assms(1) by (auto simp: cmd_ok_def word_ok_def)
  have nz: "?b ! i = buf ! i \<and> buf ! i \<noteq> 0" if "q \<le> i" "i < e" for i
    using nth_nulterminate [of i buf c] ends [of i] w(3) [OF that] that w(2) by (auto simp: is_word_def)
  have "take (e - q) (drop q ?b) = take (e - q) (drop q buf)"
    by (rule nth_equalityI) (use w(2) nz in auto)
  moreover have "takeWhile (\<lambda>x. x \<noteq> 0) (drop q ?b) = take (e - q) (drop q ?b)"
  proof (cases "e < length buf")
    case True
    have "e \<in> snd ` set (words c)" using assms(2) by force
    then have z: "?b ! e = 0" using nth_nulterminate [OF True, of c] by simp
    show ?thesis
      by (rule takeWhile_eq_take_P_nth) (use nz w True z in \<open>auto simp: nth_append\<close>)
  next
    case False
    then show ?thesis using w(1,2) nz
      by (intro takeWhile_eq_take_P_nth) auto
  qed
  ultimately show ?thesis by simp
qed

section \<open>Properties\<close>

text \<open>
  C23: The shell parses every line. For any line without NUL bytes the parser returns, with a command
  or with one of its error messages; it never loops. When it returns a command, every argument and
  file name in it, read as a C string from the buffer that \<open>nulterminate\<close> has
  written, is exactly a maximal word of the line the user typed: no terminating NUL lands in another word.
\<close>

theorem parsecmd_words:
  assumes "0 \<notin> set buf"
  shows "case parsecmd buf of
      Fuel \<Rightarrow> False
    | Bad m \<Rightarrow> True
    | Done (c, buf') \<Rightarrow> length buf' = length buf \<and> (\<forall>(q, e)\<in>set (words c). word_ok buf (q, e)
        \<and> takeWhile (\<lambda>x. x \<noteq> 0) (drop q buf') = take (e - q) (drop q buf))"
proof -
  have p: "parsed buf 0 (parseline (4 * length buf + 4) buf 0)" using parser_ok [OF assms] by simp
  show ?thesis
  proof (cases "parseline (4 * length buf + 4) buf 0")
    case (Done r)
    obtain c s where r: "r = (c, s)" by (cases r)
    have ok: "cmd_ok buf c" using p Done r by (simp add: parsed_def)
    obtain b t where pk: "peek buf s [] = (b, t)" by (metis prod.collapse)
    have "parsecmd buf = (if t \<noteq> length buf then Bad ''syntax'' else Done (c, nulterminate c buf))"
      by (simp add: parsecmd_def Done r pk)
    moreover have "\<forall>(q, e)\<in>set (words c). word_ok buf (q, e) \<and> takeWhile (\<lambda>x. x \<noteq> 0) (drop q (nulterminate c buf)) = take (e - q) (drop q buf)"
      using word_read [OF ok _ assms] ok by (auto simp: cmd_ok_def)
    ultimately show ?thesis by simp
  next
    case (Bad m)
    then show ?thesis by (simp add: parsecmd_def)
  next
    case Fuel
    then show ?thesis using p by (simp add: parsed_def)
  qed
qed

text \<open>\<open>ls >f|wc&\<close>: the word \<open>f\<close> ends where the pipe symbol stands.\<close>

lemma demo_parse:
  "parsecmd [108, 115, 32, 62, 102, 124, 119, 99, 38] =
     Done (BACK (PIPE (REDIR (EXEC [(0, 2)]) 4 5 0x601 1) (EXEC [(6, 8)])), [108, 115, 0, 62, 102, 0, 119, 99, 0])"
  by code_simp

theorem parsecmd_words_witness:
  "takeWhile (\<lambda>x. x \<noteq> 0) (drop 4 [108, 115, 0, 62, 102, 0, 119, 99, 0 :: u8]) = [102]
   \<and> takeWhile (\<lambda>x. x \<noteq> 0) (drop 6 [108, 115, 0, 62, 102, 0, 119, 99, 0 :: u8]) = [119, 99]"
  using parsecmd_words [of "[108, 115, 32, 62, 102, 124, 119, 99, 38]"] by (simp add: demo_parse)

end
