(* ===== verification/Grep.thy ===== *)
theory Grep
  imports Ulib
begin

text \<open>
  \<^verbatim>\<open>user/grep.c\<close>: the regular expression matcher and the loop that reads a descriptor in pieces
  through a buffer of 1024 bytes and prints the lines that match.
\<close>

section \<open>The matcher\<close>

fun matchhere :: "u8 list \<Rightarrow> u8 list \<Rightarrow> bool"
and matchstar :: "u8 \<Rightarrow> u8 list \<Rightarrow> u8 list \<Rightarrow> bool" where
  "matchhere [] s = True"
| "matchhere (r # re) s =
     (if re \<noteq> [] \<and> hd re = 42 then matchstar r (tl re) s
      else if r = 36 \<and> re = [] then s = []
      else if s \<noteq> [] \<and> (r = 46 \<or> r = hd s) then matchhere re (tl s)
      else False)"
| "matchstar c re s =
     (if matchhere re s then True
      else if s \<noteq> [] \<and> (hd s = c \<or> c = 46) then matchstar c re (tl s)
      else False)"

fun match_from :: "u8 list \<Rightarrow> u8 list \<Rightarrow> bool" where
  "match_from re s = (if matchhere re s then True else if s \<noteq> [] then match_from re (tl s) else False)"

definition match :: "u8 list \<Rightarrow> u8 list \<Rightarrow> bool" where
  "match re s = (if re \<noteq> [] \<and> hd re = 94 then matchhere (tl re) s else match_from re s)"

declare matchhere.simps [simp del] matchstar.simps [simp del] match_from.simps [simp del]

section \<open>The loop over the input\<close>

function grep_lines :: "u8 list \<Rightarrow> u8 list \<Rightarrow> u8 list \<times> u8 list" where
  "grep_lines pattern p =
     (case strchr p 10 of
        None \<Rightarrow> ([], p)
      | Some q \<Rightarrow>
          let line = take (length p - length q) p;
              printed = (if match pattern line then line @ [10] else []);
              (out, p) = grep_lines pattern (tl q)
          in (printed @ out, p))"
  by pat_completeness auto
termination
proof (relation "measure (\<lambda>(pattern, p). length p)")
  fix pattern p q :: "u8 list"
  assume "strchr p 10 = Some q"
  then obtain ps where "p = ps @ q" "q \<noteq> []" using strchr_suffix by blast
  then show "((pattern, tl q), (pattern, p)) \<in> measure (\<lambda>(pattern, p). length p)" by (cases q) auto
qed simp

function grep :: "u8 list \<Rightarrow> u8 list \<Rightarrow> source \<Rightarrow> u8 list" where
  "grep pattern rest f =
     (case uread (1023 - length rest) f of
        (Some (b # bs), f) \<Rightarrow>
          (case grep_lines pattern (rest @ b # bs) of (out, rest) \<Rightarrow> out @ grep pattern rest f)
      | _ \<Rightarrow> [])"
  by pat_completeness auto
termination
  by (relation "measure (\<lambda>(pattern, rest, f). length (rdata f))") (auto dest: uread_shrinks [OF sym])

declare grep_lines.simps [simp del] grep.simps [simp del]

section \<open>Regular expressions\<close>

text \<open>
  The reference: a pattern is a sequence of items, each with a language; \<open>^\<close> at the start and \<open>$\<close>
  at the end tie the match to the ends of the text.
\<close>

datatype item = Chr u8 | Star u8

fun items :: "u8 list \<Rightarrow> item list" where
  "items [] = []"
| "items [r] = (if r = 36 then [] else [Chr r])"
| "items (r # q # re) = (if q = 42 then Star r # items re else Chr r # items (q # re))"

fun tied :: "u8 list \<Rightarrow> bool" where
  "tied [] = False"
| "tied [r] = (r = 36)"
| "tied (r # q # re) = (if q = 42 then tied re else tied (q # re))"

definition sym_ok :: "u8 \<Rightarrow> u8 \<Rightarrow> bool" where
  "sym_ok c x \<longleftrightarrow> c = 46 \<or> c = x"

fun ilang :: "item \<Rightarrow> u8 list set" where
  "ilang (Chr c) = {[x] | x. sym_ok c x}"
| "ilang (Star c) = {w. \<forall>x\<in>set w. sym_ok c x}"

fun lang :: "item list \<Rightarrow> u8 list set" where
  "lang [] = {[]}"
| "lang (i # is) = {v @ w | v w. v \<in> ilang i \<and> w \<in> lang is}"

definition regex_at :: "u8 list \<Rightarrow> u8 list \<Rightarrow> bool" where
  "regex_at re s \<longleftrightarrow> (\<exists>w post. s = w @ post \<and> w \<in> lang (items re) \<and> (tied re \<longrightarrow> post = []))"

lemma regex_at_Nil: "regex_at [] s"
  by (auto simp: regex_at_def)

lemma regex_at_end: "regex_at [36] s \<longleftrightarrow> s = []"
  by (auto simp: regex_at_def)

lemma regex_at_Chr:
  assumes "\<not> (re \<noteq> [] \<and> hd re = 42)" "\<not> (r = 36 \<and> re = [])"
  shows "regex_at (r # re) s \<longleftrightarrow> s \<noteq> [] \<and> sym_ok r (hd s) \<and> regex_at re (tl s)"
proof -
  have "items (r # re) = Chr r # items re" "tied (r # re) = tied re" using assms by (cases re; auto)+
  then have e: "regex_at (r # re) s \<longleftrightarrow> (\<exists>v post. s = v @ post \<and> v \<in> lang (Chr r # items re) \<and> (tied re \<longrightarrow> post = []))"
    unfolding regex_at_def by simp
  have l: "v \<in> lang (Chr r # items re) \<longleftrightarrow> v \<noteq> [] \<and> sym_ok r (hd v) \<and> tl v \<in> lang (items re)" for v
  proof
    assume "v \<noteq> [] \<and> sym_ok r (hd v) \<and> tl v \<in> lang (items re)"
    then have "v = [hd v] @ tl v" "[hd v] \<in> ilang (Chr r)" "tl v \<in> lang (items re)" by simp_all
    then show "v \<in> lang (Chr r # items re)" unfolding lang.simps by blast
  qed auto
  show ?thesis
  proof
    assume "regex_at (r # re) s"
    then obtain v post where v: "s = v @ post" "v \<noteq> []" "sym_ok r (hd v)" "tl v \<in> lang (items re)" "tied re \<longrightarrow> post = []"
      unfolding e l by blast
    then show "s \<noteq> [] \<and> sym_ok r (hd s) \<and> regex_at re (tl s)" unfolding regex_at_def by (cases v) auto
  next
    assume "s \<noteq> [] \<and> sym_ok r (hd s) \<and> regex_at re (tl s)"
    then obtain x w post where "s = x # w @ post" "sym_ok r x" "w \<in> lang (items re)" "tied re \<longrightarrow> post = []"
      unfolding regex_at_def by (cases s) auto
    then show "regex_at (r # re) s" unfolding e l by (intro exI [of _ "x # w"] exI [of _ post]) simp
  qed
qed

lemma regex_at_Star_iff:
  "regex_at (r # 42 # re) s \<longleftrightarrow> (\<exists>v t. s = v @ t \<and> (\<forall>x\<in>set v. sym_ok r x) \<and> regex_at re t)"
proof
  assume "regex_at (r # 42 # re) s"
  then obtain u post where u: "s = u @ post" "u \<in> lang (items (r # 42 # re))" "tied (r # 42 # re) \<longrightarrow> post = []"
    unfolding regex_at_def by blast
  then obtain v w where "u = v @ w" "\<forall>x\<in>set v. sym_ok r x" "w \<in> lang (items re)" by auto
  then show "\<exists>v t. s = v @ t \<and> (\<forall>x\<in>set v. sym_ok r x) \<and> regex_at re t"
    using u unfolding regex_at_def by (intro exI [of _ v] exI [of _ "w @ post"]) auto
next
  assume "\<exists>v t. s = v @ t \<and> (\<forall>x\<in>set v. sym_ok r x) \<and> regex_at re t"
  then obtain v w post where v: "s = v @ w @ post" "\<forall>x\<in>set v. sym_ok r x" "w \<in> lang (items re)" "tied re \<longrightarrow> post = []"
    unfolding regex_at_def by blast
  moreover have "v @ w \<in> lang (items (r # 42 # re))" using v(2,3) by auto
  ultimately show "regex_at (r # 42 # re) s" unfolding regex_at_def by (intro exI [of _ "v @ w"] exI [of _ post]) simp
qed

lemma regex_at_Star:
  "regex_at (r # 42 # re) s \<longleftrightarrow> regex_at re s \<or> s \<noteq> [] \<and> sym_ok r (hd s) \<and> regex_at (r # 42 # re) (tl s)"
proof
  assume "regex_at (r # 42 # re) s"
  then obtain v t where v: "s = v @ t" "\<forall>x\<in>set v. sym_ok r x" "regex_at re t" unfolding regex_at_Star_iff by blast
  then show "regex_at re s \<or> s \<noteq> [] \<and> sym_ok r (hd s) \<and> regex_at (r # 42 # re) (tl s)"
    unfolding regex_at_Star_iff by (cases v) auto
next
  assume "regex_at re s \<or> s \<noteq> [] \<and> sym_ok r (hd s) \<and> regex_at (r # 42 # re) (tl s)"
  then consider "regex_at re s" | x v t where "s = (x # v) @ t" "sym_ok r x" "\<forall>x\<in>set v. sym_ok r x" "regex_at re t"
    unfolding regex_at_Star_iff by (cases s) auto
  then show "regex_at (r # 42 # re) s"
  proof cases
    case 1
    then show ?thesis unfolding regex_at_Star_iff by (intro exI [of _ "[]"] exI [of _ s]) simp
  next
    case 2
    then show ?thesis unfolding regex_at_Star_iff by (intro exI [of _ "x # v"] exI [of _ t]) simp
  qed
qed

lemma matchhere_regex:
  "matchhere re s \<longleftrightarrow> regex_at re s"
  "matchstar c re s \<longleftrightarrow> regex_at (c # 42 # re) s"
proof (induction re s and c re s rule: matchhere_matchstar.induct)
  case (2 r re s)
  consider "re \<noteq> [] \<and> hd re = 42" | "\<not> (re \<noteq> [] \<and> hd re = 42)" "r = 36 \<and> re = []"
    | "\<not> (re \<noteq> [] \<and> hd re = 42)" "\<not> (r = 36 \<and> re = [])" by blast
  then show ?case
  proof cases
    case 1
    then have "re = 42 # tl re" by (metis list.collapse)
    then show ?thesis using 2(1) [OF 1] 1 by (simp add: matchhere.simps(2))
  next
    case 2
    then show ?thesis by (simp add: matchhere.simps regex_at_end)
  next
    case 3
    have c: "(r = 46 \<or> r = hd s) = sym_ok r (hd s)" by (simp add: sym_ok_def)
    show ?thesis unfolding matchhere.simps(2) regex_at_Chr [OF 3] if_not_P [OF 3(1)] if_not_P [OF 3(2)] c
      using 2(2) [OF 3] by (auto simp: sym_ok_def)
  qed
next
  case (3 c re s)
  have "(hd s = c \<or> c = 46) = sym_ok c (hd s)" by (auto simp: sym_ok_def)
  then show ?case unfolding matchstar.simps [of c re s] regex_at_Star [of c re s] using 3 by auto
qed (simp add: matchhere.simps regex_at_Nil)

section \<open>What grep prints\<close>

definition regex_match :: "u8 list \<Rightarrow> u8 list \<Rightarrow> bool" where
  "regex_match re s \<longleftrightarrow>
     (if re \<noteq> [] \<and> hd re = 94 then regex_at (tl re) s else (\<exists>pre t. s = pre @ t \<and> regex_at re t))"

lemma match_from_regex: "match_from re s \<longleftrightarrow> (\<exists>pre t. s = pre @ t \<and> regex_at re t)"
proof (induction s)
  case Nil
  then show ?case by (simp add: match_from.simps matchhere_regex)
next
  case (Cons x s)
  have "(\<exists>pre t. x # s = pre @ t \<and> regex_at re t) \<longleftrightarrow> regex_at re (x # s) \<or> (\<exists>pre t. s = pre @ t \<and> regex_at re t)"
    by (auto simp: Cons_eq_append_conv)
  then show ?case using Cons by (simp add: match_from.simps [of re "x # s"] matchhere_regex)
qed

lemma match_regex_match: "match re s = regex_match re s"
  by (simp add: match_def regex_match_def matchhere_regex match_from_regex)

text \<open>
  C24: The matcher of \<open>grep\<close> decides regular expressions: with the pattern read as a sequence of
  characters, dots and starred characters, it accepts a line exactly when some part of the line
  belongs to the language of the pattern, a part that starts the line when the pattern begins with
  \<open>^\<close> and ends it when the pattern ends in \<open>$\<close>.
\<close>

theorem match_regex:
  "match re s \<longleftrightarrow> (\<exists>pre w post. s = pre @ w @ post
     \<and> (if re \<noteq> [] \<and> hd re = 94
        then pre = [] \<and> w \<in> lang (items (tl re)) \<and> (tied (tl re) \<longrightarrow> post = [])
        else w \<in> lang (items re) \<and> (tied re \<longrightarrow> post = [])))"
proof (cases "re \<noteq> [] \<and> hd re = 94")
  case True
  then show ?thesis by (simp add: match_regex_match regex_match_def regex_at_def)
next
  case False
  show ?thesis unfolding match_regex_match regex_match_def if_not_P [OF False] regex_at_def by blast
qed

lemma grep_lines_full:
  assumes "\<forall>l\<in>set ls. 0 \<notin> set l \<and> 10 \<notin> set l" "10 \<notin> set t"
  shows "grep_lines re (concat (map (\<lambda>l. l @ [10]) ls) @ t) = (concat (map (\<lambda>l. if match re l then l @ [10] else []) ls), t)"
  using assms(1)
proof (induction ls)
  case Nil
  then show ?case using strchr_miss [OF assms(2)] by (simp add: grep_lines.simps)
next
  case (Cons l ls)
  have "strchr (l @ 10 # concat (map (\<lambda>l. l @ [10]) ls) @ t) 10 = Some (10 # concat (map (\<lambda>l. l @ [10]) ls) @ t)"
    using Cons.prems by (intro strchr_hit) simp_all
  then show ?case using Cons.IH Cons.prems
    by (subst grep_lines.simps) (simp add: Let_def)
qed

lemma text_prefix:
  assumes "concat (map (\<lambda>l. l @ [10]) ls) @ t = xs @ ys" "10 \<notin> set t" "\<forall>l\<in>set ls. 10 \<notin> set l"
  shows "\<exists>us vs x. ls = us @ vs \<and> xs = concat (map (\<lambda>l. l @ [10]) us) @ x \<and> 10 \<notin> set x
    \<and> x @ ys = concat (map (\<lambda>l. l @ [10]) vs) @ t"
  using assms(1,3)
proof (induction ls arbitrary: xs)
  case Nil
  then show ?case using assms(2) by (intro exI [of _ "[]"] exI [of _ xs]) auto
next
  case (Cons l ls)
  show ?case
  proof (cases "length l < length xs")
    case False
    then have "take (length xs) (l @ 10 # concat (map (\<lambda>l. l @ [10]) ls) @ t) = take (length xs) l" by simp
    moreover have "take (length xs) (l @ 10 # concat (map (\<lambda>l. l @ [10]) ls) @ t) = xs" using Cons.prems(1) by simp
    ultimately have "10 \<notin> set xs" using Cons.prems(2) by (metis in_set_takeD list.set_intros(1))
    then show ?thesis using Cons.prems by (intro exI [of _ "[]"] exI [of _ "l # ls"] exI [of _ xs]) simp
  next
    case True
    have e: "l @ 10 # concat (map (\<lambda>l. l @ [10]) ls) @ t = xs @ ys" using Cons.prems(1) by simp
    have "take (length l) xs = l" using arg_cong [OF e, of "take (length l)"] True by simp
    then have d: "xs = l @ drop (length l) xs" by (metis append_take_drop_id)
    have "drop (length l) xs \<noteq> []" using True by simp
    then obtain z zs where z: "drop (length l) xs = z # zs" by (meson list.exhaust)
    have dz: "xs = l @ z # zs" by (subst d) (simp only: z)
    have "l @ 10 # concat (map (\<lambda>l. l @ [10]) ls) @ t = l @ (z # zs) @ ys" using e unfolding dz by simp
    then have zs: "xs = l @ 10 # zs" "concat (map (\<lambda>l. l @ [10]) ls) @ t = zs @ ys" using dz by simp_all
    then obtain us vs x where "ls = us @ vs" "zs = concat (map (\<lambda>l. l @ [10]) us) @ x" "10 \<notin> set x"
      "x @ ys = concat (map (\<lambda>l. l @ [10]) vs) @ t"
      using Cons.IH [OF zs(2)] Cons.prems(2) by auto
    then show ?thesis using zs(1) by (intro exI [of _ "l # us"] exI [of _ vs] exI [of _ x]) simp
  qed
qed

abbreviation text_of :: "u8 list list \<Rightarrow> u8 list" where
  "text_of ls \<equiv> concat (map (\<lambda>l. l @ [10]) ls)"

lemma grep_loop:
  assumes "reliable f" "rest @ rdata f = text_of ls @ t" "10 \<notin> set rest" "10 \<notin> set t"
    and "\<forall>l\<in>set ls. 0 \<notin> set l \<and> 10 \<notin> set l \<and> length l < 1023"
  shows "grep re rest f = concat (map (\<lambda>l. if match re l then l @ [10] else []) ls)"
  using assms
proof (induction "length (rdata f)" arbitrary: f rest ls rule: less_induct)
  case less
  let ?out = "\<lambda>ls. concat (map (\<lambda>l. if match re l then l @ [10] else []) ls)"
  obtain bs g where u: "uread (1023 - length rest) f = (Some bs, g)" "reliable g" "rdata f = bs @ rdata g"
    "bs = [] \<longleftrightarrow> 1023 - length rest = 0 \<or> rdata f = []"
    using uread_reliable [OF less.prems(1)] by metis
  show ?case
  proof (cases bs)
    case Nil
    have "ls = []"
    proof (cases ls)
      case (Cons l ks)
      have "10 \<in> set (rest @ rdata f)" unfolding less.prems(2) Cons by simp
      then have "rdata f \<noteq> []" using less.prems(3) by auto
      then have "1023 \<le> length rest" using u(4) Nil by simp
      moreover have "length l < 1023" using less.prems(5) Cons by simp
      moreover have "rest @ rdata f = l @ 10 # text_of ks @ t" using less.prems(2) Cons by simp
      then have "take (Suc (length l)) (rest @ rdata f) = take (Suc (length l)) (l @ 10 # text_of ks @ t)" by (rule arg_cong)
      ultimately have "take (Suc (length l)) rest = l @ [10]" by simp
      then have "10 \<in> set rest" by (metis in_set_conv_decomp in_set_takeD)
      then show ?thesis using less.prems(3) by simp
    qed
    moreover have "grep re rest f = []" using u(1) Nil by (simp add: grep.simps)
    ultimately show ?thesis by simp
  next
    case (Cons b cs)
    have "text_of ls @ t = (rest @ bs) @ rdata g" using less.prems(2) u(3) by simp
    moreover have nl: "\<forall>l\<in>set ls. 10 \<notin> set l" using less.prems(5) by simp
    ultimately obtain us vs x where x: "ls = us @ vs" "rest @ bs = text_of us @ x" "10 \<notin> set x" "x @ rdata g = text_of vs @ t"
      using text_prefix [OF _ less.prems(4)] by metis
    have "\<forall>l\<in>set us. 0 \<notin> set l \<and> 10 \<notin> set l" using less.prems(5) x(1) by simp
    then have gl: "grep_lines re (rest @ bs) = (?out us, x)" unfolding x(2) by (rule grep_lines_full [OF _ x(3)])
    have "length (rdata g) < length (rdata f)" using u(3) Cons by simp
    then have "grep re x g = ?out vs" using less.hyps [OF _ u(2) x(4) x(3) less.prems(4)] less.prems(5) x(1) by simp
    then show ?thesis using u(1) gl x(1) Cons by (simp add: grep.simps [of re rest f])
  qed
qed

text \<open>
  C25: \<open>grep\<close> prints exactly the matching lines, in order and each once, however the bytes of the input
  are cut into reads: for an input of lines of fewer than 1023 bytes without NUL bytes, its output is
  the concatenation of the lines that match. What follows the last newline is not printed.
\<close>

theorem grep_prints_matches:
  assumes "reliable f" "rdata f = text_of ls @ t" "10 \<notin> set t"
    and "\<forall>l\<in>set ls. 0 \<notin> set l \<and> 10 \<notin> set l \<and> length l < 1023"
  shows "grep re [] f = text_of (filter (match re) ls)"
proof -
  have "text_of (filter (match re) ls) = concat (map (\<lambda>l. if match re l then l @ [10] else []) ls)"
    by (induction ls) simp_all
  then show ?thesis using grep_loop [of f "[]" ls t re] assms by simp
qed

text \<open>The input \<open>ab\<close>, \<open>b\<close>, \<open>xaa\<close> and an unfinished \<open>a\<close>, in reads of one and then two bytes, searched for \<open>a*b$\<close>.\<close>

theorem grep_prints_matches_witness:
  "grep [97, 42, 98, 36] [] \<lparr>rdata = [97, 98, 10, 98, 10, 120, 97, 97, 10, 97], rplan = [Some 1, Some 2]\<rparr> = [97, 98, 10, 98, 10]"
proof -
  have "match [97, 42, 98, 36] [97, 98]" "match [97, 42, 98, 36] [98]" "\<not> match [97, 42, 98, 36] [120, 97, 97]" by code_simp+
  then show ?thesis
    using grep_prints_matches [of "\<lparr>rdata = [97, 98, 10, 98, 10, 120, 97, 97, 10, 97], rplan = [Some 1, Some 2]\<rparr>"
      "[[97, 98], [98], [120, 97, 97]]" "[97]" "[97, 42, 98, 36]"] by (simp add: reliable_def)
qed

theorem match_regex_witness: "\<exists>w post. [97, 98, 99] = w @ post \<and> w \<in> lang (items [97, 46, 42, 99, 36]) \<and> post = []"
proof -
  have "match [94, 97, 46, 42, 99, 36] [97, 98, 99]" by code_simp
  then show ?thesis unfolding match_regex by auto
qed

end
