(* ===== verification/Utils.thy ===== *)
theory Utils
  imports Ulib
begin

text \<open>
  The filters among the user programs: \<^verbatim>\<open>user/cat.c\<close>, \<^verbatim>\<open>user/wc.c\<close> and \<^verbatim>\<open>user/sixfive.c\<close>.
  A program that prints an error and exits returns \<open>None\<close>.
\<close>

section \<open>cat\<close>

text \<open>What \<open>cat\<close> writes to descriptor 1, with the answer of each \<open>write\<close> given by \<open>wrt\<close>.\<close>

function cat :: "(u8 list \<Rightarrow> int) \<Rightarrow> source \<Rightarrow> u8 list \<times> bool" where
  "cat wrt f =
     (case uread 512 f of
        (None, f) \<Rightarrow> ([], False)
      | (Some [], f) \<Rightarrow> ([], True)
      | (Some (b # bs), f) \<Rightarrow>
          if wrt (b # bs) \<noteq> int (length (b # bs)) then (take (nat (wrt (b # bs))) (b # bs), False)
          else (case cat wrt f of (out, ok) \<Rightarrow> ((b # bs) @ out, ok)))"
  by pat_completeness auto
termination
  by (relation "measure (\<lambda>(wrt, f). length (rdata f))") (auto dest: uread_shrinks [OF sym])

section \<open>wc\<close>

text \<open>The counters are of type \<open>int\<close>: they wrap at 32 bits.\<close>

record counters =
  wl :: u32
  ww :: u32
  wc_c :: u32
  inword :: bool

definition wc_byte :: "u8 \<Rightarrow> counters \<Rightarrow> counters" where
  "wc_byte b s =
     (let s = s\<lparr>wc_c := wc_c s + 1\<rparr>;
          s = (if b = 10 then s\<lparr>wl := wl s + 1\<rparr> else s)
      in if strchr [32, 13, 9, 10, 11] b \<noteq> None then s\<lparr>inword := False\<rparr>
         else if \<not> inword s then s\<lparr>ww := ww s + 1, inword := True\<rparr>
         else s)"

function wc_loop :: "source \<Rightarrow> counters \<Rightarrow> counters option" where
  "wc_loop f s =
     (case uread 512 f of
        (None, f) \<Rightarrow> None
      | (Some [], f) \<Rightarrow> Some s
      | (Some (b # bs), f) \<Rightarrow> wc_loop f (fold wc_byte (b # bs) s))"
  by pat_completeness auto
termination
  by (relation "measure (\<lambda>(f, s). length (rdata f))") (auto dest: uread_shrinks [OF sym])

definition wc :: "source \<Rightarrow> (u32 \<times> u32 \<times> u32) option" where
  "wc f = map_option (\<lambda>s. (wl s, ww s, wc_c s)) (wc_loop f \<lparr>wl = 0, ww = 0, wc_c = 0, inword = False\<rparr>)"

section \<open>sixfive\<close>

definition sixfive_val :: "u32 \<Rightarrow> u32 list" where
  "sixfive_val val =
     (if val \<noteq> 0 \<and> (sint val mod 6 = 0 \<or> sint val mod 5 = 0) then [val] else [])"

text \<open>The numbers printed; a read error ends the loop like the end of the file.\<close>

function process_loop :: "source \<Rightarrow> u32 \<Rightarrow> u32 list" where
  "process_loop f val =
     (case uread 1 f of
        (Some (c # cs), f) \<Rightarrow>
          if strchr [32, 45, 13, 9, 10, 46, 47, 44] c \<noteq> None
          then sixfive_val val @ process_loop f 0
          else process_loop f (val * 10 + atoi [c])
      | _ \<Rightarrow> sixfive_val val)"
  by pat_completeness auto
termination
  by (relation "measure (\<lambda>(f, v). length (rdata f))") (auto dest: uread_shrinks [OF sym])

definition process_file :: "source option \<Rightarrow> u32 list option" where
  "process_file fd = (case fd of None \<Rightarrow> None | Some f \<Rightarrow> Some (process_loop f 0))"

declare cat.simps [simp del] wc_loop.simps [simp del] process_loop.simps [simp del]

section \<open>The filters see the whole input\<close>

lemma cat_copies:
  assumes "reliable f" "\<And>bs. wrt bs = int (length bs)"
  shows "cat wrt f = (rdata f, True)"
  using assms(1)
proof (induction "length (rdata f)" arbitrary: f rule: less_induct)
  case less
  obtain bs g where u: "uread 512 f = (Some bs, g)" "reliable g" "rdata f = bs @ rdata g" "bs = [] \<longleftrightarrow> (512 :: nat) = 0 \<or> rdata f = []"
    using uread_reliable [OF less.prems] by metis
  show ?case
  proof (cases bs)
    case Nil
    then have "rdata f = []" using u(4) by simp
    then show ?thesis using u(1) Nil by (simp add: cat.simps)
  next
    case (Cons b cs)
    then have "cat wrt g = (rdata g, True)" using less.hyps [of g] u(2,3) by simp
    then show ?thesis using u(1,3) Cons assms(2) by (simp add: cat.simps [of _ f])
  qed
qed

lemma wc_loop_fold:
  assumes "reliable f"
  shows "wc_loop f s = Some (fold wc_byte (rdata f) s)"
  using assms
proof (induction "length (rdata f)" arbitrary: f s rule: less_induct)
  case less
  obtain bs g where u: "uread 512 f = (Some bs, g)" "reliable g" "rdata f = bs @ rdata g" "bs = [] \<longleftrightarrow> (512 :: nat) = 0 \<or> rdata f = []"
    using uread_reliable [OF less.prems] by metis
  show ?case
  proof (cases bs)
    case Nil
    then have "rdata f = []" using u(4) by simp
    then show ?thesis using u(1) Nil by (simp add: wc_loop.simps)
  next
    case (Cons b cs)
    then have "wc_loop g (fold wc_byte (b # cs) s) = Some (fold wc_byte (rdata g) (fold wc_byte (b # cs) s))"
      using less.hyps [of g] u(2,3) by simp
    then show ?thesis using u(1,3) Cons by (simp add: wc_loop.simps [of f])
  qed
qed

definition wc_space :: "u8 \<Rightarrow> bool" where
  "wc_space b \<longleftrightarrow> b \<in> {32, 13, 9, 10, 11}"

text \<open>The positions at which a word starts.\<close>

definition word_starts :: "u8 list \<Rightarrow> nat set" where
  "word_starts d = {i. i < length d \<and> \<not> wc_space (d ! i) \<and> (i = 0 \<or> wc_space (d ! (i - 1)))}"

lemma word_starts_snoc:
  "word_starts (d @ [b]) = word_starts d \<union> (if \<not> wc_space b \<and> (d = [] \<or> wc_space (last d)) then {length d} else {})"
proof (rule set_eqI)
  fix i
  consider "i < length d" | "i = length d" | "i > length d" by linarith
  then show "i \<in> word_starts (d @ [b]) \<longleftrightarrow> i \<in> word_starts d \<union> (if \<not> wc_space b \<and> (d = [] \<or> wc_space (last d)) then {length d} else {})"
  proof cases
    case 1
    then have "(d @ [b]) ! i = d ! i" "(d @ [b]) ! (i - 1) = d ! (i - 1)" by (simp_all add: nth_append less_imp_diff_less)
    then show ?thesis using 1 by (simp add: word_starts_def)
  next
    case 2
    have "(d @ [b]) ! (length d - 1) = last d" if "d \<noteq> []" using that by (simp add: nth_append last_conv_nth)
    then show ?thesis using 2 by (cases "d = []") (auto simp: word_starts_def)
  qed (auto simp: word_starts_def)
qed

lemma finite_word_starts [simp]: "finite (word_starts d)"
  by (simp add: word_starts_def)

lemma wc_fold:
  "fold wc_byte d \<lparr>wl = 0, ww = 0, wc_c = 0, inword = False\<rparr> =
     \<lparr>wl = of_nat (count_list d 10), ww = of_nat (card (word_starts d)), wc_c = of_nat (length d),
      inword = (d \<noteq> [] \<and> \<not> wc_space (last d))\<rparr>"
proof (induction d rule: rev_induct)
  case Nil
  then show ?case by (simp add: word_starts_def)
next
  case (snoc b d)
  have sp: "strchr [32, 13, 9, 10, 11] b \<noteq> None \<longleftrightarrow> wc_space b" by (simp add: wc_space_def)
  have new: "length d \<notin> word_starts d" by (simp add: word_starts_def)
  have "wc_byte b (fold wc_byte d \<lparr>wl = 0, ww = 0, wc_c = 0, inword = False\<rparr>) =
     \<lparr>wl = of_nat (count_list (d @ [b]) 10), ww = of_nat (card (word_starts (d @ [b]))), wc_c = of_nat (length (d @ [b])),
      inword = (d @ [b] \<noteq> [] \<and> \<not> wc_space (last (d @ [b])))\<rparr>"
    unfolding snoc wc_byte_def sp word_starts_snoc using new
    by (auto simp: Let_def wc_space_def)
  then show ?case by simp
qed

text \<open>
  \<open>wc\<close> counts right, however the input is cut into reads: without a read error it reports the number
  of newlines, the number of positions at which a word starts (a byte that is no white space, at the start
  of the input or after white space) and the number of bytes, each modulo \<open>2^32\<close>.
\<close>

theorem wc_counts:
  assumes "reliable f"
  shows "wc f = Some (of_nat (count_list (rdata f) 10), of_nat (card (word_starts (rdata f))), of_nat (length (rdata f)))"
  by (simp add: wc_def wc_loop_fold [OF assms] wc_fold)

theorem wc_counts_witness:
  "\<exists>n. wc \<lparr>rdata = [97, 98, 32, 99, 10], rplan = [Some 1, Some 1, Some 2]\<rparr> = Some (1, n, 5)"
  using wc_counts [of "\<lparr>rdata = [97, 98, 32, 99, 10], rplan = [Some 1, Some 1, Some 2]\<rparr>"] by (simp add: reliable_def)

text \<open>A word of digits is read as the number it denotes, and printed when 5 or 6 divides it.\<close>

lemma atoi_digit: "48 \<le> c \<Longrightarrow> c \<le> 57 \<Longrightarrow> atoi [c] = ucast c - 48"
  by (simp add: atoi_def)

definition sixfive_sep :: "u8 \<Rightarrow> bool" where
  "sixfive_sep b \<longleftrightarrow> b \<in> {32, 45, 13, 9, 10, 46, 47, 44}"

fun sixfive_out :: "u8 list \<Rightarrow> u32 \<Rightarrow> u32 list" where
  "sixfive_out [] v = sixfive_val v"
| "sixfive_out (c # cs) v =
     (if sixfive_sep c then sixfive_val v @ sixfive_out cs 0 else sixfive_out cs (v * 10 + atoi [c]))"

lemma process_loop_out:
  assumes "reliable f"
  shows "process_loop f v = sixfive_out (rdata f) v"
  using assms
proof (induction "rdata f" arbitrary: f v)
  case Nil
  obtain bs g where u: "uread 1 f = (Some bs, g)" "rdata f = bs @ rdata g"
    using uread_reliable [OF Nil.prems] by metis
  then show ?case using Nil.hyps by (simp add: process_loop.simps)
next
  case (Cons c cs)
  obtain bs g where u: "uread 1 f = (Some bs, g)" "reliable g" "rdata f = bs @ rdata g" "length bs \<le> 1" "bs = [] \<longleftrightarrow> (1 :: nat) = 0 \<or> rdata f = []"
    using uread_reliable [OF Cons.prems] by metis
  have "bs \<noteq> []" using u(5) Cons.hyps(2) [symmetric] by simp
  then have b: "bs = [c]" "cs = rdata g" using u(3,4) Cons.hyps(2) by (cases bs; simp)+
  have sp: "strchr [32, 45, 13, 9, 10, 46, 47, 44] c \<noteq> None \<longleftrightarrow> sixfive_sep c" by (simp add: sixfive_sep_def)
  have "process_loop f v = (if sixfive_sep c then sixfive_val v @ process_loop g 0 else process_loop g (v * 10 + atoi [c]))"
    using u(1) b(1) unfolding sp [symmetric] by (simp add: process_loop.simps [of f])
  also have "\<dots> = sixfive_out (c # cs) v" using Cons.hyps(1) [OF b(2) u(2)] b(2) by simp
  finally show ?case using Cons.hyps(2) by simp
qed

end
