(* ===== verification/Mysh.thy ===== *)
theory Mysh
  imports Prelude
begin

text \<open>
  The scanner and parser of \<^verbatim>\<open>mysh/shell.c\<close>. The line is the list of its bytes as \<open>getline\<close> stores
  them; a \<open>char *\<close> into it is a position, \<open>end\<close> is its length. A \<open>node *\<close> is the tree it points to;
  \<open>argv\<close> and \<open>eargv\<close> are the list of the pairs of positions stored so far. \<open>exit(1)\<close> is the result
  \<open>Exit\<close>; a store past the end of \<open>argv\<close> or \<open>eargv\<close> is \<open>Overrun\<close>. \<open>isspace\<close> is the one of the C
  locale, and the allocations of nodes succeed.
\<close>

section \<open>Nodes\<close>

datatype node =
    ExecN "(nat \<times> nat) list"
  | RedirN int int node nat nat
  | PipeN node node

datatype 'a outcome = Ok 'a | Exit | Overrun

fun obind :: "'a outcome \<Rightarrow> ('a \<Rightarrow> 'b outcome) \<Rightarrow> 'b outcome" where
  "obind (Ok a) f = f a"
| "obind Exit f = Exit"
| "obind Overrun f = Overrun"

definition MAXARGS :: nat where "MAXARGS = 10"

definition isspace :: "u8 \<Rightarrow> bool" where
  "isspace c \<longleftrightarrow> c = 32 \<or> 9 \<le> c \<and> c \<le> 13"

section \<open>The scanner\<close>

function skip_space :: "u8 list \<Rightarrow> nat \<Rightarrow> nat" where
  "skip_space buf s = (if s < length buf \<and> isspace (buf ! s) then skip_space buf (Suc s) else s)"
  by pat_completeness auto
termination
  by (relation "measure (\<lambda>(buf, s). length buf - s)") auto

function skip_nonspace :: "u8 list \<Rightarrow> nat \<Rightarrow> nat" where
  "skip_nonspace buf s = (if s < length buf \<and> \<not> isspace (buf ! s) then skip_nonspace buf (Suc s) else s)"
  by pat_completeness auto
termination
  by (relation "measure (\<lambda>(buf, s). length buf - s)") auto

declare skip_space.simps [simp del] skip_nonspace.simps [simp del]

lemma skip_space_mono: "s \<le> skip_space buf s"
proof (induction buf s rule: skip_space.induct)
  case (1 buf s)
  then show ?case by (cases "s < length buf \<and> isspace (buf ! s)") (auto simp: skip_space.simps [of buf s])
qed

lemma skip_nonspace_mono: "s \<le> skip_nonspace buf s"
proof (induction buf s rule: skip_nonspace.induct)
  case (1 buf s)
  then show ?case by (cases "s < length buf \<and> \<not> isspace (buf ! s)") (auto simp: skip_nonspace.simps [of buf s])
qed

text \<open>Scanning starts inside the line and no scanning step passes its end, where \<open>peak\<close> returns 0.\<close>

definition peak :: "u8 list \<Rightarrow> nat \<Rightarrow> u8" where
  "peak buf s =
     (let s = skip_space buf s in
      if s \<ge> length buf then 0
      else if buf ! s = 124 then 124
      else if buf ! s = 60 then 60
      else if buf ! s = 62 then (if s + 1 < length buf \<and> buf ! (s + 1) = 62 then 43 else 62)
      else 120)"

lemma peak_lt: "peak buf s \<noteq> 0 \<Longrightarrow> s < length buf"
  using skip_space_mono [of s buf] by (auto simp: peak_def Let_def split: if_splits)

text \<open>The kind of the token, \<open>*tok_start\<close>, \<open>*tok_end\<close> and the new \<open>*start\<close>.\<close>

definition gettoken :: "u8 list \<Rightarrow> nat \<Rightarrow> u8 \<times> nat \<times> nat \<times> nat" where
  "gettoken buf start =
     (if start \<ge> length buf then (0, start, start, start)
      else
        let tok = (if buf ! start = 124 then 124
                   else if buf ! start = 60 then 60
                   else if buf ! start = 62 then (if start + 1 < length buf \<and> buf ! (start + 1) = 62 then 43 else 62)
                   else 120);
            dummy = skip_nonspace buf start
        in (tok, start, dummy, skip_space buf dummy))"

lemma gettoken_progress:
  assumes "gettoken buf s = (tok, ts, te, t)"
  shows "s \<le> t" "s < length buf \<Longrightarrow> s < t" "tok \<noteq> 0 \<Longrightarrow> s < length buf"
proof -
  let ?d = "skip_nonspace buf s"
  have m: "s \<le> ?d" "?d \<le> skip_space buf ?d" using skip_nonspace_mono skip_space_mono by auto
  show "s \<le> t" using assms m by (auto simp: gettoken_def Let_def split: if_splits)
  show "tok \<noteq> 0 \<Longrightarrow> s < length buf" using assms by (auto simp: gettoken_def split: if_splits)
  assume l: "s < length buf"
  then have t: "t = skip_space buf ?d" using assms by (auto simp: gettoken_def Let_def)
  show "s < t"
  proof (cases "isspace (buf ! s)")
    case True
    then have "?d = s" by (simp add: skip_nonspace.simps)
    then have "t = skip_space buf (Suc s)" using t True l by (simp add: skip_space.simps [of buf s])
    then show ?thesis using skip_space_mono [of "Suc s" buf] by simp
  next
    case False
    then have "?d = skip_nonspace buf (Suc s)" using l by (simp add: skip_nonspace.simps [of buf s])
    then show ?thesis using t m(2) skip_nonspace_mono [of "Suc s" buf] by simp
  qed
qed

lemma gettoken_step: "gettoken buf s = (tok, ts, te, t) \<Longrightarrow> tok \<noteq> 0 \<Longrightarrow> length buf - t < length buf - s"
  using gettoken_progress by fastforce

section \<open>The parser\<close>

function parseRedir :: "u8 list \<Rightarrow> node \<Rightarrow> nat \<Rightarrow> (node \<times> nat) outcome" where
  "parseRedir buf child s =
     (case gettoken buf s of (tok, _, _, s1) \<Rightarrow>
        if tok \<noteq> 60 \<and> tok \<noteq> 62 \<and> tok \<noteq> 43 then Exit
        else let fd = (if tok = 60 then 0 else 1);
                 mode = (if tok = 60 then 0 else if tok = 62 then 0x241 else 0x441)
          in case gettoken buf s1 of (tok2, tok_start, tok_end, s2) \<Rightarrow>
             if tok2 \<noteq> 120 then Exit
             else if peak buf s2 = 62 \<or> peak buf s2 = 60 \<or> peak buf s2 = 43
             then obind (parseRedir buf child s2) (\<lambda>(c, s). Ok (RedirN fd mode c tok_start tok_end, s))
             else Ok (RedirN fd mode child tok_start tok_end, s2))"
  by pat_completeness auto
termination
  by (relation "measure (\<lambda>(buf, child, s). length buf - s)") (auto dest!: gettoken_step [OF sym])

function parsExec_loop :: "u8 list \<Rightarrow> (nat \<times> nat) list \<Rightarrow> nat \<Rightarrow> ((nat \<times> nat) list \<times> nat) outcome" where
  "parsExec_loop buf args s =
     (if peak buf s = 120 then
        case gettoken buf s of (tok, tok_start, tok_end, s1) \<Rightarrow>
          if tok = 0 then (if length args \<ge> MAXARGS then Overrun else Ok (args, s1))
          else if length args \<ge> MAXARGS then Overrun
          else parsExec_loop buf (args @ [(tok_start, tok_end)]) s1
      else if length args \<ge> MAXARGS then Overrun else Ok (args, s))"
  by pat_completeness auto
termination
  by (relation "measure (\<lambda>(buf, args, s). length buf - s)") (auto dest!: gettoken_step [OF sym])

definition parsExec :: "u8 list \<Rightarrow> nat \<Rightarrow> (node \<times> nat) outcome" where
  "parsExec buf s =
     obind (parsExec_loop buf [] s) (\<lambda>(args, s).
       if peak buf s = 60 \<or> peak buf s = 43 \<or> peak buf s = 62 then parseRedir buf (ExecN args) s
       else Ok (ExecN args, s))"

declare parseRedir.simps [simp del] parsExec_loop.simps [simp del]

lemma parsExec_loop_mono: "parsExec_loop buf args s = Ok (args', t) \<Longrightarrow> s \<le> t"
proof (induction buf args s rule: parsExec_loop.induct)
  case (1 buf args s)
  obtain tok ts te s1 where g: "gettoken buf s = (tok, ts, te, s1)" by (metis prod_cases4)
  have "s \<le> s1" using gettoken_progress(1) [OF g] .
  then show ?case using 1 g
    by (cases "peak buf s = 120"; cases "tok = 0"; cases "length args \<ge> MAXARGS")
      (fastforce simp: parsExec_loop.simps [of buf args s])+
qed

lemma parseRedir_mono: "parseRedir buf child s = Ok (n, t) \<Longrightarrow> s \<le> t"
proof (induction buf child s arbitrary: n rule: parseRedir.induct)
  case (1 buf child s)
  obtain tok a b s1 where g: "gettoken buf s = (tok, a, b, s1)" by (metis prod_cases4)
  obtain tok2 ts te s2 where h: "gettoken buf s1 = (tok2, ts, te, s2)" by (metis prod_cases4)
  have m: "s \<le> s2" using gettoken_progress(1) [OF g] gettoken_progress(1) [OF h] by simp
  show ?case
  proof (cases "(tok \<noteq> 60 \<and> tok \<noteq> 62 \<and> tok \<noteq> 43) \<or> tok2 \<noteq> 120")
    case True
    then show ?thesis using 1(2) g h by (auto simp: parseRedir.simps [of buf child s] split: if_splits)
  next
    case False
    then show ?thesis
    proof (cases "peak buf s2 = 62 \<or> peak buf s2 = 60 \<or> peak buf s2 = 43")
      case t: True
      then obtain c where "parseRedir buf child s2 = Ok (c, t)"
        using 1(2) False g h by (cases "parseRedir buf child s2") (auto simp: parseRedir.simps [of buf child s] Let_def split: if_splits)
      then have "s2 \<le> t" using 1(1) [OF g [symmetric] refl refl _ refl refl h [symmetric] refl refl _ t] False by blast
      then show ?thesis using m by simp
    next
      case f: False
      then show ?thesis using 1(2) False g h m by (auto simp: parseRedir.simps [of buf child s] Let_def split: if_splits)
    qed
  qed
qed

lemma parsExec_mono: "parsExec buf s = Ok (n, t) \<Longrightarrow> s \<le> t"
  by (cases "parsExec_loop buf [] s")
    (auto simp: parsExec_def split: prod.splits if_splits dest!: parsExec_loop_mono parseRedir_mono)

function parsePipe :: "u8 list \<Rightarrow> nat \<Rightarrow> node outcome" where
  "parsePipe buf s =
     (case parsExec buf s of
        Exit \<Rightarrow> Exit
      | Overrun \<Rightarrow> Overrun
      | Ok (exec1, s) \<Rightarrow>
          if peak buf s = 124 then
            (case gettoken buf s of (_, _, _, s) \<Rightarrow> obind (parsePipe buf s) (\<lambda>right. Ok (PipeN exec1 right)))
          else Ok exec1)"
  by pat_completeness auto
termination
proof (relation "measure (\<lambda>(buf, s). length buf - s)")
  fix buf :: "u8 list" and s x exec1 t w1 w2 w3 u and r1 r2 r3 :: "_ \<times> _"
  assume "parsExec buf s = Ok x" "(exec1, t) = x" "peak buf t = 124" "(w1, r1) = gettoken buf t" "(w2, r2) = r1" "(w3, u) = r2"
  then have e: "parsExec buf s = Ok (exec1, t)" "t < length buf" "gettoken buf t = (w1, w2, w3, u)" using peak_lt [of buf t] by auto
  have "s \<le> t" using parsExec_mono [OF e(1)] .
  moreover have "t < u" using gettoken_progress(2) [OF e(3) e(2)] .
  ultimately show "((buf, u), buf, s) \<in> measure (\<lambda>(buf, s). length buf - s)" using e(2) by simp
qed simp

declare parsePipe.simps [simp del]

section \<open>The words of the tree\<close>

fun parsExecNullTerminate :: "(nat \<times> nat) list \<Rightarrow> u8 list \<Rightarrow> u8 list" where
  "parsExecNullTerminate [] buf = buf"
| "parsExecNullTerminate ((_, e) # args) buf = parsExecNullTerminate args (buf[e := 0])"

definition string_at :: "u8 list \<Rightarrow> nat \<Rightarrow> u8 list" where
  "string_at buf p = takeWhile (\<lambda>c. c \<noteq> 0) (drop p buf)"

text \<open>\<open>printTree\<close> ends the strings of the tree with NUL bytes; it returns the lines it prints and the buffer.\<close>

fun printTree :: "node \<Rightarrow> u8 list \<Rightarrow> u8 list list \<times> u8 list" where
  "printTree (RedirN fd mode child f e) buf =
     (let buf = buf[e := 0]; line = string_at buf f; (out, buf) = printTree child buf in (line # out, buf))"
| "printTree (PipeN l r) buf =
     (let (out1, buf) = printTree l buf; (out2, buf) = printTree r buf in ([124] # out1 @ out2, buf))"
| "printTree (ExecN args) buf =
     (let buf = parsExecNullTerminate args buf in (map (\<lambda>(p, _). string_at buf p) args, buf))"

section \<open>Scanning a printed line\<close>

definition blanks :: "u8 list \<Rightarrow> bool" where
  "blanks b \<longleftrightarrow> b \<noteq> [] \<and> (\<forall>c\<in>set b. isspace c)"

definition solid :: "u8 list \<Rightarrow> bool" where
  "solid w \<longleftrightarrow> w \<noteq> [] \<and> (\<forall>c\<in>set w. \<not> isspace c)"

definition starts_token :: "u8 list \<Rightarrow> bool" where
  "starts_token r \<longleftrightarrow> r = [] \<or> \<not> isspace (hd r)"

definition kind :: "u8 list \<Rightarrow> u8" where
  "kind r = (if r = [] then 0 else if hd r = 124 then 124 else if hd r = 60 then 60
     else if hd r = 62 then (if tl r \<noteq> [] \<and> hd (tl r) = 62 then 43 else 62) else 120)"

lemma nth_at [simp]: "(pre @ r) ! length pre = hd r" if "r \<noteq> []"
  using that by (simp add: nth_append hd_conv_nth)

lemma skip_space_app: "(\<forall>c\<in>set b. isspace c) \<Longrightarrow> starts_token r \<Longrightarrow> skip_space (pre @ b @ r) (length pre) = length pre + length b"
proof (induction b arbitrary: pre)
  case Nil
  then show ?case by (cases "r = []") (simp_all add: skip_space.simps starts_token_def)
next
  case (Cons c b)
  have "skip_space (pre @ (c # b) @ r) (length pre) = skip_space ((pre @ [c]) @ b @ r) (length (pre @ [c]))"
    using Cons.prems(1) by (subst skip_space.simps) simp
  then show ?case using Cons.IH [of "pre @ [c]"] Cons.prems by simp
qed

lemma skip_nonspace_app:
  "(\<forall>c\<in>set w. \<not> isspace c) \<Longrightarrow> r \<noteq> [] \<Longrightarrow> isspace (hd r) \<Longrightarrow> skip_nonspace (pre @ w @ r) (length pre) = length pre + length w"
proof (induction w arbitrary: pre)
  case Nil
  then show ?case by (simp add: skip_nonspace.simps)
next
  case (Cons c w)
  have "skip_nonspace (pre @ (c # w) @ r) (length pre) = skip_nonspace ((pre @ [c]) @ w @ r) (length (pre @ [c]))"
    using Cons.prems(1) by (subst skip_nonspace.simps) simp
  then show ?case using Cons.IH [of "pre @ [c]"] Cons.prems by simp
qed

lemma peak_app:
  assumes "starts_token r"
  shows "peak (pre @ r) (length pre) = kind r"
proof -
  have s: "skip_space (pre @ r) (length pre) = length pre" using skip_space_app [of "[]" r pre] assms by simp
  show ?thesis
  proof (cases r)
    case Nil
    then show ?thesis using s by (simp add: peak_def kind_def)
  next
    case (Cons c cs)
    then show ?thesis using s unfolding peak_def Let_def s by (cases cs) (simp_all add: kind_def nth_append)
  qed
qed

lemma gettoken_app:
  assumes "solid w" "blanks b" "starts_token r"
  shows "gettoken (pre @ w @ b @ r) (length pre) =
    (kind (w @ b @ r), length pre, length pre + length w, length pre + length w + length b)"
proof -
  have 1: "skip_nonspace (pre @ w @ b @ r) (length pre) = length pre + length w"
    using skip_nonspace_app [of w "b @ r" pre] assms by (simp add: solid_def blanks_def)
  have 2: "skip_space (pre @ w @ b @ r) (length pre + length w) = length pre + length w + length b"
    using skip_space_app [of b r "pre @ w"] assms by (simp add: blanks_def)
  have k: "(if (pre @ q) ! length pre = 124 then 124 else if (pre @ q) ! length pre = 60 then 60
      else if (pre @ q) ! length pre = 62 then (if length pre + 1 < length (pre @ q) \<and> (pre @ q) ! (length pre + 1) = 62 then 43 else 62) else 120) = kind q"
    if "q \<noteq> []" for q :: "u8 list"
    using that by (cases q; cases "tl q") (auto simp: kind_def nth_append)
  have n: "w @ b @ r \<noteq> []" "\<not> length (pre @ w @ b @ r) \<le> length pre" using assms by (simp_all add: solid_def)
  show ?thesis unfolding gettoken_def if_not_P [OF n(2)] Let_def k [OF n(1)] 1 2 by simp
qed

section \<open>Commands as the user writes them\<close>

text \<open>
  A command is its words, each with the white space that follows it, and its redirections: the operator
  and the file name, each with the white space after it. A pipeline is a list of commands.
\<close>

datatype rop = RIn | ROut | RApp

type_synonym wordb = "u8 list \<times> u8 list"
type_synonym redirb = "rop \<times> u8 list \<times> wordb"
type_synonym command = "wordb list \<times> redirb list"

fun rop_text :: "rop \<Rightarrow> u8 list" where
  "rop_text RIn = [60]"
| "rop_text ROut = [62]"
| "rop_text RApp = [62, 62]"

fun rop_fd :: "rop \<Rightarrow> int" where
  "rop_fd RIn = 0"
| "rop_fd _ = 1"

fun rop_mode :: "rop \<Rightarrow> int" where
  "rop_mode RIn = 0"
| "rop_mode ROut = 0x241"
| "rop_mode RApp = 0x441"

definition words_text :: "wordb list \<Rightarrow> u8 list" where
  "words_text ws = concat (map (\<lambda>(w, b). w @ b) ws)"

definition redirs_text :: "redirb list \<Rightarrow> u8 list" where
  "redirs_text rs = concat (map (\<lambda>(k, b, w, c). rop_text k @ b @ w @ c) rs)"

fun pipe_text :: "command list \<Rightarrow> u8 list" where
  "pipe_text [] = []"
| "pipe_text [(ws, rs)] = words_text ws @ redirs_text rs"
| "pipe_text ((ws, rs) # c # cs) = words_text ws @ redirs_text rs @ [124, 32] @ pipe_text (c # cs)"

text \<open>
  A word has no white space and none of the operator characters that the documentation of the shell names: \<open>|\<close>, \<open><\<close>, \<open>>\<close>, and
  also \<open>;\<close>, \<open>&\<close> and the parentheses, which the parser does not know.
\<close>

definition plain :: "wordb \<Rightarrow> bool" where
  "plain wb \<longleftrightarrow> solid (fst wb) \<and> set (fst wb) \<inter> {0, 124, 60, 62, 59, 38, 40, 41} = {} \<and> blanks (snd wb)"

definition command_ok :: "command \<Rightarrow> bool" where
  "command_ok c \<longleftrightarrow> fst c \<noteq> [] \<and> length (fst c) < MAXARGS \<and> (\<forall>w\<in>set (fst c). plain w)
     \<and> (\<forall>(k, b, w)\<in>set (snd c). blanks b \<and> plain w)"

section \<open>Parsing them\<close>

fun args_pos :: "nat \<Rightarrow> wordb list \<Rightarrow> (nat \<times> nat) list" where
  "args_pos p [] = []"
| "args_pos p ((w, b) # ws) = (p, p + length w) # args_pos (p + length w + length b) ws"

fun redirs_node :: "nat \<Rightarrow> redirb list \<Rightarrow> node \<Rightarrow> node" where
  "redirs_node p [] n = n"
| "redirs_node p ((k, b, w, c) # rs) n =
     (let f = p + length (rop_text k) + length b
      in RedirN (rop_fd k) (rop_mode k) (redirs_node (f + length w + length c) rs n) f (f + length w))"

lemma kind_plain: "plain (w, b) \<Longrightarrow> kind (w @ r) = 120" "plain (w, b) \<Longrightarrow> starts_token (w @ r)"
  by (cases w; auto simp: kind_def plain_def solid_def starts_token_def)+

lemma starts_words: "\<forall>w\<in>set ws. plain w \<Longrightarrow> starts_token r \<Longrightarrow> starts_token (words_text ws @ r)"
  by (cases ws) (auto simp: words_text_def kind_plain(2))

lemma isspace_ops [simp]: "\<not> isspace 124" "\<not> isspace 60" "\<not> isspace 62" "isspace 32" "isspace 10"
  by (simp_all add: isspace_def)

lemma rop_solid: "solid (rop_text k)" "starts_token (rop_text k @ r)"
  by (cases k; simp add: solid_def starts_token_def)+

lemma kind_rop: "blanks b \<Longrightarrow> kind (rop_text k @ b @ r) = (case k of RIn \<Rightarrow> 60 | ROut \<Rightarrow> 62 | RApp \<Rightarrow> 43)"
  by (cases k; cases b) (auto simp: kind_def blanks_def)

lemma parsExec_loop_words:
  assumes "\<forall>w\<in>set ws. plain w" "starts_token r" "kind r \<noteq> 120"
  shows "parsExec_loop (pre @ words_text ws @ r) args (length pre) =
    (if length args + length ws \<ge> MAXARGS then Overrun else Ok (args @ args_pos (length pre) ws, length pre + length (words_text ws)))"
  using assms(1)
proof (induction ws arbitrary: pre args)
  case Nil
  then show ?case using assms peak_app [of r pre] by (subst parsExec_loop.simps) (simp add: words_text_def)
next
  case (Cons wb ws)
  obtain w b where wb: "wb = (w, b)" by fastforce
  let ?r = "words_text ws @ r" and ?buf = "pre @ words_text (wb # ws) @ r" and ?pre = "pre @ w @ b"
  have p: "plain (w, b)" "solid w" "blanks b" using Cons.prems wb by (simp_all add: plain_def)
  have st: "starts_token ?r" using starts_words Cons.prems assms(2) by simp
  have buf: "?buf = pre @ w @ b @ ?r" "?buf = ?pre @ ?r" by (simp_all add: wb words_text_def)
  have k: "peak ?buf (length pre) = 120" unfolding buf(1) using peak_app kind_plain [OF p(1)] by simp
  have g: "gettoken ?buf (length pre) = (120, length pre, length pre + length w, length ?pre)"
    unfolding buf(1) gettoken_app [OF p(2,3) st] using kind_plain(1) [OF p(1)] by simp
  show ?case
  proof (cases "MAXARGS \<le> length args")
    case True
    then show ?thesis using k g by (subst parsExec_loop.simps) simp
  next
    case False
    then have "parsExec_loop ?buf args (length pre) = parsExec_loop ?buf (args @ [(length pre, length pre + length w)]) (length ?pre)"
      using k g by (subst parsExec_loop.simps) simp
    also have "\<dots> = (if length args + length (wb # ws) \<ge> MAXARGS then Overrun
        else Ok (args @ args_pos (length pre) (wb # ws), length pre + length (words_text (wb # ws))))"
      unfolding buf(2) using Cons.IH [of ?pre] Cons.prems by (simp add: wb words_text_def add.assoc)
    finally show ?thesis .
  qed
qed

lemma parseRedir_step:
  assumes "gettoken buf s = ((case k of RIn \<Rightarrow> 60 | ROut \<Rightarrow> 62 | RApp \<Rightarrow> 43), a, b, s1)" "gettoken buf s1 = (120, f, e, s2)"
  shows "parseRedir buf child s =
    (if peak buf s2 = 62 \<or> peak buf s2 = 60 \<or> peak buf s2 = 43
     then obind (parseRedir buf child s2) (\<lambda>(n, s). Ok (RedirN (rop_fd k) (rop_mode k) n f e, s))
     else Ok (RedirN (rop_fd k) (rop_mode k) child f e, s2))"
  using assms by (subst parseRedir.simps) (cases k; simp add: Let_def)

lemma parseRedir_redirs:
  assumes "rs \<noteq> []" "\<forall>(k, b, w)\<in>set rs. blanks b \<and> plain w" "starts_token r" "kind r = 0 \<or> kind r = 124"
  shows "parseRedir (pre @ redirs_text rs @ r) child (length pre) = Ok (redirs_node (length pre) rs child, length pre + length (redirs_text rs))"
  using assms(1,2)
proof (induction rs arbitrary: pre)
  case (Cons x rs)
  note IH = Cons.IH and prems = Cons.prems
  obtain k b w c where x: "x = (k, b, w, c)" by (metis prod_cases4)
  let ?r = "redirs_text rs @ r" and ?buf = "pre @ redirs_text (x # rs) @ r"
  let ?p1 = "pre @ rop_text k @ b" and ?p2 = "(pre @ rop_text k @ b) @ w @ c"
  have p: "blanks b" "plain (w, c)" "solid w" "blanks c" using prems x by (simp_all add: plain_def)
  have st: "starts_token ?r"
    using assms(3) rop_solid(2) by (cases rs) (auto simp: redirs_text_def split: prod.splits)
  have buf: "?buf = pre @ rop_text k @ b @ (w @ c @ ?r)" "?buf = ?p1 @ w @ c @ ?r" "?buf = ?p2 @ ?r" by (simp_all add: x redirs_text_def)
  have g1: "gettoken ?buf (length pre) = ((case k of RIn \<Rightarrow> 60 | ROut \<Rightarrow> 62 | RApp \<Rightarrow> 43), length pre, length pre + length (rop_text k), length ?p1)"
    unfolding buf(1) gettoken_app [OF rop_solid(1) p(1) kind_plain(2) [OF p(2)]] kind_rop [OF p(1)] by simp
  have g2: "gettoken ?buf (length ?p1) = (120, length ?p1, length ?p1 + length w, length ?p2)"
    unfolding buf(2) gettoken_app [OF p(3,4) st] using kind_plain(1) [OF p(2)] by simp
  have pk: "peak ?buf (length ?p2) = kind ?r" unfolding buf(3) by (rule peak_app [OF st])
  have run: "parseRedir ?buf child (length pre) =
      (if kind ?r = 62 \<or> kind ?r = 60 \<or> kind ?r = 43
       then obind (parseRedir ?buf child (length ?p2)) (\<lambda>(n, s). Ok (RedirN (rop_fd k) (rop_mode k) n (length ?p1) (length ?p1 + length w), s))
       else Ok (RedirN (rop_fd k) (rop_mode k) child (length ?p1) (length ?p1 + length w), length ?p2))"
    using parseRedir_step [OF g1 g2] unfolding pk .
  show ?case
  proof (cases rs)
    case Nil
    then have "kind ?r = 0 \<or> kind ?r = 124" using assms(4) by (simp add: redirs_text_def)
    then show ?thesis unfolding run by (auto simp: Nil x redirs_text_def Let_def)
  next
    case (Cons y ys)
    obtain k' b' w' c' where y: "y = (k', b', w', c')" by (metis prod_cases4)
    have "blanks b'" using prems Cons y by simp
    then have kr: "kind ?r = 62 \<or> kind ?r = 60 \<or> kind ?r = 43"
      using kind_rop [of b' k'] by (cases k') (simp_all add: Cons y redirs_text_def)
    have "parseRedir ?buf child (length ?p2) = Ok (redirs_node (length ?p2) rs child, length ?p2 + length (redirs_text rs))"
      unfolding buf(3) using IH [of ?p2] prems Cons by simp
    then show ?thesis unfolding run using kr by (simp add: x redirs_text_def Let_def add.assoc)
  qed
qed simp

fun command_node :: "nat \<Rightarrow> command \<Rightarrow> node" where
  "command_node p (ws, rs) = redirs_node (p + length (words_text ws)) rs (ExecN (args_pos p ws))"

lemma parsExec_command:
  assumes "command_ok (ws, rs)" "starts_token r" "kind r = 0 \<or> kind r = 124"
  shows "parsExec (pre @ words_text ws @ redirs_text rs @ r) (length pre) =
    Ok (command_node (length pre) (ws, rs), length pre + length (words_text ws) + length (redirs_text rs))"
proof -
  let ?r = "redirs_text rs @ r" and ?p = "pre @ words_text ws"
  have ws: "\<forall>w\<in>set ws. plain w" "length ws < MAXARGS" and rs: "\<forall>(k, b, w)\<in>set rs. blanks b \<and> plain w"
    using assms(1) by (simp_all add: command_ok_def)
  have st: "starts_token ?r"
    using assms(2) rop_solid(2) by (cases rs) (auto simp: redirs_text_def split: prod.splits)
  have kr: "kind ?r = 62 \<or> kind ?r = 60 \<or> kind ?r = 43" if "rs \<noteq> []"
  proof -
    obtain k b w c rs' where "rs = (k, b, w, c) # rs'" using \<open>rs \<noteq> []\<close> by (metis list.exhaust prod_cases4)
    then show ?thesis using rs kind_rop [of b k] by (cases k) (simp_all add: redirs_text_def)
  qed
  have "kind ?r \<noteq> 120" using kr assms(3) by (cases "rs = []") (auto simp: redirs_text_def)
  then have l: "parsExec_loop (pre @ words_text ws @ ?r) [] (length pre) = Ok (args_pos (length pre) ws, length ?p)"
    using parsExec_loop_words [OF ws(1) st, of pre "[]"] ws(2) by simp
  have pk: "peak (pre @ words_text ws @ ?r) (length ?p) = kind ?r" using peak_app [OF st, of ?p] by simp
  have run: "parsExec (pre @ words_text ws @ ?r) (length pre) =
      (if kind ?r = 60 \<or> kind ?r = 43 \<or> kind ?r = 62 then parseRedir (?p @ ?r) (ExecN (args_pos (length pre) ws)) (length ?p)
       else Ok (ExecN (args_pos (length pre) ws), length ?p))"
    unfolding parsExec_def l obind.simps prod.case pk by simp
  show ?thesis
  proof (cases "rs = []")
    case True
    then show ?thesis using assms(3) unfolding run by (auto simp: redirs_text_def)
  next
    case False
    have "parseRedir (?p @ ?r) (ExecN (args_pos (length pre) ws)) (length ?p) =
        Ok (redirs_node (length ?p) rs (ExecN (args_pos (length pre) ws)), length ?p + length (redirs_text rs))"
      by (rule parseRedir_redirs [OF False rs assms(2,3)])
    then show ?thesis unfolding run using kr [OF False] by auto
  qed
qed

fun pipe_node :: "nat \<Rightarrow> command list \<Rightarrow> node" where
  "pipe_node p [] = ExecN []"
| "pipe_node p [c] = command_node p c"
| "pipe_node p (c # d # cs) =
     PipeN (command_node p c) (pipe_node (p + length (words_text (fst c)) + length (redirs_text (snd c)) + 2) (d # cs))"

lemma starts_pipe: "\<forall>c\<in>set cs. command_ok c \<Longrightarrow> cs \<noteq> [] \<Longrightarrow> starts_token (pipe_text cs)"
proof -
  assume a: "\<forall>c\<in>set cs. command_ok c" "cs \<noteq> []"
  then obtain ws rs cs' where c: "cs = (ws, rs) # cs'" by (metis list.exhaust surj_pair)
  then obtain w b ws' where w: "ws = (w, b) # ws'" using a(1) by (cases ws) (auto simp: command_ok_def)
  then have "plain (w, b)" using a(1) c by (simp add: command_ok_def)
  then show ?thesis using kind_plain(2) c w by (cases cs') (simp_all add: words_text_def)
qed

lemma parsePipe_pipe:
  assumes "\<forall>c\<in>set cs. command_ok c" "cs \<noteq> []"
  shows "parsePipe (pre @ pipe_text cs) (length pre) = Ok (pipe_node (length pre) cs)"
  using assms
proof (induction cs arbitrary: pre rule: pipe_text.induct)
  case (2 ws rs)
  have "parsExec (pre @ words_text ws @ redirs_text rs @ []) (length pre) =
      Ok (command_node (length pre) (ws, rs), length pre + length (words_text ws) + length (redirs_text rs))"
    using 2 by (intro parsExec_command) (simp_all add: starts_token_def kind_def)
  moreover have "peak (pre @ words_text ws @ redirs_text rs) (length (pre @ words_text ws @ redirs_text rs)) = 0"
    using peak_app [of "[]" "pre @ words_text ws @ redirs_text rs"] by (simp add: starts_token_def kind_def)
  ultimately show ?case by (subst parsePipe.simps) (simp add: add.assoc)
next
  case (3 ws rs c cs)
  let ?buf = "pre @ pipe_text ((ws, rs) # c # cs)" and ?p = "pre @ words_text ws @ redirs_text rs" and ?r = "pipe_text (c # cs)"
  have st: "starts_token ?r" using 3(2) by (intro starts_pipe) simp_all
  have buf: "?buf = pre @ words_text ws @ redirs_text rs @ (124 # 32 # ?r)" "?buf = ?p @ [124] @ [32] @ ?r" "?buf = (?p @ [124, 32]) @ ?r"
    by simp_all
  have e: "parsExec ?buf (length pre) = Ok (command_node (length pre) (ws, rs), length ?p)"
    unfolding buf(1) using 3(2) by (subst parsExec_command) (simp_all add: starts_token_def kind_def)
  have pk: "peak ?buf (length ?p) = 124" unfolding buf(2) by (subst peak_app) (simp_all add: starts_token_def kind_def)
  have g: "gettoken ?buf (length ?p) = (124, length ?p, length ?p + 1, length (?p @ [124, 32]))"
    unfolding buf(2) by (subst gettoken_app) (simp_all add: st solid_def blanks_def kind_def)
  have "parsePipe ?buf (length (?p @ [124, 32])) = Ok (pipe_node (length (?p @ [124, 32])) (c # cs))"
    unfolding buf(3) by (rule 3(1)) (use 3(2) in simp_all)
  then show ?case unfolding parsePipe.simps [of ?buf "length pre"] e outcome.case prod.case pk g by (simp add: add.assoc)
qed simp

section \<open>The strings after \<open>printTree\<close>\<close>

fun words :: "node \<Rightarrow> (nat \<times> nat) list" where
  "words (ExecN args) = args"
| "words (RedirN fd mode c f e) = (f, e) # words c"
| "words (PipeN l r) = words l @ words r"

definition put_nuls :: "(nat \<times> nat) list \<Rightarrow> u8 list \<Rightarrow> u8 list" where
  "put_nuls ps buf = fold (\<lambda>(_, e) buf. buf[e := 0]) ps buf"

lemma printTree_buf: "snd (printTree n buf) = put_nuls (words n) buf"
proof -
  have "parsExecNullTerminate ps buf = put_nuls ps buf" for ps buf
    by (induction ps buf rule: parsExecNullTerminate.induct) (simp_all add: put_nuls_def)
  then show ?thesis
    by (induction n arbitrary: buf) (auto simp: put_nuls_def Let_def split_beta)
qed

lemma put_nuls_nth:
  "length (put_nuls ps buf) = length buf"
  "i < length buf \<Longrightarrow> put_nuls ps buf ! i = (if i \<in> snd ` set ps then 0 else buf ! i)"
proof -
  show l: "length (put_nuls ps buf) = length buf" for ps buf
    unfolding put_nuls_def by (induction ps arbitrary: buf) auto
  show "i < length buf \<Longrightarrow> put_nuls ps buf ! i = (if i \<in> snd ` set ps then 0 else buf ! i)"
    by (induction ps arbitrary: buf) (auto simp: put_nuls_def nth_list_update split: prod.splits)
qed

definition word_at :: "u8 list \<Rightarrow> nat \<times> nat \<Rightarrow> bool" where
  "word_at buf = (\<lambda>(p, e). p \<le> e \<and> e < length buf \<and> isspace (buf ! e) \<and> (\<forall>i. p \<le> i \<longrightarrow> i < e \<longrightarrow> \<not> isspace (buf ! i) \<and> buf ! i \<noteq> 0))"

lemma string_at_word:
  assumes "(p, e) \<in> set ps" "\<forall>x\<in>set ps. word_at buf x"
  shows "string_at (put_nuls ps buf) p = take (e - p) (drop p buf)"
proof -
  let ?b = "put_nuls ps buf"
  have w: "p \<le> e" "e < length buf" "\<And>i. p \<le> i \<Longrightarrow> i < e \<Longrightarrow> \<not> isspace (buf ! i) \<and> buf ! i \<noteq> 0"
    using assms by (auto simp: word_at_def)
  have blank: "isspace (buf ! i)" if "i \<in> snd ` set ps" for i using that assms(2) by (auto simp: word_at_def)
  have keep: "?b ! i = buf ! i" if "p \<le> i" "i < e" for i
    using that w blank put_nuls_nth(2) [of i buf ps] by force
  have "e \<in> snd ` set ps" using assms(1) by force
  then have end_: "?b ! e = 0" using put_nuls_nth(2) [OF w(2)] by simp
  have "drop p ?b = take (e - p) (drop p ?b) @ 0 # drop (Suc (e - p)) (drop p ?b)"
    using w(1,2) end_ id_take_nth_drop [of "e - p" "drop p ?b"] by (simp add: put_nuls_nth(1))
  moreover have "take (e - p) (drop p ?b) = take (e - p) (drop p buf)"
    using w keep by (intro nth_equalityI) (simp_all add: put_nuls_nth(1))
  moreover have "\<forall>c\<in>set (take (e - p) (drop p buf)). c \<noteq> 0"
    using w(2,3) by (auto simp: in_set_conv_nth)
  ultimately show ?thesis unfolding string_at_def by (simp add: takeWhile_append2)
qed

text \<open>A tree with the strings in place of their positions.\<close>

datatype ast = AExec "u8 list list" | ARedir int int ast "u8 list" | APipe ast ast

fun read_tree :: "(nat \<times> nat \<Rightarrow> u8 list) \<Rightarrow> node \<Rightarrow> ast" where
  "read_tree S (ExecN args) = AExec (map S args)"
| "read_tree S (RedirN fd mode c f e) = ARedir fd mode (read_tree S c) (S (f, e))"
| "read_tree S (PipeN l r) = APipe (read_tree S l) (read_tree S r)"

lemma read_tree_cong: "(\<And>x. x \<in> set (words n) \<Longrightarrow> S x = T x) \<Longrightarrow> read_tree S n = read_tree T n"
  by (induction n) auto

fun command_ast :: "command \<Rightarrow> ast" where
  "command_ast (ws, rs) = foldr (\<lambda>(k, b, w, c) t. ARedir (rop_fd k) (rop_mode k) t w) rs (AExec (map fst ws))"

fun pipe_ast :: "command list \<Rightarrow> ast" where
  "pipe_ast [] = AExec []"
| "pipe_ast [c] = command_ast c"
| "pipe_ast (c # d # cs) = APipe (command_ast c) (pipe_ast (d # cs))"

definition cut :: "u8 list \<Rightarrow> nat \<times> nat \<Rightarrow> u8 list" where
  "cut buf = (\<lambda>(p, e). take (e - p) (drop p buf))"

lemma plain_word:
  assumes "plain (w, b)"
  shows "word_at (pre @ w @ b @ r) (length pre, length pre + length w)" "cut (pre @ w @ b @ r) (length pre, length pre + length w) = w"
proof -
  obtain c b' where b: "b = c # b'" "isspace c" using assms by (cases b) (auto simp: plain_def blanks_def)
  have "\<not> isspace (w ! i) \<and> w ! i \<noteq> 0" if "i < length w" for i
  proof -
    have "w ! i \<in> set w" using that by simp
    then show ?thesis using assms by (auto simp: plain_def solid_def)
  qed
  moreover have "(pre @ w @ b @ r) ! i = w ! (i - length pre)" "i - length pre < length w" if "length pre \<le> i" "i < length pre + length w" for i
    using that by (auto simp: nth_append)
  ultimately have "\<not> isspace ((pre @ w @ b @ r) ! i) \<and> (pre @ w @ b @ r) ! i \<noteq> 0" if "length pre \<le> i" "i < length pre + length w" for i
    using that by simp
  then show "word_at (pre @ w @ b @ r) (length pre, length pre + length w)"
    using b by (simp add: word_at_def nth_append)
  show "cut (pre @ w @ b @ r) (length pre, length pre + length w) = w" by (simp add: cut_def)
qed

lemma args_read:
  assumes "\<forall>w\<in>set ws. plain w"
  shows "(\<forall>x\<in>set (args_pos (length pre) ws). word_at (pre @ words_text ws @ r) x)
    \<and> map (cut (pre @ words_text ws @ r)) (args_pos (length pre) ws) = map fst ws"
  using assms
proof (induction ws arbitrary: pre)
  case (Cons x ws)
  obtain w b where x: "x = (w, b)" by fastforce
  then show ?case using Cons.IH [of "pre @ w @ b"] Cons.prems plain_word [of w b pre "words_text ws @ r"]
    by (simp add: words_text_def add.assoc)
qed simp

lemma redirs_read:
  assumes "\<forall>(k, b, w)\<in>set rs. blanks b \<and> plain w" "\<forall>x\<in>set (words n). word_at (pre @ redirs_text rs @ r) x"
    and "read_tree (cut (pre @ redirs_text rs @ r)) n = t"
  shows "(\<forall>x\<in>set (words (redirs_node (length pre) rs n)). word_at (pre @ redirs_text rs @ r) x)
    \<and> read_tree (cut (pre @ redirs_text rs @ r)) (redirs_node (length pre) rs n) = foldr (\<lambda>(k, b, w, c) t. ARedir (rop_fd k) (rop_mode k) t w) rs t"
  using assms
proof (induction rs arbitrary: pre)
  case (Cons x rs)
  obtain k b w c where x: "x = (k, b, w, c)" by (metis prod_cases4)
  have p: "plain (w, c)" using Cons.prems(1) x by simp
  have e: "pre @ redirs_text (x # rs) @ r = (pre @ rop_text k @ b @ w @ c) @ redirs_text rs @ r" by (simp add: x redirs_text_def)
  show ?case using Cons.IH [of "pre @ rop_text k @ b @ w @ c"] Cons.prems plain_word [OF p, of "pre @ rop_text k @ b" "redirs_text rs @ r"]
    unfolding e by (simp add: x Let_def add.assoc)
qed simp

lemma command_read:
  assumes "command_ok (ws, rs)"
  shows "(\<forall>x\<in>set (words (command_node (length pre) (ws, rs))). word_at (pre @ words_text ws @ redirs_text rs @ r) x)
    \<and> read_tree (cut (pre @ words_text ws @ redirs_text rs @ r)) (command_node (length pre) (ws, rs)) = command_ast (ws, rs)"
proof -
  have ok: "\<forall>w\<in>set ws. plain w" "\<forall>(k, b, w)\<in>set rs. blanks b \<and> plain w" using assms by (simp_all add: command_ok_def)
  show ?thesis
    using redirs_read [OF ok(2), of "ExecN (args_pos (length pre) ws)" "pre @ words_text ws" r "AExec (map fst ws)"]
      args_read [OF ok(1), of pre "redirs_text rs @ r"] by simp
qed

lemma pipe_read:
  assumes "\<forall>c\<in>set cs. command_ok c" "cs \<noteq> []"
  shows "(\<forall>x\<in>set (words (pipe_node (length pre) cs)). word_at (pre @ pipe_text cs) x)
    \<and> read_tree (cut (pre @ pipe_text cs)) (pipe_node (length pre) cs) = pipe_ast cs"
  using assms
proof (induction cs arbitrary: pre rule: pipe_text.induct)
  case (2 ws rs)
  then show ?case using command_read [of ws rs pre "[]"] by simp
next
  case (3 ws rs c cs)
  let ?p = "pre @ words_text ws @ redirs_text rs @ [124, 32]"
  have "(\<forall>x\<in>set (words (pipe_node (length ?p) (c # cs))). word_at (?p @ pipe_text (c # cs)) x)
      \<and> read_tree (cut (?p @ pipe_text (c # cs))) (pipe_node (length ?p) (c # cs)) = pipe_ast (c # cs)"
    by (rule 3(1)) (use 3(2) in simp_all)
  moreover have "command_ok (ws, rs)" using 3(2) by simp
  ultimately show ?case using command_read [of ws rs pre "124 # 32 # pipe_text (c # cs)"] by (auto simp: add.assoc)
qed simp

section \<open>Properties\<close>

text \<open>
  C26: The parser of \<open>mysh\<close> inverts the syntax of pipelines. A line that writes a pipeline of commands, each of one
  to nine words followed by redirections, with white space after every word and operator and no operator character inside a
  word (neither \<open>|\<close>, \<open><\<close>, \<open>>\<close> nor the unimplemented \<open>;\<close>, \<open>&\<close>, parentheses), is parsed, and the tree,
  read through the strings that \<open>printTree\<close> has terminated in the buffer, is exactly that pipeline: every
  argument, file name, descriptor and open mode is the one written.
\<close>

theorem parsePipe_roundtrip:
  assumes "\<forall>c\<in>set cs. command_ok c" "cs \<noteq> []"
  shows "\<exists>n. parsePipe (pipe_text cs) 0 = Ok n
    \<and> read_tree (\<lambda>(p, e). string_at (snd (printTree n (pipe_text cs))) p) n = pipe_ast cs"
proof -
  let ?b = "pipe_text cs" and ?n = "pipe_node 0 cs"
  have w: "\<forall>x\<in>set (words ?n). word_at ?b x" "read_tree (cut ?b) ?n = pipe_ast cs" using pipe_read [OF assms, of "[]"] by simp_all
  have "string_at (put_nuls (words ?n) ?b) p = cut ?b (p, e)" if "(p, e) \<in> set (words ?n)" for p e
    using string_at_word [OF that w(1)] by (simp add: cut_def)
  then have "read_tree (\<lambda>(p, e). string_at (snd (printTree ?n ?b)) p) ?n = pipe_ast cs"
    unfolding w(2) [symmetric] printTree_buf by (intro read_tree_cong) auto
  moreover have "parsePipe ?b 0 = Ok ?n" using parsePipe_pipe [OF assms, of "[]"] by simp
  ultimately show ?thesis by blast
qed

text \<open>\<open>ls -l > f | wc\<close> with its newline.\<close>

theorem parsePipe_roundtrip_witness:
  "\<exists>n. parsePipe [108, 115, 32, 45, 108, 32, 62, 32, 102, 32, 124, 32, 119, 99, 10] 0 = Ok n
    \<and> read_tree (\<lambda>(p, e). string_at (snd (printTree n [108, 115, 32, 45, 108, 32, 62, 32, 102, 32, 124, 32, 119, 99, 10])) p) n
      = APipe (ARedir 1 0x241 (AExec [[108, 115], [45, 108]]) [102]) (AExec [[119, 99]])"
proof -
  let ?cs = "[([([108, 115], [32]), ([45, 108], [32])], [(ROut, [32], [102], [32])]), ([([119, 99], [10])], [])] :: command list"
  have "\<forall>c\<in>set ?cs. command_ok c" by (simp add: command_ok_def plain_def solid_def blanks_def MAXARGS_def isspace_def)
  from parsePipe_roundtrip [OF this] show ?thesis by (simp add: words_text_def redirs_text_def)
qed

text \<open>
  Ten or more words overrun the argument array. \<open>parsExec\<close> does not bound its counter: on every line of at least
  \<open>MAXARGS\<close> words, however separated, it stores past the end of \<open>argv\<close> and \<open>eargv\<close>.
\<close>

theorem parsePipe_overruns:
  assumes "\<forall>w\<in>set ws. plain w" "MAXARGS \<le> length ws"
  shows "parsePipe (words_text ws) 0 = Overrun"
proof -
  have "parsExec_loop ([] @ words_text ws @ []) [] (length ([] :: u8 list)) = Overrun"
    using assms by (subst parsExec_loop_words) (simp_all add: starts_token_def kind_def)
  then have "parsExec (words_text ws) 0 = Overrun" by (simp add: parsExec_def)
  then show ?thesis by (simp add: parsePipe.simps)
qed

theorem parsePipe_overruns_witness: "parsePipe (words_text (replicate 10 ([97], [32]))) 0 = Overrun"
  using parsePipe_overruns [of "replicate 10 ([97], [32])"] by (simp add: plain_def solid_def blanks_def MAXARGS_def isspace_def)

text \<open>A line that starts with white space yields an empty first argument: \<open>gettoken\<close> does not skip it, unlike \<open>peak\<close>.\<close>

lemma leading_blank: "parsePipe [32, 108, 115, 10] 0 = Ok (ExecN [(0, 0), (1, 3)])"
  by code_simp

end
