(* ===== verification/Umalloc.thy ===== *)
theory Umalloc
  imports Prelude
begin

text \<open>
  The memory allocator of the user library, \<^verbatim>\<open>user/umalloc.c\<close>. A \<open>Header *\<close> is the number of its
  16-byte unit (0 is the null pointer): every header lies on such a unit, because \<open>sbrk\<close> grows by whole
  units from a page boundary, so \<open>p + n\<close> of C is \<open>p + n\<close> here. The fields \<open>s.ptr\<close> and \<open>s.size\<close> of the header at
  each unit are two functions; \<open>s.size\<close> is a \<open>uint\<close> and its additions wrap. The loops over the free list end
  only if the list is in order; they are partial functions. A call that does not return, because its loop does not end
  or because a store faults and the kernel kills the process, is \<open>None\<close>. The store that can fault is the one of \<open>morecore\<close> at the
  old break; every other header the code touches belongs to the free list or to a block handed out, which lie below the
  break (\<open>uinv\<close>).
\<close>

section \<open>State\<close>

record uheap =
  hptr :: "nat \<Rightarrow> nat"
  hsize :: "nat \<Rightarrow> nat"
  ubase :: nat
  freep :: nat
  brk :: nat
  sbrk_plan :: "bool list"

definition set_ptr :: "nat \<Rightarrow> nat \<Rightarrow> uheap \<Rightarrow> uheap" where
  "set_ptr p q s = s\<lparr>hptr := (hptr s)(p := q)\<rparr>"

definition set_size :: "nat \<Rightarrow> nat \<Rightarrow> uheap \<Rightarrow> uheap" where
  "set_size p n s = s\<lparr>hsize := (hsize s)(p := n)\<rparr>"

text \<open>
  \<open>sbrk\<close> with its argument in bytes, as \<open>sys_sbrk\<close> and \<open>growproc\<close> of the kernel answer it: the old break, or
  failure, which the plan decides for each call (without an entry it succeeds). A negative argument shrinks the
  process, or does nothing when the break would fall below 0 (\<open>uvmdealloc\<close> then sees a larger size).
\<close>

definition sbrk :: "int \<Rightarrow> uheap \<Rightarrow> nat option \<times> uheap" where
  "sbrk n s =
     (case sbrk_plan s of
        False # pl \<Rightarrow> (None, s\<lparr>sbrk_plan := pl\<rparr>)
      | pl \<Rightarrow> (Some (brk s),
          s\<lparr>sbrk_plan := tl pl, brk := (if int (16 * brk s) + n < 0 then brk s else nat ((int (16 * brk s) + n) div 16))\<rparr>))"

section \<open>free\<close>

partial_function (option) free_find :: "uheap \<Rightarrow> nat \<Rightarrow> nat \<Rightarrow> nat option" where
  "free_find s bp p =
     (if bp > p \<and> bp < hptr s p then Some p
      else if p \<ge> hptr s p \<and> (bp > p \<or> bp < hptr s p) then Some p
      else free_find s bp (hptr s p))"

definition join_next :: "nat \<Rightarrow> nat \<Rightarrow> uheap \<Rightarrow> uheap" where
  "join_next p bp s =
     (if bp + hsize s bp = hptr s p
      then set_ptr bp (hptr s (hptr s p)) (set_size bp ((hsize s bp + hsize s (hptr s p)) mod 2 ^ 32) s)
      else set_ptr bp (hptr s p) s)"

definition join_prev :: "nat \<Rightarrow> nat \<Rightarrow> uheap \<Rightarrow> uheap" where
  "join_prev p bp s =
     (if p + hsize s p = bp
      then set_ptr p (hptr s bp) (set_size p ((hsize s p + hsize s bp) mod 2 ^ 32) s)
      else set_ptr p bp s)"

definition free :: "nat \<Rightarrow> uheap \<Rightarrow> uheap option" where
  "free ap s =
     (let bp = ap - 1 in
      case free_find s bp (freep s) of
        None \<Rightarrow> None
      | Some p \<Rightarrow> Some ((join_prev p bp (join_next p bp s))\<lparr>freep := p\<rparr>))"

section \<open>malloc\<close>

text \<open>The argument of \<open>sbrk\<close> is an \<open>int\<close>: the product is cut to 32 bits. The result 0 is the null pointer.\<close>

text \<open>
  The pages of a process end at the break rounded up to a page, 256 units; \<open>vmfault\<close> maps nothing above, and the
  process is killed.
\<close>

definition mapped :: "nat \<Rightarrow> uheap \<Rightarrow> bool" where
  "mapped p s \<longleftrightarrow> p < 256 * ((brk s + 255) div 256)"

definition morecore :: "nat \<Rightarrow> uheap \<Rightarrow> (nat \<times> uheap) option" where
  "morecore nu s =
     (let nu = (if nu < 4096 then 4096 else nu) in
      case sbrk (sint (word_of_nat (nu * 16) :: u32)) s of
        (None, s) \<Rightarrow> Some (0, s)
      | (Some hp, s) \<Rightarrow>
          if \<not> mapped hp s then None
          else (case free (hp + 1) (set_size hp nu s) of
             None \<Rightarrow> None
           | Some s \<Rightarrow> Some (freep s, s)))"

partial_function (option) malloc_loop :: "nat \<Rightarrow> uheap \<Rightarrow> nat \<Rightarrow> nat \<Rightarrow> (nat \<times> uheap) option" where
  "malloc_loop nunits s prevp p =
     (if hsize s p \<ge> nunits then
        (if hsize s p = nunits then Some (p + 1, (set_ptr prevp (hptr s p) s)\<lparr>freep := prevp\<rparr>)
         else let s = set_size p (hsize s p - nunits) s; p = p + hsize s p
           in Some (p + 1, (set_size p nunits s)\<lparr>freep := prevp\<rparr>))
      else if p = freep s then
        (case morecore nunits s of
           None \<Rightarrow> None
         | Some (p, s) \<Rightarrow> if p = 0 then Some (0, s) else malloc_loop nunits s p (hptr s p))
      else malloc_loop nunits s p (hptr s p))"

definition nunits_of :: "nat \<Rightarrow> nat" where
  "nunits_of nbytes = (nbytes + 16 - 1) div 16 + 1"

definition malloc :: "nat \<Rightarrow> uheap \<Rightarrow> (nat \<times> uheap) option" where
  "malloc nbytes s =
     (let nunits = nunits_of nbytes;
          s = (if freep s = 0
               then set_size (ubase s) 0 (set_ptr (ubase s) (ubase s) s)\<lparr>freep := ubase s\<rparr>
               else s);
          prevp = freep s
      in malloc_loop nunits s prevp (hptr s prevp))"

section \<open>The free list\<close>

fun path :: "(nat \<Rightarrow> nat) \<Rightarrow> nat \<Rightarrow> nat list \<Rightarrow> nat \<Rightarrow> bool" where
  "path f x [] y = (x = y)"
| "path f x (a # as) y = (a = x \<and> path f (f a) as y)"

lemma path_app [simp]: "path f x (as @ bs) y \<longleftrightarrow> (\<exists>z. path f x as z \<and> path f z bs y)"
  by (induction as arbitrary: x) auto

lemma path_upd [simp]: "u \<notin> set as \<Longrightarrow> path (f(u := v)) x as y = path f x as y"
  by (induction as arbitrary: x) auto

text \<open>
  The free list as a list of blocks, a block being its first unit and its number of units. In order, it
  starts with \<open>base\<close>, every block ends before the next one starts with a gap between (neighbours have been
  joined), and all blocks end below the break.
\<close>

definition before :: "nat \<times> nat \<Rightarrow> nat \<times> nat \<Rightarrow> bool" where
  "before x y \<longleftrightarrow> fst x + snd x < fst y"

definition in_order :: "nat \<Rightarrow> nat \<Rightarrow> (nat \<times> nat) list \<Rightarrow> bool" where
  "in_order base lim bs \<longleftrightarrow> bs \<noteq> [] \<and> hd bs = (base, 0) \<and> sorted_wrt before bs \<and> (\<forall>x\<in>set (tl bs). 0 < snd x \<and> fst x + snd x \<le> lim)"

definition chain :: "uheap \<Rightarrow> (nat \<times> nat) list \<Rightarrow> bool" where
  "chain s bs \<longleftrightarrow> path (hptr s) (ubase s) (map fst bs) (ubase s) \<and> (\<forall>x\<in>set bs. hsize s (fst x) = snd x)"

fun span :: "nat \<times> nat \<Rightarrow> nat set" where
  "span (a, n) = {a..<a + n}"

definition units :: "(nat \<times> nat) list \<Rightarrow> nat set" where
  "units bs = (\<Union>x\<in>set bs. span x)"

text \<open>Joining a new block to what follows it, and to the block before it.\<close>

fun cons_block :: "nat \<times> nat \<Rightarrow> (nat \<times> nat) list \<Rightarrow> (nat \<times> nat) list" where
  "cons_block (a, n) [] = [(a, n)]"
| "cons_block (a, n) ((q, m) # vs) = (if a + n = q then (a, n + m) # vs else (a, n) # (q, m) # vs)"

lemma units_simps [simp]: "units [] = {}" "units (x # bs) = span x \<union> units bs" "units (us @ vs) = units us \<union> units vs"
  by (auto simp: units_def)

lemma span_join: "span (a, n) \<union> span (a + n, m) = span (a, n + m)"
  by auto

lemma units_cons_block [simp]: "units (cons_block x vs) = span x \<union> units vs"
proof (cases "(x, vs)" rule: cons_block.cases)
  case (2 a n q m ws)
  then show ?thesis using span_join [of a n m] by (cases "a + n = q") (simp_all add: Un_assoc [symmetric] del: span.simps)
qed simp

lemma cons_block_ordered:
  assumes "sorted_wrt before vs" "\<forall>x\<in>set vs. a + n \<le> fst x"
  obtains n' ws where "cons_block (a, n) vs = (a, n') # ws" "sorted_wrt before ((a, n') # ws)" "set ws \<subseteq> set vs" "n \<le> n'"
proof (cases vs)
  case Nil
  then show ?thesis using that [of n "[]"] by simp
next
  case (Cons y ws)
  obtain q m where y: "y = (q, m)" by fastforce
  have ws: "\<forall>x\<in>set ws. q + m < fst x" "sorted_wrt before ws" "a + n \<le> q" using assms Cons y by (auto simp: before_def)
  show ?thesis
  proof (cases "a + n = q")
    case True
    have "sorted_wrt before ((a, n + m) # ws)" using ws True by (auto simp: before_def)
    then show ?thesis using True Cons y that [of "n + m" ws] by auto
  next
    case False
    then have "sorted_wrt before ((a, n) # vs)" using ws assms Cons y by (auto simp: before_def)
    then show ?thesis using False Cons y that [of n vs] by auto
  qed
qed

lemma join_ordered:
  assumes "sorted_wrt before (us @ (p, k) # vs)" "p + k \<le> a" "0 < n" "\<forall>x\<in>set vs. a + n \<le> fst x \<and> 0 < snd x"
  shows "sorted_wrt before (us @ (if p + k = a then (p, k + snd (hd (cons_block (a, n) vs))) # tl (cons_block (a, n) vs) else (p, k) # cons_block (a, n) vs))"
proof -
  have "sorted_wrt before vs" "\<forall>x\<in>set vs. a + n \<le> fst x" using assms by (auto simp: sorted_wrt_append)
  then obtain n' ws where c: "cons_block (a, n) vs = (a, n') # ws" and o: "sorted_wrt before ((a, n') # ws)" "set ws \<subseteq> set vs"
    using cons_block_ordered by metis
  have "\<forall>x\<in>set us. before x (p, k) \<and> (\<forall>y\<in>set ws. before x y)" "\<forall>y\<in>set ws. before (p, k) y" "sorted_wrt before us"
    using assms(1) o(2) by (auto simp: sorted_wrt_append)
  moreover have "before x (a, n')" if "before x (p, k)" for x using that assms(2) by (simp add: before_def)
  moreover have "\<forall>y\<in>set ws. a + n' < fst y" using o(1) by (simp add: before_def)
  ultimately show ?thesis using o(1) assms(2) unfolding c sorted_wrt_append
    by (cases "p + k = a") (simp_all add: before_def, auto)
qed

section \<open>Finding the place of a block\<close>

lemma in_order_split:
  assumes "in_order base lim bs" "base < a" "a \<notin> units bs"
  obtains us p k vs where "bs = us @ (p, k) # vs" "p + k \<le> a" "base \<le> p" "\<forall>x\<in>set us. fst x + snd x < p" "\<forall>x\<in>set vs. a < fst x"
proof -
  let ?P = "\<lambda>x. fst x < a"
  have s: "sorted_wrt before bs" "bs \<noteq> []" "hd bs = (base, 0)" using assms(1) by (auto simp: in_order_def)
  have t: "takeWhile ?P bs \<noteq> []" using s(2,3) assms(2) by (cases bs) auto
  then obtain us p k where up: "takeWhile ?P bs = us @ [(p, k)]" by (metis append_butlast_last_id surj_pair)
  define vs where "vs = dropWhile ?P bs"
  have bs: "bs = us @ (p, k) # vs" using up takeWhile_dropWhile_id [of ?P bs] unfolding vs_def by (metis append_Cons append_Nil append_assoc)
  have "(p, k) \<in> set (takeWhile ?P bs)" using up by simp
  then have "p < a" by (auto dest: set_takeWhileD)
  moreover have "a \<notin> {p..<p + k}" using assms(3) bs by (simp add: units_def)
  ultimately have "p + k \<le> a" by auto
  moreover have "\<forall>x\<in>set us. fst x + snd x < p" using s(1) bs by (auto simp: sorted_wrt_append before_def)
  moreover have "base \<le> p" using s bs by (cases us) (auto simp: before_def)
  moreover have "\<forall>x\<in>set vs. a < fst x"
  proof (cases vs)
    case (Cons y ws)
    then have "\<not> fst y < a" using hd_dropWhile [of ?P bs] unfolding vs_def by auto
    moreover have "a \<noteq> fst y"
    proof
      assume "a = fst y"
      moreover have "y \<in> set (tl bs)" using bs Cons by (cases us) auto
      then have "0 < snd y" using assms(1) by (auto simp: in_order_def)
      ultimately have "a \<in> span y" by (cases y) auto
      then show False using assms(3) bs Cons by (auto simp: units_def)
    qed
    moreover have "\<forall>x\<in>set ws. fst y < fst x" using s(1) bs Cons by (auto simp: sorted_wrt_append before_def)
    ultimately show ?thesis using Cons by auto
  qed simp
  ultimately show ?thesis using that bs by blast
qed

definition stops :: "uheap \<Rightarrow> nat \<Rightarrow> nat \<Rightarrow> bool" where
  "stops s bp p \<longleftrightarrow> bp > p \<and> bp < hptr s p \<or> p \<ge> hptr s p \<and> (bp > p \<or> bp < hptr s p)"

lemma free_find_step: "free_find s bp p = (if stops s bp p then Some p else free_find s bp (hptr s p))"
  by (subst free_find.simps) (auto simp: stops_def)

lemma free_find_path: "path (hptr s) x as y \<Longrightarrow> \<forall>a\<in>set as. \<not> stops s bp a \<Longrightarrow> free_find s bp x = free_find s bp y"
proof (induction as arbitrary: x)
  case (Cons a as)
  then show ?case using free_find_step [of s bp x] by auto
qed simp

text \<open>The node after each node of a path.\<close>

lemma path_next: "path f x (us @ a # vs) y \<Longrightarrow> f a = (case vs of [] \<Rightarrow> y | v # _ \<Rightarrow> v)"
  by (cases vs) auto

lemma free_find_place:
  assumes "path (hptr s) b (us @ p # vs) b" "sorted_wrt (<) (us @ p # vs)" "p < bp" "\<forall>x\<in>set vs. bp < x" "b < bp"
    and "b \<in> set (us @ [p])" "q \<in> set (us @ p # vs)"
  shows "free_find s bp q = Some p"
proof -
  have lt: "\<forall>x\<in>set us. x < p" "sorted_wrt (<) us" "sorted_wrt (<) vs" using assms(2) by (auto simp: sorted_wrt_append)
  have us: "\<not> stops s bp x" if "x \<in> set us" for x
  proof -
    obtain as cs where u: "us = as @ x # cs" using \<open>x \<in> set us\<close> by (meson split_list)
    have "hptr s x = (case cs @ p # vs of [] \<Rightarrow> b | v # _ \<Rightarrow> v)" using path_next [of _ _ as x "cs @ p # vs"] assms(1) u by simp
    then have "hptr s x \<le> p" "x < hptr s x" using assms(2) u by (cases cs; force simp: sorted_wrt_append)+
    then show ?thesis using assms(3) by (auto simp: stops_def)
  qed
  have vs: "\<not> stops s bp x" if "x \<in> set vs" for x
  proof -
    obtain as cs where u: "vs = as @ x # cs" using \<open>x \<in> set vs\<close> by (meson split_list)
    have "hptr s x = (case cs of [] \<Rightarrow> b | v # _ \<Rightarrow> v)" using path_next [of _ _ "us @ p # as" x cs] assms(1) u by simp
    moreover have "\<forall>v\<in>set cs. x < v" using lt(3) u by (auto simp: sorted_wrt_append)
    moreover have "bp < x" using assms(4) that by simp
    ultimately show ?thesis using assms(4,5) by (cases cs) (auto simp: stops_def)
  qed
  have "hptr s p = (case vs of [] \<Rightarrow> b | v # _ \<Rightarrow> v)" using path_next assms(1) by blast
  moreover have "b \<le> p" using lt(1) assms(6) by auto
  ultimately have "stops s bp p" using assms(3,4) by (cases vs) (auto simp: stops_def)
  then have p: "free_find s bp p = Some p" by (subst free_find_step) simp
  have pb: "path (hptr s) b us p" using assms(1) by auto
  then have b: "free_find s bp b = Some p" using free_find_path [OF pb] us p by simp
  consider "q \<in> set us" | "q = p" | "q \<in> set vs" using assms(7) by auto
  then show ?thesis
  proof cases
    case 1
    then obtain as cs where "us = as @ q # cs" by (meson split_list)
    then have "path (hptr s) q (q # cs) p" using pb by auto
    then show ?thesis using free_find_path [of s q "q # cs" p] us p \<open>us = as @ q # cs\<close> by simp
  next
    case 3
    then obtain as cs where "vs = as @ q # cs" by (meson split_list)
    then have "path (hptr s) q (q # cs) b" using assms(1) by auto
    then show ?thesis using free_find_path [of s q "q # cs" b] vs b \<open>vs = as @ q # cs\<close> by simp
  qed (simp add: p)
qed

section \<open>Freeing a block\<close>

lemma set_sel [simp]:
  "hptr (set_ptr p q s) = (hptr s)(p := q)" "hsize (set_ptr p q s) = hsize s" "ubase (set_ptr p q s) = ubase s"
  "freep (set_ptr p q s) = freep s" "brk (set_ptr p q s) = brk s" "sbrk_plan (set_ptr p q s) = sbrk_plan s"
  "hptr (set_size p n s) = hptr s" "hsize (set_size p n s) = (hsize s)(p := n)" "ubase (set_size p n s) = ubase s"
  "freep (set_size p n s) = freep s" "brk (set_size p n s) = brk s" "sbrk_plan (set_size p n s) = sbrk_plan s"
  by (simp_all add: set_ptr_def set_size_def)

lemma join_next_chain:
  assumes "path (hptr s) b (us @ p # map fst vs) b" "\<forall>x\<in>set vs. hsize s (fst x) = snd x" "hsize s a = n"
    and "a \<notin> set (us @ p # map fst vs)" "distinct (us @ p # map fst vs)" "a + n \<noteq> b" "b \<in> set (us @ [p])"
    and "\<forall>x\<in>set vs. n + snd x < 2 ^ 32" "cons_block (a, n) vs = (a, n') # ws" "t = join_next p a s"
  shows "path (hptr t) b us p" "path (hptr t) (hptr t a) (map fst ws) b" "hsize t = (hsize s)(a := n')"
    "hptr t p = hptr s p" "ubase t = ubase s" "brk t = brk s" "sbrk_plan t = sbrk_plan s"
proof -
  have p0: "path (hptr s) b us p" "path (hptr s) (hptr s p) (map fst vs) b" using assms(1) by auto
  have b: "b \<notin> fst ` set vs" using assms(5,7) by auto
  show "path (hptr t) b us p" using p0(1) assms(4,10) by (auto simp: join_next_def)
  show "hptr t p = hptr s p" using assms(4,10) by (auto simp: join_next_def)
  show "ubase t = ubase s" "brk t = brk s" "sbrk_plan t = sbrk_plan s" using assms(10) by (auto simp: join_next_def)
  have "path (hptr t) (hptr t a) (map fst ws) b \<and> hsize t = (hsize s)(a := n')"
  proof (cases vs)
    case Nil
    then have "hptr s p = b" "n' = n" "ws = []" using p0(2) assms(9) by auto
    then show ?thesis using assms(3,6,10) by (auto simp: join_next_def)
  next
    case (Cons y vs')
    obtain q m where y: "y = (q, m)" by fastforce
    have q: "hptr s p = q" "path (hptr s) (hptr s q) (map fst vs') b" using p0(2) Cons y by auto
    have a: "a \<notin> set (map fst vs')" "a \<noteq> q" using assms(4) Cons y by auto
    have m: "hsize s q = m" "n + m < 2 ^ 32" using assms(2,8) Cons y by auto
    show ?thesis
    proof (cases "a + n = q")
      case True
      then have c: "n' = n + m" "ws = vs'" using assms(9) Cons y by auto
      have "t = set_ptr a (hptr s q) (set_size a (n + m) s)"
        unfolding assms(10) join_next_def assms(3) q(1) if_P [OF True] m(1) mod_less [OF m(2)] by simp
      then show ?thesis using q(2) a c by simp
    next
      case False
      then have c: "n' = n" "ws = vs" using assms(9) Cons y by auto
      have "t = set_ptr a q s" unfolding assms(10) join_next_def assms(3) q(1) if_not_P [OF False] by simp
      then show ?thesis using q a c assms(3) Cons y by auto
    qed
  qed
  then show "path (hptr t) (hptr t a) (map fst ws) b" "hsize t = (hsize s)(a := n')" by auto
qed

lemma free_join_chain:
  assumes "chain s (us @ (p, k) # vs)" "hsize s a = n" "a \<notin> fst ` set (us @ (p, k) # vs)" "distinct (map fst (us @ (p, k) # vs))"
    and "a + n \<noteq> ubase s" "ubase s \<in> fst ` set (us @ [(p, k)])" "\<forall>x\<in>set vs. n + snd x < 2 ^ 32"
    and "cons_block (a, n) vs = (a, n') # ws" "set (map fst ws) \<subseteq> set (map fst vs)" "\<forall>x\<in>set ws. hsize s (fst x) = snd x"
    and "p + k = a \<longrightarrow> k + n' < 2 ^ 32" "t = join_prev p a (join_next p a s)"
  shows "chain t (us @ (if p + k = a then (p, k + n') # ws else (p, k) # (a, n') # ws))"
    "\<And>x. x \<noteq> p \<Longrightarrow> x \<noteq> a \<Longrightarrow> hsize t x = hsize s x" "ubase t = ubase s" "brk t = brk s" "sbrk_plan t = sbrk_plan s"
proof -
  define u where "u = join_next p a s"
  have pth: "path (hptr s) (ubase s) (map fst us @ p # map fst vs) (ubase s)" "hsize s p = k" "\<forall>x\<in>set us. hsize s (fst x) = snd x"
    "\<forall>x\<in>set vs. hsize s (fst x) = snd x" using assms(1) by (auto simp: chain_def)
  have a: "a \<notin> set (map fst us @ p # map fst vs)" "distinct (map fst us @ p # map fst vs)" "ubase s \<in> set (map fst us @ [p])"
    using assms(3,4,6) by auto
  note j = join_next_chain [OF pth(1,4) assms(2) a(1,2) assms(5) a(3) assms(7,8) u_def]
  have up: "hsize u p = k" "hsize u a = n'" "p \<noteq> a" using a(1) pth(2) by (auto simp: j(3))
  have t: "t = (if p + k = a then set_ptr p (hptr u a) (set_size p (k + n') u) else set_ptr p a u)"
    unfolding assms(12) u_def [symmetric] join_prev_def up using assms(11) by simp
  have ws: "p \<notin> set (map fst ws)" "a \<notin> set (map fst ws)" "p \<notin> set (map fst us)" "a \<notin> set (map fst us)" using assms(9) a(1,2) by auto
  show "ubase t = ubase s" "brk t = brk s" "sbrk_plan t = sbrk_plan s" using t j(5,6,7) by auto
  show "\<And>x. x \<noteq> p \<Longrightarrow> x \<noteq> a \<Longrightarrow> hsize t x = hsize s x" using t by (simp add: j(3))
  have "hsize t (fst x) = hsize s (fst x)" if "x \<in> set us \<union> set ws" for x
  proof -
    have "fst x \<in> set (map fst us) \<union> set (map fst ws)" using that by auto
    then have "fst x \<noteq> p" "fst x \<noteq> a" using ws by blast+
    then show ?thesis using t by (simp add: j(3))
  qed
  then have "\<forall>x\<in>set us. hsize t (fst x) = snd x" "\<forall>x\<in>set ws. hsize t (fst x) = snd x"
    using pth(3) assms(10) by simp_all
  moreover have "path (hptr t) (ubase s) (map fst us) p" using j(1) ws(3) t by auto
  moreover have "path (hptr t) (hptr u a) (map fst ws) (ubase s)" using j(2) ws(1) t by auto
  ultimately show "chain t (us @ (if p + k = a then (p, k + n') # ws else (p, k) # (a, n') # ws))"
    using t up j(5) by (auto simp: chain_def)
qed

text \<open>
  The invariant of the allocator, for its free blocks and the blocks \<open>A\<close> it has handed out: the blocks of
  \<open>A\<close> are pairwise disjoint and disjoint from the free ones, and their headers hold their sizes.
\<close>

definition live_ok :: "uheap \<Rightarrow> (nat \<times> nat) list \<Rightarrow> nat \<times> nat \<Rightarrow> bool" where
  "live_ok s bs x \<longleftrightarrow> hsize s (fst x) = snd x \<and> 0 < snd x \<and> ubase s < fst x \<and> fst x + snd x \<le> brk s \<and> span x \<inter> units bs = {}"

definition disjoint_blocks :: "(nat \<times> nat) set \<Rightarrow> bool" where
  "disjoint_blocks A \<longleftrightarrow> (\<forall>x\<in>A. \<forall>y\<in>A. x \<noteq> y \<longrightarrow> span x \<inter> span y = {})"

definition uinv :: "uheap \<Rightarrow> (nat \<times> nat) list \<Rightarrow> (nat \<times> nat) set \<Rightarrow> bool" where
  "uinv s bs A \<longleftrightarrow> in_order (ubase s) (brk s) bs \<and> chain s bs \<and> freep s \<in> fst ` set bs
     \<and> 0 < ubase s \<and> ubase s < brk s \<and> brk s < 2 ^ 32 \<and> (\<forall>x\<in>A. live_ok s bs x) \<and> disjoint_blocks A"

lemma in_order_lt: "in_order b l bs \<Longrightarrow> sorted_wrt (<) (map fst bs)"
  unfolding in_order_def sorted_wrt_map
  by (auto elim!: sorted_wrt_mono_rel [rotated] simp: before_def)

lemma in_order_base: "in_order b l bs \<Longrightarrow> x \<in> set bs \<Longrightarrow> x = (b, 0) \<or> b < fst x \<and> 0 < snd x \<and> fst x + snd x \<le> l"
  by (cases bs) (auto simp: in_order_def before_def)

lemma in_start: "x \<in> A \<Longrightarrow> live_ok s bs x \<Longrightarrow> fst x \<in> span x"
  by (cases x) (simp add: live_ok_def)

lemma live_not_free:
  assumes "in_order (ubase s) (brk s) bs" "live_ok s bs x"
  shows "fst x \<notin> fst ` set bs"
proof
  assume "fst x \<in> fst ` set bs"
  then obtain y where y: "y \<in> set bs" "fst y = fst x" by auto
  then have "0 < snd y" using in_order_base [OF assms(1) y(1)] assms(2) by (auto simp: live_ok_def)
  then have "fst x \<in> span y" using y(2) by (cases y) auto
  moreover have "fst x \<in> span x" using assms(2) by (cases x) (auto simp: live_ok_def)
  ultimately show False using assms(2) y(1) by (auto simp: live_ok_def units_def)
qed

lemma join_in_order:
  assumes "in_order base lim (us @ (p, k) # vs)" "p + k \<le> a" "0 < n" "base < a" "\<forall>x\<in>set vs. a + n \<le> fst x \<and> 0 < snd x"
    and "cons_block (a, n) vs = (a, n') # ws" "set ws \<subseteq> set vs" "a + n' \<le> lim" "n \<le> n'"
  shows "in_order base lim (us @ (if p + k = a then (p, k + n') # ws else (p, k) # (a, n') # ws))"
proof -
  have o: "sorted_wrt before (us @ (p, k) # vs)" "hd (us @ (p, k) # vs) = (base, 0)" "\<forall>x\<in>set (tl (us @ (p, k) # vs)). 0 < snd x \<and> fst x + snd x \<le> lim"
    using assms(1) by (auto simp: in_order_def)
  have srt: "sorted_wrt before (us @ (if p + k = a then (p, k + n') # ws else (p, k) # (a, n') # ws))"
    using join_ordered [OF o(1) assms(2,3,5)] unfolding assms(6) list.sel snd_conv .
  show ?thesis
  proof (cases us)
    case Nil
    then show ?thesis using o(2,3) srt assms(3,4,7,8,9) by (auto simp: in_order_def)
  next
    case (Cons y ys)
    then show ?thesis using o(2,3) srt assms(3,7,8,9) by (auto simp: in_order_def)
  qed
qed

lemma free_inv:
  assumes "uinv s bs A" "(a, n) \<in> A"
  shows "\<exists>t bs'. free (a + 1) s = Some t \<and> uinv t bs' (A - {(a, n)}) \<and> units bs' = units bs \<union> span (a, n)
    \<and> brk t = brk s \<and> sbrk_plan t = sbrk_plan s \<and> ubase t = ubase s"
proof -
  have io: "in_order (ubase s) (brk s) bs" "chain s bs" "freep s \<in> fst ` set bs" "brk s < 2 ^ 32" "0 < ubase s" "ubase s < brk s"
    and lv: "\<forall>x\<in>A. live_ok s bs x" "disjoint_blocks A" using assms(1) by (auto simp: uinv_def)
  have "live_ok s bs (a, n)" using lv(1) assms(2) by blast
  then have a: "hsize s a = n" "0 < n" "ubase s < a" "a + n \<le> brk s" "{a..<a + n} \<inter> units bs = {}" "live_ok s bs (a, n)"
    by (simp_all add: live_ok_def)
  then have "a \<notin> units bs" by (metis IntI add_0_right atLeastLessThan_iff empty_iff le_refl nat_add_left_cancel_less)
  then obtain us p k vs where bs: "bs = us @ (p, k) # vs" "p + k \<le> a" "ubase s \<le> p" "\<forall>x\<in>set us. fst x + snd x < p" "\<forall>x\<in>set vs. a < fst x"
    using in_order_split [OF io(1) a(3)] by metis
  have srt: "sorted_wrt (<) (map fst us @ p # map fst vs)" using in_order_lt [OF io(1)] bs(1) by simp
  then have dist: "distinct (map fst bs)" using bs(1) strict_sorted_iff [of "map fst bs"] by simp
  have na: "a \<notin> fst ` set bs" using live_not_free [OF io(1) a(6)] by simp
  then have "p < a" using bs(1,2) by (cases "p = a") auto
  have hd_: "bs \<noteq> []" "hd bs = (ubase s, 0)" "sorted_wrt before bs" using io(1) by (auto simp: in_order_def)
  have bb: "ubase s \<in> set (map fst us @ [p])" using hd_ bs(1) by (cases us) auto
  have ff: "free_find s a (freep s) = Some p"
    using io(2,3) srt bs \<open>p < a\<close> a(3) bb by (intro free_find_place [where us = "map fst us" and vs = "map fst vs"]) (auto simp: chain_def)
  have vs: "\<forall>x\<in>set vs. a + n \<le> fst x \<and> 0 < snd x \<and> fst x + snd x \<le> brk s"
  proof
    fix x assume x: "x \<in> set vs"
    then have "0 < snd x \<and> fst x + snd x \<le> brk s" using in_order_base [OF io(1), of x] bs a(3) by force
    moreover have "fst x \<in> span x" using calculation by (cases x) auto
    then have "fst x \<notin> {a..<a + n}" using a(5) x bs(1) by (auto simp: units_def)
    moreover have "a < fst x" using bs(5) x by simp
    ultimately show "a + n \<le> fst x \<and> 0 < snd x \<and> fst x + snd x \<le> brk s" by auto
  qed
  have "sorted_wrt before vs" using hd_(3) bs(1) by (auto simp: sorted_wrt_append)
  then obtain n' ws where c: "cons_block (a, n) vs = (a, n') # ws" "sorted_wrt before ((a, n') # ws)" "set ws \<subseteq> set vs" "n \<le> n'"
    using cons_block_ordered vs by metis
  define bs' where "bs' = us @ (if p + k = a then (p, k + n') # ws else (p, k) # (a, n') # ws)"
  have u: "units ((a, n') # ws) = {a..<a + n} \<union> units vs" using units_cons_block [of "(a, n)" vs] c(1) by simp
  have un: "a + n' \<le> brk s"
  proof -
    have "n' \<le> n \<or> (\<exists>x\<in>set vs. a + n = fst x \<and> n' = n + snd x)" using c(1) by (cases vs) (auto split: if_splits)
    then show ?thesis using a(4) vs by auto
  qed
  have wr: "\<forall>x\<in>set vs. n + snd x < 2 ^ 32" "p + k = a \<longrightarrow> k + n' < 2 ^ 32"
    using vs io(4) un by (fastforce, linarith)
  have ch: "chain s (us @ (p, k) # vs)" using io(2) bs(1) by simp
  have wsz: "\<forall>x\<in>set ws. hsize s (fst x) = snd x" using ch c(3) by (auto simp: chain_def)
  define t where "t = join_prev p a (join_next p a s)"
  have side: "a + n \<noteq> ubase s" "ubase s \<in> fst ` set (us @ [(p, k)])" "set (map fst ws) \<subseteq> set (map fst vs)"
    using a(3) bb c(3) by (simp_all add: image_mono)
  note j = free_join_chain [OF ch a(1) na [unfolded bs(1)] dist [unfolded bs(1)] side(1,2) wr(1) c(1) side(3) wsz wr(2) t_def]
  have jc: "chain t bs'" "\<And>x. x \<noteq> p \<Longrightarrow> x \<noteq> a \<Longrightarrow> hsize t x = hsize s x" "ubase t = ubase s" "brk t = brk s" "sbrk_plan t = sbrk_plan s"
    unfolding bs'_def by (fact j)+
  have un': "units bs' = units bs \<union> span (a, n)"
    using u span_join [of p k n'] bs(1) unfolding bs'_def by auto
  have ord: "in_order (ubase s) (brk s) bs'"
    unfolding bs'_def using join_in_order [OF io(1) [unfolded bs(1)] bs(2) a(2) a(3) _ c(1,3) un c(4)] vs by simp
  let ?t = "t\<lparr>freep := p\<rparr>"
  have run: "free (a + 1) s = Some ?t" by (simp add: free_def ff t_def)
  have "live_ok ?t bs' x" if "x \<in> A - {(a, n)}" for x
  proof -
    have x: "live_ok s bs x" "span x \<inter> span (a, n) = {}"
      using that lv(1) lv(2) [unfolded disjoint_blocks_def] assms(2) by blast+
    have "fst x \<noteq> p" using live_not_free [OF io(1) x(1)] bs(1) by auto
    moreover have "fst x \<in> span x" using in_start x(1) by blast
    then have "fst x \<noteq> a" using x(2) a(2) by auto
    ultimately have "hsize t (fst x) = hsize s (fst x)" by (rule jc(2))
    then show ?thesis using x jc(3,4) un' unfolding live_ok_def by (simp add: Int_Un_distrib)
  qed
  moreover have "disjoint_blocks (A - {(a, n)})" using lv(2) by (auto simp: disjoint_blocks_def)
  moreover have "chain ?t bs'" using jc(1) by (simp add: chain_def)
  moreover have "p \<in> fst ` set bs'" by (auto simp: bs'_def)
  ultimately have "uinv ?t bs' (A - {(a, n)})" using ord io jc(3,4) by (simp add: uinv_def)
  then show ?thesis using run un' jc(3-5) by (intro exI [of _ ?t] exI [of _ bs']) simp
qed

section \<open>More memory\<close>

lemma sbrk_pos: "nu * 16 < 2 ^ 31 \<Longrightarrow> sint (word_of_nat (nu * 16) :: u32) = int (nu * 16)"
  by (rule sint_nat)

lemma sbrk_grow:
  "(\<exists>pl. sbrk (int (nu * 16)) s = (None, s\<lparr>sbrk_plan := pl\<rparr>)) \<or> (\<exists>pl. sbrk (int (nu * 16)) s = (Some (brk s), s\<lparr>sbrk_plan := pl, brk := brk s + nu\<rparr>))"
proof -
  have b: "int (16 * brk s) + int (nu * 16) = int ((brk s + nu) * 16)" by simp
  have "nat (int ((brk s + nu) * 16) div 16) = brk s + nu" by simp
  then show ?thesis unfolding sbrk_def b by (auto split: list.splits bool.splits)
qed

lemma uinv_grow:
  assumes "uinv s bs A" "0 < nu" "brk s + nu < 2 ^ 32"
  shows "uinv (set_size (brk s) nu (s\<lparr>sbrk_plan := pl, brk := brk s + nu\<rparr>)) bs (insert (brk s, nu) A)" (is "uinv ?t _ _")
proof -
  have io: "in_order (ubase s) (brk s) bs" "chain s bs" "freep s \<in> fst ` set bs" "0 < ubase s" "ubase s < brk s"
    and lv: "\<forall>x\<in>A. live_ok s bs x" "disjoint_blocks A" using assms(1) by (auto simp: uinv_def)
  have lt: "fst x < brk s" if "x \<in> set bs" for x using in_order_base [OF io(1) that] io(5) by auto
  have la: "fst x < brk s \<and> (\<forall>y\<in>span x. y < brk s)" if "x \<in> A" for x using lv(1) that by (cases x) (auto simp: live_ok_def)
  have un: "y < brk s" if "y \<in> units bs" for y using that in_order_base [OF io(1)] io(5) by (fastforce simp: units_def)
  have "in_order (ubase s) (brk s + nu) bs" using io(1) by (auto simp: in_order_def)
  moreover have "\<forall>x\<in>set bs. fst x \<noteq> brk s" using lt less_irrefl by metis
  then have "chain ?t bs" using io(2) by (simp add: chain_def)
  moreover have "live_ok ?t bs x" if "x \<in> insert (brk s, nu) A" for x
  proof (cases "x = (brk s, nu)")
    case True
    have "{brk s..<brk s + nu} \<inter> units bs = {}" using un by fastforce
    then show ?thesis using True assms(2) io(5) by (simp add: live_ok_def)
  next
    case False
    then have "x \<in> A" using that by simp
    moreover have "fst x \<noteq> brk s" using la [OF \<open>x \<in> A\<close>] by simp
    ultimately show ?thesis using lv(1) by (auto simp: live_ok_def)
  qed
  moreover have "disjoint_blocks (insert (brk s, nu) A)"
  proof -
    have "span x \<inter> {brk s..<brk s + nu} = {}" if "x \<in> A" for x using la [OF that] by fastforce
    then show ?thesis using lv(2) unfolding disjoint_blocks_def by (auto simp: Int_commute)
  qed
  ultimately show ?thesis using io(3-5) assms(3) by (simp add: uinv_def)
qed

lemma mapped_below: "p < brk s \<Longrightarrow> mapped p s"
  unfolding mapped_def by (simp add: dividend_less_times_div)


lemma morecore_inv:
  assumes "uinv s bs A" "0 < n" "max 4096 n * 16 < 2 ^ 31" "brk s + max 4096 n < 2 ^ 32"
  shows "(\<exists>pl. morecore n s = Some (0, s\<lparr>sbrk_plan := pl\<rparr>))
    \<or> (\<exists>t bs'. morecore n s = Some (freep t, t) \<and> uinv t bs' A \<and> units bs' = units bs \<union> {brk s..<brk s + max 4096 n} \<and> ubase t = ubase s)"
proof -
  let ?nu = "max 4096 n"
  have nu: "(if n < 4096 then 4096 else n) = ?nu" by simp
  show ?thesis
  proof (cases "\<exists>pl. sbrk (int (?nu * 16)) s = (None, s\<lparr>sbrk_plan := pl\<rparr>)")
    case True
    then show ?thesis unfolding morecore_def nu Let_def sbrk_pos [OF assms(3)] by auto
  next
    case False
    then obtain pl where b: "sbrk (int (?nu * 16)) s = (Some (brk s), s\<lparr>sbrk_plan := pl, brk := brk s + ?nu\<rparr>)"
      using sbrk_grow by blast
    let ?t = "set_size (brk s) ?nu (s\<lparr>sbrk_plan := pl, brk := brk s + ?nu\<rparr>)"
    have i: "uinv ?t bs (insert (brk s, ?nu) A)" by (rule uinv_grow [OF assms(1) _ assms(4)]) simp
    have "(brk s, ?nu) \<notin> A" using assms(1) by (auto simp: uinv_def live_ok_def)
    then have A: "insert (brk s, ?nu) A - {(brk s, ?nu)} = A" by simp
    obtain t bs' where t: "free (brk s + 1) ?t = Some t" "uinv t bs' A" "units bs' = units bs \<union> span (brk s, ?nu)" "ubase t = ubase s"
      using free_inv [OF i insertI1] unfolding A by auto
    have "mapped (brk s) (s\<lparr>sbrk_plan := pl, brk := brk s + ?nu\<rparr>)" by (rule mapped_below) simp
    then have "morecore n s = Some (freep t, t)"
      unfolding morecore_def nu Let_def sbrk_pos [OF assms(3)] b prod.case option.case t(1) by simp
    then show ?thesis using t by auto
  qed
qed

section \<open>Taking a block\<close>

lemma malloc_loop_walk:
  assumes "path (hptr s) p ns y" "\<forall>x\<in>set ns. hsize s x < n \<and> x \<noteq> freep s" "hptr s prevp = p"
  shows "\<exists>q. malloc_loop n s prevp p = malloc_loop n s q y \<and> hptr s q = y \<and> (q = prevp \<or> q \<in> set ns)"
  using assms
proof (induction ns arbitrary: p prevp)
  case (Cons x ns)
  have x: "x = p" "path (hptr s) (hptr s p) ns y" "hsize s p < n" "p \<noteq> freep s" using Cons.prems by auto
  then have "malloc_loop n s prevp p = malloc_loop n s p (hptr s p)" by (subst malloc_loop.simps) simp
  moreover obtain q where "malloc_loop n s p (hptr s p) = malloc_loop n s q y" "hptr s q = y" "q = p \<or> q \<in> set ns"
    using Cons.IH [OF x(2) _ refl] Cons.prems(2) by auto
  ultimately show ?case using x(1) by auto
qed auto

lemma chain_size: "chain s bs \<Longrightarrow> (x, m) \<in> set bs \<Longrightarrow> hsize s x = m"
  unfolding chain_def by force

lemma chain_pred:
  assumes "chain s bs" "(x, m) \<in> set bs" "distinct (map fst bs)" "x \<noteq> ubase s" "q \<in> fst ` set bs" "hptr s q = x"
  obtains us j vs where "bs = us @ (q, j) # (x, m) # vs"
proof -
  obtain j where "(q, j) \<in> set bs" using assms(5) by auto
  then obtain us vs where bs: "bs = us @ (q, j) # vs" by (meson split_list)
  have m: "map fst bs = map fst us @ q # map fst vs" by (simp add: bs)
  have "path (hptr s) (ubase s) (map fst us @ q # map fst vs) (ubase s)" using assms(1) unfolding chain_def m by (rule conjunct1)
  then have "hptr s q = (case map fst vs of [] \<Rightarrow> ubase s | v # _ \<Rightarrow> v)" by (rule path_next)
  then have c: "(case map fst vs of [] \<Rightarrow> ubase s | v # _ \<Rightarrow> v) = x" using assms(6) by (rule trans [OF sym])
  obtain m' ws where vs: "vs = (x, m') # ws"
  proof (cases vs)
    case Nil
    then show ?thesis using c assms(4) by simp
  next
    case (Cons v ws)
    then show ?thesis using c that [of "snd v" ws] by (cases v) simp
  qed
  have "(x, m') \<in> set bs" using bs vs by simp
  then have "m' = m" using chain_size [OF assms(1)] assms(2) by metis
  then show ?thesis using that bs vs by blast
qed

lemma take_block:
  assumes "uinv s bs A" "(x, m) \<in> set bs" "0 < n" "n \<le> m" "q \<in> fst ` set bs" "hptr s q = x"
  shows "\<exists>t bs' a. malloc_loop n s q x = Some (a + 1, t) \<and> uinv t bs' (insert (a, n) A) \<and> span (a, n) \<subseteq> units bs
    \<and> units bs' \<subseteq> units bs \<and> ubase t = ubase s"
proof -
  have io: "in_order (ubase s) (brk s) bs" "chain s bs" "freep s \<in> fst ` set bs" "brk s < 2 ^ 32" "0 < ubase s" "ubase s < brk s"
    and lv: "\<forall>x\<in>A. live_ok s bs x" "disjoint_blocks A" using assms(1) by (auto simp: uinv_def)
  have dist: "distinct (map fst bs)" using in_order_lt [OF io(1)] strict_sorted_iff by blast
  have xm: "hsize s x = m" "x \<noteq> ubase s" "ubase s < x" "x + m \<le> brk s" using chain_size [OF io(2) assms(2)] in_order_base [OF io(1) assms(2)] assms(3,4) by auto
  obtain us j vs where bs: "bs = us @ (q, j) # (x, m) # vs"
    using chain_pred [OF io(2) assms(2) dist xm(2) assms(5,6)] by blast
  have srt: "sorted_wrt before bs" "hd bs = (ubase s, 0)" "\<forall>x\<in>set (tl bs). 0 < snd x \<and> fst x + snd x \<le> brk s" using io(1) by (auto simp: in_order_def)
  define a where "a = x + (m - n)"
  define rest where "rest = (if m = n then vs else (x, m - n) # vs)"
  define t where "t = (if m = n then (set_ptr q (hptr s x) s)\<lparr>freep := q\<rparr> else (set_size a n (set_size x (m - n) s))\<lparr>freep := q\<rparr>)"
  have run: "malloc_loop n s q x = Some (a + 1, t)"
    using assms(4) xm(1) by (subst malloc_loop.simps) (auto simp: t_def a_def Let_def)
  have sp: "span (a, n) \<subseteq> span (x, m)" "units bs = units us \<union> span (q, j) \<union> span (x, m) \<union> units vs"
    using assms(4) bs by (auto simp: a_def)
  have sp2: "span (x, m) = (if m = n then {} else span (x, m - n)) \<union> span (a, n)" using assms(4) by (auto simp: a_def)
  define bs' where "bs' = us @ (q, j) # rest"
  have na: "a \<notin> fst ` set bs'" if "m \<noteq> n"
  proof
    assume "a \<in> fst ` set bs'"
    moreover have "\<forall>y\<in>set (us @ [(q, j)]). fst y < x" "\<forall>y\<in>set vs. x + m < fst y" using srt(1) bs by (auto simp: sorted_wrt_append before_def)
    ultimately show False using that assms(3,4) by (auto simp: bs'_def rest_def a_def)
  qed
  have mb: "map fst bs = map fst us @ q # x # map fst vs" by (simp add: bs)
  have "path (hptr s) (ubase s) (map fst us @ q # x # map fst vs) (ubase s)" using io(2) unfolding chain_def mb by (rule conjunct1)
  then have pth: "path (hptr s) (ubase s) (map fst us) q" "path (hptr s) (hptr s x) (map fst vs) (ubase s)" "hptr s q = x" by auto
  have q: "q \<notin> set (map fst us)" "q \<notin> set (map fst vs)" "x \<notin> set (map fst us)" "x \<notin> set (map fst vs)" "q \<noteq> x" using dist bs by auto
  have sz: "\<forall>y\<in>set (us @ (q, j) # vs). hsize s (fst y) = snd y" using io(2) bs by (auto simp: chain_def)
  have ch: "chain t bs'"
  proof (cases "m = n")
    case True
    then show ?thesis using pth q sz by (simp add: chain_def t_def bs'_def rest_def)
  next
    case False
    have "\<forall>y\<in>set (us @ (q, j) # vs). fst y \<noteq> x \<and> fst y \<noteq> a" using q na [OF False] False by (auto simp: bs'_def rest_def)
    then have "\<forall>y\<in>set (us @ (q, j) # vs). hsize t (fst y) = snd y" using sz False by (simp add: t_def)
    moreover have "hsize t x = m - n" using na [OF False] False by (auto simp: t_def bs'_def rest_def)
    ultimately have "\<forall>y\<in>set bs'. hsize t (fst y) = snd y" using False by (simp add: bs'_def rest_def)
    moreover have "hptr t = hptr s" "ubase t = ubase s" using False by (simp_all add: t_def)
    ultimately show ?thesis using pth False by (simp add: chain_def bs'_def rest_def)
  qed
  have ord: "in_order (ubase s) (brk s) bs'"
    using srt bs assms(4) by (cases us) (auto simp: in_order_def bs'_def rest_def sorted_wrt_append before_def)
  have gap: "\<forall>y\<in>set (us @ [(q, j)]). fst y + snd y \<le> x" "\<forall>y\<in>set vs. x + m \<le> fst y"
    using srt(1) bs by (auto simp: sorted_wrt_append before_def)
  have disj: "units bs' \<inter> span (a, n) = {}"
  proof -
    have "span y \<inter> span (x, m) = {}" if "y \<in> set (us @ (q, j) # vs)" for y
    proof -
      have "fst y + snd y \<le> x \<or> x + m \<le> fst y" using that gap by auto
      moreover have "span y = {fst y..<fst y + snd y}" by (cases y) simp
      ultimately show ?thesis by auto
    qed
    then have "units (us @ (q, j) # vs) \<inter> span (x, m) = {}" unfolding units_def by blast
    moreover have "(if m = n then {} else span (x, m - n)) \<inter> span (a, n) = {}" by (auto simp: a_def)
    moreover have "units bs' = units (us @ (q, j) # vs) \<union> (if m = n then {} else span (x, m - n))" by (auto simp: bs'_def rest_def)
    ultimately show ?thesis using sp(1) by (auto split: if_splits)
  qed
  have sub: "units bs' \<subseteq> units bs" "span (a, n) \<subseteq> units bs"
    using sp sp2 by (auto simp: bs'_def rest_def split: if_splits)
  have live: "live_ok t bs' y" if "y \<in> A" for y
  proof -
    have y: "live_ok s bs y" using lv(1) that by blast
    then have "fst y \<in> span y" "span y \<inter> units bs = {}" using in_start [OF that y] by (simp_all add: live_ok_def)
    moreover have "a \<in> span (a, n)" using assms(3) by simp
    ultimately have "fst y \<noteq> a" using sub(2) by blast
    moreover have "fst y \<noteq> x" using live_not_free [OF io(1) y] assms(2) by (metis fst_conv image_eqI)
    ultimately have "hsize t (fst y) = hsize s (fst y)" by (simp add: t_def)
    then show ?thesis using y sub(1) by (auto simp: live_ok_def t_def)
  qed
  have new: "live_ok t bs' (a, n)"
  proof -
    have "hsize t a = n" using xm(1) by (simp add: t_def a_def)
    moreover have "a + n \<le> brk s" "ubase s < a" using xm(3,4) assms(4) by (simp_all add: a_def)
    ultimately show ?thesis using assms(3) disj by (auto simp: live_ok_def t_def)
  qed
  have "disjoint_blocks (insert (a, n) A)"
  proof -
    have "span y \<inter> span (a, n) = {}" if "y \<in> A" for y using lv(1) that sub(2) unfolding live_ok_def by blast
    then show ?thesis using lv(2) unfolding disjoint_blocks_def by (auto simp: Int_commute)
  qed
  moreover have "q \<in> fst ` set bs'" by (simp add: bs'_def)
  moreover have "freep t = q" "ubase t = ubase s" "brk t = brk s" by (simp_all add: t_def)
  ultimately have "uinv t bs' (insert (a, n) A)" using ch ord live new io by (simp add: uinv_def)
  then show ?thesis using run sub \<open>ubase t = ubase s\<close> by blast
qed

section \<open>malloc\<close>

text \<open>The ring read from the node after \<open>freep\<close>: the order in which \<open>malloc\<close> visits it.\<close>

lemma chain_rotate:
  assumes "chain s bs" "bs \<noteq> []" "f \<in> fst ` set bs"
  obtains ns k where "path (hptr s) (hptr s f) (map fst (ns @ [(f, k)])) (hptr s f)" "set bs = set (ns @ [(f, k)])"
    "distinct (map fst bs) \<Longrightarrow> f \<notin> fst ` set ns"
proof -
  obtain k where "(f, k) \<in> set bs" using assms(3) by auto
  then obtain us vs where bs: "bs = us @ (f, k) # vs" by (meson split_list)
  have m: "map fst bs = map fst us @ f # map fst vs" by (simp add: bs)
  have "path (hptr s) (ubase s) (map fst us @ f # map fst vs) (ubase s)" using assms(1) unfolding chain_def m by (rule conjunct1)
  then have "path (hptr s) (hptr s f) (map fst vs) (ubase s)" "path (hptr s) (ubase s) (map fst us) f" by auto
  then have "path (hptr s) (hptr s f) (map fst ((vs @ us) @ [(f, k)])) (hptr s f)" by auto
  moreover have "set bs = set ((vs @ us) @ [(f, k)])" by (auto simp: bs)
  ultimately show ?thesis using that [of "vs @ us" k] bs by auto
qed

lemma malloc_loop_hit:
  assumes "uinv s bs A" "0 < n" "\<exists>x\<in>set bs. n \<le> snd x"
  shows "\<exists>t bs' a. malloc_loop n s (freep s) (hptr s (freep s)) = Some (a + 1, t) \<and> uinv t bs' (insert (a, n) A)
    \<and> span (a, n) \<subseteq> units bs \<and> ubase t = ubase s"
proof -
  let ?f = "freep s"
  have io: "in_order (ubase s) (brk s) bs" "chain s bs" "?f \<in> fst ` set bs" using assms(1) by (auto simp: uinv_def)
  then have ne: "bs \<noteq> []" "distinct (map fst bs)" using in_order_lt [OF io(1)] strict_sorted_iff by (auto simp: in_order_def)
  obtain ns k where r: "path (hptr s) (hptr s ?f) (map fst (ns @ [(?f, k)])) (hptr s ?f)" "set bs = set (ns @ [(?f, k)])" "?f \<notin> fst ` set ns"
    using chain_rotate [OF io(2) ne(1) io(3)] ne(2) by metis
  have "\<exists>x\<in>set (ns @ [(?f, k)]). n \<le> snd x" using assms(3) r(2) by simp
  from split_list_first_prop [OF this]
  obtain as y cs where y: "ns @ [(?f, k)] = as @ y # cs" "n \<le> snd y" "\<forall>z\<in>set as. \<not> n \<le> snd z" by blast
  obtain x m where xm: "y = (x, m)" by fastforce
  have as: "set as \<subseteq> set ns" using y(1) by (cases cs rule: rev_cases) auto
  have mem: "set as \<subseteq> set bs" "(x, m) \<in> set bs" using r(2) y(1) xm by auto
  have "hsize s (fst z) < n \<and> fst z \<noteq> ?f" if "z \<in> set as" for z
  proof -
    have "hsize s (fst z) = snd z" using chain_size [OF io(2), of "fst z" "snd z"] that mem(1) by auto
    moreover have "fst z \<noteq> ?f" using that as r(3) by force
    ultimately show ?thesis using y(3) that by auto
  qed
  then have walk: "\<forall>z\<in>set (map fst as). hsize s z < n \<and> z \<noteq> ?f" by auto
  have "path (hptr s) (hptr s ?f) (map fst as) x" using r(1) unfolding y(1) xm by auto
  then obtain q where q: "malloc_loop n s ?f (hptr s ?f) = malloc_loop n s q x" "hptr s q = x" "q = ?f \<or> q \<in> set (map fst as)"
    using malloc_loop_walk [OF _ walk refl] by blast
  have "q \<in> fst ` set bs" using q(3) io(3) mem(1) by auto
  then show ?thesis using take_block [OF assms(1) mem(2) assms(2) _ _ q(2)] y(2) xm q(1) by fastforce
qed

lemma malloc_loop_miss:
  assumes "uinv s bs A" "0 < n" "\<forall>x\<in>set bs. snd x < n"
  shows "malloc_loop n s (freep s) (hptr s (freep s)) =
    (case morecore n s of None \<Rightarrow> None | Some (p, s) \<Rightarrow> if p = 0 then Some (0, s) else malloc_loop n s p (hptr s p))"
proof -
  let ?f = "freep s"
  have io: "in_order (ubase s) (brk s) bs" "chain s bs" "?f \<in> fst ` set bs" using assms(1) by (auto simp: uinv_def)
  then have ne: "bs \<noteq> []" "distinct (map fst bs)" using in_order_lt [OF io(1)] strict_sorted_iff by (auto simp: in_order_def)
  obtain ns k where r: "path (hptr s) (hptr s ?f) (map fst (ns @ [(?f, k)])) (hptr s ?f)" "set bs = set (ns @ [(?f, k)])" "?f \<notin> fst ` set ns"
    using chain_rotate [OF io(2) ne(1) io(3)] ne(2) by metis
  have small: "hsize s (fst z) < n" if "z \<in> set bs" for z
    using chain_size [OF io(2), of "fst z" "snd z"] that assms(3) by auto
  have "hsize s (fst z) < n \<and> fst z \<noteq> ?f" if "z \<in> set ns" for z using small [of z] that r(2,3) by force
  then have walk: "\<forall>z\<in>set (map fst ns). hsize s z < n \<and> z \<noteq> ?f" by auto
  have "path (hptr s) (hptr s ?f) (map fst ns) ?f" using r(1) by auto
  then obtain q where "malloc_loop n s ?f (hptr s ?f) = malloc_loop n s q ?f" using malloc_loop_walk [OF _ walk refl] by blast
  moreover have "hsize s ?f < n" using small io(3) by auto
  ultimately show ?thesis by (subst (asm) (2) malloc_loop.simps) (auto simp: not_le split: option.splits)
qed

lemma big_block:
  assumes "in_order b l bs" "{c..<c + n} \<subseteq> units bs" "0 < n"
  shows "\<exists>x\<in>set bs. n \<le> snd x"
proof -
  have "c \<in> units bs" using assms(2,3) by auto
  then obtain x where x: "x \<in> set bs" "c \<in> span x" by (auto simp: units_def)
  obtain p k where pk: "x = (p, k)" by fastforce
  have "c + n \<le> p + k"
  proof (rule ccontr)
    assume "\<not> c + n \<le> p + k"
    then have "p + k \<in> units bs" using assms(2) x(2) pk by auto
    then obtain y where y: "y \<in> set bs" "p + k \<in> span y" by (auto simp: units_def)
    have "x \<noteq> y" using y(2) pk by auto
    moreover have "sorted_wrt before bs" using assms(1) by (simp add: in_order_def)
    ultimately have "before x y \<or> before y x" using x(1) y(1) by (metis sorted_wrt_iff_nth_less in_set_conv_nth nat_neq_iff)
    then show False using y(2) x(2) pk by (cases y) (auto simp: before_def)
  qed
  then show ?thesis using x pk by (intro bexI [of _ x]) auto
qed

lemma uinv_plan: "uinv s bs A \<Longrightarrow> uinv (s\<lparr>sbrk_plan := pl\<rparr>) bs A"
  by (simp add: uinv_def chain_def live_ok_def)

lemma malloc_inv:
  assumes "uinv s bs A" "max 4096 (nunits_of nb) * 16 < 2 ^ 31" "brk s + max 4096 (nunits_of nb) < 2 ^ 32"
  shows "\<exists>r t bs'. malloc nb s = Some (r, t) \<and> ubase t = ubase s
    \<and> (if r = 0 then uinv t bs' A else uinv t bs' (insert (r - 1, nunits_of nb) A) \<and> (\<forall>x\<in>A. span x \<inter> span (r - 1, nunits_of nb) = {}))"
proof -
  let ?n = "nunits_of nb"
  have n: "0 < ?n" by (simp add: nunits_of_def)
  have io: "in_order (ubase s) (brk s) bs" "freep s \<in> fst ` set bs" "0 < ubase s" and lv: "\<forall>x\<in>A. live_ok s bs x"
    using assms(1) by (auto simp: uinv_def)
  then have f: "freep s \<noteq> 0" using in_order_base [OF io(1)] by force
  have m: "malloc nb s = malloc_loop ?n s (freep s) (hptr s (freep s))" using f by (simp add: malloc_def Let_def)
  have apart: "\<forall>x\<in>A. span x \<inter> span (a, ?n) = {}" if "span (a, ?n) \<subseteq> units cs" "\<forall>x\<in>A. live_ok u cs x" for a cs u
    using that unfolding live_ok_def by blast
  show ?thesis
  proof (cases "\<exists>x\<in>set bs. ?n \<le> snd x")
    case True
    then obtain t bs' a where t: "malloc nb s = Some (a + 1, t)" "uinv t bs' (insert (a, ?n) A)" "span (a, ?n) \<subseteq> units bs" "ubase t = ubase s"
      using malloc_loop_hit [OF assms(1) n] unfolding m by blast
    then show ?thesis using apart [OF t(3) lv] by (intro exI [of _ "a + 1"] exI [of _ t] exI [of _ bs']) simp
  next
    case False
    then have miss: "malloc nb s = (case morecore ?n s of None \<Rightarrow> None | Some (p, s) \<Rightarrow> if p = 0 then Some (0, s) else malloc_loop ?n s p (hptr s p))"
      using malloc_loop_miss [OF assms(1) n] unfolding m by (simp add: not_le)
    consider pl where "morecore ?n s = Some (0, s\<lparr>sbrk_plan := pl\<rparr>)"
      | u cs where "morecore ?n s = Some (freep u, u)" "uinv u cs A" "units cs = units bs \<union> {brk s..<brk s + max 4096 ?n}" "ubase u = ubase s"
      using morecore_inv [OF assms(1) n assms(2,3)] by blast
    then show ?thesis
    proof cases
      case 1
      then show ?thesis using miss uinv_plan [OF assms(1), of pl] by auto
    next
      case 2
      have iu: "in_order (ubase u) (brk u) cs" "freep u \<in> fst ` set cs" "0 < ubase u" "\<forall>x\<in>A. live_ok u cs x" using 2(2) by (auto simp: uinv_def)
      then have fu: "freep u \<noteq> 0" using in_order_base [OF iu(1)] by force
      have "{brk s..<brk s + ?n} \<subseteq> units cs" using 2(3) by auto
      then have big: "\<exists>x\<in>set cs. ?n \<le> snd x" using big_block [OF iu(1) _ n] by blast
      obtain t bs' a where t: "malloc_loop ?n u (freep u) (hptr u (freep u)) = Some (a + 1, t)" "uinv t bs' (insert (a, ?n) A)"
        "span (a, ?n) \<subseteq> units cs" "ubase t = ubase u" using malloc_loop_hit [OF 2(2) n big] by blast
      then have "malloc nb s = Some (a + 1, t)" using miss 2(1) fu by simp
      then show ?thesis using t 2(4) apart [OF t(3) iu(4)] by (intro exI [of _ "a + 1"] exI [of _ t] exI [of _ bs']) simp
    qed
  qed
qed

section \<open>Programs that use the allocator\<close>

text \<open>
  The states a program can bring the allocator into, with the blocks it holds: it allocates, frees blocks it
  holds, and writes anything into the units of its blocks behind their headers.
\<close>

inductive uses :: "uheap \<Rightarrow> (nat \<times> nat) set \<Rightarrow> bool" where
  start: "freep s = 0 \<Longrightarrow> 0 < ubase s \<Longrightarrow> ubase s < brk s \<Longrightarrow> brk s < 2 ^ 32 \<Longrightarrow> uses s {}"
| alloc: "uses s A \<Longrightarrow> malloc nb s = Some (r, t) \<Longrightarrow> r \<noteq> 0 \<Longrightarrow> max 4096 (nunits_of nb) * 16 < 2 ^ 31 \<Longrightarrow> brk s + max 4096 (nunits_of nb) < 2 ^ 32
    \<Longrightarrow> uses t (insert (r - 1, nunits_of nb) A)"
| failed: "uses s A \<Longrightarrow> malloc nb s = Some (0, t) \<Longrightarrow> max 4096 (nunits_of nb) * 16 < 2 ^ 31 \<Longrightarrow> brk s + max 4096 (nunits_of nb) < 2 ^ 32 \<Longrightarrow> uses t A"
| release: "uses s A \<Longrightarrow> (a, n) \<in> A \<Longrightarrow> free (a + 1) s = Some t \<Longrightarrow> uses t (A - {(a, n)})"
| store: "uses s A \<Longrightarrow> (a, n) \<in> A \<Longrightarrow> a < x \<Longrightarrow> x < a + n \<Longrightarrow> uses (set_ptr x v (set_size x w s)) A"

lemma uinv_write:
  assumes "uinv s bs A" "(a, n) \<in> A" "a < x" "x < a + n"
  shows "uinv (set_ptr x v (set_size x w s)) bs A"
proof -
  have io: "in_order (ubase s) (brk s) bs" "chain s bs" "0 < ubase s" and lv: "\<forall>y\<in>A. live_ok s bs y" "disjoint_blocks A"
    using assms(1) by (auto simp: uinv_def)
  have an: "ubase s < a" "span (a, n) \<inter> units bs = {}" using lv(1) assms(2) by (force simp: live_ok_def)+
  have xs: "x \<in> span (a, n)" using assms(3,4) by simp
  have nb: "fst y \<noteq> x" if "y \<in> set bs" for y
  proof
    assume y: "fst y = x"
    then have "0 < snd y" using in_order_base [OF io(1) that] an(1) assms(3) by auto
    then have "x \<in> span y" using y by (cases y) auto
    then show False using that xs an(2) by (auto simp: units_def)
  qed
  have nA: "fst y \<noteq> x" if "y \<in> A" for y
  proof (cases "y = (a, n)")
    case False
    then have "span y \<inter> span (a, n) = {}" using lv(2) that assms(2) unfolding disjoint_blocks_def by blast
    moreover have "fst y \<in> span y" using in_start [OF that] lv(1) that by blast
    ultimately show ?thesis using xs by blast
  qed (use assms(3) in simp)
  have "x \<notin> set (map fst bs)" using nb by auto
  then have "chain (set_ptr x v (set_size x w s)) bs" using io(2) nb by (simp add: chain_def)
  moreover have "\<forall>y\<in>A. live_ok (set_ptr x v (set_size x w s)) bs y" using lv(1) nA by (simp add: live_ok_def)
  ultimately show ?thesis using assms(1) by (simp add: uinv_def)
qed

definition started :: "uheap \<Rightarrow> uheap" where
  "started s = set_size (ubase s) 0 (set_ptr (ubase s) (ubase s) s)\<lparr>freep := ubase s\<rparr>"

lemma uinv_started:
  assumes "0 < ubase s" "ubase s < brk s" "brk s < 2 ^ 32"
  shows "uinv (started s) [(ubase s, 0)] {}"
  using assms by (simp add: started_def uinv_def in_order_def chain_def disjoint_blocks_def set_ptr_def set_size_def)

lemma malloc_started: "freep s = 0 \<Longrightarrow> 0 < ubase s \<Longrightarrow> malloc nb s = malloc nb (started s)"
  by (simp add: malloc_def started_def Let_def set_ptr_def set_size_def)

lemma uses_inv:
  assumes "uses s A"
  shows "(freep s = 0 \<and> A = {} \<and> 0 < ubase s \<and> ubase s < brk s \<and> brk s < 2 ^ 32) \<or> (\<exists>bs. uinv s bs A)"
  using assms
proof (induction rule: uses.induct)
  case (alloc s A nb r t)
  obtain s' bs where s': "uinv s' bs A" "malloc nb s = malloc nb s'" "brk s' = brk s"
    using alloc.IH uinv_started [of s] malloc_started [of s nb] by (auto simp: started_def set_ptr_def set_size_def)
  then show ?case using malloc_inv [OF s'(1), of nb] alloc.hyps by auto
next
  case (failed s A nb t)
  obtain s' bs where s': "uinv s' bs A" "malloc nb s = malloc nb s'" "brk s' = brk s"
    using failed.IH uinv_started [of s] malloc_started [of s nb] by (auto simp: started_def set_ptr_def set_size_def)
  then show ?case using malloc_inv [OF s'(1), of nb] failed.hyps by auto
next
  case (release s A a n t)
  then obtain bs where "uinv s bs A" by auto
  then show ?case using free_inv [OF _ release.hyps(2)] release.hyps(3) by fastforce
next
  case (store s A a n x v w)
  then obtain bs where "uinv s bs A" by auto
  then show ?case using uinv_write store.hyps by blast
qed simp

text \<open>
  C12: The allocator is safe for every program that uses it within its memory. Whatever the program has
  allocated, freed and written into its own blocks, the blocks it holds are pairwise disjoint and lie
  inside its memory; every call of \<open>free\<close> on one of them returns; and every call of \<open>malloc\<close> returns, with the null
  pointer or with a block that has room for the bytes asked for and meets none of the blocks held.
\<close>

theorem malloc_free_safe:
  assumes "uses s A"
  shows "disjoint_blocks A \<and> (\<forall>x\<in>A. ubase s < fst x \<and> fst x + snd x \<le> brk s)
    \<and> (\<forall>(a, n)\<in>A. \<exists>t. free (a + 1) s = Some t)
    \<and> (\<forall>nb. max 4096 (nunits_of nb) * 16 < 2 ^ 31 \<longrightarrow> brk s + max 4096 (nunits_of nb) < 2 ^ 32 \<longrightarrow>
        (\<exists>r t. malloc nb s = Some (r, t)
           \<and> (r \<noteq> 0 \<longrightarrow> nb \<le> 16 * (nunits_of nb - 1) \<and> (\<forall>x\<in>A. span x \<inter> span (r - 1, nunits_of nb) = {}))))"
proof -
  obtain s' bs where s': "uinv s' bs A" "\<And>nb. malloc nb s = malloc nb s'" "brk s' = brk s" "ubase s' = ubase s" "A \<noteq> {} \<longrightarrow> s' = s"
    using uses_inv [OF assms] uinv_started [of s] malloc_started [of s] by (auto simp: started_def set_ptr_def set_size_def)
  have lv: "\<forall>x\<in>A. live_ok s' bs x" "disjoint_blocks A" using s'(1) by (auto simp: uinv_def)
  have room: "nb \<le> 16 * (nunits_of nb - 1)" for nb by (simp add: nunits_of_def)
  have fr: "\<forall>(a, n)\<in>A. \<exists>t. free (a + 1) s = Some t"
  proof safe
    fix a n assume "(a, n) \<in> A"
    moreover from this have "s' = s" using s'(5) by auto
    ultimately show "\<exists>t. free (a + 1) s = Some t" using free_inv [OF s'(1)] by blast
  qed
  have "\<exists>r t. malloc nb s = Some (r, t) \<and> (r \<noteq> 0 \<longrightarrow> nb \<le> 16 * (nunits_of nb - 1) \<and> (\<forall>x\<in>A. span x \<inter> span (r - 1, nunits_of nb) = {}))"
    if lim: "max 4096 (nunits_of nb) * 16 < 2 ^ 31" "brk s + max 4096 (nunits_of nb) < 2 ^ 32" for nb
  proof -
    obtain r t bs' where "malloc nb s' = Some (r, t)" "if r = 0 then uinv t bs' A else uinv t bs' (insert (r - 1, nunits_of nb) A)
        \<and> (\<forall>x\<in>A. span x \<inter> span (r - 1, nunits_of nb) = {})"
      using malloc_inv [OF s'(1) lim(1)] lim(2) s'(3) by auto
    then show ?thesis using s'(2) room by (intro exI [of _ r] exI [of _ t]) (simp del: span.simps split: if_splits)
  qed
  then show ?thesis using lv fr s'(3,4) by (simp add: live_ok_def)
qed

definition demo_heap :: uheap where
  "demo_heap = \<lparr>hptr = (\<lambda>_. 0), hsize = (\<lambda>_. 0), ubase = 5, freep = 0, brk = 512, sbrk_plan = []\<rparr>"

text \<open>The first call of \<open>malloc\<close> in a process, when \<open>sbrk\<close> answers the break and moves it to \<open>b\<close>.\<close>

lemma malloc_first:
  assumes "freep s = 0" "0 < ubase s" "ubase s < brk s" "nu = max 4096 (nunits_of nb)"
    and "sbrk (sint (word_of_nat (nu * 16) :: u32)) (started s) = (Some (brk s), (started s)\<lparr>brk := b\<rparr>)"
  shows "mapped (brk s) ((started s)\<lparr>brk := b\<rparr>) \<Longrightarrow> \<exists>t. malloc nb s = Some (brk s + (nu - nunits_of nb) + 1, t) \<and> brk t = b"
    and "\<not> mapped (brk s) ((started s)\<lparr>brk := b\<rparr>) \<Longrightarrow> malloc nb s = None"
proof -
  let ?n = "nunits_of nb" and ?s = "started s"
  have nu: "(if ?n < 4096 then 4096 else ?n) = nu" "?n \<le> nu" "0 < ?n" "0 < nu" by (simp_all add: assms(4) nunits_of_def)
  have f: "freep ?s = ubase s" "hptr ?s (ubase s) = ubase s" "hsize ?s (ubase s) = 0" "ubase ?s = ubase s"
    by (simp_all add: started_def set_ptr_def set_size_def)
  have m: "malloc nb s = malloc_loop ?n ?s (ubase s) (ubase s)"
    unfolding malloc_started [OF assms(1,2)] using f assms(2) by (simp add: malloc_def [of nb ?s] Let_def)
  define u where "u = set_size (brk s) nu (?s\<lparr>brk := b\<rparr>)"
  have u: "hptr u (ubase s) = ubase s" "hsize u (ubase s) = 0" "hsize u (brk s) = nu" "freep u = ubase s" "brk u = b"
    using f assms(3) by (simp_all add: u_def set_size_def)
  define v where "v = (set_ptr (ubase s) (brk s) (set_ptr (brk s) (ubase s) u))\<lparr>freep := ubase s\<rparr>"
  have ff: "free_find u (brk s) (ubase s) = Some (ubase s)" using u assms(3) by (subst free_find.simps) simp
  have jn: "join_next (ubase s) (brk s) u = set_ptr (brk s) (ubase s) u" using u assms(3) by (simp add: join_next_def)
  have jp: "join_prev (ubase s) (brk s) (set_ptr (brk s) (ubase s) u) = set_ptr (ubase s) (brk s) (set_ptr (brk s) (ubase s) u)"
    using u assms(3) by (simp add: join_prev_def)
  have fr: "free (brk s + 1) u = Some v" using ff jn jp u(4) by (simp add: free_def v_def Let_def)
  show "malloc nb s = None" if no: "\<not> mapped (brk s) (?s\<lparr>brk := b\<rparr>)"
  proof -
    have "morecore ?n ?s = None" unfolding morecore_def Let_def nu(1) assms(5) prod.case option.case using no by simp
    then show ?thesis unfolding m using f nu(3) by (subst malloc_loop.simps) simp
  qed
  assume yes: "mapped (brk s) (?s\<lparr>brk := b\<rparr>)"
  have mc: "morecore ?n ?s = Some (ubase s, v)"
    unfolding morecore_def Let_def nu(1) assms(5) prod.case option.case u_def [symmetric] fr using yes by (simp add: v_def)
  have v: "hptr v (ubase s) = brk s" "hsize v (brk s) = nu" "brk v = b" using u by (simp_all add: v_def)
  have "malloc_loop ?n ?s (ubase s) (ubase s) = malloc_loop ?n v (ubase s) (brk s)"
    using f mc assms(2) nu(3) v(1) by (subst malloc_loop.simps) simp
  also have "\<exists>t. \<dots> = Some (brk s + (nu - ?n) + 1, t) \<and> brk t = b"
    using nu(2) v by (subst malloc_loop.simps) (auto simp: Let_def)
  finally show "\<exists>t. malloc nb s = Some (brk s + (nu - ?n) + 1, t) \<and> brk t = b" unfolding m .
qed

lemma demo_first: "\<exists>t. malloc 100 demo_heap = Some (4601, t) \<and> brk t = 4608"
  using malloc_first(1) [of demo_heap 4096 100 4608]
  by (simp add: demo_heap_def nunits_of_def started_def sbrk_def set_ptr_def set_size_def mapped_def)

theorem malloc_free_safe_witness:
  "\<exists>t u. malloc 100 demo_heap = Some (4601, t) \<and> free 4601 t = Some u
    \<and> (\<exists>r v. malloc 40 t = Some (r, v) \<and> (r \<noteq> 0 \<longrightarrow> span (4600, 8) \<inter> span (r - 1, 4) = {}))"
proof -
  obtain t where t: "malloc 100 demo_heap = Some (4601, t)" "brk t = 4608" using demo_first by auto
  have "uses demo_heap {}" by (rule uses.start) (simp_all add: demo_heap_def)
  from uses.alloc [OF this t(1)] have "uses t {(4600, 8)}" by (simp add: nunits_of_def demo_heap_def)
  from malloc_free_safe [OF this] obtain u where "free 4601 t = Some u"
    and m: "\<And>nb. max 4096 (nunits_of nb) * 16 < 2 ^ 31 \<Longrightarrow> brk t + max 4096 (nunits_of nb) < 2 ^ 32 \<Longrightarrow>
      \<exists>r v. malloc nb t = Some (r, v) \<and> (r \<noteq> 0 \<longrightarrow> span (4600, 8) \<inter> span (r - 1, nunits_of nb) = {})"
    by fastforce
  moreover have "nunits_of 40 = 4" by (simp add: nunits_of_def)
  moreover obtain r v where "malloc 40 t = Some (r, v)" "r \<noteq> 0 \<longrightarrow> span (4600, 8) \<inter> span (r - 1, 4) = {}"
    using m [of 40] t(2) \<open>nunits_of 40 = 4\<close> by auto
  ultimately show ?thesis using t by blast
qed



end
