(* ===== verification/Mkfs.thy ===== *)
theory Mkfs
  imports FsSpec Ulib
begin

text \<open>
  The program that writes the initial file system, \<^verbatim>\<open>mkfs/mkfs.c\<close>. It runs on a little-endian host; the
  image is the sectors written so far. Writing the image succeeds, reading past its end fails.
\<close>

section \<open>The image\<close>

definition FSSIZE :: nat where "FSSIZE = 2000"
definition NINODES :: nat where "NINODES = 200"
definition nbitmap :: nat where "nbitmap = FSSIZE div BPB + 1"
definition ninodeblocks :: nat where "ninodeblocks = NINODES div IPB + 1"
definition nlogblocks :: nat where "nlogblocks = nat LOGBLOCKS + 1"
definition nmeta :: nat where "nmeta = 2 + nlogblocks + ninodeblocks + nbitmap"

record image =
  sectors :: "nat \<Rightarrow> bytes"
  nsect :: nat
  freeinode :: u32
  freeblock :: u32
  msb :: superblock

text \<open>A program that stops early has called \<open>die\<close> or failed an \<open>assert\<close>.\<close>

datatype 'a mres = Done 'a image | Die | Abort

fun mbind :: "'a mres \<Rightarrow> ('a \<Rightarrow> image \<Rightarrow> 'b mres) \<Rightarrow> 'b mres" where
  "mbind (Done a s) f = f a s"
| "mbind Die f = Die"
| "mbind Abort f = Abort"

text \<open>Conversion to little-endian byte order: the bytes stored in the variable, read on the host.\<close>

definition xshort :: "u16 \<Rightarrow> u16" where
  "xshort x = of_le [ucast x, ucast (drop_bit 8 x)]"

definition xint :: "u32 \<Rightarrow> u32" where
  "xint x = of_le [ucast x, ucast (drop_bit 8 x), ucast (drop_bit 16 x), ucast (drop_bit 24 x)]"

text \<open>The sector at offset \<open>sec * BSIZE\<close>, a product of type \<open>uint\<close>.\<close>

definition sect_at :: "u32 \<Rightarrow> nat" where
  "sect_at sec = unat (sec * of_nat BSIZE) div BSIZE"

definition wsect :: "u32 \<Rightarrow> bytes \<Rightarrow> image \<Rightarrow> image" where
  "wsect sec buf s = s\<lparr>sectors := (sectors s)(sect_at sec := buf), nsect := max (nsect s) (Suc (sect_at sec))\<rparr>"

definition rsect :: "u32 \<Rightarrow> image \<Rightarrow> bytes mres" where
  "rsect sec s = (if sect_at sec < nsect s then Done (sectors s (sect_at sec)) s else Die)"

section \<open>Inodes\<close>

record dinode =
  d_type :: u16
  d_major :: u16
  d_minor :: u16
  d_nlink :: u16
  d_size :: u32
  d_addrs :: "nat \<Rightarrow> u32"

definition get_dinode :: "bytes \<Rightarrow> nat \<Rightarrow> dinode" where
  "get_dinode d off =
     \<lparr>d_type = get16 d off, d_major = get16 d (off + 2), d_minor = get16 d (off + 4), d_nlink = get16 d (off + 6),
      d_size = get32 d (off + 8), d_addrs = (\<lambda>i. if i < NDIRECT + 1 then get32 d (off + 12 + 4 * i) else 0)\<rparr>"

definition put_dinode :: "dinode \<Rightarrow> nat \<Rightarrow> bytes \<Rightarrow> bytes" where
  "put_dinode n off d =
     (let d = put16 d off (d_type n);
          d = put16 d (off + 2) (d_major n);
          d = put16 d (off + 4) (d_minor n);
          d = put16 d (off + 6) (d_nlink n);
          d = put32 d (off + 8) (d_size n)
      in fold (\<lambda>i d. put32 d (off + 12 + 4 * i) (d_addrs n i)) [0..<NDIRECT + 1] d)"

definition winode :: "u32 \<Rightarrow> dinode \<Rightarrow> image \<Rightarrow> unit mres" where
  "winode ino ip s =
     (let bn = IBLOCK ino (msb s) in
     mbind (rsect bn s) (\<lambda>buf s.
     Done () (wsect bn (put_dinode ip ((unat ino mod IPB) * 64) buf) s)))"

definition rinode :: "u32 \<Rightarrow> image \<Rightarrow> dinode mres" where
  "rinode ino s =
     (let bn = IBLOCK ino (msb s) in
     mbind (rsect bn s) (\<lambda>buf s.
     Done (get_dinode buf ((unat ino mod IPB) * 64)) s))"

definition ialloc :: "u16 \<Rightarrow> image \<Rightarrow> u32 mres" where
  "ialloc type s =
     (let ino = freeinode s;
          s = s\<lparr>freeinode := freeinode s + 1\<rparr>;
          din = \<lparr>d_type = xshort type, d_major = 0, d_minor = 0, d_nlink = xshort 1, d_size = xint 0, d_addrs = (\<lambda>_. 0)\<rparr> in
     mbind (winode ino din s) (\<lambda>_ s.
     Done ino s))"

definition balloc :: "u32 \<Rightarrow> image \<Rightarrow> unit mres" where
  "balloc used s =
     (if \<not> sint used < int BPB then Abort
      else let buf = fold (\<lambda>i d. d(i div 8 := d (i div 8) OR push_bit (i mod 8) 1)) [0..<nat (sint used)] (\<lambda>_. 0) in
        Done () (wsect (bmapstart (msb s)) buf s))"

section \<open>File content\<close>

text \<open>The block of an inode for position \<open>fbn\<close>, taken from the free blocks when there is none yet.\<close>

definition take_block :: "nat \<Rightarrow> dinode \<Rightarrow> image \<Rightarrow> dinode \<times> image" where
  "take_block i din s =
     (if xint (d_addrs din i) = 0
      then (din\<lparr>d_addrs := (d_addrs din)(i := xint (freeblock s))\<rparr>, s\<lparr>freeblock := freeblock s + 1\<rparr>)
      else (din, s))"

definition file_block :: "u32 \<Rightarrow> dinode \<Rightarrow> image \<Rightarrow> (u32 \<times> dinode) mres" where
  "file_block fbn din s =
     (if unat fbn < NDIRECT
      then (case take_block (unat fbn) din s of (din, s) \<Rightarrow> Done (xint (d_addrs din (unat fbn)), din) s)
      else (case take_block NDIRECT din s of (din, s) \<Rightarrow>
        let ind = xint (d_addrs din NDIRECT); at = 4 * (unat fbn - NDIRECT) in
        mbind (rsect ind s) (\<lambda>indirect s.
          if get32 indirect at = 0
          then let indirect = put32 indirect at (xint (freeblock s));
                   s = wsect ind indirect (s\<lparr>freeblock := freeblock s + 1\<rparr>)
            in Done (xint (get32 indirect at), din) s
          else Done (xint (get32 indirect at), din) s)))"

definition room_in :: "u32 \<Rightarrow> nat" where
  "room_in off = unat ((off div of_nat BSIZE + 1) * of_nat BSIZE - off)"

lemma room_in_eq: "room_in off = BSIZE - unat off mod BSIZE"
proof -
  let ?B = "1024 :: u32"
  have m: "(off div ?B + 1) * ?B - off = ?B - off mod ?B"
  proof -
    have "off div ?B * ?B + off mod ?B = off" by (rule word_mod_div_equality)
    then show ?thesis by (simp add: algebra_simps)
  qed
  have "unat (?B - off mod ?B) = 1024 - unat off mod 1024"
    by (subst unat_sub) (simp_all add: word_le_nat_alt unat_mod)
  then show ?thesis unfolding room_in_def BSIZE_def of_nat_numeral m .
qed

function iappend_loop :: "dinode \<Rightarrow> u32 \<Rightarrow> u8 list \<Rightarrow> image \<Rightarrow> (dinode \<times> u32) mres" where
  "iappend_loop din off p s =
     (if p = [] then Done (din, off) s
      else let fbn = off div of_nat BSIZE in
        if \<not> unat fbn < MAXFILE then Abort
        else mbind (file_block fbn din s) (\<lambda>(x, din) s.
          let n1 = min (length p) (room_in off) in
          mbind (rsect x s) (\<lambda>buf s.
          iappend_loop din (off + of_nat n1) (drop n1 p) (wsect x (wr buf (unat (off - fbn * of_nat BSIZE)) (take n1 p)) s))))"
  by pat_completeness auto
termination
  by (relation "measure (\<lambda>(din, off, p, s). length p)") (auto simp: room_in_eq BSIZE_def)

declare iappend_loop.simps [simp del]

definition iappend :: "u32 \<Rightarrow> u8 list \<Rightarrow> image \<Rightarrow> unit mres" where
  "iappend ino p s =
     mbind (rinode ino s) (\<lambda>din s.
     mbind (iappend_loop din (xint (d_size din)) p s) (\<lambda>(din, off) s.
     winode ino (din\<lparr>d_size := xint off\<rparr>) s))"

section \<open>The program\<close>

definition dirent :: "u32 \<Rightarrow> u8 list \<Rightarrow> u8 list" where
  "dirent ino name = le_bytes 2 (xshort (ucast ino)) @ take DIRSIZ (name @ replicate DIRSIZ 0)"

text \<open>The name of a file in the image: without \<open>user/\<close> and without a leading underscore.\<close>

definition shortname :: "u8 list \<Rightarrow> u8 list" where
  "shortname arg = (if take 5 arg = [117, 115, 101, 114, 47] then drop 5 arg else arg)"

definition skip_underscore :: "u8 list \<Rightarrow> u8 list" where
  "skip_underscore name = (if name \<noteq> [] \<and> hd name = 95 then tl name else name)"

function copy_file :: "u32 \<Rightarrow> source \<Rightarrow> image \<Rightarrow> unit mres" where
  "copy_file ino f s =
     (case uread BSIZE f of
        (Some (b # bs), f) \<Rightarrow> mbind (iappend ino (b # bs) s) (\<lambda>_ s. copy_file ino f s)
      | _ \<Rightarrow> Done () s)"
  by pat_completeness auto
termination
  by (relation "measure (\<lambda>(ino, f, s). length (rdata f))") (auto dest: uread_shrinks [OF sym])

declare copy_file.simps [simp del]

fun add_file :: "u32 \<Rightarrow> u8 list \<times> source option \<Rightarrow> image \<Rightarrow> unit mres" where
  "add_file rootino (arg, fd) s =
     (if 47 \<in> set (shortname arg) then Abort
      else case fd of
        None \<Rightarrow> Die
      | Some f \<Rightarrow>
          let name = skip_underscore (shortname arg) in
          if \<not> length name \<le> DIRSIZ then Abort
          else mbind (ialloc T_FILE s) (\<lambda>ino s.
            mbind (iappend rootino (dirent ino name) s) (\<lambda>_ s.
            copy_file ino f s)))"

fun add_files :: "u32 \<Rightarrow> (u8 list \<times> source option) list \<Rightarrow> image \<Rightarrow> unit mres" where
  "add_files rootino [] s = Done () s"
| "add_files rootino (a # as) s = mbind (add_file rootino a s) (\<lambda>_ s. add_files rootino as s)"

definition new_sb :: superblock where
  "new_sb = \<lparr>magic = FSMAGIC, sb_size = xint (of_nat FSSIZE), nblocks = xint (of_nat (FSSIZE - nmeta)), ninodes = xint (of_nat NINODES),
     nlog = xint (of_nat nlogblocks), logstart = xint 2, inodestart = xint (of_nat (2 + nlogblocks)),
     bmapstart = xint (of_nat (2 + nlogblocks + ninodeblocks))\<rparr>"

definition sb_bytes :: "superblock \<Rightarrow> u8 list" where
  "sb_bytes b = le_bytes 4 (magic b) @ le_bytes 4 (sb_size b) @ le_bytes 4 (nblocks b) @ le_bytes 4 (ninodes b)
     @ le_bytes 4 (nlog b) @ le_bytes 4 (logstart b) @ le_bytes 4 (inodestart b) @ le_bytes 4 (bmapstart b)"

definition fresh_image :: image where
  "fresh_image =
     (let s = \<lparr>sectors = (\<lambda>_ _. 0), nsect = 0, freeinode = 1, freeblock = of_nat nmeta, msb = new_sb\<rparr>;
          s = fold (\<lambda>i. wsect (of_nat i) (\<lambda>_. 0)) [0..<FSSIZE] s
      in wsect 1 (wr (\<lambda>_. 0) 0 (sb_bytes new_sb)) s)"

definition fix_root :: "u32 \<Rightarrow> image \<Rightarrow> unit mres" where
  "fix_root rootino s =
     mbind (rinode rootino s) (\<lambda>din s.
     let off = (xint (d_size din) div of_nat BSIZE + 1) * of_nat BSIZE in
     winode rootino (din\<lparr>d_size := xint off\<rparr>) s)"

definition mkfs :: "(u8 list \<times> source option) list \<Rightarrow> unit mres" where
  "mkfs args =
     mbind (ialloc T_DIR fresh_image) (\<lambda>rootino s.
     if rootino \<noteq> ROOTINO then Abort
     else mbind (iappend rootino (dirent rootino [46]) s) (\<lambda>_ s.
     mbind (iappend rootino (dirent rootino [46, 46]) s) (\<lambda>_ s.
     mbind (add_files rootino args s) (\<lambda>_ s.
     mbind (fix_root rootino s) (\<lambda>_ s.
     balloc (freeblock s) s)))))"

text \<open>
  The start of \<open>main\<close>: the arguments after the name of the program, of which the first is the name of the image, and whether
  the image can be opened. Without arguments it prints its usage and exits, as after a failed \<open>open\<close>.
\<close>

definition mkfs_main :: "(u8 list \<times> source option) list \<Rightarrow> bool \<Rightarrow> unit mres" where
  "mkfs_main argv opened =
     (case argv of
        [] \<Rightarrow> Die
      | img # files \<Rightarrow>
          if BSIZE mod 64 \<noteq> 0 \<or> BSIZE mod 16 \<noteq> 0 then Abort
          else if \<not> opened then Die
          else mkfs files)"

lemma mkfs_main_runs: "mkfs_main (img # files) True = mkfs files"
  by (simp add: mkfs_main_def BSIZE_def)

end
