(* ===== verification/FileSpec.thy ===== *)
theory FileSpec
  imports FsSpec
begin

text \<open>
  The content of files, \<^verbatim>\<open>kernel/fs.c\<close>: what \<open>readi\<close> hands over and what \<open>writei\<close> changes, for files
  whose blocks are allocated, directly or through the indirect block.
\<close>

section \<open>The blocks of a file\<close>

definition fblk :: "'z kfs_scheme \<Rightarrow> nat \<Rightarrow> nat \<Rightarrow> u32" where
  "fblk s ip i =
     (if i < NDIRECT then iaddrs (itable s ip) i
      else if iaddrs (itable s ip) NDIRECT = 0 then 0
      else get32 (content s ROOTDEV (iaddrs (itable s ip) NDIRECT)) (4 * (i - NDIRECT)))"

definition fbyte :: "'z kfs_scheme \<Rightarrow> nat \<Rightarrow> nat \<Rightarrow> u8" where
  "fbyte s ip k = content s ROOTDEV (fblk s ip (k div BSIZE)) (k mod BSIZE)"

text \<open>
  A file whose first \<open>l\<close> blocks are allocated, all different, and apart from its indirect block.
\<close>

definition file_ok :: "nat \<Rightarrow> 'z kfs_scheme \<Rightarrow> nat \<Rightarrow> bool" where
  "file_ok l s ip \<longleftrightarrow> idev (itable s ip) = ROOTDEV \<and> l \<le> MAXFILE
     \<and> (\<forall>i<l. fblk s ip i \<noteq> 0 \<and> (NDIRECT < l \<longrightarrow> fblk s ip i \<noteq> iaddrs (itable s ip) NDIRECT))
     \<and> (\<forall>i<l. \<forall>j<l. fblk s ip i = fblk s ip j \<longrightarrow> i = j)"

lemma room_small: "lh_n s < LOGBLOCKS \<Longrightarrow> room 1 {} s"
  by (simp add: room_def NBUF_def MAXOPBLOCKS_def LOGBLOCKS_def)

lemma bmap_mapped:
  fixes s :: "'z kfs_scheme"
  assumes "tinv {} s" "lh_n s < LOGBLOCKS" "idev (itable s ip) = ROOTDEV" "i < MAXFILE" "fblk s ip i \<noteq> 0"
  shows "\<exists>t. bmap ip (of_nat i) s = Ret (fblk s ip i) t \<and> tinv {} t \<and> content t ROOTDEV = content s ROOTDEV \<and> tframe s t
    \<and> lh_n t = lh_n s \<and> logged t = logged s"
proof -
  have i: "unat (of_nat i :: u32) = i" using assms(4) by (simp add: unat_of_nat MAXFILE_def NDIRECT_def NINDIRECT_def BSIZE_def)
  show ?thesis
  proof (cases "i < NDIRECT")
    case True
    then show ?thesis using assms i by (simp add: bmap_def fblk_def)
  next
    case False
    let ?ind = "iaddrs (itable s ip) NDIRECT"
    have ind: "?ind \<noteq> 0" "fblk s ip i = get32 (content s ROOTDEV ?ind) (4 * (i - NDIRECT))" using assms(5) False by (auto simp: fblk_def)
    have sub: "unat (of_nat i - of_nat NDIRECT :: u32) = i - NDIRECT"
      using False i by (subst unat_sub) (simp_all add: word_le_nat_alt NDIRECT_def)
    have lt: "i - NDIRECT < NINDIRECT" using assms(4) False by (simp add: MAXFILE_def)
    obtain b u where u: "bread ROOTDEV ?ind s = Ret b u" "tinv {?ind} u" "cached u ROOTDEV ?ind = Some b"
      "bdata (bufs u b) = content s ROOTDEV ?ind" "content u ROOTDEV = content s ROOTDEV" "tframe s u" "lh_n u = lh_n s" "logged u = logged s"
      using tread [OF assms(1) _ room_small [OF assms(2)], of ?ind] by auto
    obtain t where t: "brelse b u = Ret () t" "tinv {} t" "content t ROOTDEV = content u ROOTDEV" "tframe u t" "lh_n t = lh_n u" "logged t = logged u"
      using trel [OF u(2) insertI1 u(3)] by auto
    have "bmap ip (of_nat i) s = Ret (fblk s ip i) t"
      using False lt ind assms(3,5) u(1,4) t(1) by (simp add: bmap_def i sub Let_def)
    then show ?thesis using t u tframe_trans [OF u(6) t(4)] by auto
  qed
qed

lemma fblk_same:
  fixes s :: "'z kfs_scheme"
  assumes "itable t = itable s" "content t ROOTDEV = content s ROOTDEV"
  shows "fblk t ip i = fblk s ip i" "fbyte t ip k = fbyte s ip k" "file_ok l t ip = file_ok l s ip"
  using assms by (simp_all add: fblk_def fbyte_def file_ok_def)

section \<open>The chunks of a transfer\<close>

lemma BSIZE_pos [simp]: "0 < BSIZE"
  by (simp add: BSIZE_def)

lemma unat_BSIZE:
  "unat (off div of_nat BSIZE :: u32) = unat off div BSIZE" "unat (off mod of_nat BSIZE :: u32) = unat off mod BSIZE"
  by (simp_all add: BSIZE_def unat_div unat_mod)

lemma chunk_run:
  fixes off n tot :: u32
  assumes "tot < n" "unat off + (unat n - unat tot) < 2 ^ 32"
  defines "m \<equiv> unat (chunk n tot off)"
  shows "0 < m" "m \<le> unat n - unat tot" "unat off mod BSIZE + m \<le> BSIZE" "unat (off + chunk n tot off) = unat off + m"
    "unat (tot + chunk n tot off) = unat tot + m"
proof -
  have s: "unat (n - tot) = unat n - unat tot" using assms(1) by (simp add: unat_sub word_less_nat_alt word_le_nat_alt)
  have b: "unat (of_nat BSIZE - off mod of_nat BSIZE :: u32) = BSIZE - unat off mod BSIZE"
    by (subst unat_sub) (simp_all add: word_le_nat_alt unat_BSIZE, simp_all add: BSIZE_def)
  have m: "m = min (unat n - unat tot) (BSIZE - unat off mod BSIZE)"
    unfolding m_def chunk_def using s b by (simp add: min_def word_le_nat_alt)
  have lt: "unat off mod BSIZE < BSIZE" by simp
  then show "0 < m" "m \<le> unat n - unat tot" "unat off mod BSIZE + m \<le> BSIZE"
    using m assms(1) by (auto simp: word_less_nat_alt min_def)
  then show "unat (off + chunk n tot off) = unat off + m" "unat (tot + chunk n tot off) = unat tot + m"
    using assms(2) assms(1) unat_less32 [of n] by (auto simp: m_def word_less_nat_alt unat_word_ariths)
qed

lemma same_block: "(k :: nat) mod B + m \<le> B \<Longrightarrow> i < m \<Longrightarrow> (k + i) div B = k div B \<and> (k + i) mod B = k mod B + i"
proof -
  assume "k mod B + m \<le> B" "i < m"
  then have lt: "k mod B + i < B" by simp
  then have B: "B \<noteq> 0" by auto
  have e: "(k mod B + i) + B * (k div B) = k + i" by simp
  have "((k mod B + i) + B * (k div B)) div B = k div B" "((k mod B + i) + B * (k div B)) mod B = k mod B + i"
    unfolding div_mult_self2 [OF B] mod_mult_self2 using lt by simp_all
  then show ?thesis unfolding e by simp
qed

lemma rd_block:
  assumes "k mod BSIZE + m \<le> BSIZE"
  shows "rd (content s ROOTDEV (fblk s ip (k div BSIZE))) (k mod BSIZE) m = map (fbyte s ip) [k..<k + m]"
  using assms same_block [of k BSIZE m]
  by (intro nth_equalityI) (simp_all add: rd_def fbyte_def)

section \<open>Reading\<close>

lemma copyout_var: "quiet s \<Longrightarrow> either_copyout RVar bs s = Ret 0 s"
  by (simp add: either_copyout_def myproc_run quiet_def)

lemma copyin_var: "quiet s \<Longrightarrow> either_copyin (WVar bs) n s = Ret (0, take n bs) s"
  by (simp add: either_copyin_def myproc_run quiet_def)

lemma block_of: "k < l * BSIZE \<Longrightarrow> k div BSIZE < l"
  by (simp add: less_mult_imp_div_less)

lemma readi_loop_run:
  fixes s :: "'z kfs_scheme"
  assumes "tinv {} s" "lh_n s < LOGBLOCKS" "file_ok l s ip" "tot \<le> n" "unat n - unat tot \<le> f" "unat off + (unat n - unat tot) \<le> l * BSIZE"
  shows "\<exists>t. readi_loop f ip RVar off n tot acc s = Ret (sint n, acc @ map (fbyte s ip) [unat off..<unat off + (unat n - unat tot)]) t
    \<and> tinv {} t \<and> content t ROOTDEV = content s ROOTDEV \<and> tframe s t \<and> lh_n t = lh_n s"
  using assms
proof (induction f arbitrary: off tot acc s)
  case 0
  then have "tot = n" by (simp add: word_le_nat_alt word_unat_eq_iff)
  then show ?case using 0 by (simp add: readi_loop.simps)
next
  case (Suc f)
  show ?case
  proof (cases "tot < n")
    case False
    then have "tot = n" using Suc.prems(4) by simp
    then show ?thesis using Suc.prems by (simp add: readi_loop.simps)
  next
    case True
    let ?k = "unat off" and ?c = "chunk n tot off" and ?i = "unat off div BSIZE"
    have l: "l \<le> MAXFILE" "idev (itable s ip) = ROOTDEV" using Suc.prems(3) by (simp_all add: file_ok_def)
    have "l * BSIZE < 2 ^ 32" using l(1) by (simp add: MAXFILE_def NDIRECT_def NINDIRECT_def BSIZE_def)
    then have lim: "?k + (unat n - unat tot) < 2 ^ 32" using Suc.prems(6) by linarith
    note c = chunk_run [OF True lim]
    have i: "?i < l" using Suc.prems(6) c(1,2) by (intro block_of) linarith
    then have fi: "fblk s ip ?i \<noteq> 0" "?i < MAXFILE" using Suc.prems(3) l(1) by (auto simp: file_ok_def)
    have oi: "off div of_nat BSIZE = of_nat ?i" using unat_BSIZE(1) [of off] by (metis word_of_nat_unat)
    obtain u where u: "bmap ip (of_nat ?i) s = Ret (fblk s ip ?i) u" "tinv {} u" "content u ROOTDEV = content s ROOTDEV" "tframe s u" "lh_n u = lh_n s"
      using bmap_mapped [OF Suc.prems(1,2) l(2) fi(2,1)] by blast
    obtain b v where v: "bread ROOTDEV (fblk s ip ?i) u = Ret b v" "tinv {fblk s ip ?i} v" "cached v ROOTDEV (fblk s ip ?i) = Some b"
      "bdata (bufs v b) = content u ROOTDEV (fblk s ip ?i)" "content v ROOTDEV = content u ROOTDEV" "tframe u v" "lh_n v = lh_n u"
      using tread [OF u(2) _ room_small, of "fblk s ip ?i"] u(5) Suc.prems(2) by auto
    obtain w where w: "brelse b v = Ret () w" "tinv {} w" "content w ROOTDEV = content v ROOTDEV" "tframe v w" "lh_n w = lh_n v"
      using trel [OF v(2) insertI1 v(3)] by auto
    have sw: "tframe s w" by (rule tframe_trans [OF u(4) tframe_trans [OF v(6) w(4)]])
    note it = tframe_fs(1) [OF sw] tframe_fs(1) [OF u(4)]
    have cw: "content w ROOTDEV = content s ROOTDEV" using u(3) v(5) w(3) by simp
    note fs = fblk_same [OF it(1) cw]
    let ?bs = "rd (bdata (bufs v b)) (?k mod BSIZE) (unat ?c)"
    have bs: "?bs = map (fbyte s ip) [?k..<?k + unat ?c]" using rd_block [OF c(3), of s ip] u(3) v(4) by simp
    have q: "quiet v" using tinvD(11) [OF v(2)] .
    have step: "readi_loop (Suc f) ip RVar off n tot acc s = readi_loop f ip RVar (off + ?c) n (tot + ?c) (acc @ ?bs) w"
      unfolding readi_loop.simps [of "Suc f"] if_P [OF True] nat.case oi u(1) kbind.simps if_not_P [OF fi(1)] it(2) l(2) v(1) Let_def
        unat_BSIZE copyout_var [OF q] w(1) by simp
    have pre: "lh_n w < LOGBLOCKS" "file_ok l w ip" "tot + ?c \<le> n" "unat n - unat (tot + ?c) \<le> f"
      "unat (off + ?c) + (unat n - unat (tot + ?c)) \<le> l * BSIZE"
      unfolding fs(3) word_le_nat_alt c(4,5) using Suc.prems(2,3,5,6) w(5) v(7) u(5) c(1,2) True by (simp_all add: word_less_nat_alt)
    obtain t where t: "readi_loop f ip RVar (off + ?c) n (tot + ?c) (acc @ ?bs) w
        = Ret (sint n, (acc @ ?bs) @ map (fbyte w ip) [unat (off + ?c)..<unat (off + ?c) + (unat n - unat (tot + ?c))]) t"
      "tinv {} t" "content t ROOTDEV = content w ROOTDEV" "tframe w t" "lh_n t = lh_n w"
      using Suc.IH [OF w(2) pre] by blast
    have "map (fbyte s ip) [?k..<?k + unat ?c] @ map (fbyte w ip) [unat (off + ?c)..<unat (off + ?c) + (unat n - unat (tot + ?c))]
        = map (fbyte s ip) [?k..<?k + (unat n - unat tot)]"
      using c upt_add_eq_append [of ?k "?k + unat ?c" "unat n - unat tot - unat ?c"] fs(2) by (simp add: comp_def)
    then show ?thesis using step t cw w(5) v(7) u(5) tframe_trans [OF sw t(4)] bs by (intro exI [of _ t]) simp
  qed
qed

lemma readi_run:
  fixes s :: "'z kfs_scheme"
  assumes "tinv {} s" "lh_n s < LOGBLOCKS" "file_ok l s ip" "unat (isize (itable s ip)) \<le> l * BSIZE" "off \<le> isize (itable s ip)" "off \<le> off + n"
  shows "\<exists>t. readi ip RVar off n s = Ret (int (min (unat n) (unat (isize (itable s ip)) - unat off)),
        map (fbyte s ip) [unat off..<min (unat off + unat n) (unat (isize (itable s ip)))]) t
    \<and> tinv {} t \<and> content t ROOTDEV = content s ROOTDEV \<and> itable t = itable s"
proof -
  let ?sz = "isize (itable s ip)"
  define N where "N = (if off + n > ?sz then ?sz - off else n)"
  have o: "unat off \<le> unat ?sz" "unat (off + n) = unat off + unat n"
    using assms(5,6) unat_less32 [of n] by (auto simp: word_le_nat_alt unat_plus_if_size word_size split: if_splits)
  have n: "unat N = min (unat n) (unat ?sz - unat off)"
    using o assms(5) by (auto simp: N_def word_less_nat_alt unat_sub)
  have "l \<le> MAXFILE" using assms(3) by (simp add: file_ok_def)
  then have "unat N < 2 ^ 31" using n assms(4) by (simp add: MAXFILE_def NDIRECT_def NINDIRECT_def BSIZE_def)
  then have sn: "sint N = int (unat N)" by (rule sint_unat)
  have m: "unat off + unat N = min (unat off + unat n) (unat ?sz)" using n o by auto
  then have "unat off + unat N \<le> l * BSIZE" using assms(4) by linarith
  then obtain t where t: "readi_loop (unat N) ip RVar off N 0 [] s = Ret (sint N, map (fbyte s ip) [unat off..<unat off + unat N]) t"
    "tinv {} t" "content t ROOTDEV = content s ROOTDEV" "tframe s t"
    using readi_loop_run [OF assms(1-3), of 0 N "unat N" off "[]"] by auto
  have "readi ip RVar off n s = readi_loop (unat N) ip RVar off N 0 [] s"
  proof -
    have "\<not> (off > ?sz \<or> off + n < off)" using assms(5,6) by auto
    then show ?thesis unfolding readi_def Let_def N_def by (simp only: if_not_P if_False)
  qed
  then show ?thesis using t n sn m tframe_fs(1) [OF t(4)] by (intro exI [of _ t]) simp
qed

text \<open>
  \<open>readi\<close> reads the file. In a transaction, for a file whose blocks are allocated up to its size, it returns, hands
  over exactly the bytes of the file from \<open>off\<close> on, as many as asked for or until the end of the file, through direct
  blocks and the indirect block alike, and changes no block and no inode.
\<close>

theorem readi_content:
  fixes s :: "'z kfs_scheme"
  assumes "tinv {} s" "lh_n s < LOGBLOCKS" "file_ok l s ip" "unat (isize (itable s ip)) \<le> l * BSIZE" "off \<le> isize (itable s ip)" "off \<le> off + n"
  shows "\<exists>t. readi ip RVar off n s = Ret (int (min (unat n) (unat (isize (itable s ip)) - unat off)),
        map (fbyte s ip) [unat off..<min (unat off + unat n) (unat (isize (itable s ip)))]) t
    \<and> tinv {} t \<and> content t ROOTDEV = content s ROOTDEV \<and> itable t = itable s"
  by (rule readi_run [OF assms])

section \<open>Writing\<close>

text \<open>The blocks a transfer of \<open>n\<close> bytes from position \<open>k\<close> on touches.\<close>

definition touched :: "nat \<Rightarrow> nat \<Rightarrow> nat" where
  "touched k n = (if n = 0 then 0 else Suc ((k + n - 1) div BSIZE - k div BSIZE))"

lemma touched_step:
  assumes "0 < m" "m \<le> n" "k mod BSIZE + m \<le> BSIZE" "m = n \<or> k mod BSIZE + m = BSIZE"
  shows "touched k n = Suc (touched (k + m) (n - m))"
proof (cases "m = n")
  case True
  have "(k + (m - 1)) div BSIZE = k div BSIZE" using same_block [OF assms(3), of "m - 1"] assms(1) by simp
  then show ?thesis using True assms(1) by (simp add: touched_def)
next
  case False
  then have e: "k mod BSIZE + m = BSIZE" using assms(4) by simp
  have "k + m = BSIZE * (k div BSIZE) + (k mod BSIZE + m)" by simp
  then have km: "k + m = BSIZE * Suc (k div BSIZE)" unfolding e by simp
  then have d: "(k + m) div BSIZE = Suc (k div BSIZE)" by (metis BSIZE_pos nonzero_mult_div_cancel_left not_gr_zero)
  have "(k + m) div BSIZE \<le> (k + n - 1) div BSIZE" using assms(2) False by (intro div_le_mono) simp
  then show ?thesis using False assms(1,2) d by (simp add: touched_def Suc_diff_Suc)
qed

lemma fbyte_update:
  fixes s t :: "'z kfs_scheme"
  assumes "file_ok l s ip" "k div BSIZE < l" "k mod BSIZE + length bs \<le> BSIZE" "itable t = itable s"
    and "content t ROOTDEV = (content s ROOTDEV)(fblk s ip (k div BSIZE) := wr (content s ROOTDEV (fblk s ip (k div BSIZE))) (k mod BSIZE) bs)"
  shows "\<And>i. i < l \<Longrightarrow> fblk t ip i = fblk s ip i" "file_ok l t ip"
    "\<And>j. j < l * BSIZE \<Longrightarrow> fbyte t ip j = (if k \<le> j \<and> j < k + length bs then bs ! (j - k) else fbyte s ip j)"
proof -
  let ?b = "fblk s ip (k div BSIZE)" and ?ind = "iaddrs (itable s ip) NDIRECT"
  have f: "\<And>i. i < l \<Longrightarrow> fblk s ip i \<noteq> 0 \<and> (NDIRECT < l \<longrightarrow> fblk s ip i \<noteq> ?ind)" "\<And>i j. i < l \<Longrightarrow> j < l \<Longrightarrow> fblk s ip i = fblk s ip j \<Longrightarrow> i = j"
    using assms(1) by (auto simp: file_ok_def)
  show fb: "fblk t ip i = fblk s ip i" if "i < l" for i
  proof (cases "i < NDIRECT")
    case True
    then show ?thesis using assms(4) by (simp add: fblk_def)
  next
    case False
    then have "?b \<noteq> ?ind" using that f(1) assms(2) by auto
    then show ?thesis using assms(4,5) by (auto simp: fblk_def)
  qed
  then show "file_ok l t ip" using assms(1,4) by (simp add: file_ok_def)
  show "fbyte t ip j = (if k \<le> j \<and> j < k + length bs then bs ! (j - k) else fbyte s ip j)" if "j < l * BSIZE" for j
  proof -
    have j: "j div BSIZE < l" using that by (rule block_of)
    have tj: "fbyte t ip j = content t ROOTDEV (fblk s ip (j div BSIZE)) (j mod BSIZE)" using fb [OF j] by (simp add: fbyte_def)
    show ?thesis
    proof (cases "j div BSIZE = k div BSIZE")
      case True
      have "k = BSIZE * (k div BSIZE) + k mod BSIZE" "j = BSIZE * (k div BSIZE) + j mod BSIZE" using True by (metis mult_div_mod_eq)+
      then have iff: "k mod BSIZE \<le> j mod BSIZE \<longleftrightarrow> k \<le> j" "j mod BSIZE < k mod BSIZE + length bs \<longleftrightarrow> j < k + length bs" "j mod BSIZE - k mod BSIZE = j - k"
        by linarith+
      have "fbyte t ip j = wr (content s ROOTDEV ?b) (k mod BSIZE) bs (j mod BSIZE)" unfolding tj True assms(5) by simp
      then show ?thesis unfolding wr_def iff by (simp add: fbyte_def True)
    next
      case False
      then have "fblk s ip (j div BSIZE) \<noteq> ?b" using f(2) j assms(2) by blast
      then have "fbyte t ip j = fbyte s ip j" unfolding tj assms(5) by (simp add: fbyte_def)
      moreover have "\<not> (k \<le> j \<and> j < k + length bs)"
      proof
        assume "k \<le> j \<and> j < k + length bs"
        then have d: "j - k < length bs" "k + (j - k) = j" by auto
        then show False using same_block [OF assms(3) d(1)] False unfolding d(2) by simp
      qed
      ultimately show ?thesis by auto
    qed
  qed
qed

lemma chunk_full:
  fixes off n tot :: u32
  assumes "tot < n" "unat off + (unat n - unat tot) < 2 ^ 32"
  shows "unat (chunk n tot off) = unat n - unat tot \<or> unat off mod BSIZE + unat (chunk n tot off) = BSIZE"
proof -
  have s: "unat (n - tot) = unat n - unat tot" using assms(1) by (simp add: unat_sub word_less_nat_alt word_le_nat_alt)
  have b: "unat (of_nat BSIZE - off mod of_nat BSIZE :: u32) = BSIZE - unat off mod BSIZE"
    by (subst unat_sub) (simp_all add: word_le_nat_alt unat_BSIZE, simp_all add: BSIZE_def)
  have m: "unat (chunk n tot off) = min (unat n - unat tot) (BSIZE - unat off mod BSIZE)"
    unfolding chunk_def using s b by (simp add: min_def word_le_nat_alt)
  have "unat off mod BSIZE < BSIZE" by simp
  then show ?thesis using m by (auto simp: min_def)
qed

text \<open>One round of \<open>writei\<close> from a variable of the caller is one update of a block.\<close>

lemma writei_step:
  fixes s :: "'z kfs_scheme"
  assumes "tot < n" "bmap ip (off div of_nat BSIZE) s = Ret a u" "a \<noteq> 0" "idev (itable u ip) = ROOTDEV" "tinv {} u" "lh_n u < LOGBLOCKS"
    and "update_block a (\<lambda>d. wr d (unat off mod BSIZE) (take (unat (chunk n tot off)) bs)) u = Ret () t"
  shows "writei_loop (Suc f) ip (WVar bs) off n tot s
    = writei_loop f ip (WVar (drop (unat (chunk n tot off)) bs)) (off + chunk n tot off) n (tot + chunk n tot off) t"
proof -
  obtain b v where v: "bread ROOTDEV a u = Ret b v" "tinv {a} v" using tread [OF assms(5) _ room_small [OF assms(6)], of a] by auto
  have q: "quiet v" using tinvD(11) [OF v(2)] .
  let ?v = "upd_buf b (\<lambda>x. x\<lparr>bdata := wr (bdata x) (unat off mod BSIZE) (take (unat (chunk n tot off)) bs)\<rparr>) v"
  obtain w where w: "log_write b ?v = Ret () w" "brelse b w = Ret () t"
    using assms(7) unfolding update_block_def v(1) kbind.simps by (auto elim: kbind_RetE)
  show ?thesis
    unfolding writei_loop.simps [of "Suc f"] if_P [OF assms(1)] nat.case assms(2) kbind.simps if_not_P [OF assms(3)] assms(4) v(1) Let_def
      copyin_var [OF q] unat_BSIZE prod.case w(1) w(2) by simp
qed

lemma writei_loop_run:
  fixes s :: "'z kfs_scheme"
  assumes "tinv {} s" "lh_n s + int (touched (unat off) (unat n - unat tot)) < LOGBLOCKS" "file_ok l s ip" "tot \<le> n"
    and "unat n - unat tot \<le> f" "unat off + (unat n - unat tot) \<le> l * BSIZE" "length bs = unat n - unat tot"
    and "\<forall>i<l. fblk s ip i \<notin> log_area (log_start s)"
  shows "\<exists>t. writei_loop f ip (WVar bs) off n tot s = Ret (n, off + (n - tot)) t \<and> tinv {} t \<and> tframe s t \<and> file_ok l t ip
    \<and> lh_n t \<le> lh_n s + int (touched (unat off) (unat n - unat tot))
    \<and> (\<forall>i<l. fblk t ip i = fblk s ip i)
    \<and> (\<forall>j<l * BSIZE. fbyte t ip j = (if unat off \<le> j \<and> j < unat off + length bs then bs ! (j - unat off) else fbyte s ip j))
    \<and> (\<forall>x. (\<forall>i<l. x \<noteq> fblk s ip i) \<longrightarrow> content t ROOTDEV x = content s ROOTDEV x)"
  using assms
proof (induction f arbitrary: off tot bs s)
  case 0
  then have "tot = n" by (simp add: word_le_nat_alt word_unat_eq_iff)
  then show ?case using 0 by (intro exI [of _ s]) (auto simp: writei_loop.simps)
next
  case (Suc f)
  show ?case
  proof (cases "tot < n")
    case False
    then have "tot = n" using Suc.prems(4) by simp
    then show ?thesis using Suc.prems by (intro exI [of _ s]) (auto simp: writei_loop.simps)
  next
    case True
    let ?k = "unat off" and ?c = "chunk n tot off" and ?i = "unat off div BSIZE" and ?r = "unat n - unat tot"
    define m where "m = unat ?c"
    have room: "lh_n s < LOGBLOCKS" using Suc.prems(2) by simp
    have l: "l \<le> MAXFILE" "idev (itable s ip) = ROOTDEV" using Suc.prems(3) by (simp_all add: file_ok_def)
    have "l * BSIZE < 2 ^ 32" using l(1) by (simp add: MAXFILE_def NDIRECT_def NINDIRECT_def BSIZE_def)
    then have lim: "?k + ?r < 2 ^ 32" using Suc.prems(6) by linarith
    note c = chunk_run [OF True lim, folded m_def]
    note ts = touched_step [OF c(1,2,3) chunk_full [OF True lim, folded m_def]]
    have i: "?i < l" using Suc.prems(6) c(1,2) by (intro block_of) linarith
    then have fi: "fblk s ip ?i \<noteq> 0" "?i < MAXFILE" using Suc.prems(3) l(1) by (auto simp: file_ok_def)
    have oi: "off div of_nat BSIZE = of_nat ?i" using unat_BSIZE(1) [of off] by (metis word_of_nat_unat)
    obtain u where u: "bmap ip (off div of_nat BSIZE) s = Ret (fblk s ip ?i) u" "tinv {} u" "content u ROOTDEV = content s ROOTDEV"
      "tframe s u" "lh_n u = lh_n s" using bmap_mapped [OF Suc.prems(1) room l(2) fi(2,1)] unfolding oi by blast
    have la: "fblk s ip ?i \<notin> log_area (log_start u)" using Suc.prems(8) i tframe_same(3) [OF u(4)] by simp
    have ru: "lh_n u < LOGBLOCKS" using room u(5) by simp
    let ?g = "\<lambda>d. wr d (?k mod BSIZE) (take m bs)"
    obtain t1 where t1: "update_block (fblk s ip ?i) ?g u = Ret () t1" "tinv {} t1"
      "content t1 ROOTDEV = (content u ROOTDEV)(fblk s ip ?i := ?g (content u ROOTDEV (fblk s ip ?i)))" "tframe u t1"
      "lh_n t1 = (if fblk s ip ?i \<in> logged u then lh_n u else lh_n u + 1)"
      using tupdate [OF u(2) _ room_small [OF ru] ru la, of ?g] by auto
    have st1: "tframe s t1" by (rule tframe_trans [OF u(4) t1(4)])
    note it = tframe_fs(1) [OF st1] tframe_fs(1) [OF u(4)]
    have step: "writei_loop (Suc f) ip (WVar bs) off n tot s = writei_loop f ip (WVar (drop m bs)) (off + ?c) n (tot + ?c) t1"
      unfolding m_def by (rule writei_step [OF True u(1) fi(1) _ u(2) ru t1(1) [unfolded m_def]]) (simp add: it(2) l(2))
    have len: "length (take m bs) = m" using c(2) Suc.prems(7) by simp
    have cw: "content t1 ROOTDEV = (content s ROOTDEV)(fblk s ip ?i := wr (content s ROOTDEV (fblk s ip ?i)) (?k mod BSIZE) (take m bs))"
      using t1(3) u(3) by simp
    note fu = fbyte_update [OF Suc.prems(3) i _ it(1) cw, unfolded len, OF c(3)]
    have r: "unat n - unat (tot + ?c) = ?r - m" using c(5) by simp
    have pre: "lh_n t1 + int (touched (unat (off + ?c)) (unat n - unat (tot + ?c))) < LOGBLOCKS"
      "tot + ?c \<le> n" "unat n - unat (tot + ?c) \<le> f" "unat (off + ?c) + (unat n - unat (tot + ?c)) \<le> l * BSIZE"
      "length (drop m bs) = unat n - unat (tot + ?c)" "\<forall>i<l. fblk t1 ip i \<notin> log_area (log_start t1)"
      unfolding r word_le_nat_alt c(4,5) using Suc.prems(2,5,6,7,8) ts t1(5) u(5) c(1,2) True fu(1) tframe_same(3) [OF st1]
      by (auto simp: word_less_nat_alt)
    obtain t where t: "writei_loop f ip (WVar (drop m bs)) (off + ?c) n (tot + ?c) t1 = Ret (n, off + ?c + (n - (tot + ?c))) t"
      "tinv {} t" "tframe t1 t" "file_ok l t ip" "lh_n t \<le> lh_n t1 + int (touched (?k + m) (?r - m))" "\<forall>i<l. fblk t ip i = fblk t1 ip i"
      "\<forall>j<l * BSIZE. fbyte t ip j = (if ?k + m \<le> j \<and> j < ?k + m + length (drop m bs) then drop m bs ! (j - (?k + m)) else fbyte t1 ip j)"
      "\<forall>x. (\<forall>i<l. x \<noteq> fblk t1 ip i) \<longrightarrow> content t ROOTDEV x = content t1 ROOTDEV x"
      using Suc.IH [OF t1(2) pre(1) fu(2) pre(2-6)] unfolding c(4) r by blast
    have "fbyte t ip j = (if ?k \<le> j \<and> j < ?k + length bs then bs ! (j - ?k) else fbyte s ip j)" if "j < l * BSIZE" for j
      using t(7) [rule_format, OF that] fu(3) [OF that] len by (auto simp: not_le)
    moreover have "content t ROOTDEV x = content s ROOTDEV x" if "\<forall>i<l. x \<noteq> fblk s ip i" for x
      using t(8) fu(1) cw that i by auto
    moreover have "lh_n t \<le> lh_n s + int (touched ?k ?r)" using t(5) ts t1(5) u(5) by (auto split: if_splits)
    ultimately show ?thesis using step t fu(1) tframe_trans [OF st1 t(3)] by (intro exI [of _ t]) simp
  qed
qed

lemma fblk_cong:
  fixes s t :: "'z kfs_scheme"
  assumes "file_ok l s ip" "idev (itable t ip) = ROOTDEV" "iaddrs (itable t ip) = iaddrs (itable s ip)"
    and "\<forall>i<l. content t ROOTDEV (fblk s ip i) = content s ROOTDEV (fblk s ip i)"
    and "NDIRECT < l \<longrightarrow> content t ROOTDEV (iaddrs (itable s ip) NDIRECT) = content s ROOTDEV (iaddrs (itable s ip) NDIRECT)"
  shows "file_ok l t ip" "\<And>j. j < l * BSIZE \<Longrightarrow> fbyte t ip j = fbyte s ip j"
proof -
  have f: "fblk t ip i = fblk s ip i" if "i < l" for i using that assms(3,5) by (auto simp: fblk_def)
  then show "file_ok l t ip" using assms(1-3) by (simp add: file_ok_def)
  show "fbyte t ip j = fbyte s ip j" if "j < l * BSIZE" for j
    using block_of [OF that] f assms(4) by (simp add: fbyte_def)
qed

text \<open>The table of inodes in memory is not part of what a transaction keeps.\<close>

lemma bc_itable [simp]:
  fixes s :: "'z kfs_scheme"
  shows "bview (s\<lparr>itable := x\<rparr>) = bview s" "bc_ref (s\<lparr>itable := x\<rparr>) = bc_ref s" "bc_held (s\<lparr>itable := x\<rparr>) = bc_held s"
    "bc_inv (s\<lparr>itable := x\<rparr>) = bc_inv s" "logged (s\<lparr>itable := x\<rparr>) = logged s"
proof -
  show v: "bview (s\<lparr>itable := x\<rparr>) = bview s" by (simp add: bview_def fun_eq_iff)
  show "bc_ref (s\<lparr>itable := x\<rparr>) = bc_ref s" "bc_held (s\<lparr>itable := x\<rparr>) = bc_held s"
    by (simp_all add: bc_ref_def bc_held_def v fun_eq_iff blocked_def cong: option.case_cong)
  show "bc_inv (s\<lparr>itable := x\<rparr>) = bc_inv s"
    by (simp add: bc_inv_def bio_inv_def v quiet_def cpu_ok_def lk_free_def cur_pid_def blocked_def running_def cong: option.case_cong)
  show "logged (s\<lparr>itable := x\<rparr>) = logged s" by (simp add: logged_def)
qed

lemma tinv_itable [simp]: "tinv H (s\<lparr>itable := x\<rparr>) = tinv H (s :: 'z kfs_scheme)"
  by (simp add: tinv_def)

text \<open>The end of \<open>writei\<close>: the new size, and the inode in its block.\<close>

lemma writei_end:
  fixes s :: "'z kfs_scheme" and z :: u32
  assumes "tinv {} s" "lh_n s < LOGBLOCKS" "file_ok l s ip" "IBLOCK (inum (itable s ip)) (sb s) \<notin> log_area (log_start s)"
    and "\<forall>i<l. fblk s ip i \<noteq> IBLOCK (inum (itable s ip)) (sb s)"
    and "NDIRECT < l \<longrightarrow> iaddrs (itable s ip) NDIRECT \<noteq> IBLOCK (inum (itable s ip)) (sb s)"
  defines "s' \<equiv> upd_inode ip (\<lambda>x. x\<lparr>isize := z\<rparr>) s"
  shows "\<exists>t. iupdate ip s' = Ret () t \<and> tinv {} t \<and> itable t = itable s' \<and> lh_n t \<le> lh_n s + 1 \<and> file_ok l t ip
    \<and> (\<forall>j<l * BSIZE. fbyte t ip j = fbyte s ip j)"
proof -
  have e: "tspace s'" "content s' ROOTDEV = content s ROOTDEV" "lh_n s' = lh_n s" "log_start s' = log_start s" "sb s' = sb s"
    "itable s' ip = (itable s ip)\<lparr>isize := z\<rparr>" using assms(1,2) by (simp_all add: s'_def upd_inode_def tspace_def)
  have d: "idev (itable s' ip) = ROOTDEV" "idev (itable s ip) = ROOTDEV" using assms(3) e(6) by (simp_all add: file_ok_def)
  note r = tspace_room [OF e(1)]
  let ?n = "IBLOCK (inum (itable s ip)) (sb s)"
  have la: "?n \<notin> log_area (log_start s')" using assms(4) e(4) by simp
  obtain t where t: "iupdate ip s' = Ret () t" "tinv {} t" "tframe s' t" "lh_n t = (if ?n \<in> logged s' then lh_n s' else lh_n s' + 1)"
    "content t ROOTDEV = (content s' ROOTDEV)(?n := store_dinode (itable s' ip) (dip_off (inum (itable s' ip))) (content s' ROOTDEV ?n))"
    using tupdate [OF r(1) _ r(2,3) la, of "store_dinode (itable s' ip) (dip_off (inum (itable s' ip)))"] iupdate_eq [OF e(1) d(1)] e(5,6) by auto
  have it: "itable t = itable s'" using tframe_fs(1) [OF t(3)] .
  have c: "content t ROOTDEV x = content s ROOTDEV x" if "x \<noteq> ?n" for x using that t(5) e(2) by simp
  have "idev (itable t ip) = ROOTDEV" "iaddrs (itable t ip) = iaddrs (itable s ip)" using it e(6) d by simp_all
  note f = fblk_cong [OF assms(3) this]
  have "file_ok l t ip" "\<And>j. j < l * BSIZE \<Longrightarrow> fbyte t ip j = fbyte s ip j" using f c assms(5,6) by auto
  then show ?thesis using t it e(3) by (intro exI [of _ t]) auto
qed

text \<open>
  C9: \<open>writei\<close> followed by \<open>readi\<close>. In a transaction with room in the log for the blocks the transfer touches and for the
  inode, a write inside the allocated blocks of a file returns the number of bytes asked for, sets the bytes
  \<open>off\<close> to \<open>off + n\<close> of the file to the ones given, leaves all the others as they were, and extends
  the size to the end of the write if that was smaller; reading the same range then gives back the bytes written.
\<close>

theorem writei_readi:
  fixes s :: "'z kfs_scheme"
  assumes "tinv {} s" "lh_n s + int (touched (unat off) (length bs)) + 1 < LOGBLOCKS" "file_ok l s ip"
    and "off \<le> isize (itable s ip)" "unat off + length bs \<le> l * BSIZE" "unat (isize (itable s ip)) \<le> l * BSIZE"
    and "\<forall>i<l. fblk s ip i \<notin> log_area (log_start s) \<and> fblk s ip i \<noteq> IBLOCK (inum (itable s ip)) (sb s)"
    and "IBLOCK (inum (itable s ip)) (sb s) \<notin> log_area (log_start s)"
    and "NDIRECT < l \<longrightarrow> iaddrs (itable s ip) NDIRECT \<noteq> IBLOCK (inum (itable s ip)) (sb s)"
  shows "\<exists>t. writei ip (WVar bs) off (of_nat (length bs)) s = Ret (int (length bs)) t \<and> tinv {} t
    \<and> unat (isize (itable t ip)) = max (unat (isize (itable s ip))) (unat off + length bs)
    \<and> (\<forall>j<l * BSIZE. fbyte t ip j = (if unat off \<le> j \<and> j < unat off + length bs then bs ! (j - unat off) else fbyte s ip j))
    \<and> (\<exists>u. readi ip RVar off (of_nat (length bs)) t = Ret (int (length bs), bs) u \<and> tinv {} u \<and> content u ROOTDEV = content t ROOTDEV)"
proof -
  let ?n = "of_nat (length bs) :: u32" and ?b = "IBLOCK (inum (itable s ip)) (sb s)" and ?sz = "isize (itable s ip)"
  have l: "l \<le> MAXFILE" using assms(3) by (simp add: file_ok_def)
  then have lim: "l * BSIZE \<le> MAXFILE * BSIZE" "MAXFILE * BSIZE < 2 ^ 31" by (simp_all add: MAXFILE_def NDIRECT_def NINDIRECT_def BSIZE_def)
  have len: "unat off + length bs < 2 ^ 31" using assms(5) lim by linarith
  then have n: "unat ?n = length bs" by (simp add: unat_of_nat)
  have on: "unat (off + ?n) = unat off + length bs" using len n by (simp add: unat_word_ariths)
  have sn: "sint ?n = int (length bs)" using sint_unat [of ?n] n len by simp
  obtain t where t: "writei_loop (unat ?n) ip (WVar bs) off ?n 0 s = Ret (?n, off + ?n) t" "tinv {} t" "tframe s t" "file_ok l t ip"
    "lh_n t \<le> lh_n s + int (touched (unat off) (length bs))" "\<forall>i<l. fblk t ip i = fblk s ip i"
    "\<forall>j<l * BSIZE. fbyte t ip j = (if unat off \<le> j \<and> j < unat off + length bs then bs ! (j - unat off) else fbyte s ip j)"
    using writei_loop_run [OF assms(1) _ assms(3), of off ?n 0 "length bs" bs] assms(2,5,7) n by auto
  note fr = tframe_fs(1,2) [OF t(3)] tframe_same(3) [OF t(3)]
  define z where "z = (if off + ?n > ?sz then off + ?n else ?sz)"
  have z: "unat z = max (unat ?sz) (unat off + length bs)" using on by (auto simp: z_def word_less_nat_alt)
  let ?t = "upd_inode ip (\<lambda>x. x\<lparr>isize := z\<rparr>) t"
  have "lh_n t < LOGBLOCKS" using t(5) assms(2) by linarith
  then obtain v where v: "iupdate ip ?t = Ret () v" "tinv {} v" "itable v = itable ?t" "lh_n v \<le> lh_n t + 1" "file_ok l v ip"
    "\<forall>j<l * BSIZE. fbyte v ip j = fbyte t ip j"
    using writei_end [OF t(2) _ t(4), of z] assms(7-9) t(6) unfolding fr by auto
  have iv: "itable v ip = (itable s ip)\<lparr>isize := z\<rparr>" using v(3) fr(1) by (simp add: upd_inode_def)
  have te: "(if off + ?n > isize (itable t ip) then upd_inode ip (\<lambda>x. x\<lparr>isize := off + ?n\<rparr>) t else t) = ?t"
    using fr(1) by (auto simp: z_def upd_inode_def)
  have "\<not> (off > ?sz \<or> off + ?n < off)" "\<not> unat (off + ?n) > MAXFILE * BSIZE"
    unfolding word_less_nat_alt on using assms(4) [unfolded word_le_nat_alt] order_trans [OF assms(5) lim(1)] by linarith+
  then have w: "writei ip (WVar bs) off ?n s = Ret (int (length bs)) v"
    unfolding writei_def if_not_P t(1) [unfolded n] n kbind.simps prod.case Let_def te v(1) by (simp add: sn t(1) [unfolded n] te v(1))
  have fv: "fbyte v ip j = (if unat off \<le> j \<and> j < unat off + length bs then bs ! (j - unat off) else fbyte s ip j)" if "j < l * BSIZE" for j
    using that v(6) t(7) by simp
  have "lh_n v < LOGBLOCKS" using v(4) t(5) assms(2) by linarith
  moreover have "unat (isize (itable v ip)) \<le> l * BSIZE" "off \<le> isize (itable v ip)" "off \<le> off + ?n"
    using z assms(5,6) on by (simp_all add: iv word_le_nat_alt)
  ultimately obtain u where u: "readi ip RVar off ?n v = Ret (int (min (unat ?n) (unat (isize (itable v ip)) - unat off)),
      map (fbyte v ip) [unat off..<min (unat off + unat ?n) (unat (isize (itable v ip)))]) u" "tinv {} u" "content u ROOTDEV = content v ROOTDEV"
    using readi_run [OF v(2) _ v(5), of off ?n] by blast
  have "map (fbyte v ip) [unat off..<unat off + length bs] = bs" using fv assms(5) by (intro nth_equalityI) simp_all
  moreover have "min (length bs) (unat z - unat off) = length bs" "min (unat off + length bs) (unat z) = unat off + length bs" using z by auto
  ultimately have "readi ip RVar off ?n v = Ret (int (length bs), bs) u" using u(1) by (simp add: iv n)
  then show ?thesis using w v(2) iv z fv u(2,3) by (intro exI [of _ v]) simp
qed

section \<open>A file of one block\<close>

lemma demo_file: "file_ok 1 demo_kfs ip" "fblk demo_kfs ip 0 = 50" "j < BSIZE \<Longrightarrow> fbyte demo_kfs ip j = 0"
proof -
  show b: "fblk demo_kfs ip 0 = 50" by (simp add: fblk_def demo_inode_def NDIRECT_def)
  then show "file_ok 1 demo_kfs ip" by (simp add: file_ok_def demo_inode_def NDIRECT_def MAXFILE_def)
  show "fbyte demo_kfs ip j = 0" if "j < BSIZE" using that unfolding fbyte_def demo_tinv(2) by (simp add: b demo_disk_def)
qed

lemma demo_size: "isize (demo_inode ip) = 5" "IBLOCK (inum (demo_inode ip)) demo_sb = 34"
  by (simp_all add: demo_inode_def IBLOCK_def IPB_def BSIZE_def demo_sb_def)

theorem readi_content_witness: "\<exists>t. readi 7 RVar 3 10 demo_kfs = Ret (2, [0, 0]) t \<and> itable t = itable demo_kfs"
proof -
  have r: "lh_n demo_kfs < LOGBLOCKS" by (simp add: LOGBLOCKS_def MAXOPBLOCKS_def)
  have "[3..<5 :: nat] = [3, 4]" by (simp add: upt_rec)
  then show ?thesis
    using readi_content [OF demo_tinv(1) r demo_file(1), of 7 3 10] by (auto simp: demo_size BSIZE_def demo_file)
qed

theorem writei_readi_witness:
  "\<exists>t. writei 7 (WVar [65, 66, 67]) 4 3 demo_kfs = Ret 3 t \<and> unat (isize (itable t 7)) = 7
     \<and> (\<exists>u. readi 7 RVar 4 3 t = Ret (3, [65, 66, 67]) u)"
proof -
  have "(50 :: u32) \<notin> log_area 2" "(34 :: u32) \<notin> log_area 2" by (rule notin_log_area, simp)+
  moreover have "touched 4 (Suc (Suc (Suc 0))) = 1" by (simp add: touched_def BSIZE_def)
  moreover have "lh_n demo_kfs + 1 + 1 < LOGBLOCKS" by (simp add: LOGBLOCKS_def MAXOPBLOCKS_def)
  ultimately show ?thesis
    using writei_readi [OF demo_tinv(1) _ demo_file(1), of 4 "[65, 66, 67]" 7]
    by (auto simp: demo_size BSIZE_def demo_file NDIRECT_def)
qed

end
