(* ===== verification/MkfsSpec.thy ===== *)
theory MkfsSpec
  imports Mkfs FileSpec
begin

text \<open>
  The image that \<^verbatim>\<open>mkfs/mkfs.c\<close> writes is the file system that \<^verbatim>\<open>kernel/fs.c\<close> reads: the superblock, the
  bitmap, the inodes, the root directory and the content of every file.
\<close>

section \<open>Sectors and constants\<close>

lemma xint_id [simp]: "xint x = x"
proof -
  have four: "(4 :: nat) = Suc (Suc (Suc (Suc 0)))" by simp
  have "le_bytes 4 x = [ucast x, ucast (drop_bit 8 x), ucast (drop_bit 16 x), ucast (drop_bit 24 x)]"
    unfolding four by (simp add: drop_bit_drop_bit)
  then show ?thesis unfolding xint_def using of_le_32 [of x] by simp
qed

lemma xshort_id [simp]: "xshort x = x"
proof -
  have "le_bytes 2 x = [ucast x, ucast (drop_bit 8 x)]" by (simp add: numeral_eq_Suc)
  then show ?thesis unfolding xshort_def using of_le_16 [of x] by simp
qed

lemma layout [simp]: "nlogblocks = 31" "ninodeblocks = 13" "nbitmap = 1" "nmeta = 47"
  by (simp_all add: nlogblocks_def ninodeblocks_def nbitmap_def nmeta_def LOGBLOCKS_def MAXOPBLOCKS_def NINODES_def IPB_def FSSIZE_def BPB_def BSIZE_def)

lemma new_sb_sel [simp]: "inodestart new_sb = 33" "bmapstart new_sb = 46" "logstart new_sb = 2" "sb_size new_sb = 2000" "magic new_sb = FSMAGIC"
  by (simp_all add: new_sb_def FSSIZE_def)

lemma sect_at_small: "unat x < 2 ^ 22 \<Longrightarrow> sect_at x = unat x"
  by (simp add: sect_at_def BSIZE_def unat_word_ariths)

lemma sect_at_nat [simp]: "b < 2 ^ 22 \<Longrightarrow> sect_at (of_nat b) = b"
  by (subst sect_at_small) (simp_all add: unat_of_nat)

section \<open>The blocks of a file\<close>

text \<open>Block \<open>j\<close> of a file, where \<open>MAXFILE\<close> stands for its indirect block, and the blocks that \<open>n\<close> data blocks take.\<close>

definition faddr :: "(nat \<Rightarrow> bytes) \<Rightarrow> dinode \<Rightarrow> nat \<Rightarrow> nat" where
  "faddr S d j =
     (if j < NDIRECT then unat (d_addrs d j)
      else if j = MAXFILE then unat (d_addrs d NDIRECT)
      else if d_addrs d NDIRECT = 0 then 0
      else unat (get32 (S (unat (d_addrs d NDIRECT))) (4 * (j - NDIRECT))))"

definition slots :: "nat \<Rightarrow> nat set" where
  "slots n = {j. j < n \<or> j = MAXFILE \<and> NDIRECT < n}"

definition nblk :: "nat \<Rightarrow> nat" where
  "nblk n = (if NDIRECT < n then Suc n else n)"

definition need :: "nat \<Rightarrow> nat" where
  "need l = (l + BSIZE - 1) div BSIZE"

lemma faddr_cong:
  assumes "d_addrs d NDIRECT \<noteq> 0 \<Longrightarrow> S' (faddr S d MAXFILE) = S (faddr S d MAXFILE)"
  shows "faddr S' d j = faddr S d j"
  using assms by (auto simp: faddr_def MAXFILE_def)

lemma faddr_zero: "faddr S d j = 0" if "\<forall>i\<le>NDIRECT. d_addrs d i = 0"
  using that by (simp add: faddr_def)

text \<open>
  What the allocation of blocks keeps, for \<open>k\<close> inodes with contents \<open>D i\<close> in memory and \<open>nb i\<close> data blocks: blocks
  are taken one after the other, no block twice, and what has not been taken is zero.
\<close>

definition blocks_in :: "nat \<Rightarrow> (nat \<Rightarrow> dinode) \<Rightarrow> (nat \<Rightarrow> nat) \<Rightarrow> image \<Rightarrow> bool" where
  "blocks_in k D nb s \<longleftrightarrow> (\<forall>i j. i \<in> {1..k} \<longrightarrow> j \<in> slots (nb i) \<longrightarrow>
     47 \<le> faddr (sectors s) (D i) j \<and> faddr (sectors s) (D i) j < unat (freeblock s))"

definition blocks_none :: "nat \<Rightarrow> (nat \<Rightarrow> dinode) \<Rightarrow> (nat \<Rightarrow> nat) \<Rightarrow> image \<Rightarrow> bool" where
  "blocks_none k D nb s \<longleftrightarrow> (\<forall>i j. i \<in> {1..k} \<longrightarrow> j \<le> MAXFILE \<longrightarrow> j \<notin> slots (nb i) \<longrightarrow> faddr (sectors s) (D i) j = 0)"

definition blocks_inj :: "nat \<Rightarrow> (nat \<Rightarrow> dinode) \<Rightarrow> (nat \<Rightarrow> nat) \<Rightarrow> image \<Rightarrow> bool" where
  "blocks_inj k D nb s \<longleftrightarrow> (\<forall>i i' j j'. i \<in> {1..k} \<longrightarrow> i' \<in> {1..k} \<longrightarrow> j \<in> slots (nb i) \<longrightarrow> j' \<in> slots (nb i') \<longrightarrow>
     faddr (sectors s) (D i) j = faddr (sectors s) (D i') j' \<longrightarrow> i = i' \<and> j = j')"

definition ainv :: "nat \<Rightarrow> (nat \<Rightarrow> dinode) \<Rightarrow> (nat \<Rightarrow> nat) \<Rightarrow> image \<Rightarrow> bool" where
  "ainv k D nb s \<longleftrightarrow> nsect s = 2000 \<and> msb s = new_sb \<and> unat (freeblock s) \<le> 2000
     \<and> unat (freeblock s) = 47 + (\<Sum>i=1..k. nblk (nb i)) \<and> (\<forall>b\<ge>unat (freeblock s). sectors s b = (\<lambda>_. 0))
     \<and> (\<forall>i\<in>{1..k}. nb i \<le> MAXFILE) \<and> blocks_in k D nb s \<and> blocks_none k D nb s \<and> blocks_inj k D nb s"

lemma ainvD:
  assumes "ainv k D nb s"
  shows "nsect s = 2000" "msb s = new_sb" "unat (freeblock s) \<le> 2000" "unat (freeblock s) = 47 + (\<Sum>i=1..k. nblk (nb i))"
    "\<And>b. unat (freeblock s) \<le> b \<Longrightarrow> sectors s b = (\<lambda>_. 0)"
    "\<And>i. i \<in> {1..k} \<Longrightarrow> nb i \<le> MAXFILE"
    "\<And>i j. i \<in> {1..k} \<Longrightarrow> j \<in> slots (nb i) \<Longrightarrow> 47 \<le> faddr (sectors s) (D i) j \<and> faddr (sectors s) (D i) j < unat (freeblock s)"
    "\<And>i j. i \<in> {1..k} \<Longrightarrow> j \<le> MAXFILE \<Longrightarrow> j \<notin> slots (nb i) \<Longrightarrow> faddr (sectors s) (D i) j = 0"
    "\<And>i i' j j'. i \<in> {1..k} \<Longrightarrow> i' \<in> {1..k} \<Longrightarrow> j \<in> slots (nb i) \<Longrightarrow> j' \<in> slots (nb i')
       \<Longrightarrow> faddr (sectors s) (D i) j = faddr (sectors s) (D i') j' \<Longrightarrow> i = i' \<and> j = j'"
proof -
  have a: "blocks_in k D nb s" "blocks_none k D nb s" "blocks_inj k D nb s" using assms by (simp_all only: ainv_def)
  show "nsect s = 2000" "msb s = new_sb" "unat (freeblock s) \<le> 2000" "unat (freeblock s) = 47 + (\<Sum>i=1..k. nblk (nb i))"
    "\<And>b. unat (freeblock s) \<le> b \<Longrightarrow> sectors s b = (\<lambda>_. 0)" "\<And>i. i \<in> {1..k} \<Longrightarrow> nb i \<le> MAXFILE"
    using assms unfolding ainv_def by simp_all
  show "\<And>i j. i \<in> {1..k} \<Longrightarrow> j \<in> slots (nb i) \<Longrightarrow> 47 \<le> faddr (sectors s) (D i) j \<and> faddr (sectors s) (D i) j < unat (freeblock s)"
    using a(1) unfolding blocks_in_def by blast
  show "\<And>i j. i \<in> {1..k} \<Longrightarrow> j \<le> MAXFILE \<Longrightarrow> j \<notin> slots (nb i) \<Longrightarrow> faddr (sectors s) (D i) j = 0"
    using a(2) unfolding blocks_none_def by blast
  show "\<And>i i' j j'. i \<in> {1..k} \<Longrightarrow> i' \<in> {1..k} \<Longrightarrow> j \<in> slots (nb i) \<Longrightarrow> j' \<in> slots (nb i')
       \<Longrightarrow> faddr (sectors s) (D i) j = faddr (sectors s) (D i') j' \<Longrightarrow> i = i' \<and> j = j'"
    using a(3) unfolding blocks_inj_def by blast
qed

lemma ainvI:
  assumes "nsect s = 2000" "msb s = new_sb" "unat (freeblock s) \<le> 2000" "unat (freeblock s) = 47 + (\<Sum>i=1..k. nblk (nb i))"
    "\<And>b. unat (freeblock s) \<le> b \<Longrightarrow> sectors s b = (\<lambda>_. 0)"
    "\<And>i. i \<in> {1..k} \<Longrightarrow> nb i \<le> MAXFILE"
    "\<And>i j. i \<in> {1..k} \<Longrightarrow> j \<in> slots (nb i) \<Longrightarrow> 47 \<le> faddr (sectors s) (D i) j \<and> faddr (sectors s) (D i) j < unat (freeblock s)"
    "\<And>i j. i \<in> {1..k} \<Longrightarrow> j \<le> MAXFILE \<Longrightarrow> j \<notin> slots (nb i) \<Longrightarrow> faddr (sectors s) (D i) j = 0"
    "\<And>i i' j j'. i \<in> {1..k} \<Longrightarrow> i' \<in> {1..k} \<Longrightarrow> j \<in> slots (nb i) \<Longrightarrow> j' \<in> slots (nb i')
       \<Longrightarrow> faddr (sectors s) (D i) j = faddr (sectors s) (D i') j' \<Longrightarrow> i = i' \<and> j = j'"
  shows "ainv k D nb s"
proof -
  have "blocks_in k D nb s" unfolding blocks_in_def using assms(7) by blast
  moreover have "blocks_none k D nb s" unfolding blocks_none_def using assms(8) by blast
  moreover have "blocks_inj k D nb s" unfolding blocks_inj_def by (intro allI impI) (rule assms(9))
  ultimately show ?thesis unfolding ainv_def using assms(1-6) by simp
qed

lemma ind_slot:
  assumes "ainv k D nb s" "i \<in> {1..k}" "d_addrs (D i) NDIRECT \<noteq> 0"
  shows "MAXFILE \<in> slots (nb i)"
proof (rule ccontr)
  assume "MAXFILE \<notin> slots (nb i)"
  then have "faddr (sectors s) (D i) MAXFILE = 0" using ainvD(8) [OF assms(1,2)] by simp
  then show False using assms(3) by (simp add: faddr_def MAXFILE_def unat_eq_0)
qed

text \<open>The invariant reads only the data blocks.\<close>

lemma ainv_cong:
  assumes "ainv k D nb s" "\<And>b. 47 \<le> b \<Longrightarrow> sectors t b = sectors s b" "nsect t = nsect s" "msb t = msb s" "freeblock t = freeblock s"
  shows "ainv k D nb t" "i \<in> {1..k} \<Longrightarrow> faddr (sectors t) (D i) j = faddr (sectors s) (D i) j"
proof -
  show f: "faddr (sectors t) (D i) j = faddr (sectors s) (D i) j" if "i \<in> {1..k}" for i j
    using ainvD(7) [OF assms(1) that ind_slot [OF assms(1) that]] by (intro faddr_cong) (simp add: assms(2))
  note I = ainvD [OF assms(1)]
  show "ainv k D nb t"
  proof (rule ainvI; (unfold assms(3-5))?)
    fix b assume "unat (freeblock s) \<le> b"
    then show "sectors t b = (\<lambda>_. 0)" using I(4) I(5) [of b] assms(2) [of b] by simp
  next
    fix i i' j j'
    assume a: "i \<in> {1..k}" "i' \<in> {1..k}" "j \<in> slots (nb i)" "j' \<in> slots (nb i')" "faddr (sectors t) (D i) j = faddr (sectors t) (D i') j'"
    show "i = i' \<and> j = j'" using I(9) [OF a(1-4)] a(5) f [OF a(1)] f [OF a(2)] by simp
  qed (use I(1-4,6-8) f in simp_all)
qed

text \<open>Growth of one file by one data block.\<close>

lemma ainv_grow:
  assumes "ainv k D nb s" "i \<in> {1..k}" "n = nb i" "n < MAXFILE"
    and "nsect t = nsect s" "msb t = msb s" "unat (freeblock t) = unat (freeblock s) + (nblk (Suc n) - nblk n)" "unat (freeblock t) \<le> FSSIZE"
    and same: "\<And>b. b \<noteq> faddr (sectors t) d' MAXFILE \<Longrightarrow> sectors t b = sectors s b"
    and new: "\<And>j. j \<in> slots (Suc n) - slots n \<Longrightarrow>
        unat (freeblock s) \<le> faddr (sectors t) d' j \<and> faddr (sectors t) d' j < unat (freeblock t)"
      "\<And>j j'. j \<in> slots (Suc n) - slots n \<Longrightarrow> j' \<in> slots (Suc n) - slots n \<Longrightarrow>
        faddr (sectors t) d' j = faddr (sectors t) d' j' \<Longrightarrow> j = j'"
    and old: "\<And>j. j \<in> slots n \<Longrightarrow> faddr (sectors t) d' j = faddr (sectors s) (D i) j"
    and none: "\<And>j. j \<le> MAXFILE \<Longrightarrow> j \<notin> slots (Suc n) \<Longrightarrow> faddr (sectors t) d' j = 0"
  shows "ainv k (D(i := d')) (nb(i := Suc n)) t"
    "\<And>i' j. i' \<in> {1..k} \<Longrightarrow> i' \<noteq> i \<Longrightarrow> faddr (sectors t) (D i') j = faddr (sectors s) (D i') j"
proof -
  note I = ainvD [OF assms(1)]
  have sub: "slots n \<subseteq> slots (Suc n)" by (auto simp: slots_def)
  have mx: "faddr (sectors t) d' MAXFILE = 0 \<or> faddr (sectors t) d' MAXFILE \<ge> unat (freeblock s) \<or>
      MAXFILE \<in> slots n \<and> faddr (sectors t) d' MAXFILE = faddr (sectors s) (D i) MAXFILE"
    using none [of MAXFILE] new(1) [of MAXFILE] old [of MAXFILE] by blast
  show other: "faddr (sectors t) (D i') j = faddr (sectors s) (D i') j" if "i' \<in> {1..k}" "i' \<noteq> i" for i' j
  proof (rule faddr_cong)
    assume "d_addrs (D i') NDIRECT \<noteq> 0"
    then have m: "MAXFILE \<in> slots (nb i')" by (rule ind_slot [OF assms(1) that(1)])
    have "faddr (sectors s) (D i') MAXFILE \<noteq> faddr (sectors t) d' MAXFILE"
      using mx I(7) [OF that(1) m] I(9) [OF that(1) assms(2) m, of MAXFILE] that(2) assms(3) by auto
    then show "sectors t (faddr (sectors s) (D i') MAXFILE) = sectors s (faddr (sectors s) (D i') MAXFILE)" by (rule same)
  qed
  have mlt: "faddr (sectors t) d' MAXFILE < unat (freeblock t)"
    using none [of MAXFILE] new(1) [of MAXFILE] old [of MAXFILE] I(7) [OF assms(2), of MAXFILE] I(4) assms(3,7) by fastforce
  have zero: "sectors t b = (\<lambda>_. 0)" if "unat (freeblock t) \<le> b" for b
    using same [of b] mlt that I(5) [of b] assms(7) by auto
  have r: "(\<Sum>x=1..k. nblk (nb x)) = nblk (nb i) + (\<Sum>x\<in>{1..k} - {i}. nblk (nb x))"
    "(\<Sum>x=1..k. nblk ((nb(i := Suc n)) x)) = nblk (Suc n) + (\<Sum>x\<in>{1..k} - {i}. nblk ((nb(i := Suc n)) x))"
    using assms(2) by (subst sum.remove [of _ i]; simp)+
  have "nblk n \<le> nblk (Suc n)" by (simp add: nblk_def)
  then have cnt: "unat (freeblock t) = 47 + (\<Sum>x=1..k. nblk ((nb(i := Suc n)) x))"
    using assms(3,7) I(4) r by simp
  have here: "47 \<le> faddr (sectors t) d' j \<and> faddr (sectors t) d' j < unat (freeblock t)" if "j \<in> slots (Suc n)" for j
    using new(1) [of j] old [of j] I(7) [OF assms(2), of j] I(4) assms(3,7) that by fastforce
  have fresh: "faddr (sectors t) d' j \<noteq> faddr (sectors s) (D i') j'"
    if "j \<in> slots (Suc n) - slots n" "i' \<in> {1..k}" "j' \<in> slots (nb i')" for j i' j'
    using new(1) [OF that(1)] I(7) [OF that(2,3)] by auto
  have inj1: "j = j'" if "j \<in> slots (Suc n)" "j' \<in> slots (Suc n)" "faddr (sectors t) d' j = faddr (sectors t) d' j'" for j j'
    using that new(2) [of j j'] fresh [of j i j'] fresh [of j' i j] old [of j] old [of j'] I(9) [OF assms(2,2), of j j'] assms(2,3) by (metis Diff_iff)
  have inj2: "False" if "j \<in> slots (Suc n)" "i' \<in> {1..k}" "i' \<noteq> i" "j' \<in> slots (nb i')" "faddr (sectors t) d' j = faddr (sectors s) (D i') j'" for j i' j'
    using that fresh [of j i' j'] old [of j] I(9) [OF assms(2) that(2) _ that(4), of j] assms(3) by (metis Diff_iff)
  show "ainv k (D(i := d')) (nb(i := Suc n)) t"
  proof (rule ainvI)
    fix i1 i2 j1 j2
    assume a: "i1 \<in> {1..k}" "i2 \<in> {1..k}" "j1 \<in> slots ((nb(i := Suc n)) i1)" "j2 \<in> slots ((nb(i := Suc n)) i2)"
      "faddr (sectors t) ((D(i := d')) i1) j1 = faddr (sectors t) ((D(i := d')) i2) j2"
    show "i1 = i2 \<and> j1 = j2"
    proof (cases "i1 = i")
      case True
      then have j1: "j1 \<in> slots (Suc n)" using a(3) by simp
      show ?thesis
      proof (cases "i2 = i")
        case i2: True
        then show ?thesis using inj1 [OF j1] a(4,5) True by simp
      next
        case False
        then show ?thesis using inj2 [OF j1 a(2) False, of j2] a(4,5) True other [OF a(2) False] by simp
      qed
    next
      case False
      then have j1: "j1 \<in> slots (nb i1)" and o1: "faddr (sectors t) ((D(i := d')) i1) j1 = faddr (sectors s) (D i1) j1" using a(3) other [OF a(1)] by simp_all
      show ?thesis
      proof (cases "i2 = i")
        case True
        then show ?thesis using inj2 [OF _ a(1) False j1, of j2] a(4,5) o1 by simp
      next
        case i2: False
        then show ?thesis using I(9) [OF a(1,2) j1] a(4,5) o1 other [OF a(2) i2] by simp
      qed
    qed
  next
    fix i1 j1 assume a: "i1 \<in> {1..k}" "j1 \<in> slots ((nb(i := Suc n)) i1)"
    show "47 \<le> faddr (sectors t) ((D(i := d')) i1) j1 \<and> faddr (sectors t) ((D(i := d')) i1) j1 < unat (freeblock t)"
      using a here [of j1] I(7) [OF a(1), of j1] other [OF a(1), of j1] assms(7) by (cases "i1 = i") simp_all
  next
    fix i1 j1 assume a: "i1 \<in> {1..k}" "j1 \<le> MAXFILE" "j1 \<notin> slots ((nb(i := Suc n)) i1)"
    show "faddr (sectors t) ((D(i := d')) i1) j1 = 0"
      using a none [of j1] I(8) [OF a(1,2)] other [OF a(1), of j1] by (cases "i1 = i") simp_all
  qed (use assms(4,5,6,8) I(1,2,6) cnt zero in \<open>simp_all add: FSSIZE_def\<close>)
qed

section \<open>Allocating a block of a file\<close>

lemma NDIRECT_MAXFILE [simp]: "NDIRECT < MAXFILE" "NDIRECT \<noteq> MAXFILE" "MAXFILE < 2 ^ 32" "\<not> MAXFILE < NDIRECT" "MAXFILE \<noteq> NDIRECT"
  by (simp_all add: MAXFILE_def NDIRECT_def NINDIRECT_def BSIZE_def)

lemma rsect_run: "unat x < 2000 \<Longrightarrow> nsect s = 2000 \<Longrightarrow> rsect x s = Done (sectors s (unat x)) s"
  by (simp add: rsect_def sect_at_small)

lemma wsect_run: "unat x < 2000 \<Longrightarrow> nsect s = 2000 \<Longrightarrow> wsect x d s = s\<lparr>sectors := (sectors s)(unat x := d)\<rparr>"
  by (simp add: wsect_def sect_at_small)

lemma unat_of_slot: "j < MAXFILE \<Longrightarrow> unat (of_nat j :: u32) = j"
  using NDIRECT_MAXFILE(3) by (simp add: unat_of_nat)

lemma file_block_old:
  assumes "ainv k D nb s" "i \<in> {1..k}" "j < nb i"
  shows "file_block (of_nat j) (D i) s = Done (of_nat (faddr (sectors s) (D i) j), D i) s"
proof -
  note I = ainvD [OF assms(1)]
  have j: "j < MAXFILE" "j \<in> slots (nb i)" using assms(3) I(6) [OF assms(2)] by (simp_all add: slots_def)
  have a: "47 \<le> faddr (sectors s) (D i) j" using I(7) [OF assms(2) j(2)] by simp
  show ?thesis
  proof (cases "j < NDIRECT")
    case True
    then have "d_addrs (D i) j \<noteq> 0" using a by (auto simp: faddr_def)
    then show ?thesis using True unat_of_slot [OF j(1)] by (simp add: file_block_def take_block_def faddr_def)
  next
    case False
    then have m: "MAXFILE \<in> slots (nb i)" using assms(3) by (simp add: slots_def)
    let ?n = "d_addrs (D i) NDIRECT"
    have n: "47 \<le> unat ?n" "unat ?n < 2000" using I(7) [OF assms(2) m] I(3) by (auto simp: faddr_def MAXFILE_def)
    then have n0: "?n \<noteq> 0" by auto
    have f: "faddr (sectors s) (D i) j = unat (get32 (sectors s (unat ?n)) (4 * (j - NDIRECT)))" using False n0 j(1) by (simp add: faddr_def)
    then have "get32 (sectors s (unat ?n)) (4 * (j - NDIRECT)) \<noteq> 0" using a by auto
    then show ?thesis
      using False unat_of_slot [OF j(1)] n0 f rsect_run [OF n(2) I(1)] by (simp add: file_block_def take_block_def Let_def)
  qed
qed

lemma slots_Suc: "slots (Suc n) - slots n = (if n = NDIRECT then {n, MAXFILE} else {n})" if "n < MAXFILE"
  using that NDIRECT_MAXFILE(1) by (auto simp: slots_def simp del: NDIRECT_MAXFILE)

lemma freeblock_Suc: "unat x < 2000 \<Longrightarrow> unat (x + 1 :: u32) = unat x + 1"
  by (simp add: unat_word_ariths)

text \<open>A new direct block.\<close>

lemma grow_direct:
  assumes "ainv k D nb s" "i \<in> {1..k}" "n = nb i" "n < NDIRECT" "unat (freeblock s) < 2000"
  defines "d' \<equiv> (D i)\<lparr>d_addrs := (d_addrs (D i))(n := freeblock s)\<rparr>" and "t \<equiv> s\<lparr>freeblock := freeblock s + 1\<rparr>"
  shows "file_block (of_nat n) (D i) s = Done (of_nat (faddr (sectors t) d' n), d') t" "ainv k (D(i := d')) (nb(i := Suc n)) t"
    "\<And>j. j \<in> slots n \<Longrightarrow> faddr (sectors t) d' j = faddr (sectors s) (D i) j" "faddr (sectors t) d' n = unat (freeblock s)"
proof -
  note I = ainvD [OF assms(1)]
  have n: "n < MAXFILE" using assms(4) NDIRECT_MAXFILE(1) by linarith
  have "faddr (sectors s) (D i) n = 0" using I(8) [OF assms(2)] n assms(3,4) by (simp add: slots_def)
  then have z: "d_addrs (D i) n = 0" using assms(4) by (simp add: faddr_def unat_eq_0)
  have f: "faddr (sectors t) d' j = (if j = n then unat (freeblock s) else faddr (sectors s) (D i) j)" for j
    using assms(4) n by (auto simp: faddr_def d'_def t_def)
  then show "faddr (sectors t) d' n = unat (freeblock s)" by simp
  then show "file_block (of_nat n) (D i) s = Done (of_nat (faddr (sectors t) d' n), d') t"
    using z assms(4) unat_of_slot [OF n] by (simp add: file_block_def take_block_def d'_def t_def)
  show old: "\<And>j. j \<in> slots n \<Longrightarrow> faddr (sectors t) d' j = faddr (sectors s) (D i) j" using n by (auto simp: f slots_def)
  show "ainv k (D(i := d')) (nb(i := Suc n)) t"
  proof (rule ainv_grow [OF assms(1-3) n])
    have ft: "unat (freeblock t) = unat (freeblock s) + 1" using freeblock_Suc [OF assms(5)] by (simp add: t_def)
    then show "unat (freeblock t) = unat (freeblock s) + (nblk (Suc n) - nblk n)" "unat (freeblock t) \<le> FSSIZE"
      using assms(4,5) by (simp_all add: nblk_def FSSIZE_def)
    show "unat (freeblock s) \<le> faddr (sectors t) d' j \<and> faddr (sectors t) d' j < unat (freeblock t)" if "j \<in> slots (Suc n) - slots n" for j
      using that assms(4) n ft by (simp add: slots_Suc f)
    show "faddr (sectors t) d' j = 0" if "j \<le> MAXFILE" "j \<notin> slots (Suc n)" for j
      using I(8) [OF assms(2) that(1)] that(2) assms(3) by (auto simp: f slots_def split: if_splits)
  qed (use old assms(4) n in \<open>simp_all add: slots_Suc t_def\<close>)
qed

text \<open>A new entry in the indirect block, and the indirect block together with its first entry.\<close>

lemma grow_indirect:
  assumes "ainv k D nb s" "i \<in> {1..k}" "n = nb i" "NDIRECT < n" "n < MAXFILE" "unat (freeblock s) < 2000"
  defines "a \<equiv> d_addrs (D i) NDIRECT"
  defines "t \<equiv> s\<lparr>sectors := (sectors s)(unat a := put32 (sectors s (unat a)) (4 * (n - NDIRECT)) (freeblock s)), freeblock := freeblock s + 1\<rparr>"
  shows "file_block (of_nat n) (D i) s = Done (of_nat (faddr (sectors t) (D i) n), D i) t" "ainv k (D(i := D i)) (nb(i := Suc n)) t"
    "\<And>j. j \<in> slots n \<Longrightarrow> faddr (sectors t) (D i) j = faddr (sectors s) (D i) j" "faddr (sectors t) (D i) n = unat (freeblock s)"
proof -
  note I = ainvD [OF assms(1)]
  have m: "MAXFILE \<in> slots (nb i)" using assms(3,4) by (simp add: slots_def)
  have a: "47 \<le> unat a" "unat a < unat (freeblock s)" using I(7) [OF assms(2) m] by (auto simp: faddr_def a_def MAXFILE_def)
  then have a0: "a \<noteq> 0" "unat a < 2000" using I(3) by auto
  have "faddr (sectors s) (D i) n = 0" using I(8) [OF assms(2)] assms(3,5) by (simp add: slots_def)
  then have z: "get32 (sectors s (unat a)) (4 * (n - NDIRECT)) = 0" using assms(4,5) a0 by (simp add: faddr_def a_def [symmetric] unat_eq_0)
  have f: "faddr (sectors t) (D i) j = (if j = n then unat (freeblock s) else faddr (sectors s) (D i) j)" for j
  proof (cases "j < NDIRECT \<or> j = MAXFILE")
    case True
    then show ?thesis using assms(4,5) by (auto simp: faddr_def)
  next
    case False
    then have "j \<noteq> n \<Longrightarrow> get32 (put32 (sectors s (unat a)) (4 * (n - NDIRECT)) (freeblock s)) (4 * (j - NDIRECT)) = get32 (sectors s (unat a)) (4 * (j - NDIRECT))"
      using assms(4) by (intro get32_put32_other) auto
    then show ?thesis using False a0 by (auto simp: faddr_def t_def a_def)
  qed
  then show fn: "faddr (sectors t) (D i) n = unat (freeblock s)" by simp
  have "\<not> n < NDIRECT" using assms(4) by simp
  then show "file_block (of_nat n) (D i) s = Done (of_nat (faddr (sectors t) (D i) n), D i) t"
    unfolding fn using z a0 unat_of_slot [OF assms(5)] rsect_run [OF a0(2) I(1)] I(1)
    by (simp add: file_block_def take_block_def Let_def a_def [symmetric] wsect_run t_def)
  show old: "\<And>j. j \<in> slots n \<Longrightarrow> faddr (sectors t) (D i) j = faddr (sectors s) (D i) j" using assms(5) by (auto simp: f slots_def)
  show "ainv k (D(i := D i)) (nb(i := Suc n)) t"
  proof (rule ainv_grow [OF assms(1-3,5)])
    have ft: "unat (freeblock t) = unat (freeblock s) + 1" using freeblock_Suc [OF assms(6)] by (simp add: t_def)
    then show "unat (freeblock t) = unat (freeblock s) + (nblk (Suc n) - nblk n)" "unat (freeblock t) \<le> FSSIZE"
      using assms(4,6) by (simp_all add: nblk_def FSSIZE_def)
    show "unat (freeblock s) \<le> faddr (sectors t) (D i) j \<and> faddr (sectors t) (D i) j < unat (freeblock t)" if "j \<in> slots (Suc n) - slots n" for j
      using that assms(4,5) ft by (simp add: slots_Suc f)
    show "faddr (sectors t) (D i) j = 0" if "j \<le> MAXFILE" "j \<notin> slots (Suc n)" for j
      using I(8) [OF assms(2) that(1)] that(2) assms(3) by (auto simp: f slots_def split: if_splits)
    show "sectors t b = sectors s b" if "b \<noteq> faddr (sectors t) (D i) MAXFILE" for b
      using that by (simp add: faddr_def a_def t_def MAXFILE_def)
  qed (use old assms(4,5) in \<open>simp_all add: slots_Suc t_def\<close>)
qed

lemma grow_first_indirect:
  assumes "ainv k D nb s" "i \<in> {1..k}" "n = nb i" "n = NDIRECT" "unat (freeblock s) + 1 < 2000"
  defines "d' \<equiv> (D i)\<lparr>d_addrs := (d_addrs (D i))(NDIRECT := freeblock s)\<rparr>"
  defines "t \<equiv> s\<lparr>sectors := (sectors s)(unat (freeblock s) := put32 (\<lambda>_. 0) 0 (freeblock s + 1)), freeblock := freeblock s + 1 + 1\<rparr>"
  shows "file_block (of_nat n) (D i) s = Done (of_nat (faddr (sectors t) d' n), d') t" "ainv k (D(i := d')) (nb(i := Suc n)) t"
    "\<And>j. j \<in> slots n \<Longrightarrow> faddr (sectors t) d' j = faddr (sectors s) (D i) j" "faddr (sectors t) d' n = unat (freeblock s) + 1"
proof -
  note I = ainvD [OF assms(1)]
  have n: "n < MAXFILE" using assms(4) by simp
  have fb: "unat (freeblock s) < 2000" "freeblock s \<noteq> 0" "unat (freeblock s + 1) = unat (freeblock s) + 1"
    "unat (freeblock s + 1 + 1) = unat (freeblock s) + 2" "freeblock s + 1 \<noteq> 0"
    using assms(5) I(4) freeblock_Suc [of "freeblock s"] freeblock_Suc [of "freeblock s + 1"] by auto
  have "faddr (sectors s) (D i) MAXFILE = 0" using I(8) [OF assms(2)] assms(3,4) by (simp add: slots_def)
  then have z: "d_addrs (D i) NDIRECT = 0" by (simp add: faddr_def unat_eq_0 MAXFILE_def)
  have zs: "sectors s (unat (freeblock s)) = (\<lambda>_. 0)" using I(5) by simp
  have g0: "get32 (\<lambda>_. 0) x = 0" for x by (simp add: get32_def rd_def numeral_eq_Suc)
  have f: "faddr (sectors t) d' j = (if j = n then unat (freeblock s) + 1 else if j = MAXFILE then unat (freeblock s) else faddr (sectors s) (D i) j)" for j
  proof (cases "j < NDIRECT \<or> j = MAXFILE \<or> j = n")
    case True
    then show ?thesis using assms(4) fb by (auto simp: faddr_def d'_def t_def)
  next
    case False
    then have "get32 (put32 (\<lambda>_. 0) 0 (freeblock s + 1)) (4 * (j - NDIRECT)) = 0"
      using assms(4) g0 by (subst get32_put32_other) auto
    then show ?thesis using False fb z by (auto simp: faddr_def t_def d'_def)
  qed
  then show fn: "faddr (sectors t) d' n = unat (freeblock s) + 1" by simp
  then have fw: "of_nat (faddr (sectors t) d' n) = freeblock s + 1" by simp
  show "file_block (of_nat n) (D i) s = Done (of_nat (faddr (sectors t) d' n), d') t"
    unfolding fw using z g0 assms(4) unat_of_slot [OF n] rsect_run [OF fb(1), of "s\<lparr>freeblock := freeblock s + 1\<rparr>"] I(1) zs fb(1)
    by (simp add: file_block_def take_block_def Let_def wsect_run t_def d'_def)
  show old: "\<And>j. j \<in> slots n \<Longrightarrow> faddr (sectors t) d' j = faddr (sectors s) (D i) j" using assms(4) by (auto simp: f slots_def)
  show "ainv k (D(i := d')) (nb(i := Suc n)) t"
  proof (rule ainv_grow [OF assms(1-3) n])
    have ft: "unat (freeblock t) = unat (freeblock s) + 2" using fb by (simp add: t_def)
    then show "unat (freeblock t) = unat (freeblock s) + (nblk (Suc n) - nblk n)" "unat (freeblock t) \<le> FSSIZE"
      using assms(4,5) by (simp_all add: nblk_def FSSIZE_def)
    show "unat (freeblock s) \<le> faddr (sectors t) d' j \<and> faddr (sectors t) d' j < unat (freeblock t)" if "j \<in> slots (Suc n) - slots n" for j
      using that assms(4) n ft by (auto simp: slots_Suc f)
    show "faddr (sectors t) d' j = 0" if "j \<le> MAXFILE" "j \<notin> slots (Suc n)" for j
      using I(8) [OF assms(2) that(1)] that(2) assms(3,4) by (auto simp: f slots_def split: if_splits)
    show "sectors t b = sectors s b" if "b \<noteq> faddr (sectors t) d' MAXFILE" for b
      using that assms(4) f [of MAXFILE] by (simp add: t_def)
    show "j = j'" if "j \<in> slots (Suc n) - slots n" "j' \<in> slots (Suc n) - slots n" "faddr (sectors t) d' j = faddr (sectors t) d' j'" for j j'
      using that assms(4) n by (auto simp: slots_Suc f)
  qed (use old assms(4) n in \<open>simp_all add: slots_Suc t_def\<close>)
qed

text \<open>
  Taking the block at the end of a file: a new block is zero, and neither the blocks of the files nor their content change.
\<close>

definition grown :: "nat \<Rightarrow> (nat \<Rightarrow> dinode) \<Rightarrow> (nat \<Rightarrow> nat) \<Rightarrow> nat \<Rightarrow> image \<Rightarrow> dinode \<Rightarrow> image \<Rightarrow> bool" where
  "grown k D nb i s d' t \<longleftrightarrow> ainv k (D(i := d')) (nb(i := Suc (nb i))) t \<and> freeinode t = freeinode s
     \<and> sectors t (faddr (sectors t) d' (nb i)) = (\<lambda>_. 0) \<and> (\<forall>b<47. sectors t b = sectors s b)
     \<and> (\<forall>i'\<in>{1..k}. \<forall>j<nb i'. faddr (sectors t) ((D(i := d')) i') j = faddr (sectors s) (D i') j
          \<and> sectors t (faddr (sectors s) (D i') j) = sectors s (faddr (sectors s) (D i') j))"

lemma faddr_MAXFILE: "faddr S d MAXFILE = unat (d_addrs d NDIRECT)"
  by (simp add: faddr_def)

lemma grownI:
  assumes "ainv k D nb s" "i \<in> {1..k}" "nb i < MAXFILE" "ainv k (D(i := d')) (nb(i := Suc (nb i))) t"
    and old: "\<And>j. j \<in> slots (nb i) \<Longrightarrow> faddr (sectors t) d' j = faddr (sectors s) (D i) j"
    and new: "unat (freeblock s) \<le> faddr (sectors t) d' (nb i)" and fi: "freeinode t = freeinode s"
    and same: "\<And>b. \<not> (MAXFILE \<in> slots (Suc (nb i)) \<and> b = faddr (sectors t) d' MAXFILE) \<Longrightarrow> sectors t b = sectors s b"
  shows "grown k D nb i s d' t"
proof -
  note I = ainvD [OF assms(1)] and J = ainvD [OF assms(4)]
  have apart: "faddr (sectors t) ((D(i := d')) i') j \<noteq> faddr (sectors t) d' MAXFILE"
    if "i' \<in> {1..k}" "j \<in> slots ((nb(i := Suc (nb i))) i')" "MAXFILE \<in> slots (Suc (nb i))" "i' \<noteq> i \<or> j \<noteq> MAXFILE" for i' j
  proof
    assume "faddr (sectors t) ((D(i := d')) i') j = faddr (sectors t) d' MAXFILE"
    then have e: "faddr (sectors t) ((D(i := d')) i') j = faddr (sectors t) ((D(i := d')) i) MAXFILE" by (simp only: fun_upd_same)
    have "MAXFILE \<in> slots ((nb(i := Suc (nb i))) i)" using that(3) by (simp only: fun_upd_same)
    from J(9) [OF that(1) assms(2) that(2) this e] show False using that(4) by blast
  qed
  have low: "sectors t b = sectors s b" if "b < 47" for b
    using J(7) [OF assms(2), of MAXFILE] that by (intro same) auto
  have fo: "faddr (sectors t) ((D(i := d')) i') j = faddr (sectors s) (D i') j" if "i' \<in> {1..k}" "j < nb i'" for i' j
  proof (cases "i' = i")
    case True
    then show ?thesis using old [of j] that(2) by (simp add: slots_def)
  next
    case False
    have "faddr (sectors t) (D i') j = faddr (sectors s) (D i') j"
    proof (rule faddr_cong)
      assume "d_addrs (D i') NDIRECT \<noteq> 0"
      then have "MAXFILE \<in> slots (nb i')" by (rule ind_slot [OF assms(1) that(1)])
      then show "sectors t (faddr (sectors s) (D i') MAXFILE) = sectors s (faddr (sectors s) (D i') MAXFILE)"
        using apart [OF that(1), of MAXFILE] False by (intro same) (auto simp: faddr_MAXFILE)
    qed
    then show ?thesis using False by simp
  qed
  have data: "sectors t (faddr (sectors s) (D i') j) = sectors s (faddr (sectors s) (D i') j)" if "i' \<in> {1..k}" "j < nb i'" for i' j
  proof -
    have j: "j \<noteq> MAXFILE" using that(2) I(6) [OF that(1)] by simp
    have "j \<in> slots ((nb(i := Suc (nb i))) i')" using that(2) by (auto simp: slots_def)
    then show ?thesis using apart [OF that(1), of j] j fo [OF that] by (intro same) auto
  qed
  have "sectors t (faddr (sectors t) d' (nb i)) = sectors s (faddr (sectors t) d' (nb i))"
    using apart [OF assms(2), of "nb i"] assms(3) by (intro same) (auto simp: slots_def)
  then have "sectors t (faddr (sectors t) d' (nb i)) = (\<lambda>_. 0)" using I(5) [OF new] by simp
  then show ?thesis unfolding grown_def using assms(4) fi low fo data by simp
qed

lemma file_block_new:
  assumes "ainv k D nb s" "i \<in> {1..k}" "nb i < MAXFILE" "unat (freeblock s) + (nblk (Suc (nb i)) - nblk (nb i)) \<le> 2000"
  shows "\<exists>A t. file_block (of_nat (nb i)) (D i) s = Done (of_nat (faddr (sectors t) ((D i)\<lparr>d_addrs := A\<rparr>) (nb i)), (D i)\<lparr>d_addrs := A\<rparr>) t
    \<and> grown k D nb i s ((D i)\<lparr>d_addrs := A\<rparr>) t"
proof -
  consider "nb i < NDIRECT" | "NDIRECT < nb i" | "nb i = NDIRECT" by linarith
  then show ?thesis
  proof cases
    case 1
    have fb: "unat (freeblock s) < 2000" using assms(4) 1 by (simp add: nblk_def)
    note g = grow_direct [OF assms(1,2) refl 1 fb]
    have "grown k D nb i s ((D i)\<lparr>d_addrs := (d_addrs (D i))(nb i := freeblock s)\<rparr>) (s\<lparr>freeblock := freeblock s + 1\<rparr>)"
      by (rule grownI [OF assms(1-3) g(2,3) eq_refl [OF g(4) [symmetric]]]) simp_all
    then show ?thesis using g(1) by blast
  next
    case 2
    have fb: "unat (freeblock s) < 2000" using assms(4) 2 by (simp add: nblk_def)
    note g = grow_indirect [OF assms(1,2) refl 2 assms(3) fb]
    have d: "(D i)\<lparr>d_addrs := d_addrs (D i)\<rparr> = D i" by simp
    have "grown k D nb i s (D i) (s\<lparr>sectors := (sectors s)(unat (d_addrs (D i) NDIRECT) := put32 (sectors s (unat (d_addrs (D i) NDIRECT)))
        (4 * (nb i - NDIRECT)) (freeblock s)), freeblock := freeblock s + 1\<rparr>)"
      by (rule grownI [OF assms(1-3) g(2,3) eq_refl [OF g(4) [symmetric]]]) (use 2 in \<open>simp_all add: faddr_MAXFILE slots_def\<close>)
    then show ?thesis using g(1) d by metis
  next
    case 3
    have fb: "unat (freeblock s) + 1 < 2000" using assms(4) 3 by (simp add: nblk_def)
    note g = grow_first_indirect [OF assms(1,2) refl 3 fb]
    have "grown k D nb i s ((D i)\<lparr>d_addrs := (d_addrs (D i))(NDIRECT := freeblock s)\<rparr>) (s\<lparr>sectors := (sectors s)(unat (freeblock s) :=
        put32 (\<lambda>_. 0) 0 (freeblock s + 1)), freeblock := freeblock s + 1 + 1\<rparr>)"
      by (rule grownI [OF assms(1-3) g(2,3) order_trans [OF le_add1 eq_refl [OF g(4) [symmetric]]]]) (use 3 in \<open>simp_all add: faddr_MAXFILE slots_def\<close>)
    then show ?thesis using g(1) by blast
  qed
qed

section \<open>The content of a file\<close>

definition holds :: "(nat \<Rightarrow> bytes) \<Rightarrow> dinode \<Rightarrow> nat \<Rightarrow> u8 list \<Rightarrow> bool" where
  "holds S d n c \<longleftrightarrow> (\<forall>p<n * BSIZE. S (faddr S d (p div BSIZE)) (p mod BSIZE) = (if p < length c then c ! p else 0))"

lemma need_step:
  assumes "0 < m" "l mod BSIZE + m \<le> BSIZE"
  shows "need (l + m) = Suc (l div BSIZE)"
proof -
  obtain q r where q: "l div BSIZE = q" "l mod BSIZE = r" "l = BSIZE * q + r" using mult_div_mod_eq [of BSIZE l] by metis
  have "BSIZE * Suc q \<le> l + m + BSIZE - 1" "l + m + BSIZE - 1 < BSIZE * Suc (Suc q)"
    using assms unfolding q(2) unfolding q(3) mult_Suc_right by arith+
  then show ?thesis unfolding need_def q(1) by (rule div_nat_eqI)
qed

lemma need_eq: "need l = (if l mod BSIZE = 0 then l div BSIZE else Suc (l div BSIZE))"
proof -
  obtain q r where q: "l div BSIZE = q" "l mod BSIZE = r" "l = BSIZE * q + r" using mult_div_mod_eq [of BSIZE l] by metis
  have r: "r < BSIZE" "0 < BSIZE" using q(2) by auto
  show ?thesis
  proof (cases "r = 0")
    case True
    have "BSIZE * q \<le> l + BSIZE - 1" "l + BSIZE - 1 < BSIZE * Suc q" using r True unfolding q(3) mult_Suc_right by arith+
    then show ?thesis unfolding need_def q(1,2) if_P [OF True] by (rule div_nat_eqI)
  next
    case False
    have "BSIZE * Suc q \<le> l + BSIZE - 1" "l + BSIZE - 1 < BSIZE * Suc (Suc q)" using r False unfolding q(3) mult_Suc_right by arith+
    then show ?thesis unfolding need_def q(1,2) if_not_P [OF False] by (rule div_nat_eqI)
  qed
qed

lemma need_le: "l \<le> need l * BSIZE"
proof -
  obtain q r where q: "l div BSIZE = q" "l mod BSIZE = r" "l = BSIZE * q + r" using mult_div_mod_eq [of BSIZE l] by metis
  have r: "r < BSIZE" using q(2) by auto
  show ?thesis unfolding need_eq q(1,2) mult.commute [of _ BSIZE] using r by (simp add: q(3))
qed

text \<open>Writing into a data block keeps the blocks as they are.\<close>

lemma ainv_write:
  fixes v :: bytes
  assumes "ainv k D nb s" "i \<in> {1..k}" "j < nb i"
  defines "t \<equiv> s\<lparr>sectors := (sectors s)(faddr (sectors s) (D i) j := v)\<rparr>"
  shows "ainv k D nb t" "\<And>i' j'. i' \<in> {1..k} \<Longrightarrow> faddr (sectors t) (D i') j' = faddr (sectors s) (D i') j'"
proof -
  note I = ainvD [OF assms(1)]
  have j: "j \<in> slots (nb i)" "j \<noteq> MAXFILE" using assms(3) I(6) [OF assms(2)] by (auto simp: slots_def)
  show f: "faddr (sectors t) (D i') j' = faddr (sectors s) (D i') j'" if "i' \<in> {1..k}" for i' j'
  proof (rule faddr_cong)
    assume "d_addrs (D i') NDIRECT \<noteq> 0"
    then have m: "MAXFILE \<in> slots (nb i')" by (rule ind_slot [OF assms(1) that])
    then show "sectors t (faddr (sectors s) (D i') MAXFILE) = sectors s (faddr (sectors s) (D i') MAXFILE)"
      using I(9) [OF that assms(2) m j(1)] j(2) by (auto simp: t_def)
  qed
  have s: "sectors t b = (\<lambda>_. 0)" if "unat (freeblock s) \<le> b" for b
    using I(5) [OF that] I(7) [OF assms(2) j(1)] that by (simp add: t_def)
  have e: "nsect t = nsect s" "msb t = msb s" "freeblock t = freeblock s" by (simp_all add: t_def)
  show "ainv k D nb t"
  proof (rule ainvI; (unfold e)?)
    fix i i' j j'
    assume a: "i \<in> {1..k}" "i' \<in> {1..k}" "j \<in> slots (nb i)" "j' \<in> slots (nb i')" "faddr (sectors t) (D i) j = faddr (sectors t) (D i') j'"
    show "i = i' \<and> j = j'" using I(9) [OF a(1-4)] a(5) f [OF a(1)] f [OF a(2)] by simp
  qed (use I(1-4,6-8) f s in simp_all)
qed

lemma holds_write:
  assumes "ainv k D nb s" "i \<in> {1..k}" "j < nb i" "\<And>i'. i' \<in> {1..k} \<Longrightarrow> holds (sectors s) (D i') (nb i') (fc i')"
    and "length (fc i) div BSIZE = j" "length (fc i) mod BSIZE + length bs \<le> BSIZE" "Suc j = nb i"
  defines "t \<equiv> s\<lparr>sectors := (sectors s)(faddr (sectors s) (D i) j := wr (sectors s (faddr (sectors s) (D i) j)) (length (fc i) mod BSIZE) bs)\<rparr>"
  assumes "i' \<in> {1..k}"
  shows "holds (sectors t) (D i') (nb i') ((fc(i := fc i @ bs)) i')"
  unfolding holds_def
proof (intro allI impI)
  note I = ainvD [OF assms(1)]
  fix p assume p: "p < nb i' * BSIZE"
  let ?l = "length (fc i)" and ?x = "faddr (sectors s) (D i) j"
  note f = ainv_write(2) [OF assms(1-3), of i' "wr (sectors s ?x) (?l mod BSIZE) bs", folded t_def]
  have q: "p div BSIZE < nb i'" "p div BSIZE \<in> slots (nb i')" using block_of [OF p] by (simp_all add: slots_def)
  have old: "sectors s (faddr (sectors s) (D i') (p div BSIZE)) (p mod BSIZE) = (if p < length (fc i') then fc i' ! p else 0)"
    using assms(4) [OF assms(9)] p by (simp add: holds_def)
  show "sectors t (faddr (sectors t) (D i') (p div BSIZE)) (p mod BSIZE)
      = (if p < length ((fc(i := fc i @ bs)) i') then (fc(i := fc i @ bs)) i' ! p else 0)"
  proof (cases "i' = i \<and> p div BSIZE = j")
    case False
    have "j \<in> slots (nb i)" using assms(3) by (simp add: slots_def)
    then have "faddr (sectors s) (D i') (p div BSIZE) \<noteq> ?x" using I(9) [OF assms(9,2) q(2)] False by auto
    then have e: "sectors t (faddr (sectors t) (D i') (p div BSIZE)) (p mod BSIZE) = (if p < length (fc i') then fc i' ! p else 0)"
      using old f [OF assms(9)] by (simp add: t_def)
    show ?thesis
    proof (cases "i' = i")
      case True
      then have "p div BSIZE < ?l div BSIZE" using False q(1) assms(5,7) by auto
      then have "p < ?l" by (metis div_le_mono leD leI)
      then show ?thesis using True e by (simp add: nth_append)
    qed (use e in simp)
  next
    case True
    then have d: "i' = i" "p div BSIZE = ?l div BSIZE" using assms(5) by auto
    have "?l = BSIZE * (?l div BSIZE) + ?l mod BSIZE" "p = BSIZE * (?l div BSIZE) + p mod BSIZE" using d(2) by (metis mult_div_mod_eq)+
    then have iff: "?l mod BSIZE \<le> p mod BSIZE \<longleftrightarrow> ?l \<le> p" "p mod BSIZE < ?l mod BSIZE + length bs \<longleftrightarrow> p < ?l + length bs" "p mod BSIZE - ?l mod BSIZE = p - ?l"
      by linarith+
    have "sectors t (faddr (sectors t) (D i') (p div BSIZE)) (p mod BSIZE) = wr (sectors s ?x) (?l mod BSIZE) bs (p mod BSIZE)"
      using f [OF assms(9)] True by (simp add: t_def)
    also have "\<dots> = (if ?l \<le> p \<and> p < ?l + length bs then bs ! (p - ?l) else if p < ?l then fc i ! p else 0)"
      unfolding wr_def iff using old True by simp
    finally show ?thesis using d(1) by (auto simp: nth_append)
  qed
qed

definition finv :: "nat \<Rightarrow> (nat \<Rightarrow> dinode) \<Rightarrow> (nat \<Rightarrow> u8 list) \<Rightarrow> image \<Rightarrow> bool" where
  "finv k D fc s \<longleftrightarrow> ainv k D (\<lambda>i. need (length (fc i))) s \<and> (\<forall>i\<in>{1..k}. holds (sectors s) (D i) (need (length (fc i))) (fc i))"

lemma block_for_append:
  assumes "finv k D fc s" "i \<in> {1..k}" "l = length (fc i)" "l div BSIZE < MAXFILE"
    and "unat (freeblock s) + (nblk (Suc (l div BSIZE)) - nblk (need l)) \<le> 2000"
  defines "nb \<equiv> (\<lambda>i. need (length (fc i)))(i := Suc (l div BSIZE))"
  shows "\<exists>A t. file_block (of_nat (l div BSIZE)) (D i) s
      = Done (of_nat (faddr (sectors t) ((D i)\<lparr>d_addrs := A\<rparr>) (l div BSIZE)), (D i)\<lparr>d_addrs := A\<rparr>) t
    \<and> ainv k (D(i := (D i)\<lparr>d_addrs := A\<rparr>)) nb t \<and> freeinode t = freeinode s \<and> (\<forall>b<47. sectors t b = sectors s b)
    \<and> (\<forall>i'\<in>{1..k}. holds (sectors t) ((D(i := (D i)\<lparr>d_addrs := A\<rparr>)) i') (nb i') (fc i'))"
proof -
  have a: "ainv k D (\<lambda>i. need (length (fc i))) s" and h: "\<And>i. i \<in> {1..k} \<Longrightarrow> holds (sectors s) (D i) (need (length (fc i))) (fc i)"
    using assms(1) by (simp_all add: finv_def)
  show ?thesis
  proof (cases "l mod BSIZE = 0")
    case False
    then have n: "need (length (fc i)) = Suc (l div BSIZE)" using assms(3) by (simp add: need_eq)
    then have nb: "nb = (\<lambda>i. need (length (fc i)))" by (auto simp: nb_def)
    have "file_block (of_nat (l div BSIZE)) (D i) s = Done (of_nat (faddr (sectors s) (D i) (l div BSIZE)), D i) s"
      using n by (intro file_block_old [OF a assms(2)]) simp
    then show ?thesis using a h nb by (intro exI [of _ "d_addrs (D i)"] exI [of _ s]) simp
  next
    case True
    let ?nb = "\<lambda>i. need (length (fc i))"
    have n: "?nb i = l div BSIZE" using assms(3) True by (simp add: need_eq)
    have l: "l div BSIZE * BSIZE = l" using True by (metis add.right_neutral div_mult_mod_eq)
    obtain A t where t: "file_block (of_nat (?nb i)) (D i) s = Done (of_nat (faddr (sectors t) ((D i)\<lparr>d_addrs := A\<rparr>) (?nb i)), (D i)\<lparr>d_addrs := A\<rparr>) t"
      and g: "grown k D ?nb i s ((D i)\<lparr>d_addrs := A\<rparr>) t"
      using file_block_new [OF a assms(2)] assms(3-5) n by auto
    let ?d = "(D i)\<lparr>d_addrs := A\<rparr>"
    note G = g [unfolded grown_def n]
    have nb: "nb = ?nb(i := Suc (l div BSIZE))" by (simp add: nb_def)
    have "holds (sectors t) ((D(i := ?d)) i') (nb i') (fc i')" if i': "i' \<in> {1..k}" for i'
      unfolding holds_def
    proof (intro allI impI)
      fix p assume p: "p < nb i' * BSIZE"
      show "sectors t (faddr (sectors t) ((D(i := ?d)) i') (p div BSIZE)) (p mod BSIZE) = (if p < length (fc i') then fc i' ! p else 0)"
      proof (cases "p div BSIZE < ?nb i'")
        case True
        then have "p < ?nb i' * BSIZE" by (metis BSIZE_pos div_less_iff_less_mult)
        then have "sectors s (faddr (sectors s) (D i') (p div BSIZE)) (p mod BSIZE) = (if p < length (fc i') then fc i' ! p else 0)"
          using h [OF i'] by (simp add: holds_def)
        then show ?thesis using G i' True by simp
      next
        case False
        then have e: "i' = i" "p div BSIZE = l div BSIZE" using block_of [OF p] n by (auto simp: nb split: if_splits)
        then have "\<not> p < l" using l div_mult_mod_eq [of p BSIZE] by (metis le_add1 not_le)
        then show ?thesis using e G assms(3) by simp
      qed
    qed
    then show ?thesis using t [unfolded n] G nb by (intro exI [of _ A] exI [of _ t]) simp
  qed
qed

lemma append_step:
  assumes "finv k D fc s" "i \<in> {1..k}" "l = length (fc i)" "l div BSIZE < MAXFILE" "bs \<noteq> []" "l mod BSIZE + length bs \<le> BSIZE"
    and "unat (freeblock s) + (nblk (need (l + length bs)) - nblk (need l)) \<le> 2000"
  obtains A x t where "file_block (of_nat (l div BSIZE)) (D i) s = Done (x, (D i)\<lparr>d_addrs := A\<rparr>) t" "rsect x t = Done (sectors t (unat x)) t"
    "finv k (D(i := (D i)\<lparr>d_addrs := A\<rparr>)) (fc(i := fc i @ bs)) (wsect x (wr (sectors t (unat x)) (l mod BSIZE) bs) t)"
    "freeinode (wsect x (wr (sectors t (unat x)) (l mod BSIZE) bs) t) = freeinode s"
    "\<forall>b<47. sectors (wsect x (wr (sectors t (unat x)) (l mod BSIZE) bs) t) b = sectors s b"
proof -
  let ?j = "l div BSIZE"
  have n: "need (l + length bs) = Suc ?j" using assms(5,6) by (intro need_step) simp_all
  let ?nb = "(\<lambda>i. need (length (fc i)))(i := Suc ?j)"
  have nb: "?nb = (\<lambda>i'. need (length ((fc(i := fc i @ bs)) i')))" using n assms(3) by (auto simp: fun_eq_iff)
  have room: "unat (freeblock s) + (nblk (Suc ?j) - nblk (need l)) \<le> 2000" using assms(7) n by simp
  from block_for_append [OF assms(1-4) room] obtain A t where
    t: "file_block (of_nat ?j) (D i) s = Done (of_nat (faddr (sectors t) ((D i)\<lparr>d_addrs := A\<rparr>) ?j), (D i)\<lparr>d_addrs := A\<rparr>) t"
      "ainv k (D(i := (D i)\<lparr>d_addrs := A\<rparr>)) ?nb t" "freeinode t = freeinode s" "\<forall>b<47. sectors t b = sectors s b"
      "\<forall>i'\<in>{1..k}. holds (sectors t) ((D(i := (D i)\<lparr>d_addrs := A\<rparr>)) i') (?nb i') (fc i')" by blast
  let ?D = "D(i := (D i)\<lparr>d_addrs := A\<rparr>)" and ?y = "faddr (sectors t) ((D i)\<lparr>d_addrs := A\<rparr>) ?j"
  note I = ainvD [OF t(2)]
  have y: "47 \<le> ?y" "?y < 2000" using I(7) [OF assms(2), of ?j] I(3) by (simp_all add: slots_def)
  then have x: "unat (of_nat ?y :: u32) = ?y" by (simp add: unat_of_nat)
  let ?u = "t\<lparr>sectors := (sectors t)(?y := wr (sectors t ?y) (l mod BSIZE) bs)\<rparr>"
  have j: "?j < ?nb i" "?y = faddr (sectors t) (?D i) ?j" by simp_all
  have l: "length (fc i) div BSIZE = ?j" "length (fc i) mod BSIZE + length bs \<le> BSIZE" "Suc ?j = ?nb i" using assms(3,6) by simp_all
  have "ainv k ?D ?nb ?u" unfolding j(2) by (rule ainv_write(1) [OF t(2) assms(2) j(1)])
  moreover have "holds (sectors ?u) (?D i') (?nb i') ((fc(i := fc i @ bs)) i')" if "i' \<in> {1..k}" for i'
    unfolding j(2) by (rule holds_write [OF t(2) assms(2) j(1) t(5) [rule_format] l that, folded assms(3)])
  ultimately have f: "finv k ?D (fc(i := fc i @ bs)) ?u" unfolding nb finv_def by blast
  have r: "rsect (of_nat ?y) t = Done (sectors t ?y) t" and u: "wsect (of_nat ?y) (wr (sectors t ?y) (l mod BSIZE) bs) t = ?u"
    using y x I(1) by (simp_all add: rsect_run wsect_run)
  have low: "\<forall>b<47. sectors ?u b = sectors s b" "freeinode ?u = freeinode s" using t(3,4) y by simp_all
  show ?thesis by (rule that [OF t(1), unfolded x u, OF r f low(2,1)])
qed

text \<open>The blocks that files take, and the room for them.\<close>

definition blocks_of :: "nat \<Rightarrow> (nat \<Rightarrow> u8 list) \<Rightarrow> nat" where
  "blocks_of k fc = (\<Sum>i=1..k. nblk (need (length (fc i))))"

lemma blocks_of_upd: "i \<in> {1..k} \<Longrightarrow> blocks_of k (fc(i := c)) + nblk (need (length (fc i))) = blocks_of k fc + nblk (need (length c))"
proof -
  assume i: "i \<in> {1..k}"
  have "(\<Sum>x\<in>{1..k} - {i}. nblk (need (length ((fc(i := c)) x)))) = (\<Sum>x\<in>{1..k} - {i}. nblk (need (length (fc x))))"
    by (rule sum.cong) auto
  then show ?thesis
    using i sum.remove [of "{1..k}" i "\<lambda>x. nblk (need (length ((fc(i := c)) x)))"] sum.remove [of "{1..k}" i "\<lambda>x. nblk (need (length (fc x)))"]
    by (simp add: blocks_of_def)
qed

lemma finv_free: "finv k D fc s \<Longrightarrow> unat (freeblock s) = 47 + blocks_of k fc"
  unfolding finv_def blocks_of_def by (elim conjE) (rule ainvD(4))

lemma nblk_mono: "a \<le> b \<Longrightarrow> nblk (need a) \<le> nblk (need b)"
proof -
  assume "a \<le> b"
  then have "need a \<le> need b" unfolding need_def by (intro div_le_mono) simp
  then show ?thesis by (simp add: nblk_def)
qed

lemma blocks_of_mono:
  assumes "i \<in> {1..k}" "length c \<le> length c'"
  shows "blocks_of k (fc(i := c)) \<le> blocks_of k (fc(i := c'))"
  using blocks_of_upd [OF assms(1), of fc c] blocks_of_upd [OF assms(1), of fc c'] nblk_mono [OF assms(2)] by linarith

lemma off_split:
  fixes off :: u32
  assumes "unat off = l"
  shows "off div of_nat BSIZE = of_nat (l div BSIZE)" "unat (off - off div of_nat BSIZE * of_nat BSIZE) = l mod BSIZE"
proof -
  show "off div of_nat BSIZE = of_nat (l div BSIZE)" using unat_BSIZE(1) [of off] assms by (metis word_of_nat_unat)
  have "off - off div of_nat BSIZE * of_nat BSIZE = off mod of_nat BSIZE" by (metis add_diff_cancel_left' word_mod_div_equality)
  then show "unat (off - off div of_nat BSIZE * of_nat BSIZE) = l mod BSIZE" using unat_BSIZE(2) [of off] assms by simp
qed

lemma iappend_loop_run:
  assumes "finv k D fc s" "i \<in> {1..k}" "unat off = length (fc i)" "length (fc i) + length p \<le> MAXFILE * BSIZE" "47 + blocks_of k (fc(i := fc i @ p)) \<le> 2000"
  shows "\<exists>A t. iappend_loop (D i) off p s = Done ((D i)\<lparr>d_addrs := A\<rparr>, of_nat (length (fc i) + length p)) t
    \<and> finv k (D(i := (D i)\<lparr>d_addrs := A\<rparr>)) (fc(i := fc i @ p)) t \<and> freeinode t = freeinode s \<and> (\<forall>b<47. sectors t b = sectors s b)"
  using assms
proof (induction "length p" arbitrary: p off D fc s rule: less_induct)
  case less
  let ?l = "length (fc i)"
  show ?case
  proof (cases "p = []")
    case True
    then have "off = of_nat ?l" "(D i)\<lparr>d_addrs := d_addrs (D i)\<rparr> = D i" using less.prems(3) by (metis word_of_nat_unat, simp)
    then show ?thesis using True less.prems(1) by (intro exI [of _ "d_addrs (D i)"] exI [of _ s]) (simp add: iappend_loop.simps)
  next
    case False
    define m where "m = min (length p) (room_in off)"
    let ?bs = "take m p"
    have lt: "?l mod BSIZE < BSIZE" by simp
    have "m \<le> BSIZE - ?l mod BSIZE" "0 < m" "m \<le> length p" using False less.prems(3) by (auto simp: m_def room_in_eq)
    then have m: "0 < m" "m \<le> length p" "?l mod BSIZE + m \<le> BSIZE" using lt by linarith+
    have j: "?l div BSIZE < MAXFILE" using less.prems(4) m by (intro block_of) linarith
    have lb: "length ?bs = m" using m by simp
    have ne: "?bs \<noteq> []" and fit: "?l mod BSIZE + length ?bs \<le> BSIZE" using m lb by auto
    have tot: "47 + blocks_of k (fc(i := fc i @ ?bs)) \<le> 2000" using blocks_of_mono [OF less.prems(2), of "fc i @ ?bs" "fc i @ p" fc] less.prems(5) by simp
    then have room: "unat (freeblock s) + (nblk (need (?l + length ?bs)) - nblk (need ?l)) \<le> 2000"
      using finv_free [OF less.prems(1)] blocks_of_upd [OF less.prems(2), of fc "fc i @ ?bs"] nblk_mono [of ?l "?l + length ?bs"]
      unfolding length_append by linarith
    obtain A x t where t: "file_block (of_nat (?l div BSIZE)) (D i) s = Done (x, (D i)\<lparr>d_addrs := A\<rparr>) t" "rsect x t = Done (sectors t (unat x)) t"
      "finv k (D(i := (D i)\<lparr>d_addrs := A\<rparr>)) (fc(i := fc i @ ?bs)) (wsect x (wr (sectors t (unat x)) (?l mod BSIZE) ?bs) t)"
      "freeinode (wsect x (wr (sectors t (unat x)) (?l mod BSIZE) ?bs) t) = freeinode s"
      "\<forall>b<47. sectors (wsect x (wr (sectors t (unat x)) (?l mod BSIZE) ?bs) t) b = sectors s b"
      by (rule append_step [OF less.prems(1,2) refl j ne fit room])
    let ?u = "wsect x (wr (sectors t (unat x)) (?l mod BSIZE) ?bs) t" and ?D = "D(i := (D i)\<lparr>d_addrs := A\<rparr>)" and ?fc = "fc(i := fc i @ ?bs)"
    note os = off_split [OF less.prems(3)]
    have "\<not> \<not> unat (of_nat (?l div BSIZE) :: u32) < MAXFILE" using j unat_of_slot [OF j] by simp
    then have step: "iappend_loop (D i) off p s = iappend_loop (?D i) (off + of_nat m) (drop m p) ?u"
      using False os t(1,2) by (subst iappend_loop.simps) (simp add: Let_def m_def [symmetric])
    have "MAXFILE * BSIZE < 2 ^ 32" by (simp add: MAXFILE_def NDIRECT_def NINDIRECT_def BSIZE_def)
    then have off: "unat (off + of_nat m) = length (?fc i)"
      using less.prems(3,4) m(2) lb by (simp add: unat_word_ariths unat_of_nat)
    have fe: "?fc(i := ?fc i @ drop m p) = fc(i := fc i @ p)" by simp
    have pre: "length (drop m p) < length p" "length (?fc i) + length (drop m p) \<le> MAXFILE * BSIZE"
      "47 + blocks_of k (?fc(i := ?fc i @ drop m p)) \<le> 2000"
      unfolding fe using m less.prems(4,5) by simp_all
    from less.hyps [OF pre(1) t(3) less.prems(2) off pre(2,3)]
    obtain A' t' where t': "iappend_loop (?D i) (off + of_nat m) (drop m p) ?u = Done ((?D i)\<lparr>d_addrs := A'\<rparr>, of_nat (length (?fc i) + length (drop m p))) t'"
      "finv k (?D(i := (?D i)\<lparr>d_addrs := A'\<rparr>)) (?fc(i := ?fc i @ drop m p)) t'" "freeinode t' = freeinode ?u" "\<forall>b<47. sectors t' b = sectors ?u b" by blast
    have e: "?D(i := (?D i)\<lparr>d_addrs := A'\<rparr>) = D(i := (D i)\<lparr>d_addrs := A'\<rparr>)" "(?D i)\<lparr>d_addrs := A'\<rparr> = (D i)\<lparr>d_addrs := A'\<rparr>"
      "length (?fc i) + length (drop m p) = ?l + length p" using m(2) by simp_all
    have "iappend_loop (D i) off p s = Done ((D i)\<lparr>d_addrs := A'\<rparr>, of_nat (?l + length p)) t'" using step t'(1) unfolding e by (rule trans)
    then show ?thesis using t'(2-4) t(4,5) unfolding fe e by (intro exI [of _ A'] exI [of _ t']) simp
  qed
qed

section \<open>Inodes in the image\<close>

definition norm :: "dinode \<Rightarrow> dinode" where
  "norm d = d\<lparr>d_addrs := (\<lambda>j. if j < NDIRECT + 1 then d_addrs d j else 0)\<rparr>"

definition inode_of :: "dinode \<Rightarrow> inode" where
  "inode_of n = \<lparr>idev = 0, inum = 0, iref = 0, ivalid = False, itype = d_type n, imajor = d_major n, iminor = d_minor n, inlink = d_nlink n,
     isize = d_size n, iaddrs = d_addrs n\<rparr>"

lemma put_dinode_store: "put_dinode n off d = store_dinode (inode_of n) off d"
  by (simp add: put_dinode_def store_dinode_def inode_of_def)

lemma get_dinode_load: "get_dinode d off =
  (let m = load_dinode d off (inode_of \<lparr>d_type = 0, d_major = 0, d_minor = 0, d_nlink = 0, d_size = 0, d_addrs = (\<lambda>_. 0)\<rparr>)
   in \<lparr>d_type = itype m, d_major = imajor m, d_minor = iminor m, d_nlink = inlink m, d_size = isize m, d_addrs = iaddrs m\<rparr>)"
  by (simp add: get_dinode_def load_dinode_def inode_of_def Let_def fun_eq_iff)

lemma get_put_dinode: "get_dinode (put_dinode n off d) off = norm n"
proof -
  let ?z = "inode_of \<lparr>d_type = 0, d_major = 0, d_minor = 0, d_nlink = 0, d_size = 0, d_addrs = (\<lambda>_. 0)\<rparr>"
  have "same_inode (load_dinode (put_dinode n off d) off ?z) (inode_of n)" unfolding put_dinode_store by (rule load_store_dinode)
  moreover have "iaddrs (load_dinode (put_dinode n off d) off ?z) j = 0" if "\<not> j < NDIRECT + 1" for j
    using that by (simp add: load_dinode_def inode_of_def)
  ultimately show ?thesis
    by (auto simp: get_dinode_load Let_def same_inode_def norm_def inode_of_def fun_eq_iff)
qed

lemma get_put_other: "off + 64 \<le> o2 \<or> o2 + 64 \<le> off \<Longrightarrow> get_dinode (put_dinode n o2 d) off = get_dinode d off"
  unfolding get_dinode_load put_dinode_store by (simp only: load_store_other)

definition idisk :: "image \<Rightarrow> nat \<Rightarrow> dinode" where
  "idisk s i = get_dinode (sectors s (33 + i div 16)) ((i mod 16) * 64)"

definition set_inode :: "nat \<Rightarrow> dinode \<Rightarrow> image \<Rightarrow> image" where
  "set_inode i d s = s\<lparr>sectors := (sectors s)(33 + i div 16 := put_dinode d ((i mod 16) * 64) (sectors s (33 + i div 16)))\<rparr>"

lemma iblock_num: "i < 208 \<Longrightarrow> unat (IBLOCK (of_nat i) new_sb) = 33 + i div 16" "i < 208 \<Longrightarrow> unat (of_nat i :: u32) mod IPB = i mod 16"
  by (simp_all add: IBLOCK_def IPB_def BSIZE_def unat_word_ariths unat_of_nat unat_div)

lemma winode_run:
  assumes "i < 208" "nsect s = 2000" "msb s = new_sb"
  shows "winode (of_nat i) d s = Done () (set_inode i d s)" "rinode (of_nat i) s = Done (idisk s i) s"
proof -
  have b: "unat (IBLOCK (of_nat i) new_sb) < 2000" using assms(1) by (simp add: iblock_num)
  show "winode (of_nat i) d s = Done () (set_inode i d s)" "rinode (of_nat i) s = Done (idisk s i) s"
    unfolding winode_def rinode_def Let_def assms(3) rsect_run [OF b assms(2)] mbind.simps wsect_run [OF b assms(2)]
      iblock_num [OF assms(1)] set_inode_def idisk_def by simp_all
qed

lemma idisk_set: "idisk (set_inode i d s) j = (if j = i then norm d else idisk s j)"
proof (cases "j = i")
  case True
  then show ?thesis by (simp add: idisk_def set_inode_def get_put_dinode)
next
  case False
  have "get_dinode (put_dinode d ((i mod 16) * 64) x) ((j mod 16) * 64) = get_dinode x ((j mod 16) * 64)" if "j div 16 = i div 16" for x
  proof (rule get_put_other)
    have "j mod 16 \<noteq> i mod 16" using False that by (metis div_mult_mod_eq)
    then show "j mod 16 * 64 + 64 \<le> i mod 16 * 64 \<or> i mod 16 * 64 + 64 \<le> j mod 16 * 64" by linarith
  qed
  then show ?thesis using False by (auto simp: idisk_def set_inode_def)
qed

lemma faddr_norm: "faddr S (norm d) j = faddr S d j" "faddr S (d\<lparr>d_size := z\<rparr>) j = faddr S d j"
  by (simp_all add: faddr_def norm_def)

lemma finv_cong:
  assumes "finv k D fc s" "\<And>i j. i \<in> {1..k} \<Longrightarrow> faddr (sectors s) (D' i) j = faddr (sectors s) (D i) j"
  shows "finv k D' fc s"
proof -
  have a: "ainv k D (\<lambda>i. need (length (fc i))) s" using assms(1) by (simp add: finv_def)
  note I = ainvD [OF a]
  have "ainv k D' (\<lambda>i. need (length (fc i))) s"
  proof (rule ainvI)
    fix i i' j j'
    assume x: "i \<in> {1..k}" "i' \<in> {1..k}" "j \<in> slots (need (length (fc i)))" "j' \<in> slots (need (length (fc i')))"
      "faddr (sectors s) (D' i) j = faddr (sectors s) (D' i') j'"
    show "i = i' \<and> j = j'" using I(9) [OF x(1-4)] x(5) assms(2) [OF x(1)] assms(2) [OF x(2)] by simp
  qed (use I(1-8) assms(2) in simp_all)
  moreover have "holds (sectors s) (D' i) n c \<longleftrightarrow> holds (sectors s) (D i) n c" if "i \<in> {1..k}" for i n c
    unfolding holds_def using assms(2) [OF that] by simp
  ultimately show ?thesis using assms(1) unfolding finv_def by simp
qed

lemma finv_low:
  assumes "finv k D fc s" "\<And>b. 47 \<le> b \<Longrightarrow> sectors t b = sectors s b" "nsect t = nsect s" "msb t = msb s" "freeblock t = freeblock s"
  shows "finv k D fc t"
proof -
  have a: "ainv k D (\<lambda>i. need (length (fc i))) s" using assms(1) by (simp add: finv_def)
  have f: "ainv k D (\<lambda>i. need (length (fc i))) t" "\<And>i j. i \<in> {1..k} \<Longrightarrow> faddr (sectors t) (D i) j = faddr (sectors s) (D i) j"
    using assms(2-5) by (auto intro: ainv_cong [OF a])
  note I = ainvD [OF a]
  have "holds (sectors t) (D i) (need (length (fc i))) (fc i)" if "i \<in> {1..k}" for i
    unfolding holds_def
  proof (intro allI impI)
    fix p assume p: "p < need (length (fc i)) * BSIZE"
    have "47 \<le> faddr (sectors s) (D i) (p div BSIZE)" using I(7) [OF that] block_of [OF p] by (simp add: slots_def)
    then show "sectors t (faddr (sectors t) (D i) (p div BSIZE)) (p mod BSIZE) = (if p < length (fc i) then fc i ! p else 0)"
      using assms(1) that p f(2) [OF that] assms(2) by (simp add: finv_def holds_def)
  qed
  then show ?thesis using f(1) by (simp add: finv_def)
qed

section \<open>The steps of the program\<close>

text \<open>
  What every step keeps: \<open>k\<close> inodes with contents \<open>fc\<close>, the first of them the root directory, the superblock in place, and
  the boot block, the log and the bitmap still zero.
\<close>

definition meta_ok :: "image \<Rightarrow> bool" where
  "meta_ok s \<longleftrightarrow> (\<forall>b<47. b < 33 \<or> 45 < b \<longrightarrow> sectors s b = (if b = 1 then wr (\<lambda>_. 0) 0 (sb_bytes new_sb) else (\<lambda>_. 0)))"

definition inode_ok :: "nat \<Rightarrow> u8 list \<Rightarrow> dinode \<Rightarrow> bool" where
  "inode_ok i c d \<longleftrightarrow> unat (d_size d) = length c \<and> d_nlink d = 1 \<and> d_type d = (if i = 1 then T_DIR else T_FILE)"

definition minv :: "nat \<Rightarrow> (nat \<Rightarrow> u8 list) \<Rightarrow> image \<Rightarrow> bool" where
  "minv k fc s \<longleftrightarrow> finv k (idisk s) fc s \<and> k < 208 \<and> freeinode s = of_nat (Suc k) \<and> meta_ok s
     \<and> (\<forall>i\<in>{1..k}. inode_ok i (fc i) (idisk s i))"

lemma minv_finv:
  assumes "minv k fc s"
  shows "finv k (idisk s) fc s" "k < 208" "freeinode s = of_nat (Suc k)" "meta_ok s" "nsect s = 2000" "msb s = new_sb"
    "\<And>i. i \<in> {1..k} \<Longrightarrow> inode_ok i (fc i) (idisk s i)"
proof -
  show f: "finv k (idisk s) fc s" "k < 208" "freeinode s = of_nat (Suc k)" "meta_ok s"
    "\<And>i. i \<in> {1..k} \<Longrightarrow> inode_ok i (fc i) (idisk s i)" using assms by (simp_all add: minv_def)
  have a: "ainv k (idisk s) (\<lambda>i. need (length (fc i))) s" using f(1) by (simp add: finv_def)
  show "nsect s = 2000" "msb s = new_sb" using ainvD(1,2) [OF a] by simp_all
qed

lemma set_inode_sel [simp]:
  "nsect (set_inode i d s) = nsect s" "msb (set_inode i d s) = msb s" "freeblock (set_inode i d s) = freeblock s"
  "freeinode (set_inode i d s) = freeinode s"
  "b < 33 \<or> 45 < b \<Longrightarrow> i < 208 \<Longrightarrow> sectors (set_inode i d s) b = sectors s b"
  by (auto simp: set_inode_def)

lemma meta_ok_set: "i < 208 \<Longrightarrow> meta_ok (set_inode i d s) = meta_ok s"
  by (simp add: meta_ok_def)

lemma small_offset: "l \<le> MAXFILE * BSIZE \<Longrightarrow> unat (of_nat l :: u32) = l"
  by (simp add: unat_of_nat MAXFILE_def NDIRECT_def NINDIRECT_def BSIZE_def)

lemma iappend_run:
  assumes "minv k fc s" "i \<in> {1..k}" "length (fc i) + length p \<le> MAXFILE * BSIZE" "47 + blocks_of k (fc(i := fc i @ p)) \<le> 2000"
  shows "\<exists>t. iappend (of_nat i) p s = Done () t \<and> minv k (fc(i := fc i @ p)) t"
proof -
  note M = minv_finv [OF assms(1)]
  have i: "i < 208" using assms(2) M(2) by simp
  let ?d = "idisk s i"
  have sz: "unat (d_size ?d) = length (fc i)" using M(7) [OF assms(2)] by (simp add: inode_ok_def)
  obtain A t where t: "iappend_loop ?d (d_size ?d) p s = Done (?d\<lparr>d_addrs := A\<rparr>, of_nat (length (fc i) + length p)) t"
    "finv k ((idisk s)(i := ?d\<lparr>d_addrs := A\<rparr>)) (fc(i := fc i @ p)) t" "freeinode t = freeinode s" "\<forall>b<47. sectors t b = sectors s b"
    using iappend_loop_run [OF M(1) assms(2) sz assms(3,4)] by blast
  have a: "ainv k ((idisk s)(i := ?d\<lparr>d_addrs := A\<rparr>)) (\<lambda>x. need (length ((fc(i := fc i @ p)) x))) t" using t(2) by (simp only: finv_def)
  note T = ainvD(1,2) [OF a]
  define z where "z = (of_nat (length (fc i) + length p) :: u32)"
  let ?e = "?d\<lparr>d_addrs := A, d_size := z\<rparr>"
  let ?t = "set_inode i ?e t"
  have run: "iappend (of_nat i) p s = Done () ?t"
    unfolding z_def iappend_def winode_run(2) [OF i M(5,6)] mbind.simps xint_id t(1) prod.case winode_run(1) [OF i T] by simp
  have same: "idisk t j = idisk s j" if "j < 208" for j
  proof -
    have "j div 16 < 13" using that by (intro less_mult_imp_div_less) simp
    then show ?thesis using t(4) by (simp add: idisk_def)
  qed
  have idk: "idisk ?t j = (if j = i then norm ?e else idisk s j)" if "j \<in> {1..k}" for j
    using that M(2) same [of j] by (simp add: idisk_set)
  have "finv k (idisk ?t) (fc(i := fc i @ p)) t"
    by (rule finv_cong [OF t(2)]) (simp add: idk faddr_norm)
  then have f: "finv k (idisk ?t) (fc(i := fc i @ p)) ?t" by (rule finv_low) (use i in simp_all)
  have "inode_ok j ((fc(i := fc i @ p)) j) (idisk ?t j)" if "j \<in> {1..k}" for j
    using M(7) [OF that] small_offset [OF assms(3), folded z_def] by (auto simp: idk [OF that] inode_ok_def norm_def)
  moreover have "meta_ok t" using M(4) t(4) by (simp add: meta_ok_def)
  ultimately have "minv k (fc(i := fc i @ p)) ?t" unfolding minv_def using f M(2,3) t(3) meta_ok_set [OF i] by simp
  then show ?thesis using run by blast
qed

lemma finv_Suc:
  assumes "finv k D fc s" "\<forall>j\<le>NDIRECT. d_addrs (D (Suc k)) j = 0"
  shows "finv (Suc k) D (fc(Suc k := [])) s"
proof -
  have a: "ainv k D (\<lambda>i. need (length (fc i))) s" using assms(1) by (simp add: finv_def)
  note I = ainvD [OF a]
  have n0: "need 0 = 0" "nblk 0 = 0" "slots 0 = {}" by (simp_all add: need_eq nblk_def slots_def)
  let ?nb = "\<lambda>i. need (length ((fc(Suc k := [])) i))"
  have nb: "i \<le> k \<Longrightarrow> ?nb i = need (length (fc i))" "?nb (Suc k) = 0" for i by (simp_all add: n0)
  have slot: "i \<in> {1..k}" if "i \<in> {1..Suc k}" "j \<in> slots (?nb i)" for i j
  proof (rule ccontr)
    assume "i \<notin> {1..k}"
    then have "i = Suc k" using that(1) by auto
    then show False using that(2) nb(2) n0(3) by simp
  qed
  have "ainv (Suc k) D ?nb s"
  proof (rule ainvI)
    show "unat (freeblock s) = 47 + (\<Sum>i=1..Suc k. nblk (?nb i))" using I(4) nb n0 by simp
    show "?nb i \<le> MAXFILE" if "i \<in> {1..Suc k}" for i using that I(6) [of i] n0(1) by (cases "i = Suc k") auto
    show "47 \<le> faddr (sectors s) (D i) j \<and> faddr (sectors s) (D i) j < unat (freeblock s)" if "i \<in> {1..Suc k}" "j \<in> slots (?nb i)" for i j
      using I(7) [OF slot [OF that]] that(2) slot [OF that] by simp
    show "faddr (sectors s) (D i) j = 0" if "i \<in> {1..Suc k}" "j \<le> MAXFILE" "j \<notin> slots (?nb i)" for i j
      using that I(8) [of i j] faddr_zero [OF assms(2)] by (cases "i = Suc k") auto
    show "i = i' \<and> j = j'" if "i \<in> {1..Suc k}" "i' \<in> {1..Suc k}" "j \<in> slots (?nb i)" "j' \<in> slots (?nb i')"
      "faddr (sectors s) (D i) j = faddr (sectors s) (D i') j'" for i i' j j'
      using I(9) [OF slot [OF that(1,3)] slot [OF that(2,4)]] that(3-5) slot [OF that(1,3)] slot [OF that(2,4)] by simp
  qed (use I(1-3,5) in simp_all)
  moreover have "holds (sectors s) (D i) (?nb i) ((fc(Suc k := [])) i)" if "i \<in> {1..Suc k}" for i
    using that assms(1) n0(1) by (cases "i = Suc k") (auto simp: finv_def holds_def)
  ultimately show ?thesis by (simp add: finv_def)
qed

lemma ialloc_run:
  assumes "minv k fc s" "Suc k < 208" "ty = (if k = 0 then T_DIR else T_FILE)"
  shows "\<exists>t. ialloc ty s = Done (of_nat (Suc k)) t \<and> minv (Suc k) (fc(Suc k := [])) t"
proof -
  note M = minv_finv [OF assms(1)]
  let ?d = "\<lparr>d_type = ty, d_major = 0, d_minor = 0, d_nlink = 1, d_size = 0, d_addrs = (\<lambda>_. 0)\<rparr>"
  define n where "n = (of_nat (Suc (Suc k)) :: u32)"
  let ?s = "s\<lparr>freeinode := n\<rparr>"
  let ?t = "set_inode (Suc k) ?d ?s"
  have "winode (of_nat (Suc k)) ?d ?s = Done () ?t" by (rule winode_run [OF assms(2)]) (simp_all add: M)
  then have run: "ialloc ty s = Done (of_nat (Suc k)) ?t" using M(3) by (simp add: ialloc_def Let_def n_def add.commute)
  have e: "idisk ?s = idisk s" by (simp add: idisk_def fun_eq_iff)
  have idk: "idisk ?t j = (if j = Suc k then norm ?d else idisk s j)" for j unfolding idisk_set e by simp
  have "finv k (idisk ?t) fc s" by (rule finv_cong [OF M(1)]) (simp add: idk)
  then have "finv k (idisk ?t) fc ?t" by (rule finv_low) (use assms(2) in simp_all)
  then have f: "finv (Suc k) (idisk ?t) (fc(Suc k := [])) ?t" by (rule finv_Suc) (simp add: idk norm_def)
  have "inode_ok j ((fc(Suc k := [])) j) (idisk ?t j)" if "j \<in> {1..Suc k}" for j
    unfolding idk using that M(7) [of j] assms(3) by (cases "j = Suc k") (auto simp: inode_ok_def norm_def)
  moreover have "meta_ok ?s" using M(4) by (simp add: meta_ok_def)
  ultimately show ?thesis using run f assms(2) meta_ok_set [OF assms(2)] by (auto simp: minv_def n_def)
qed

lemma copy_file_run:
  assumes "minv k fc s" "i \<in> {1..k}" "reliable f" "length (fc i) + length (rdata f) \<le> MAXFILE * BSIZE"
    and "47 + blocks_of k (fc(i := fc i @ rdata f)) \<le> 2000"
  shows "\<exists>t. copy_file (of_nat i) f s = Done () t \<and> minv k (fc(i := fc i @ rdata f)) t"
  using assms
proof (induction "length (rdata f)" arbitrary: f fc s rule: less_induct)
  case less
  obtain bs g where g: "uread BSIZE f = (Some bs, g)" "reliable g" "rdata f = bs @ rdata g" "bs = [] \<longleftrightarrow> BSIZE = 0 \<or> rdata f = []"
    by (rule uread_reliable [OF less.prems(3), of BSIZE])
  show ?case
  proof (cases bs)
    case Nil
    then have e: "fc(i := fc i @ rdata f) = fc" using g(4) by (simp add: BSIZE_def)
    show ?thesis unfolding e using g(1) Nil less.prems(1) by (subst copy_file.simps) simp
  next
    case (Cons b cs)
    have le: "47 + blocks_of k (fc(i := fc i @ bs)) \<le> 2000"
      using blocks_of_mono [OF less.prems(2), of "fc i @ bs" "fc i @ rdata f" fc] less.prems(5) g(3) by simp
    have len: "length (fc i) + length bs \<le> MAXFILE * BSIZE" using less.prems(4) g(3) by simp
    obtain u where u: "iappend (of_nat i) bs s = Done () u" "minv k (fc(i := fc i @ bs)) u"
      using iappend_run [OF less.prems(1,2) len le] by blast
    let ?fc = "fc(i := fc i @ bs)"
    have fe: "?fc(i := ?fc i @ rdata g) = fc(i := fc i @ rdata f)" using g(3) by simp
    have pre: "length (rdata g) < length (rdata f)" "length (?fc i) + length (rdata g) \<le> MAXFILE * BSIZE" "47 + blocks_of k (?fc(i := ?fc i @ rdata g)) \<le> 2000"
      unfolding fe using less.prems(4,5) g(3) Cons by simp_all
    obtain t where t: "copy_file (of_nat i) g u = Done () t" "minv k (?fc(i := ?fc i @ rdata g)) t"
      using less.hyps [OF pre(1) u(2) less.prems(2) g(2) pre(2,3)] by blast
    have "copy_file (of_nat i) f s = Done () t" using g(1) Cons u(1) t(1) by (subst copy_file.simps) simp
    then show ?thesis using t(2) unfolding fe by blast
  qed
qed

lemma blocks_of_le:
  assumes "k \<le> k'" "\<And>i. i \<in> {1..k} \<Longrightarrow> length (fc i) \<le> length (fc' i)"
  shows "blocks_of k fc \<le> blocks_of k' fc'"
proof -
  have "blocks_of k fc \<le> (\<Sum>i=1..k. nblk (need (length (fc' i))))" unfolding blocks_of_def using assms(2) nblk_mono by (intro sum_mono) simp
  also have "\<dots> \<le> blocks_of k' fc'" unfolding blocks_of_def using assms(1) by (intro sum_mono2) auto
  finally show ?thesis .
qed

text \<open>The contents after adding files: one more entry of the root directory and one more inode for each.\<close>

definition entry_name :: "u8 list \<Rightarrow> u8 list" where
  "entry_name arg = skip_underscore (shortname arg)"

fun added :: "nat \<Rightarrow> (u8 list \<times> source option) list \<Rightarrow> (nat \<Rightarrow> u8 list) \<Rightarrow> nat \<Rightarrow> u8 list" where
  "added k [] fc = fc"
| "added k ((arg, fd) # as) fc =
     added (Suc k) as (fc(1 := fc 1 @ dirent (of_nat (Suc k)) (entry_name arg), Suc k := rdata (the fd)))"

definition arg_ok :: "u8 list \<times> source option \<Rightarrow> bool" where
  "arg_ok a \<longleftrightarrow> 47 \<notin> set (shortname (fst a)) \<and> length (entry_name (fst a)) \<le> DIRSIZ
     \<and> (\<exists>f. snd a = Some f \<and> reliable f \<and> length (rdata f) \<le> MAXFILE * BSIZE)"

lemma length_dirent [simp]: "length (dirent i name) = 16"
  by (simp add: dirent_def DIRSIZ_def)

lemma added_grows: "1 \<le> k \<Longrightarrow> i \<in> {1..k} \<Longrightarrow> length (fc i) \<le> length (added k as fc i)"
proof (induction k as fc rule: added.induct)
  case (2 k arg fd as fc)
  let ?fc = "fc(1 := fc 1 @ dirent (of_nat (Suc k)) (entry_name arg), Suc k := rdata (the fd))"
  have "length (fc i) \<le> length (?fc i)" using "2.prems" by auto
  also have "\<dots> \<le> length (added (Suc k) as ?fc i)" by (rule "2.IH") (use "2.prems" in auto)
  finally show ?case unfolding added.simps .
qed simp

lemma length_added_root: "1 \<le> k \<Longrightarrow> length (added k as fc 1) = length (fc 1) + 16 * length as"
  by (induction k as fc rule: added.induct) auto

lemma add_file_run:
  assumes "minv k fc s" "1 \<le> k" "Suc k < 208" "arg_ok (arg, fd)" "length (fc 1) + 16 \<le> MAXFILE * BSIZE"
  defines "fc' \<equiv> fc(1 := fc 1 @ dirent (of_nat (Suc k)) (entry_name arg), Suc k := rdata (the fd))"
  assumes "47 + blocks_of (Suc k) fc' \<le> 2000"
  shows "\<exists>t. add_file 1 (arg, fd) s = Done () t \<and> minv (Suc k) fc' t"
proof -
  obtain f where f: "fd = Some f" "reliable f" "length (rdata f) \<le> MAXFILE * BSIZE" using assms(4) by (auto simp: arg_ok_def)
  obtain t where t: "ialloc T_FILE s = Done (of_nat (Suc k)) t" "minv (Suc k) (fc(Suc k := [])) t"
    using ialloc_run [OF assms(1,3), of T_FILE] assms(2) by auto
  let ?e = "dirent (of_nat (Suc k)) (entry_name arg)" and ?fc = "fc(Suc k := [])"
  let ?fc2 = "?fc(1 := ?fc 1 @ ?e)"
  have "blocks_of (Suc k) ?fc2 \<le> blocks_of (Suc k) fc'" using assms(2) by (intro blocks_of_le) (auto simp: fc'_def)
  then have le: "47 + blocks_of (Suc k) ?fc2 \<le> 2000" using assms(7) by simp
  have len: "length (?fc 1) + length ?e \<le> MAXFILE * BSIZE" using assms(2,5) by simp
  obtain u where u: "iappend 1 ?e t = Done () u" "minv (Suc k) ?fc2 u"
    using iappend_run [OF t(2) _ len le] by auto
  have fe: "?fc2(Suc k := ?fc2 (Suc k) @ rdata f) = fc'" using assms(2) f(1) by (auto simp: fc'_def fun_eq_iff)
  have in': "Suc k \<in> {1..Suc k}" and z: "?fc2 (Suc k) = []" using assms(2) by auto
  have pre: "length (?fc2 (Suc k)) + length (rdata f) \<le> MAXFILE * BSIZE" "47 + blocks_of (Suc k) (?fc2(Suc k := ?fc2 (Suc k) @ rdata f)) \<le> 2000"
    unfolding fe unfolding z using f(3) assms(7) by simp_all
  obtain v where v: "copy_file (of_nat (Suc k)) f u = Done () v" "minv (Suc k) (?fc2(Suc k := ?fc2 (Suc k) @ rdata f)) v"
    using copy_file_run [OF u(2) in' f(2) pre] by blast
  have a: "47 \<notin> set (shortname arg)" "length (skip_underscore (shortname arg)) \<le> DIRSIZ" using assms(4) by (simp_all add: arg_ok_def entry_name_def)
  have "add_file 1 (arg, fd) s = Done () v"
    unfolding add_file.simps f(1) option.case Let_def if_not_P [OF a(1)] t(1) mbind.simps
    using a(2) u(1) v(1) by (simp add: entry_name_def)
  then show ?thesis using v(2) unfolding fe by blast
qed

lemma add_files_run:
  assumes "minv k fc s" "1 \<le> k" "k + length as < 208" "\<forall>a\<in>set as. arg_ok a" "length (fc 1) + 16 * length as \<le> MAXFILE * BSIZE"
    and "47 + blocks_of (k + length as) (added k as fc) \<le> 2000"
  shows "\<exists>t. add_files 1 as s = Done () t \<and> minv (k + length as) (added k as fc) t"
  using assms
proof (induction as arbitrary: k fc s)
  case (Cons a as)
  obtain arg fd where a: "a = (arg, fd)" by (cases a)
  let ?fc = "fc(1 := fc 1 @ dirent (of_nat (Suc k)) (entry_name arg), Suc k := rdata (the fd))"
  have "blocks_of (Suc k) ?fc \<le> blocks_of (Suc k + length as) (added (Suc k) as ?fc)"
    using Cons.prems(2) by (intro blocks_of_le added_grows) simp_all
  then have le: "47 + blocks_of (Suc k) ?fc \<le> 2000" using Cons.prems(6) a by simp
  have pre: "Suc k < 208" "arg_ok (arg, fd)" "length (fc 1) + 16 \<le> MAXFILE * BSIZE" using Cons.prems(3-5) a by simp_all
  obtain u where u: "add_file 1 (arg, fd) s = Done () u" "minv (Suc k) ?fc u"
    using add_file_run [OF Cons.prems(1,2) pre le] by blast
  have r1: "length (?fc 1) = length (fc 1) + 16" using Cons.prems(2) by simp
  have pre2: "1 \<le> Suc k" "Suc k + length as < 208" "\<forall>a\<in>set as. arg_ok a" "length (?fc 1) + 16 * length as \<le> MAXFILE * BSIZE"
    "47 + blocks_of (Suc k + length as) (added (Suc k) as ?fc) \<le> 2000"
    unfolding r1 using Cons.prems(3-6) a by simp_all
  obtain t where "add_files 1 as u = Done () t" "minv (Suc k + length as) (added (Suc k) as ?fc) t"
    using Cons.IH [OF u(2) pre2] by blast
  then show ?case using u(1) a by simp
qed simp

section \<open>The whole image\<close>

lemma zero_fold: "n \<le> 2 ^ 22 \<Longrightarrow> sectors s = (\<lambda>_ _. 0) \<Longrightarrow> nsect s = 0 \<Longrightarrow> fold (\<lambda>i. wsect (of_nat i) (\<lambda>_. 0)) [0..<n] s = s\<lparr>nsect := n\<rparr>"
proof (induction n)
  case (Suc n)
  have IH: "fold (\<lambda>i. wsect (of_nat i) (\<lambda>_. 0)) [0..<n] s = s\<lparr>nsect := n\<rparr>" by (rule Suc.IH) (use Suc.prems in simp_all)
  have "sectors (s\<lparr>nsect := n\<rparr>) = (sectors s)(n := \<lambda>_. 0)" using Suc.prems(2) by (simp add: fun_upd_idem)
  then have w: "wsect (of_nat n) (\<lambda>_. 0) (s\<lparr>nsect := n\<rparr>) = s\<lparr>nsect := Suc n\<rparr>"
    using Suc.prems by (simp add: wsect_def fun_upd_idem)
  have "fold (\<lambda>i. wsect (of_nat i) (\<lambda>_. 0)) [0..<Suc n] s = wsect (of_nat n) (\<lambda>_. 0) (s\<lparr>nsect := n\<rparr>)" using IH by simp
  then show ?case unfolding w .
qed simp

lemma fresh_eq: "fresh_image = \<lparr>sectors = (\<lambda>_ _. 0)(1 := wr (\<lambda>_. 0) 0 (sb_bytes new_sb)), nsect = 2000, freeinode = 1, freeblock = 47, msb = new_sb\<rparr>"
  unfolding fresh_image_def Let_def
  by (subst zero_fold) (simp_all add: FSSIZE_def wsect_def sect_at_small)

lemma fresh_minv: "minv 0 fc fresh_image"
proof -
  have "ainv 0 (idisk fresh_image) (\<lambda>i. need (length (fc i))) fresh_image"
    by (rule ainvI) (simp_all add: fresh_eq)
  then show ?thesis by (simp add: minv_def finv_def meta_ok_def fresh_eq)
qed

definition root0 :: "u8 list" where
  "root0 = dirent 1 [46] @ dirent 1 [46, 46]"

text \<open>The contents the image is to have: inode 1 is the root directory, inode \<open>i + 2\<close> the file given by argument \<open>i\<close>.\<close>

definition files :: "(u8 list \<times> source option) list \<Rightarrow> nat \<Rightarrow> u8 list" where
  "files args = added 1 args ((\<lambda>_. [])(1 := root0))"

lemma added_other: "1 \<le> k \<Longrightarrow> i \<noteq> 1 \<Longrightarrow> i \<le> k \<Longrightarrow> added k as fc i = fc i"
  by (induction k as fc rule: added.induct) auto

lemma added_file: "1 \<le> k \<Longrightarrow> i < length as \<Longrightarrow> added k as fc (Suc k + i) = rdata (the (snd (as ! i)))"
proof (induction k as fc arbitrary: i rule: added.induct)
  case (2 k arg fd as fc)
  let ?fc = "fc(1 := fc 1 @ dirent (of_nat (Suc k)) (entry_name arg), Suc k := rdata (the fd))"
  show ?case
  proof (cases i)
    case 0
    then show ?thesis using added_other [of "Suc k" "Suc k" as ?fc] "2.prems"(1) by simp
  next
    case (Suc j)
    have "added (Suc k) as ?fc (Suc (Suc k) + j) = rdata (the (snd (as ! j)))" by (rule "2.IH") (use "2.prems" Suc in simp_all)
    then show ?thesis using Suc unfolding added.simps by simp
  qed
qed simp

lemma files_file: "i < length args \<Longrightarrow> files args (i + 2) = rdata (the (snd (args ! i)))"
  unfolding files_def using added_file [of 1 i args] by (simp add: numeral_2_eq_2 add.commute)

lemma added_root:
  "1 \<le> k \<Longrightarrow> added k as fc 1 = fc 1 @ concat (map (\<lambda>j. dirent (of_nat (Suc k + j)) (entry_name (fst (as ! j)))) [0..<length as])"
proof (induction k as fc rule: added.induct)
  case (2 k arg fd as fc)
  let ?fc = "fc(1 := fc 1 @ dirent (of_nat (Suc k)) (entry_name arg), Suc k := rdata (the fd))"
  have "added (Suc k) as ?fc 1 = ?fc 1 @ concat (map (\<lambda>j. dirent (of_nat (Suc (Suc k) + j)) (entry_name (fst (as ! j)))) [0..<length as])"
    by (rule "2.IH") simp
  moreover have "map (\<lambda>j. dirent (of_nat (Suc k + j)) (entry_name (fst (((arg, fd) # as) ! j)))) [0..<length ((arg, fd) # as)]
      = dirent (of_nat (Suc k)) (entry_name arg) # map (\<lambda>j. dirent (of_nat (Suc (Suc k) + j)) (entry_name (fst (as ! j)))) [0..<length as]"
    by (simp add: upt_conv_Cons map_Suc_upt [symmetric] del: upt_Suc)
  ultimately show ?case unfolding added.simps using "2.prems" by simp
qed simp

lemma bits_fold: "bit_set (fold (\<lambda>i d. d(i div 8 := d (i div 8) OR push_bit (i mod 8) 1)) [0..<n] (\<lambda>_. 0)) j \<longleftrightarrow> j < n"
proof (induction n)
  case 0
  show ?case by (simp add: bit_set_def)
next
  case (Suc n)
  then show ?case by (simp only: upt_Suc le0 if_True fold_append fold.simps comp_apply id_apply bit_set_mark) auto
qed

definition finished :: "image \<Rightarrow> image" where
  "finished t =
     (let s = set_inode 1 ((idisk t 1)\<lparr>d_size := (d_size (idisk t 1) div of_nat BSIZE + 1) * of_nat BSIZE\<rparr>) t
      in s\<lparr>sectors := (sectors s)(46 := fold (\<lambda>i d. d(i div 8 := d (i div 8) OR push_bit (i mod 8) 1)) [0..<unat (freeblock t)] (\<lambda>_. 0))\<rparr>)"

lemma fix_root_balloc:
  assumes "minv k fc t"
  shows "mbind (fix_root 1 t) (\<lambda>_ s. balloc (freeblock s) s) = Done () (finished t)"
proof -
  note M = minv_finv [OF assms]
  let ?s = "set_inode 1 ((idisk t 1)\<lparr>d_size := (d_size (idisk t 1) div of_nat BSIZE + 1) * of_nat BSIZE\<rparr>) t"
  have "rinode (of_nat 1) t = Done (idisk t 1) t" "winode (of_nat 1) d t = Done () (set_inode 1 d t)" for d
    by (rule winode_run; simp add: M)+
  then have "fix_root 1 t = Done () ?s" by (simp add: fix_root_def Let_def)
  moreover have fb: "unat (freeblock t) \<le> 2000" using M(1) ainvD(3) by (auto simp: finv_def)
  then have si: "sint (freeblock t) = int (unat (freeblock t))" by (intro sint_unat) simp
  then have "\<not> \<not> sint (freeblock t) < int BPB" using fb by (simp only: BPB_def BSIZE_def)
  then have "balloc (freeblock ?s) ?s = Done () (finished t)"
    unfolding balloc_def set_inode_sel if_not_P si nat_int using M(5,6) by (simp add: finished_def Let_def wsect_run)
  ultimately show ?thesis by simp
qed

lemma mkfs_run:
  assumes "\<forall>a\<in>set args. arg_ok a" "length args \<le> 206" "47 + blocks_of (Suc (length args)) (files args) \<le> 2000"
  shows "\<exists>t. mkfs args = Done () (finished t) \<and> minv (Suc (length args)) (files args) t"
proof -
  let ?z = "\<lambda>_. [] :: u8 list" and ?d1 = "dirent 1 [46]" and ?d2 = "dirent 1 [46, 46]"
  obtain s1 where s1: "ialloc T_DIR fresh_image = Done 1 s1" "minv 1 (?z(1 := [])) s1"
    using ialloc_run [OF fresh_minv [of ?z], of T_DIR] by auto
  have in1: "1 \<in> {1..1 :: nat}" by simp
  have fin: "blocks_of 1 fc \<le> blocks_of (Suc (length args)) (files args)" if "length (fc 1) \<le> length root0" for fc
  proof (rule blocks_of_le)
    fix i assume "i \<in> {1..1 :: nat}"
    then have "i = 1" by simp
    moreover have "length root0 \<le> length (files args 1)" unfolding files_def using length_added_root [of 1 args "?z(1 := root0)"] by simp
    ultimately show "length (fc i) \<le> length (files args i)" using that by simp
  qed simp
  have big: "32 + 16 * length args \<le> MAXFILE * BSIZE" using assms(2) by (simp add: MAXFILE_def NDIRECT_def NINDIRECT_def BSIZE_def)
  have b1: "length ((?z(1 := [])) 1) + length ?d1 \<le> MAXFILE * BSIZE" "47 + blocks_of 1 ((?z(1 := []))(1 := (?z(1 := [])) 1 @ ?d1)) \<le> 2000"
    using big fin [of "(?z(1 := []))(1 := (?z(1 := [])) 1 @ ?d1)"] assms(3) by (simp_all add: root0_def)
  have e1: "(?z(1 := []))(1 := (?z(1 := [])) 1 @ ?d1) = ?z(1 := ?d1)" by simp
  obtain s2 where s2: "iappend 1 ?d1 s1 = Done () s2" "minv 1 (?z(1 := ?d1)) s2"
    using iappend_run [OF s1(2) in1 b1] unfolding e1 by auto
  have e2: "(?z(1 := ?d1))(1 := (?z(1 := ?d1)) 1 @ ?d2) = ?z(1 := root0)" by (simp add: root0_def)
  have b2: "length ((?z(1 := ?d1)) 1) + length ?d2 \<le> MAXFILE * BSIZE" "47 + blocks_of 1 ((?z(1 := ?d1))(1 := (?z(1 := ?d1)) 1 @ ?d2)) \<le> 2000"
    unfolding e2 using big fin [of "?z(1 := root0)"] assms(3) by simp_all
  obtain s3 where s3: "iappend 1 ?d2 s2 = Done () s3" "minv 1 (?z(1 := root0)) s3"
    using iappend_run [OF s2(2) in1 b2] unfolding e2 by auto
  have b3: "(1 :: nat) \<le> 1" "1 + length args < 208" "length ((?z(1 := root0)) 1) + 16 * length args \<le> MAXFILE * BSIZE"
    "47 + blocks_of (1 + length args) (added 1 args (?z(1 := root0))) \<le> 2000"
    using big assms(2,3) by (simp_all add: root0_def files_def)
  obtain t where t: "add_files 1 args s3 = Done () t" "minv (1 + length args) (added 1 args (?z(1 := root0))) t"
    using add_files_run [OF s3(2) b3(1,2) assms(1) b3(3,4)] by blast
  have "mkfs args = mbind (fix_root 1 t) (\<lambda>_ s. balloc (freeblock s) s)"
    unfolding mkfs_def s1(1) mbind.simps ROOTINO_def by (simp add: s2(1) s3(1) t(1))
  then have "mkfs args = Done () (finished t)" unfolding fix_root_balloc [OF t(2)] .
  then show ?thesis using t(2) by (auto simp: files_def)
qed

lemma finished_facts:
  assumes "minv k fc t" "1 \<le> k" "length (fc 1) div BSIZE < 2 ^ 20"
  shows "finv k (idisk (finished t)) fc (finished t)" "nsect (finished t) = 2000"
    "\<And>b. b \<in> {2..32} \<Longrightarrow> sectors (finished t) b = (\<lambda>_. 0)" "sectors (finished t) 1 = wr (\<lambda>_. 0) 0 (sb_bytes new_sb)"
    "\<And>b. bit_set (sectors (finished t) 46) b \<longleftrightarrow> b < 47 + blocks_of k fc"
    "\<And>i. i \<in> {2..k} \<Longrightarrow> inode_ok i (fc i) (idisk (finished t) i)"
    "d_nlink (idisk (finished t) 1) = 1 \<and> d_type (idisk (finished t) 1) = T_DIR \<and> unat (d_size (idisk (finished t) 1)) = (length (fc 1) div BSIZE + 1) * BSIZE"
proof -
  note M = minv_finv [OF assms(1)]
  define z where "z = (d_size (idisk t 1) div of_nat BSIZE + 1) * (of_nat BSIZE :: u32)"
  let ?e = "(idisk t 1)\<lparr>d_size := z\<rparr>"
  let ?s = "set_inode 1 ?e t" and ?f = "finished t"
  have sec: "sectors ?f b = sectors ?s b" if "b \<noteq> 46" for b using that by (simp add: finished_def Let_def z_def)
  have idk: "idisk ?f i = (if i = 1 then norm ?e else idisk t i)" if "i \<in> {1..k}" for i
  proof -
    have "i div 16 < 13" using that M(2) by (intro less_mult_imp_div_less) simp
    then have "idisk ?f i = idisk ?s i" by (simp add: idisk_def sec)
    then show ?thesis by (simp add: idisk_set)
  qed
  have "finv k (idisk ?f) fc t" by (rule finv_cong [OF M(1)]) (simp add: idk faddr_norm)
  then have "finv k (idisk ?f) fc ?s" by (rule finv_low) simp_all
  then show "finv k (idisk ?f) fc ?f" by (rule finv_low) (simp_all add: sec, simp_all add: finished_def Let_def)
  show "nsect ?f = 2000" using M(5) by (simp add: finished_def Let_def)
  have meta: "sectors ?f b = (if b = 1 then wr (\<lambda>_. 0) 0 (sb_bytes new_sb) else (\<lambda>_. 0))" if "b < 33" for b
    using that M(4) by (simp add: sec meta_ok_def)
  show "\<And>b. b \<in> {2..32} \<Longrightarrow> sectors ?f b = (\<lambda>_. 0)" "sectors ?f 1 = wr (\<lambda>_. 0) 0 (sb_bytes new_sb)" using meta by simp_all
  have "sectors ?f 46 = fold (\<lambda>i d. d(i div 8 := d (i div 8) OR push_bit (i mod 8) 1)) [0..<unat (freeblock t)] (\<lambda>_. 0)"
    by (simp add: finished_def Let_def)
  then show "\<And>b. bit_set (sectors ?f 46) b \<longleftrightarrow> b < 47 + blocks_of k fc" unfolding finv_free [OF M(1)] by (simp only: bits_fold)
  show "\<And>i. i \<in> {2..k} \<Longrightarrow> inode_ok i (fc i) (idisk ?f i)" using M(7) idk by simp
  have i1: "inode_ok 1 (fc 1) (idisk t 1)" using M(7) assms(2) by simp
  then have d: "unat (d_size (idisk t 1) div of_nat BSIZE :: u32) = length (fc 1) div BSIZE" by (simp add: unat_BSIZE inode_ok_def)
  have "unat z = (length (fc 1) div BSIZE + 1) * BSIZE"
    unfolding z_def using assms(3) d by (simp add: unat_word_ariths BSIZE_def)
  then show "d_nlink (idisk ?f 1) = 1 \<and> d_type (idisk ?f 1) = T_DIR \<and> unat (d_size (idisk ?f 1)) = (length (fc 1) div BSIZE + 1) * BSIZE"
    using i1 assms(2) by (simp add: idk norm_def inode_ok_def)
qed

text \<open>
  C11: \<open>mkfs\<close> writes the file system it is asked for. If the names fit, every file can be read and is not too long, and
  there are inodes and blocks enough, the program ends normally, with a full-size image in which the superblock describes the
  layout, the log is empty, the bitmap marks exactly the blocks in use, and every inode has the type and size it should
  have and, through its direct and indirect blocks, the content it should have: the root directory has the entries \<open>.\<close>, \<open>..\<close> and one
  for each file, and the inode of each entry has the bytes of that file. The rest of each last block is zero.
\<close>

theorem mkfs_image:
  assumes "\<forall>a\<in>set args. arg_ok a" "length args \<le> 206" "nmeta + blocks_of (Suc (length args)) (files args) \<le> FSSIZE"
  shows "\<exists>s. mkfs args = Done () s \<and> nsect s = FSSIZE \<and> rd (sectors s 1) 0 32 = sb_bytes new_sb \<and> (\<forall>b\<in>{2..32}. sectors s b = (\<lambda>_. 0))
    \<and> (\<forall>b. bit_set (sectors s 46) b \<longleftrightarrow> b < nmeta + blocks_of (Suc (length args)) (files args))
    \<and> (\<forall>i\<in>{1..Suc (length args)}. holds (sectors s) (idisk s i) (need (length (files args i))) (files args i) \<and> d_nlink (idisk s i) = 1
        \<and> d_type (idisk s i) = (if i = 1 then T_DIR else T_FILE)
        \<and> unat (d_size (idisk s i)) = (if i = 1 then (length (files args 1) div BSIZE + 1) * BSIZE else length (files args i)))
    \<and> files args 1 = dirent 1 [46] @ dirent 1 [46, 46] @ concat (map (\<lambda>j. dirent (of_nat (j + 2)) (entry_name (fst (args ! j)))) [0..<length args])
    \<and> (\<forall>j<length args. files args (j + 2) = rdata (the (snd (args ! j))))"
proof -
  let ?k = "Suc (length args)"
  obtain t where t: "mkfs args = Done () (finished t)" "minv ?k (files args) t"
    using mkfs_run [OF assms(1,2)] assms(3) by (auto simp: FSSIZE_def)
  have root: "files args 1 = root0 @ concat (map (\<lambda>j. dirent (of_nat (Suc 1 + j)) (entry_name (fst (args ! j)))) [0..<length args])"
    unfolding files_def by (subst added_root) simp_all
  have "length (files args 1) = 32 + 16 * length args"
    unfolding files_def by (subst length_added_root) (simp_all add: root0_def)
  then have "length (files args 1) div BSIZE < 2 ^ 20" using assms(2) by (simp add: BSIZE_def)
  note F = finished_facts [OF t(2) _ this]
  have len: "length (sb_bytes new_sb) = 32" by (simp add: sb_bytes_def)
  have i: "holds (sectors (finished t)) (idisk (finished t) i) (need (length (files args i))) (files args i) \<and> d_nlink (idisk (finished t) i) = 1
        \<and> d_type (idisk (finished t) i) = (if i = 1 then T_DIR else T_FILE)
        \<and> unat (d_size (idisk (finished t) i)) = (if i = 1 then (length (files args 1) div BSIZE + 1) * BSIZE else length (files args i))"
    if "i \<in> {1..?k}" for i
    using that F(1,6,7) by (cases "i = 1") (auto simp: finv_def inode_ok_def)
  have "rd (sectors (finished t) 1) 0 32 = sb_bytes new_sb" using F(4) len by simp
  moreover have "nsect (finished t) = FSSIZE" using F(2) by (simp add: FSSIZE_def)
  moreover have "files args 1 = dirent 1 [46] @ dirent 1 [46, 46] @ concat (map (\<lambda>j. dirent (of_nat (j + 2)) (entry_name (fst (args ! j)))) [0..<length args])"
    unfolding root root0_def by (simp add: add.commute)
  ultimately show ?thesis using t(1) F(3,5) i files_file by (intro exI [of _ "finished t"]) simp
qed

section \<open>The image in the kernel\<close>

text \<open>The disk of a kernel that runs on the image.\<close>

definition runs_on :: "image \<Rightarrow> 'z kfs_scheme \<Rightarrow> bool" where
  "runs_on s t \<longleftrightarrow> sb t = new_sb \<and> log_start t = 2 \<and> (\<forall>b<FSSIZE. content t ROOTDEV (of_nat b) = sectors s b)"

lemma runs_onD: "runs_on s t \<Longrightarrow> unat x < 2000 \<Longrightarrow> content t ROOTDEV x = sectors s (unat x)"
proof -
  assume r: "runs_on s t" "unat x < 2000"
  have "content t ROOTDEV (of_nat (unat x)) = sectors s (unat x)" using r by (simp only: runs_on_def FSSIZE_def)
  then show ?thesis by simp
qed

lemma loaded_inode:
  assumes "runs_on s t" "i < 208" "n' = load_dinode (content t ROOTDEV (IBLOCK (of_nat i) (sb t))) (dip_off (of_nat i)) n"
  shows "isize n' = d_size (idisk s i)" "\<And>j. j \<le> NDIRECT \<Longrightarrow> iaddrs n' j = d_addrs (idisk s i) j" "idev n' = idev n"
proof -
  have sb: "sb t = new_sb" using assms(1) by (simp add: runs_on_def)
  have "unat (IBLOCK (of_nat i) new_sb) < 2000" using assms(2) by (simp add: iblock_num)
  then have c: "content t ROOTDEV (IBLOCK (of_nat i) new_sb) = sectors s (33 + i div 16)"
    using runs_onD [OF assms(1)] iblock_num(1) [OF assms(2)] by simp
  have o: "dip_off (of_nat i) = i mod 16 * 64" using iblock_num(2) [OF assms(2)] by (simp add: dip_off_def)
  show "isize n' = d_size (idisk s i)" "\<And>j. j \<le> NDIRECT \<Longrightarrow> iaddrs n' j = d_addrs (idisk s i) j" "idev n' = idev n"
    unfolding assms(3) sb c o by (simp_all add: load_dinode_def idisk_def get_dinode_def)
qed

lemma image_fblk:
  fixes t :: "'z kfs_scheme"
  assumes "runs_on s t" "finv k (idisk s) fc s" "i \<in> {1..k}" "j < need (length (fc i))"
    and a: "\<And>j. j \<le> NDIRECT \<Longrightarrow> iaddrs (itable t ip) j = d_addrs (idisk s i) j"
  shows "unat (fblk t ip j) = faddr (sectors s) (idisk s i) j" "content t ROOTDEV (fblk t ip j) = sectors s (faddr (sectors s) (idisk s i) j)"
proof -
  have ai: "ainv k (idisk s) (\<lambda>i. need (length (fc i))) s" using assms(2) by (simp add: finv_def)
  note I = ainvD [OF ai]
  let ?d = "d_addrs (idisk s i)"
  have "j < MAXFILE" using assms(4) I(6) [OF assms(3)] by simp
  moreover have "unat (?d NDIRECT) < 2000" if "\<not> j < NDIRECT"
  proof -
    have "MAXFILE \<in> slots (need (length (fc i)))" using that assms(4) by (simp add: slots_def)
    then show ?thesis using I(7) [OF assms(3)] I(3) by (fastforce simp: faddr_MAXFILE)
  qed
  ultimately show f: "unat (fblk t ip j) = faddr (sectors s) (idisk s i) j"
    using a [of j] a [of NDIRECT] runs_onD [OF assms(1), of "?d NDIRECT"] by (auto simp: fblk_def faddr_def)
  have "faddr (sectors s) (idisk s i) j < 2000" using I(7) [OF assms(3), of j] I(3) assms(4) by (simp add: slots_def)
  then show "content t ROOTDEV (fblk t ip j) = sectors s (faddr (sectors s) (idisk s i) j)"
    using runs_onD [OF assms(1), of "fblk t ip j"] f by simp
qed

lemma image_file_ok:
  fixes t :: "'z kfs_scheme"
  assumes "runs_on s t" "finv k (idisk s) fc s" "i \<in> {1..k}" "idev (itable t ip) = ROOTDEV"
    and a: "\<And>j. j \<le> NDIRECT \<Longrightarrow> iaddrs (itable t ip) j = d_addrs (idisk s i) j"
  shows "file_ok (need (length (fc i))) t ip" "\<And>p. p < length (fc i) \<Longrightarrow> fbyte t ip p = fc i ! p"
proof -
  let ?n = "need (length (fc i))"
  have ai: "ainv k (idisk s) (\<lambda>i. need (length (fc i))) s" using assms(2) by (simp add: finv_def)
  note I = ainvD [OF ai] and f = image_fblk [OF assms(1-3) _ a]
  have sl: "j \<in> slots ?n" if "j < ?n" for j using that by (simp add: slots_def)
  have nz: "fblk t ip j \<noteq> 0" if "j < ?n" for j
    using f(1) [OF that] I(7) [OF assms(3) sl [OF that]] by (auto simp: word_unat_eq_iff)
  have inj: "j = j'" if "j < ?n" "j' < ?n" "fblk t ip j = fblk t ip j'" for j j'
    using f(1) [OF that(1)] f(1) [OF that(2)] I(9) [OF assms(3,3) sl [OF that(1)] sl [OF that(2)]] that(3) by simp
  have ind: "fblk t ip j \<noteq> iaddrs (itable t ip) NDIRECT" if "j < ?n" "NDIRECT < ?n" for j
  proof
    assume "fblk t ip j = iaddrs (itable t ip) NDIRECT"
    then have "faddr (sectors s) (idisk s i) j = faddr (sectors s) (idisk s i) MAXFILE"
      using f(1) [OF that(1)] a [of NDIRECT] by (simp add: faddr_MAXFILE)
    then have "j = MAXFILE" using I(9) [OF assms(3,3) sl [OF that(1)]] that(2) by (simp add: slots_def)
    then show False using that(1) I(6) [OF assms(3)] by simp
  qed
  show "file_ok ?n t ip" unfolding file_ok_def using assms(4) I(6) [OF assms(3)] nz inj ind by blast
  show "fbyte t ip p = fc i ! p" if "p < length (fc i)" for p
  proof -
    have p: "p < ?n * BSIZE" using that need_le [of "length (fc i)"] by simp
    then show ?thesis using f(2) [OF block_of [OF p]] assms(2,3) that by (simp add: fbyte_def finv_def holds_def)
  qed
qed

lemma image_bitmap_ok:
  fixes t :: "'z kfs_scheme"
  assumes "runs_on s t" "\<And>b. bit_set (sectors s 46) b \<longleftrightarrow> b < m" "47 \<le> m"
  shows "bitmap_ok t"
proof -
  have r: "sb t = new_sb" "log_start t = 2" using assms(1) by (simp_all add: runs_on_def)
  have B: "BBLOCK (of_nat b) new_sb = 46" if "b < 2000" for b
    using that BBLOCK_of_nat [of b new_sb] by (simp add: BPB_def BSIZE_def)
  have al: "allocated t b \<longleftrightarrow> b < m" if "b < 2000" for b
    using that runs_onD [OF assms(1), of 46] assms(2) by (simp add: allocated_def r B BPB_def BSIZE_def)
  have la: "x \<notin> log_area 2" if "46 \<le> unat x" for x
    using that by (intro notin_log_area) (simp add: unat_sub word_le_nat_alt)
  have "(of_nat b :: u32) \<notin> log_area 2 \<and> (of_nat b :: u32) \<noteq> 46" if "b < 2000" "m \<le> b" for b
  proof -
    have "unat (of_nat b :: u32) = b" using that(1) by (simp add: unat_of_nat)
    then show ?thesis using la [of "of_nat b"] that(2) assms(3) by auto
  qed
  then show ?thesis using la [of 46] al assms(3) by (auto simp: bitmap_ok_def r B)
qed

text \<open>
  C10: The kernel reads back what \<open>mkfs\<close> was given. On a kernel that runs on the image, inside a transaction, the
  bitmap has the form that block allocation relies on, and for every file given to \<open>mkfs\<close>, after its inode has been loaded
  the way \<open>ilock\<close> loads it, \<open>readi\<close> from the start returns the length of the file and its bytes.
\<close>

theorem mkfs_readi:
  fixes t :: "'z kfs_scheme"
  assumes "\<forall>a\<in>set args. arg_ok a" "length args \<le> 206" "nmeta + blocks_of (Suc (length args)) (files args) \<le> FSSIZE"
    and "mkfs args = Done () s" "runs_on s t" "tinv {} t" "lh_n t < LOGBLOCKS"
    and "j < length args" "snd (args ! j) = Some f" "idev n = ROOTDEV" "length (rdata f) \<le> unat N"
    and "itable t ip = load_dinode (content t ROOTDEV (IBLOCK (of_nat (j + 2)) (sb t))) (dip_off (of_nat (j + 2))) n"
  shows "bitmap_ok t \<and> (\<exists>u. readi ip RVar 0 N t = Ret (int (length (rdata f)), rdata f) u)"
proof -
  let ?k = "Suc (length args)" and ?fc = "files args"
  obtain v where v: "mkfs args = Done () (finished v)" "minv ?k ?fc v"
    using mkfs_run [OF assms(1,2)] assms(3) by (auto simp: FSSIZE_def)
  have s: "s = finished v" using v(1) assms(4) by simp
  have le1: "1 \<le> ?k" by simp
  have "length (?fc 1) = 32 + 16 * length args"
    unfolding files_def by (subst length_added_root) (simp_all add: root0_def)
  then have "length (?fc 1) div BSIZE < 2 ^ 20" using assms(2) by (simp add: BSIZE_def)
  note F = finished_facts [OF v(2) le1 this, folded s]
  have bm: "bitmap_ok t" by (rule image_bitmap_ok [OF assms(5) F(5)]) simp
  have c: "?fc (j + 2) = rdata f" using files_file [OF assms(8)] assms(9) by simp
  have ki: "j + 2 \<in> {1..?k}" "j + 2 < 208" using assms(2,8) by auto
  have fin: "finv ?k (idisk s) ?fc s" using F(1) by simp
  note L = loaded_inode [OF assms(5) ki(2) assms(12)]
  have id: "idev (itable t ip) = ROOTDEV" using L(3) assms(10) by simp
  note ok = image_file_ok [OF assms(5) fin ki(1) id L(2), unfolded c]
  have sz: "unat (isize (itable t ip)) = length (rdata f)" using L(1) F(6) [of "j + 2"] ki(1) c by (simp add: inode_ok_def)
  have "\<exists>u. readi ip RVar 0 N t = Ret (int (min (unat N) (unat (isize (itable t ip)) - unat (0 :: u32))),
        map (fbyte t ip) [unat (0 :: u32)..<min (unat (0 :: u32) + unat N) (unat (isize (itable t ip)))]) u
    \<and> tinv {} u \<and> content u ROOTDEV = content t ROOTDEV \<and> itable u = itable t"
    by (rule readi_run [OF assms(6,7) ok(1)]) (use sz need_le in simp_all)
  moreover have "map (fbyte t ip) [0..<length (rdata f)] = rdata f" using ok(2) by (intro nth_equalityI) simp_all
  ultimately show ?thesis using bm sz assms(11) by auto
qed

section \<open>An image with one file\<close>

text \<open>The arguments \<open>fs.img user/_cat\<close>, for a file of three bytes.\<close>

definition demo_file_src :: source where
  "demo_file_src = \<lparr>rdata = [1, 2, 3], rplan = []\<rparr>"

definition demo_args :: "(u8 list \<times> source option) list" where
  "demo_args = [([117, 115, 101, 114, 47, 95, 99, 97, 116], Some demo_file_src)]"

lemma demo_arg_ok: "\<forall>a\<in>set demo_args. arg_ok a"
  by (simp add: demo_args_def arg_ok_def entry_name_def shortname_def skip_underscore_def DIRSIZ_def reliable_def demo_file_src_def
      MAXFILE_def NDIRECT_def NINDIRECT_def BSIZE_def)

lemma demo_blocks: "length demo_args = 1" "blocks_of 2 (files demo_args) = 2" "files demo_args 2 = [1, 2, 3]"
proof -
  show l: "length demo_args = 1" by (simp add: demo_args_def)
  show f2: "files demo_args 2 = [1, 2, 3]" using files_file [of 0 demo_args] by (simp add: demo_args_def demo_file_src_def numeral_2_eq_2)
  have "length (files demo_args 1) = 48" unfolding files_def by (subst length_added_root) (simp_all add: root0_def l)
  then have "nblk (need (length (files demo_args 1))) = 1" "nblk (need (length (files demo_args 2))) = 1"
    using f2 by (simp_all add: need_def BSIZE_def nblk_def NDIRECT_def)
  moreover have "{1..2 :: nat} = {1, 2}" by auto
  ultimately show "blocks_of 2 (files demo_args) = 2" by (simp add: blocks_of_def)
qed

lemma demo_fits: "nmeta + blocks_of (Suc (length demo_args)) (files demo_args) \<le> FSSIZE" "length demo_args \<le> 206"
  using demo_blocks by (simp_all add: FSSIZE_def numeral_2_eq_2)

theorem mkfs_image_witness:
  "\<exists>s. mkfs demo_args = Done () s \<and> nsect s = 2000 \<and> unat (d_size (idisk s 2)) = 3 \<and> bit_set (sectors s 46) 48 \<and> \<not> bit_set (sectors s 46) 49"
proof -
  have "Suc (length demo_args) = 2" "blocks_of (Suc (length demo_args)) (files demo_args) = 2" using demo_blocks by (simp_all add: numeral_2_eq_2)
  then show ?thesis using mkfs_image [OF demo_arg_ok demo_fits(2,1)] demo_blocks(3) by (fastforce simp: FSSIZE_def)
qed

text \<open>A kernel inside a transaction on a given image, with inode 2 loaded.\<close>

definition image_kfs :: "image \<Rightarrow> kfs" where
  "image_kfs s = klog.extend ((demo_klog False (\<lambda>b. sectors s (unat b)))\<lparr>log_outstanding := 1\<rparr>)
     (kfs.fields (\<lambda>_. load_dinode (sectors s 33) 128 (demo_inode 0)) new_sb)"

lemma image_kfs_sel:
  "log_start (image_kfs s) = 2" "lh_n (image_kfs s) = 0" "sb (image_kfs s) = new_sb"
  "itable (image_kfs s) = (\<lambda>_. load_dinode (sectors s 33) 128 (demo_inode 0))"
  by (simp_all add: image_kfs_def) (simp_all add: klog.defs kfs.defs)

lemma image_kfs_tinv: "tinv {} (image_kfs s)" "content (image_kfs s) ROOTDEV = (\<lambda>b. sectors s (unat b))"
proof -
  let ?d = "\<lambda>b :: u32. sectors s (unat b)"
  obtain t where "begin_op (demo_klog False ?d) = Ret () t" "topen t" "t = (demo_klog False ?d)\<lparr>log_outstanding := 1\<rparr>" "content t ROOTDEV = ?d"
    using tidle_begin [OF demo_idle [of ?d]] by auto
  then show "tinv {} (image_kfs s)" "content (image_kfs s) ROOTDEV = ?d" by (simp_all add: image_kfs_def tinv_extend topen_def)
qed

theorem mkfs_readi_witness:
  "\<exists>s u. mkfs demo_args = Done () s \<and> readi 7 RVar 0 100 (image_kfs s) = Ret (3, [1, 2, 3]) u"
proof -
  obtain s where s: "mkfs demo_args = Done () (finished s)" using mkfs_run [OF demo_arg_ok demo_fits(2)] demo_fits(1) by (auto simp: FSSIZE_def)
  let ?s = "finished s" let ?t = "image_kfs ?s"
  have r: "runs_on ?s ?t" unfolding runs_on_def image_kfs_tinv(2) by (simp add: image_kfs_sel FSSIZE_def unat_of_nat)
  have l: "lh_n ?t < LOGBLOCKS" by (simp add: image_kfs_sel LOGBLOCKS_def MAXOPBLOCKS_def)
  have i: "itable ?t 7 = load_dinode (content ?t ROOTDEV (IBLOCK (of_nat (0 + 2)) (sb ?t))) (dip_off (of_nat (0 + 2))) (demo_inode 0)"
    unfolding image_kfs_tinv(2) by (simp add: image_kfs_sel IBLOCK_def dip_off_def IPB_def BSIZE_def)
  have "\<exists>u. readi 7 RVar 0 100 ?t = Ret (int (length (rdata demo_file_src)), rdata demo_file_src) u"
    using mkfs_readi [OF demo_arg_ok demo_fits(2,1) s r image_kfs_tinv(1) l, of 0 demo_file_src "demo_inode 0" 100 7, OF _ _ _ _ i]
    by (simp add: demo_args_def demo_file_src_def demo_inode_def)
  then show ?thesis using s by (auto simp: demo_file_src_def)
qed

end
