(* ===== verification/Sut.thy ===== *)
theory Sut
  imports Prelude
begin

text \<open>
  The user-level thread scheduler, \<^verbatim>\<open>th-scheduler/sut.c\<close>, as it is configured (\<open>EXEC\<close> is 0: one compute executor).
  Three kernel threads run: the main program, \<open>Cexec\<close>, which also runs the code of the user threads, and \<open>Iexec\<close>. A step is one
  statement of the code that other threads can observe. The queues of \<^verbatim>\<open>queue.c\<close> are the lists they represent (\<open>Queue\<close>).
  A mutex is the default one of the host library (glibc on Linux): it records the thread that locked it last; locking a mutex
  that is locked waits, also for that thread itself; unlocking releases it whoever calls, and does nothing when it is
  not locked. After an access outside of an array the behaviour is undefined and the machine makes no further step.
  A user thread is the rest of its code and the number of its stack. A descriptor that is queued twice (\<open>slot_reused\<close>) is
  started twice on one stack; starting it while another thread waits on that stack overwrites the stack and is undefined,
  too. The text \<open>sut_write\<close> prints and the memory the calls
  never free are left out.
\<close>

section \<open>I/O requests\<close>

definition SPLIT :: "u8 list" where "SPLIT = [83, 80, 76, 73, 84]"

definition w_open :: "u8 list" where "w_open = [111, 112, 101, 110]"
definition w_close :: "u8 list" where "w_close = [99, 108, 111, 115, 101]"
definition w_write :: "u8 list" where "w_write = [119, 114, 105, 116, 101]"

text \<open>The conversion \<open>%d\<close> of \<open>sprintf\<close>, and \<open>atoi\<close> of the host library.\<close>

function digs :: "nat \<Rightarrow> u8 list" where
  "digs n = (if n < 10 then [48 + of_nat n] else digs (n div 10) @ [48 + of_nat (n mod 10)])"
  by pat_completeness auto
termination
  by (relation "measure id") auto

declare digs.simps [simp del]

definition show_int :: "int \<Rightarrow> u8 list" where
  "show_int i = (if i < 0 then 45 # digs (nat (- i)) else digs (nat i))"

fun read_digs :: "u8 list \<Rightarrow> int \<Rightarrow> int" where
  "read_digs [] n = n"
| "read_digs (c # s) n = (if 48 \<le> c \<and> c \<le> 57 then read_digs s (10 * n + (uint c - 48)) else n)"

definition host_atoi :: "u8 list \<Rightarrow> int" where
  "host_atoi s =
     (case dropWhile (\<lambda>c. c = 32 \<or> (9 \<le> c \<and> c \<le> 13)) s of
        [] \<Rightarrow> 0
      | c # r \<Rightarrow> if c = 45 then - read_digs r 0 else if c = 43 then read_digs r 0 else read_digs (c # r) 0)"

text \<open>
  \<open>strtok\<close>: skips delimiters, returns the token that follows or \<open>None\<close>, and remembers where to continue. Every character of its second
  argument is a delimiter.
\<close>

definition strtok :: "u8 list \<Rightarrow> u8 list \<Rightarrow> u8 list option \<times> u8 list" where
  "strtok s delim =
     (let s = dropWhile (\<lambda>c. c \<in> set delim) s in
      if s = [] then (None, [])
      else (Some (takeWhile (\<lambda>c. c \<notin> set delim) s), tl (dropWhile (\<lambda>c. c \<notin> set delim) s)))"

text \<open>
  A request is built with \<open>sprintf\<close> in \<open>char temp[1024]\<close>; \<open>None\<close> is a string that does not fit there with its NUL.
\<close>

definition BUFSZ :: nat where "BUFSZ = 1024"

definition temp_str :: "u8 list \<Rightarrow> u8 list option" where
  "temp_str r = (if length r < BUFSZ then Some r else None)"

definition open_req :: "u8 list \<Rightarrow> u8 list option" where
  "open_req dest = temp_str (w_open @ SPLIT @ dest)"

definition write_req :: "u8 list \<Rightarrow> u32 \<Rightarrow> u8 list option" where
  "write_req buf sz = temp_str (w_write @ SPLIT @ buf @ SPLIT @ show_int (sint sz))"

definition close_req :: "u8 list option" where
  "close_req = temp_str (w_close @ SPLIT)"

text \<open>The system call that \<open>Iexec\<close> makes for a request; a null argument of \<open>strcmp\<close> or \<open>atoi\<close>, or
  a request that overruns \<open>char msg[1024]\<close>, is a crash.\<close>

datatype ioact = IOpen "u8 list option" | IClose | IWrite "u8 list option" int | INothing | ICrash

definition io_decode :: "u8 list \<Rightarrow> ioact" where
  "io_decode msg =
     (if length msg \<ge> BUFSZ then ICrash else
      case strtok msg SPLIT of
        (None, r) \<Rightarrow> ICrash
      | (Some token1, r) \<Rightarrow>
          if token1 = w_open then IOpen (fst (strtok r SPLIT))
          else if token1 = w_close then IClose
          else if token1 = w_write
          then (case strtok r SPLIT of (towrite, r) \<Rightarrow>
                (case fst (strtok r SPLIT) of None \<Rightarrow> ICrash | Some z \<Rightarrow> IWrite towrite (host_atoi z)))
          else INothing)"

section \<open>State\<close>

text \<open>What the code of a user thread calls; returning from it is the end of the list.\<close>

datatype call = Yield | Exit | Open "u8 list" | Write "u8 list" u32 | Close | Create "call list"

type_synonym task = "call list"

text \<open>
  The data of a queue node is a pointer to a context: the one of a descriptor of \<open>threadarr\<close>, or the variable \<open>curr\<close> on the
  stack of a thread that waits inside a call, with the number of that stack.
\<close>

datatype ctx = Slot nat | Saved nat task

datatype kthread = Main | Cx | Ix
datatype mutex = MC | MI

text \<open>Where a thread is inside \<open>sut_create\<close>.\<close>

datatype npc = NWrite task | NCount nat | NLock nat | NInsert nat | NUnlock nat

text \<open>
  Where \<open>Cexec\<close> is: before its thread exists, in the loop, in the code of a user thread, or inside one of its calls with
  the rest of the thread's code.
\<close>

datatype cpc =
    CNone | CTest | CLock1 | CPeek | CUnlock1 "ctx option" | CBranch "ctx option" | CLock2 ctx | CPop ctx | CUnlock2 ctx | CSwap ctx | CSleep | CEnd
  | CTask task
  | YLock task | YInsert task | YUnlock task
  | OLock "u8 list" task | OTodo mutex "u8 list" task | OWait mutex task | OUnlock mutex task | UUnlock mutex "u8 list" task
  | CNew npc task

datatype ipc =
    INone | ILock1 | IPeek1 | IPeek2 "u8 list option" | IUnlock1 "u8 list option" "ctx option" | IBranch "u8 list option" "ctx option"
  | ILock2 "u8 list" "ctx option" | IPop1 "u8 list" "ctx option" | IUnlock2 "u8 list" "ctx option" | IAct "u8 list" "ctx option"
  | ILock3 "ctx option" | IPop2 "ctx option" | IInsert "ctx option" | ILock4 | ISleep

datatype mpc = MStart | MSpawnC | MSpawnI | MQueues | MNext | MNew npc | MJoinC | MJoinI

record sut =
  numthreads :: int
  ready :: "ctx list"
  iowait :: "ctx list"
  iotodo :: "u8 list list"
  threadarr :: "nat \<Rightarrow> task"
  stk :: "nat \<Rightarrow> nat"
  nstk :: nat
  cur :: nat
  owner :: "mutex \<Rightarrow> kthread option"
  cpc :: cpc
  ipc :: ipc
  mpc :: mpc
  mtasks :: "task list"
  acts :: "ioact list"
  bad :: bool

definition MAX_THREADS :: int where "MAX_THREADS = 32"

section \<open>Mutexes and queues\<close>

definition lock :: "kthread \<Rightarrow> mutex \<Rightarrow> sut \<Rightarrow> sut option" where
  "lock k m s = (if owner s m = None then Some (s\<lparr>owner := (owner s)(m := Some k)\<rparr>) else None)"

definition unlock :: "mutex \<Rightarrow> sut \<Rightarrow> sut" where
  "unlock m s = s\<lparr>owner := (owner s)(m := None)\<rparr>"

fun peek :: "'a list \<Rightarrow> 'a option" where
  "peek [] = None"
| "peek (x # xs) = Some x"

section \<open>The calls\<close>

text \<open>\<open>sut_create\<close>, on thread \<open>k\<close>: the state and where it is next, \<open>None\<close> when it has returned.\<close>

fun create_step :: "kthread \<Rightarrow> npc \<Rightarrow> sut \<Rightarrow> (npc option \<times> sut) option" where
  "create_step k (NWrite fn) s =
     (if 0 \<le> numthreads s \<and> numthreads s < MAX_THREADS
      then Some (Some (NCount (nat (numthreads s))), s\<lparr>threadarr := (threadarr s)(nat (numthreads s) := fn), stk := (stk s)(nat (numthreads s) := nstk s), nstk := nstk s + 1\<rparr>)
      else Some (None, s\<lparr>bad := True\<rparr>))"
| "create_step k (NCount n) s = Some (Some (NLock n), s\<lparr>numthreads := numthreads s + 1\<rparr>)"
| "create_step k (NLock n) s = map_option (\<lambda>s. (Some (NInsert n), s)) (lock k MC s)"
| "create_step k (NInsert n) s = Some (Some (NUnlock n), s\<lparr>ready := ready s @ [Slot n]\<rparr>)"
| "create_step k (NUnlock n) s = Some (None, unlock MC s)"

text \<open>A request that overruns its buffer is undefined; otherwise the call goes on at \<open>pc\<close>.\<close>

definition request :: "u8 list option \<Rightarrow> (u8 list \<Rightarrow> cpc) \<Rightarrow> sut \<Rightarrow> sut" where
  "request r pc s = (case r of Some r \<Rightarrow> s\<lparr>cpc := pc r\<rparr> | None \<Rightarrow> s\<lparr>bad := True\<rparr>)"

text \<open>The first step of a call; \<open>sut_exit\<close> has no other.\<close>

fun call_step :: "call \<Rightarrow> task \<Rightarrow> sut \<Rightarrow> sut" where
  "call_step Yield rest s = s\<lparr>cpc := YLock rest\<rparr>"
| "call_step Exit rest s = s\<lparr>numthreads := numthreads s - 1, cpc := CTest\<rparr>"
| "call_step (Open dest) rest s = request (open_req dest) (\<lambda>r. OLock r rest) s"
| "call_step (Write buf sz) rest s = request (write_req buf sz) (\<lambda>r. UUnlock MI r rest) s"
| "call_step Close rest s = request close_req (\<lambda>r. UUnlock MC r rest) s"
| "call_step (Create fn) rest s = s\<lparr>cpc := CNew (NWrite fn) rest\<rparr>"

section \<open>The kernel threads\<close>

definition goto_c :: "cpc \<Rightarrow> sut \<Rightarrow> sut" where "goto_c pc s = s\<lparr>cpc := pc\<rparr>"
definition goto_i :: "ipc \<Rightarrow> sut \<Rightarrow> sut" where "goto_i pc s = s\<lparr>ipc := pc\<rparr>"
definition goto_m :: "mpc \<Rightarrow> sut \<Rightarrow> sut" where "goto_m pc s = s\<lparr>mpc := pc\<rparr>"

text \<open>
  \<open>swapcontext\<close> of \<open>Cexec\<close>: a descriptor starts its function on its stack, a saved context goes on. A stack is in use when a
  thread that waits in a queue, or between two queues in \<open>Iexec\<close>, was suspended on it.
\<close>

fun on_stack :: "nat \<Rightarrow> ctx \<Rightarrow> bool" where
  "on_stack v (Slot n) = False"
| "on_stack v (Saved w t) = (w = v)"

fun moving :: "ipc \<Rightarrow> ctx list" where
  "moving (IInsert (Some t)) = [t]"
| "moving _ = []"

definition in_use :: "nat \<Rightarrow> sut \<Rightarrow> bool" where
  "in_use v s = list_ex (on_stack v) (ready s @ iowait s @ moving (ipc s))"

fun resume :: "ctx \<Rightarrow> sut \<Rightarrow> sut" where
  "resume (Slot n) s =
     (if in_use (stk s n) s then s\<lparr>bad := True\<rparr> else s\<lparr>cur := stk s n, cpc := CTask (threadarr s n)\<rparr>)"
| "resume (Saved v t) s = s\<lparr>cur := v, cpc := CTask t\<rparr>"

text \<open>The rest of \<open>sut_yield\<close>, one statement at a time.\<close>

definition yield_next :: "sut \<Rightarrow> sut option" where
  "yield_next s =
     (case cpc s of
        YLock rest \<Rightarrow> map_option (goto_c (YInsert rest)) (lock Cx MC s)
      | YInsert rest \<Rightarrow> Some (goto_c (YUnlock rest) (s\<lparr>ready := ready s @ [Saved (cur s) rest]\<rparr>))
      | YUnlock rest \<Rightarrow> Some (goto_c CTest (unlock MC s))
      | _ \<Rightarrow> None)"

text \<open>
  The rest of \<open>sut_open\<close>, which locks and unlocks mutex \<open>i\<close>, and of \<open>sut_write\<close> and \<open>sut_close\<close>, which unlock mutex \<open>i\<close> and
  mutex \<open>c\<close> before and after they change the queues.
\<close>

definition io_next :: "sut \<Rightarrow> sut option" where
  "io_next s =
     (case cpc s of
        OLock r rest \<Rightarrow> map_option (goto_c (OTodo MI r rest)) (lock Cx MI s)
      | UUnlock m r rest \<Rightarrow> Some (goto_c (OTodo m r rest) (unlock m s))
      | OTodo m r rest \<Rightarrow> Some (goto_c (OWait m rest) (s\<lparr>iotodo := iotodo s @ [r]\<rparr>))
      | OWait m rest \<Rightarrow> Some (goto_c (OUnlock m rest) (s\<lparr>iowait := iowait s @ [Saved (cur s) rest]\<rparr>))
      | OUnlock m rest \<Rightarrow> Some (goto_c CTest (unlock m s))
      | _ \<Rightarrow> None)"

definition cstep :: "sut \<Rightarrow> sut option" where
  "cstep s =
     (case cpc s of
        CNone \<Rightarrow> None
      | CTest \<Rightarrow> Some (goto_c (if numthreads s \<noteq> 0 then CLock1 else CEnd) s)
      | CLock1 \<Rightarrow> map_option (goto_c CPeek) (lock Cx MC s)
      | CPeek \<Rightarrow> Some (goto_c (CUnlock1 (peek (ready s))) s)
      | CUnlock1 t \<Rightarrow> Some (goto_c (CBranch t) (unlock MC s))
      | CBranch t \<Rightarrow> Some (goto_c (case t of Some t1 \<Rightarrow> CLock2 t1 | None \<Rightarrow> CSleep) s)
      | CLock2 t \<Rightarrow> map_option (goto_c (CPop t)) (lock Cx MC s)
      | CPop t \<Rightarrow> Some (goto_c (CUnlock2 t) (s\<lparr>ready := tl (ready s)\<rparr>))
      | CUnlock2 t \<Rightarrow> Some (goto_c (CSwap t) (unlock MC s))
      | CSwap t \<Rightarrow> Some (resume t s)
      | CSleep \<Rightarrow> Some (goto_c CTest s)
      | CEnd \<Rightarrow> None
      | CTask [] \<Rightarrow> Some (goto_c CTest s)
      | CTask (f # rest) \<Rightarrow> Some (call_step f rest s)
      | CNew n rest \<Rightarrow>
          map_option (\<lambda>(n', s). goto_c (case n' of Some n \<Rightarrow> CNew n rest | None \<Rightarrow> CTask rest) s) (create_step Cx n s)
      | YLock rest \<Rightarrow> yield_next s
      | YInsert rest \<Rightarrow> yield_next s
      | YUnlock rest \<Rightarrow> yield_next s
      | _ \<Rightarrow> io_next s)"

text \<open>\<open>Iexec\<close>. The system call changes the outside world only; the descriptor \<open>open\<close> returns is dropped.\<close>

definition istep :: "sut \<Rightarrow> sut option" where
  "istep s =
     (case ipc s of
        INone \<Rightarrow> None
      | ILock1 \<Rightarrow> map_option (goto_i IPeek1) (lock Ix MI s)
      | IPeek1 \<Rightarrow> Some (goto_i (IPeek2 (peek (iotodo s))) s)
      | IPeek2 r \<Rightarrow> Some (goto_i (IUnlock1 r (peek (iowait s))) s)
      | IUnlock1 r t \<Rightarrow> Some (goto_i (IBranch r t) (unlock MI s))
      | IBranch r t \<Rightarrow> Some (goto_i (case r of Some r \<Rightarrow> ILock2 r t | None \<Rightarrow> ISleep) s)
      | ILock2 r t \<Rightarrow> map_option (goto_i (IPop1 r t)) (lock Ix MI s)
      | IPop1 r t \<Rightarrow> Some (goto_i (IUnlock2 r t) (s\<lparr>iotodo := tl (iotodo s)\<rparr>))
      | IUnlock2 r t \<Rightarrow> Some (goto_i (IAct r t) (unlock MI s))
      | IAct r t \<Rightarrow>
          Some (if io_decode r = ICrash then s\<lparr>bad := True\<rparr>
                else goto_i (ILock3 t) (s\<lparr>acts := acts s @ [io_decode r]\<rparr>))
      | ILock3 t \<Rightarrow> map_option (goto_i (IPop2 t)) (lock Ix MI s)
      | IPop2 t \<Rightarrow> Some (goto_i (IInsert t) (s\<lparr>iowait := tl (iowait s)\<rparr>))
      | IInsert t \<Rightarrow> Some (goto_i ILock4 (s\<lparr>ready := ready s @ (case t of Some t \<Rightarrow> [t] | None \<Rightarrow> [])\<rparr>))
      | ILock4 \<Rightarrow> map_option (goto_i ILock1) (lock Ix MI s)
      | ISleep \<Rightarrow> Some (goto_i ILock1 s))"

text \<open>The main program: \<open>sut_init\<close>, \<open>sut_create\<close> for each of its threads, \<open>sut_shutdown\<close>. The loop of \<open>Iexec\<close> has no end, so
  the second join waits forever.\<close>

definition mstep :: "sut \<Rightarrow> sut option" where
  "mstep s =
     (case mpc s of
        MStart \<Rightarrow> Some (goto_m MSpawnC (s\<lparr>numthreads := 0\<rparr>))
      | MSpawnC \<Rightarrow> Some (goto_m MSpawnI (s\<lparr>cpc := CTest\<rparr>))
      | MSpawnI \<Rightarrow> Some (goto_m MQueues (s\<lparr>ipc := ILock1\<rparr>))
      | MQueues \<Rightarrow> Some (goto_m MNext (s\<lparr>ready := [], iowait := [], iotodo := []\<rparr>))
      | MNext \<Rightarrow> Some (case mtasks s of [] \<Rightarrow> goto_m MJoinC s | fn # fs \<Rightarrow> goto_m (MNew (NWrite fn)) (s\<lparr>mtasks := fs\<rparr>))
      | MNew n \<Rightarrow> map_option (\<lambda>(n', s). goto_m (case n' of Some n \<Rightarrow> MNew n | None \<Rightarrow> MNext) s) (create_step Main n s)
      | MJoinC \<Rightarrow> if cpc s = CEnd then Some (goto_m MJoinI s) else None
      | MJoinI \<Rightarrow> None)"

definition sut_start :: "task list \<Rightarrow> sut" where
  "sut_start fs =
     \<lparr>numthreads = 0, ready = [], iowait = [], iotodo = [], threadarr = (\<lambda>_. []), stk = (\<lambda>_. 0), nstk = 0, cur = 0, owner = (\<lambda>_. None),
      cpc = CNone, ipc = INone, mpc = MStart, mtasks = fs, acts = [], bad = False\<rparr>"

definition thread_step :: "kthread \<Rightarrow> sut \<Rightarrow> sut option" where
  "thread_step k s = (if bad s then None else case k of Main \<Rightarrow> mstep s | Cx \<Rightarrow> cstep s | Ix \<Rightarrow> istep s)"

inductive sut_steps :: "sut \<Rightarrow> sut \<Rightarrow> bool" where
  refl: "sut_steps s s"
| step: "sut_steps s t \<Longrightarrow> thread_step k t = Some u \<Longrightarrow> sut_steps s u"

section \<open>Requests survive exactly without delimiters\<close>

lemma digit_word: "n < 10 \<Longrightarrow> uint (48 + of_nat n :: u8) = 48 + int n" "n < 10 \<Longrightarrow> 48 \<le> (48 + of_nat n :: u8) \<and> (48 + of_nat n :: u8) \<le> 57"
  by (simp_all add: word_le_nat_alt unat_word_ariths unat_of_nat uint_nat)

lemma digs_digits: "c \<in> set (digs n) \<Longrightarrow> 48 \<le> c \<and> c \<le> 57"
proof (induction n rule: digs.induct)
  case (1 n)
  then show ?case using digit_word(2) [of n] digit_word(2) [of "n mod 10"] by (subst (asm) (2) digs.simps) (auto split: if_splits)
qed

lemma read_digs_snoc: "\<forall>c\<in>set s. 48 \<le> c \<and> c \<le> 57 \<Longrightarrow> 48 \<le> d \<and> d \<le> 57 \<Longrightarrow> read_digs (s @ [d]) n = 10 * read_digs s n + (uint d - 48)"
  by (induction s n rule: read_digs.induct) auto

lemma read_digs_digs: "read_digs (digs n) 0 = int n"
proof (induction n rule: digs.induct)
  case (1 n)
  show ?case
  proof (cases "n < 10")
    case True
    then show ?thesis using digit_word [of n] by (subst digs.simps) simp
  next
    case False
    have "\<forall>c\<in>set (digs (n div 10)). 48 \<le> c \<and> c \<le> 57" using digs_digits by blast
    then have "read_digs (digs (n div 10) @ [48 + of_nat (n mod 10)]) 0 = 10 * int (n div 10) + int (n mod 10)"
      using 1 [OF False] digit_word [of "n mod 10"] by (subst read_digs_snoc) simp_all
    moreover have "10 * int (n div 10) + int (n mod 10) = int n" by (metis mult_div_mod_eq of_nat_add of_nat_mult of_nat_numeral)
    ultimately show ?thesis using False by (subst digs.simps) simp
  qed
qed

lemma digs_Cons: "\<exists>c r. digs n = c # r \<and> 48 \<le> c \<and> c \<le> 57"
proof -
  have "digs n \<noteq> []" by (subst digs.simps) simp
  then obtain c r where "digs n = c # r" by (cases "digs n") auto
  then show ?thesis using digs_digits [of c n] by simp
qed

lemma atoi_show: "host_atoi (show_int i) = i"
proof (cases "i < 0")
  case True
  then show ?thesis by (simp add: show_int_def host_atoi_def read_digs_digs)
next
  case False
  obtain c r where c: "digs (nat i) = c # r" "48 \<le> c" "c \<le> 57" using digs_Cons by blast
  then have "c \<noteq> 32" "\<not> (9 \<le> c \<and> c \<le> 13)" "c \<noteq> 45" "c \<noteq> 43" by (auto simp: word_le_nat_alt)
  then have "dropWhile (\<lambda>c. c = 32 \<or> (9 \<le> c \<and> c \<le> 13)) (c # r) = c # r" "c \<noteq> 45" "c \<noteq> 43" by auto
  then show ?thesis using False c(1) read_digs_digs [of "nat i"] by (simp only: show_int_def host_atoi_def) simp
qed

abbreviation plain_text :: "u8 list \<Rightarrow> bool" where
  "plain_text s \<equiv> s \<noteq> [] \<and> set s \<inter> set SPLIT = {}"

lemma show_plain: "plain_text (show_int i)"
proof -
  have d: "c \<notin> set SPLIT" if "c \<in> set (digs n)" for c n
    using digs_digits [OF that] by (auto simp: SPLIT_def word_le_nat_alt)
  have "digs n \<noteq> []" for n using digs_Cons [of n] by auto
  then show ?thesis using d by (auto simp: show_int_def SPLIT_def)
qed

lemma strtok_skip: "set d \<subseteq> set delim \<Longrightarrow> strtok (d @ s) delim = strtok s delim"
proof -
  assume "set d \<subseteq> set delim"
  then have "dropWhile (\<lambda>c. c \<in> set delim) (d @ s) = dropWhile (\<lambda>c. c \<in> set delim) s" by (intro dropWhile_append2) auto
  then show ?thesis by (simp add: strtok_def)
qed

lemma strtok_token:
  assumes "w \<noteq> []" "set w \<inter> set delim = {}" "s = [] \<or> hd s \<in> set delim"
  shows "strtok (w @ s) delim = (Some w, tl s)"
proof -
  have w: "\<forall>c\<in>set w. c \<notin> set delim" using assms(2) by auto
  have "dropWhile (\<lambda>c. c \<in> set delim) (w @ s) = w @ s" using assms(1) w by (cases w) auto
  moreover have "takeWhile (\<lambda>c. c \<notin> set delim) (w @ s) = w" "dropWhile (\<lambda>c. c \<notin> set delim) (w @ s) = s"
    using w assms(3) by (cases s; simp add: takeWhile_append2 dropWhile_append2)+
  ultimately show ?thesis using assms(1) by (simp add: strtok_def)
qed

lemma strtok_plain: "strtok s delim = (Some t, r) \<Longrightarrow> t \<noteq> [] \<and> set t \<inter> set delim = {}"
proof -
  assume a: "strtok s delim = (Some t, r)"
  let ?u = "dropWhile (\<lambda>c. c \<in> set delim) s"
  have t: "t = takeWhile (\<lambda>c. c \<notin> set delim) ?u" "?u \<noteq> []" using a by (auto simp: strtok_def Let_def split: if_splits)
  then have "hd ?u \<notin> set delim" using hd_dropWhile [of "\<lambda>c. c \<in> set delim" s] by simp
  then have "t \<noteq> []" using t by (cases ?u) auto
  moreover have "set t \<inter> set delim = {}" using t(1) set_takeWhileD by fastforce
  ultimately show ?thesis by simp
qed

lemma decode_words:
  "strtok (w_open @ SPLIT @ s) SPLIT = (Some w_open, tl SPLIT @ s)" "strtok (w_write @ SPLIT @ s) SPLIT = (Some w_write, tl SPLIT @ s)"
  "strtok (w_close @ SPLIT) SPLIT = (Some w_close, tl SPLIT)" "strtok (tl SPLIT @ s) SPLIT = strtok s SPLIT"
proof -
  have hd: "hd (SPLIT @ s) \<in> set SPLIT" "hd SPLIT \<in> set SPLIT" "tl (SPLIT @ s) = tl SPLIT @ s" for s by (simp_all add: SPLIT_def)
  have w: "plain_text w_open" "plain_text w_write" "plain_text w_close" by (simp_all add: w_open_def w_write_def w_close_def SPLIT_def)
  show "strtok (w_open @ SPLIT @ s) SPLIT = (Some w_open, tl SPLIT @ s)" "strtok (w_write @ SPLIT @ s) SPLIT = (Some w_write, tl SPLIT @ s)"
    "strtok (w_close @ SPLIT) SPLIT = (Some w_close, tl SPLIT)"
    using w hd strtok_token [of w_open SPLIT "SPLIT @ s"] strtok_token [of w_write SPLIT "SPLIT @ s"] strtok_token [of w_close SPLIT SPLIT] by simp_all
  show "strtok (tl SPLIT @ s) SPLIT = strtok s SPLIT" by (rule strtok_skip) (simp add: SPLIT_def subset_iff)
qed

lemma decode_open: "io_decode (w_open @ SPLIT @ dest) = (if length dest < 1015 then IOpen (fst (strtok dest SPLIT)) else ICrash)"
  unfolding io_decode_def decode_words prod.case option.case
  by (simp add: decode_words(4)) (simp add: w_open_def SPLIT_def BUFSZ_def)

lemma decode_write:
  "io_decode (w_write @ SPLIT @ t) =
     (if length t < 1014 then case strtok t SPLIT of (towrite, r) \<Rightarrow>
        (case fst (strtok r SPLIT) of None \<Rightarrow> ICrash | Some z \<Rightarrow> IWrite towrite (host_atoi z)) else ICrash)"
proof -
  have ne: "w_write \<noteq> w_open" "w_write \<noteq> w_close" by (simp_all add: w_open_def w_write_def w_close_def)
  show ?thesis
    unfolding io_decode_def decode_words prod.case option.case using ne
    by (simp add: decode_words(4)) (simp add: w_write_def SPLIT_def BUFSZ_def)
qed

text \<open>
  C40: The I/O requests of the scheduler survive the way through the request queue exactly when they fit in the buffers of
  1024 bytes and their text has none of the letters of the separator. \<open>strtok\<close> splits at each of the characters \<open>S\<close>, \<open>P\<close>,
  \<open>L\<close>, \<open>I\<close> and \<open>T\<close>, so \<open>Iexec\<close> opens the file asked for, or writes the text asked for with its length, if and only if the
  name or the text is not empty, has none of these characters and leaves room for the rest of the request; otherwise it
  acts on a part of it, crashes, or the call has overrun its buffer.
\<close>

theorem requests_decode:
  "((\<exists>r. open_req dest = Some r \<and> io_decode r = IOpen (Some dest)) \<longleftrightarrow> plain_text dest \<and> length dest < 1015)
   \<and> ((\<exists>r. write_req buf n = Some r \<and> io_decode r = IWrite (Some buf) (sint n))
        \<longleftrightarrow> plain_text buf \<and> length buf + length (show_int (sint n)) < 1009)
   \<and> (\<exists>r. close_req = Some r \<and> io_decode r = IClose)"
proof (intro conjI)
  have o: "open_req dest = Some r \<longleftrightarrow> length dest < 1015 \<and> r = w_open @ SPLIT @ dest" for r
    by (auto simp: open_req_def temp_str_def w_open_def SPLIT_def BUFSZ_def)
  have "fst (strtok dest SPLIT) = Some dest \<longleftrightarrow> plain_text dest"
  proof
    assume "fst (strtok dest SPLIT) = Some dest"
    then obtain r where "strtok dest SPLIT = (Some dest, r)" by (cases "strtok dest SPLIT") auto
    then show "plain_text dest" by (rule strtok_plain)
  next
    assume "plain_text dest"
    then show "fst (strtok dest SPLIT) = Some dest" using strtok_token [of dest SPLIT "[]"] by simp
  qed
  then show "(\<exists>r. open_req dest = Some r \<and> io_decode r = IOpen (Some dest)) \<longleftrightarrow> plain_text dest \<and> length dest < 1015"
    using o decode_open [of dest] by auto
  let ?t = "buf @ SPLIT @ show_int (sint n)"
  have w: "write_req buf n = Some r \<longleftrightarrow> length ?t < 1014 \<and> r = w_write @ SPLIT @ ?t" for r
    by (auto simp: write_req_def temp_str_def w_write_def SPLIT_def BUFSZ_def)
  have t: "length ?t < 1014 \<longleftrightarrow> length buf + length (show_int (sint n)) < 1009" by (auto simp: SPLIT_def)
  have "io_decode (w_write @ SPLIT @ ?t) = IWrite (Some buf) (sint n) \<longleftrightarrow> plain_text buf" if "length ?t < 1014"
  proof
    assume "io_decode (w_write @ SPLIT @ ?t) = IWrite (Some buf) (sint n)"
    then obtain r where "strtok ?t SPLIT = (Some buf, r)"
      using that unfolding decode_write by (cases "strtok ?t SPLIT") (auto split: option.splits if_splits)
    then show "plain_text buf" by (rule strtok_plain)
  next
    assume p: "plain_text buf"
    have "strtok ?t SPLIT = (Some buf, tl SPLIT @ show_int (sint n))"
      using p by (subst strtok_token) (simp_all add: SPLIT_def)
    moreover have "strtok (tl SPLIT @ show_int (sint n)) SPLIT = (Some (show_int (sint n)), [])"
      unfolding decode_words(4) using strtok_token [of "show_int (sint n)" SPLIT "[]"] show_plain by simp
    ultimately show "io_decode (w_write @ SPLIT @ ?t) = IWrite (Some buf) (sint n)"
      using that unfolding decode_write by (simp add: atoi_show)
  qed
  then show "(\<exists>r. write_req buf n = Some r \<and> io_decode r = IWrite (Some buf) (sint n))
        \<longleftrightarrow> plain_text buf \<and> length buf + length (show_int (sint n)) < 1009"
    using w t by metis
  have "w_close \<noteq> w_open" by (simp add: w_open_def w_close_def)
  moreover have "length (w_close @ SPLIT) < BUFSZ" by (simp add: w_close_def SPLIT_def BUFSZ_def)
  ultimately have "io_decode (w_close @ SPLIT) = IClose" unfolding io_decode_def decode_words prod.case option.case by simp
  then show "\<exists>r. close_req = Some r \<and> io_decode r = IClose"
    using \<open>length (w_close @ SPLIT) < BUFSZ\<close> by (simp add: close_req_def temp_str_def)
qed

section \<open>Who holds a mutex\<close>

fun n_holds :: "npc \<Rightarrow> mutex \<Rightarrow> bool" where
  "n_holds (NInsert n) m \<longleftrightarrow> m = MC"
| "n_holds (NUnlock n) m \<longleftrightarrow> m = MC"
| "n_holds _ m \<longleftrightarrow> False"

fun c_holds :: "cpc \<Rightarrow> mutex \<Rightarrow> bool" where
  "c_holds CPeek m \<longleftrightarrow> m = MC"
| "c_holds (CUnlock1 t) m \<longleftrightarrow> m = MC"
| "c_holds (CPop t) m \<longleftrightarrow> m = MC"
| "c_holds (CUnlock2 t) m \<longleftrightarrow> m = MC"
| "c_holds (YInsert r) m \<longleftrightarrow> m = MC"
| "c_holds (YUnlock r) m \<longleftrightarrow> m = MC"
| "c_holds (OTodo m' q r) m \<longleftrightarrow> m = m'"
| "c_holds (OWait m' r) m \<longleftrightarrow> m = m'"
| "c_holds (OUnlock m' r) m \<longleftrightarrow> m = m'"
| "c_holds (CNew n r) m \<longleftrightarrow> n_holds n m"
| "c_holds _ m \<longleftrightarrow> False"

fun i_holds :: "ipc \<Rightarrow> mutex \<Rightarrow> bool" where
  "i_holds IPeek1 m \<longleftrightarrow> m = MI"
| "i_holds (IPeek2 r) m \<longleftrightarrow> m = MI"
| "i_holds (IUnlock1 r t) m \<longleftrightarrow> m = MI"
| "i_holds (IPop1 r t) m \<longleftrightarrow> m = MI"
| "i_holds (IUnlock2 r t) m \<longleftrightarrow> m = MI"
| "i_holds (IPop2 t) m \<longleftrightarrow> m = MI"
| "i_holds (IInsert t) m \<longleftrightarrow> m = MI"
| "i_holds ILock4 m \<longleftrightarrow> m = MI"
| "i_holds _ m \<longleftrightarrow> False"

fun m_holds :: "mpc \<Rightarrow> mutex \<Rightarrow> bool" where
  "m_holds (MNew n) m \<longleftrightarrow> n_holds n m"
| "m_holds _ m \<longleftrightarrow> False"

text \<open>
  A thread is at a statement that the code means to protect by a mutex: between \<open>pthread_mutex_lock\<close> and \<open>pthread_mutex_unlock\<close>, or
  between the two calls of \<open>pthread_mutex_unlock\<close> in \<open>sut_write\<close> and \<open>sut_close\<close>.
\<close>

fun inside :: "kthread \<Rightarrow> mutex \<Rightarrow> sut \<Rightarrow> bool" where
  "inside Main m s = m_holds (mpc s) m"
| "inside Cx m s = c_holds (cpc s) m"
| "inside Ix m s = i_holds (ipc s) m"

text \<open>Whether \<open>Iexec\<close> has already made a system call.\<close>

fun served :: "ipc \<Rightarrow> bool" where
  "served (ILock3 t) = True"
| "served (IPop2 t) = True"
| "served (IInsert t) = True"
| "served ILock4 = True"
| "served _ = False"

definition own_inv :: "sut \<Rightarrow> bool" where
  "own_inv s \<longleftrightarrow> (\<forall>k m. owner s m = Some k \<longleftrightarrow> inside k m s)"

definition start_inv :: "sut \<Rightarrow> bool" where
  "start_inv s \<longleftrightarrow> (mpc s = MStart \<or> mpc s = MSpawnC \<longrightarrow> cpc s = CNone)
     \<and> (mpc s = MStart \<or> mpc s = MSpawnC \<or> mpc s = MSpawnI \<longrightarrow> ipc s = INone)"

definition serve_inv :: "sut \<Rightarrow> bool" where
  "serve_inv s \<longleftrightarrow> length (acts s) = (if served (ipc s) then 1 else 0)"

text \<open>
  Programs whose I/O is \<open>sut_open\<close> only: no thread, created at any time, calls \<open>sut_write\<close> or \<open>sut_close\<close>, the two calls that
  unlock a mutex they have not locked.
\<close>

fun opens_only :: "call \<Rightarrow> bool" where
  "opens_only (Write buf n) = False"
| "opens_only Close = False"
| "opens_only (Create fn) = list_all opens_only fn"
| "opens_only _ = True"

fun ctx_ok :: "ctx \<Rightarrow> bool" where
  "ctx_ok (Slot n) = True"
| "ctx_ok (Saved v t) = list_all opens_only t"

fun npc_ok :: "npc \<Rightarrow> bool" where
  "npc_ok (NWrite fn) = list_all opens_only fn"
| "npc_ok _ = True"

fun cpc_ok :: "cpc \<Rightarrow> bool" where
  "cpc_ok (CUnlock1 t) = pred_option ctx_ok t"
| "cpc_ok (CBranch t) = pred_option ctx_ok t"
| "cpc_ok (CLock2 t) = ctx_ok t"
| "cpc_ok (CPop t) = ctx_ok t"
| "cpc_ok (CUnlock2 t) = ctx_ok t"
| "cpc_ok (CSwap t) = ctx_ok t"
| "cpc_ok (CTask t) = list_all opens_only t"
| "cpc_ok (YLock t) = list_all opens_only t"
| "cpc_ok (YInsert t) = list_all opens_only t"
| "cpc_ok (YUnlock t) = True"
| "cpc_ok (OLock r t) = list_all opens_only t"
| "cpc_ok (OTodo m r t) = list_all opens_only t"
| "cpc_ok (OWait m t) = list_all opens_only t"
| "cpc_ok (OUnlock m t) = True"
| "cpc_ok (UUnlock m r t) = False"
| "cpc_ok (CNew n t) = (npc_ok n \<and> list_all opens_only t)"
| "cpc_ok _ = True"

fun ipc_ok :: "ipc \<Rightarrow> bool" where
  "ipc_ok (IUnlock1 r t) = pred_option ctx_ok t"
| "ipc_ok (IBranch r t) = pred_option ctx_ok t"
| "ipc_ok (ILock2 r t) = pred_option ctx_ok t"
| "ipc_ok (IPop1 r t) = pred_option ctx_ok t"
| "ipc_ok (IUnlock2 r t) = pred_option ctx_ok t"
| "ipc_ok (IAct r t) = pred_option ctx_ok t"
| "ipc_ok (ILock3 t) = pred_option ctx_ok t"
| "ipc_ok (IPop2 t) = pred_option ctx_ok t"
| "ipc_ok (IInsert t) = pred_option ctx_ok t"
| "ipc_ok _ = True"

fun mpc_ok :: "mpc \<Rightarrow> bool" where
  "mpc_ok (MNew n) = npc_ok n"
| "mpc_ok _ = True"

definition prog_inv :: "sut \<Rightarrow> bool" where
  "prog_inv s \<longleftrightarrow> list_all (list_all opens_only) (mtasks s) \<and> (\<forall>n. list_all opens_only (threadarr s n))
     \<and> list_all ctx_ok (ready s) \<and> list_all ctx_ok (iowait s) \<and> cpc_ok (cpc s) \<and> ipc_ok (ipc s) \<and> mpc_ok (mpc s)"

definition sut_inv :: "sut \<Rightarrow> bool" where
  "sut_inv s \<longleftrightarrow> own_inv s \<and> start_inv s \<and> serve_inv s \<and> prog_inv s"

lemma inside_sel:
  "mpc t = mpc s \<Longrightarrow> cpc t = cpc s \<Longrightarrow> ipc t = ipc s \<Longrightarrow> inside k m t = inside k m s"
  by (cases k) simp_all

lemma goto_sel [simp]:
  "mpc (goto_c p s) = mpc s" "ipc (goto_c p s) = ipc s" "cpc (goto_c p s) = p" "owner (goto_c p s) = owner s" "bad (goto_c p s) = bad s" "acts (goto_c p s) = acts s"
  "mpc (goto_i q s) = mpc s" "ipc (goto_i q s) = q" "cpc (goto_i q s) = cpc s" "owner (goto_i q s) = owner s" "bad (goto_i q s) = bad s" "acts (goto_i q s) = acts s"
  "mpc (goto_m r s) = r" "ipc (goto_m r s) = ipc s" "cpc (goto_m r s) = cpc s" "owner (goto_m r s) = owner s" "bad (goto_m r s) = bad s" "acts (goto_m r s) = acts s"
  by (simp_all add: goto_c_def goto_i_def goto_m_def)

text \<open>
  The three ways a step of thread \<open>k\<close> from \<open>s\<close> to \<open>t\<close> treats the mutexes, when the other threads stay where they are.
\<close>

lemma own_same:
  assumes "own_inv s" "owner t = owner s" "\<And>k m. inside k m t = inside k m s"
  shows "own_inv t"
  using assms by (simp add: own_inv_def)

lemma own_lock:
  assumes "own_inv s" "owner s m = None" "owner t = (owner s)(m := Some k)"
    and "\<And>k' m'. inside k' m' t \<longleftrightarrow> inside k' m' s \<or> k' = k \<and> m' = m"
  shows "own_inv t"
  unfolding own_inv_def
proof (intro allI)
  fix k' m'
  have "owner s m' = Some k' \<longleftrightarrow> inside k' m' s" "\<not> inside k' m s" using assms(1,2) unfolding own_inv_def by (blast, metis option.distinct(1))
  then show "owner t m' = Some k' \<longleftrightarrow> inside k' m' t" using assms(3,4) by (cases "m' = m") auto
qed

lemma own_unlock:
  assumes "own_inv s" "owner s m = Some k" "owner t = (owner s)(m := None)"
    and "\<And>k' m'. inside k' m' t \<longleftrightarrow> inside k' m' s \<and> \<not> (k' = k \<and> m' = m)"
  shows "own_inv t"
  unfolding own_inv_def
proof (intro allI)
  fix k' m'
  have "owner s m' = Some k' \<longleftrightarrow> inside k' m' s" using assms(1) unfolding own_inv_def by blast
  then show "owner t m' = Some k' \<longleftrightarrow> inside k' m' t" using assms(2-4) by (cases "m' = m") auto
qed

lemma own_holds:
  assumes "own_inv s"
  shows "owner s m = Some Cx \<longleftrightarrow> c_holds (cpc s) m" "owner s m = Some Ix \<longleftrightarrow> i_holds (ipc s) m" "owner s m = Some Main \<longleftrightarrow> m_holds (mpc s) m"
  using assms unfolding own_inv_def by simp_all

lemma inside_eq: "inside k m t = (case k of Main \<Rightarrow> m_holds (mpc t) m | Cx \<Rightarrow> c_holds (cpc t) m | Ix \<Rightarrow> i_holds (ipc t) m)"
  by (cases k) simp_all

lemma istep_own:
  assumes "own_inv s" "istep s = Some t"
  shows "own_inv t"
proof -
  note h = own_holds(2) [OF assms(1)] and st = assms(2) [unfolded istep_def]
  have lk: "own_inv t" if "map_option (goto_i pc) (lock Ix MI s) = Some t" "i_holds pc = (\<lambda>m. m = MI)" for pc
  proof -
    have t: "t = goto_i pc (s\<lparr>owner := (owner s)(MI := Some Ix)\<rparr>)" "owner s MI = None" using that(1) by (auto simp: lock_def split: if_splits)
    have "\<not> i_holds (ipc s) m" if "m = MI" for m using h [of MI] t(2) that by simp
    moreover have "\<not> i_holds (ipc s) MC" by (cases "ipc s") simp_all
    ultimately show ?thesis using t that(2)
      by (intro own_lock [OF assms(1) t(2), of t Ix]) (auto simp: inside_eq split: kthread.splits, metis mutex.exhaust)
  qed
  have ul: "own_inv t" if "t = goto_i pc (unlock MI s)" "i_holds (ipc s) = (\<lambda>m. m = MI)" "i_holds pc = (\<lambda>m. False)" for pc
  proof -
    have o: "owner s MI = Some Ix" using h [of MI] that(2) by simp
    then have t: "t = goto_i pc (s\<lparr>owner := (owner s)(MI := None)\<rparr>)" using that(1) by (simp add: unlock_def)
    show ?thesis using t that(2,3) by (intro own_unlock [OF assms(1) o, of t]) (auto simp: inside_eq split: kthread.splits)
  qed
  have sm: "own_inv t" if "owner t = owner s" "mpc t = mpc s" "cpc t = cpc s" "i_holds (ipc t) = i_holds (ipc s)" for t
    using that by (intro own_same [OF assms(1)]) (auto simp: inside_eq split: kthread.splits)
  show ?thesis
  proof (cases "ipc s")
    case ILock1
    then show ?thesis using st lk [of IPeek1] by (simp add: fun_eq_iff)
  next
    case (ILock2 r c)
    then show ?thesis using st lk [of "IPop1 r c"] by (simp add: fun_eq_iff)
  next
    case (ILock3 c)
    then show ?thesis using st lk [of "IPop2 c"] by (simp add: fun_eq_iff)
  next
    case ILock4
    then show ?thesis using st h [of MI] by (simp add: lock_def split: if_splits)
  next
    case (IUnlock1 r c)
    then show ?thesis using st ul [of "IBranch r c"] by (simp add: fun_eq_iff)
  next
    case (IUnlock2 r c)
    then show ?thesis using st ul [of "IAct r c"] by (simp add: fun_eq_iff)
  next
    case (IAct r c)
    then show ?thesis using st sm [of t] by (auto simp: fun_eq_iff split: if_splits)
  qed (use st sm [of t] in \<open>auto simp: fun_eq_iff split: option.splits\<close>)
qed

lemma create_own:
  assumes "own_inv s" "create_step k n s = Some (n', u)" "\<And>m. inside k m s = n_holds n m" "owner t = owner u"
    and "\<And>m. inside k m t = (case n' of Some n \<Rightarrow> n_holds n m | None \<Rightarrow> False)" "\<And>k' m. k' \<noteq> k \<Longrightarrow> inside k' m t = inside k' m s"
  shows "own_inv t"
proof -
  have o: "owner s m = Some k \<longleftrightarrow> n_holds n m" for m using assms(1,3) by (simp add: own_inv_def)
  have same: "own_inv t" if "owner t = owner s" "\<And>m. inside k m t = inside k m s"
  proof (rule own_same [OF assms(1) that(1)])
    show "inside k' m t = inside k' m s" for k' m using that(2) assms(6) by (cases "k' = k") simp_all
  qed
  show ?thesis
  proof (cases n)
    case (NLock i)
    then have u: "n' = Some (NInsert i)" "owner s MC = None" "owner t = (owner s)(MC := Some k)"
      using assms(2,4) by (auto simp: lock_def split: if_splits)
    have "inside k' m t \<longleftrightarrow> inside k' m s \<or> k' = k \<and> m = MC" for k' m
      using assms(3,5,6) u(1) NLock by (cases "k' = k") simp_all
    then show ?thesis using own_lock [OF assms(1) u(2,3)] by blast
  next
    case (NUnlock i)
    then have u: "n' = None" "owner s MC = Some k" "owner t = (owner s)(MC := None)"
      using assms(2,4) o [of MC] by (auto simp: unlock_def)
    have "inside k' m t \<longleftrightarrow> inside k' m s \<and> \<not> (k' = k \<and> m = MC)" for k' m
      using assms(3,5,6) u(1) NUnlock by (cases "k' = k") simp_all
    then show ?thesis using own_unlock [OF assms(1) u(2,3)] by blast
  next
    case (NWrite fn)
    then show ?thesis using assms(2-5) same by (auto split: if_splits)
  next
    case (NCount i)
    then show ?thesis using assms(2-5) same by auto
  next
    case (NInsert i)
    then show ?thesis using assms(2-5) same by auto
  qed
qed

lemma cstep_own:
  assumes "own_inv s" "cpc_ok (cpc s)" "cstep s = Some t"
  shows "own_inv t"
proof -
  note h = own_holds(1) [OF assms(1)] and st = assms(3) [unfolded cstep_def yield_next_def io_next_def]
  have lk: "own_inv t" if "map_option (goto_c pc) (lock Cx M s) = Some t" "c_holds (cpc s) = (\<lambda>m. False)" "c_holds pc = (\<lambda>m. m = M)" for pc M
  proof -
    have t: "t = goto_c pc (s\<lparr>owner := (owner s)(M := Some Cx)\<rparr>)" "owner s M = None" using that(1) by (auto simp: lock_def split: if_splits)
    show ?thesis using t that(2,3) by (intro own_lock [OF assms(1) t(2), of t Cx]) (auto simp: inside_eq split: kthread.splits)
  qed
  have ul: "own_inv t" if "t = goto_c pc (unlock M s)" "c_holds (cpc s) = (\<lambda>m. m = M)" "c_holds pc = (\<lambda>m. False)" for pc M
  proof -
    have o: "owner s M = Some Cx" using h [of M] that(2) by simp
    then have t: "t = goto_c pc (s\<lparr>owner := (owner s)(M := None)\<rparr>)" using that(1) by (simp add: unlock_def)
    show ?thesis using t that(2,3) by (intro own_unlock [OF assms(1) o, of t]) (auto simp: inside_eq split: kthread.splits)
  qed
  have sm: "own_inv t" if "owner t = owner s" "mpc t = mpc s" "ipc t = ipc s" "c_holds (cpc t) = c_holds (cpc s)"
    using that by (intro own_same [OF assms(1)]) (auto simp: inside_eq split: kthread.splits)
  show ?thesis
  proof (cases "cpc s")
    case CTest
    then show ?thesis using st sm by (cases "numthreads s = 0") (auto simp: fun_eq_iff)
  next
    case CLock1
    then show ?thesis using st lk [of CPeek MC] by (simp add: fun_eq_iff)
  next
    case (CUnlock1 c)
    then show ?thesis using st ul [of "CBranch c" MC] by (simp add: fun_eq_iff)
  next
    case (CLock2 c)
    then show ?thesis using st lk [of "CPop c" MC] by (simp add: fun_eq_iff)
  next
    case (CUnlock2 c)
    then show ?thesis using st ul [of "CSwap c" MC] by (simp add: fun_eq_iff)
  next
    case (YLock r)
    then show ?thesis using st lk [of "YInsert r" MC] by (simp add: fun_eq_iff)
  next
    case (YUnlock r)
    then show ?thesis using st ul [of CTest MC] by (simp add: fun_eq_iff)
  next
    case (OLock q r)
    then show ?thesis using st lk [of "OTodo MI q r" MI] by (simp add: fun_eq_iff)
  next
    case (OUnlock M r)
    then show ?thesis using st ul [of CTest M] by (simp add: fun_eq_iff)
  next
    case (UUnlock M q r)
    then show ?thesis using assms(2) by simp
  next
    case (CSwap c)
    then show ?thesis using st sm by (cases c) (auto simp: fun_eq_iff split: if_splits)
  next
    case (CNew n r)
    then obtain n' u where u: "create_step Cx n s = Some (n', u)" "t = goto_c (case n' of Some n \<Rightarrow> CNew n r | None \<Rightarrow> CTask r) u" using st by auto
    have frame: "mpc u = mpc s" "ipc u = ipc s" using u(1) by (cases n; auto simp: lock_def unlock_def split: if_splits)+
    show ?thesis
      by (rule create_own [OF assms(1) u(1)]) (use CNew u(2) frame in \<open>auto simp: inside_eq split: option.splits kthread.splits\<close>)
  next
    case (CTask fs)
    show ?thesis
    proof (cases fs)
      case Nil
      then show ?thesis using st CTask sm by (auto simp: fun_eq_iff)
    next
      case (Cons f rest)
      then show ?thesis using st CTask sm by (cases f) (auto simp: fun_eq_iff request_def split: option.splits)
    qed
  qed (use st sm in \<open>auto simp: fun_eq_iff split: option.splits\<close>)
qed

lemma mstep_own:
  assumes "own_inv s" "start_inv s" "mstep s = Some t"
  shows "own_inv t"
proof -
  note st = assms(3) [unfolded mstep_def]
  have sm: "own_inv t" if "owner t = owner s" "\<And>m. m_holds (mpc t) m = m_holds (mpc s) m" "\<And>m. c_holds (cpc t) m = c_holds (cpc s) m"
    "\<And>m. i_holds (ipc t) m = i_holds (ipc s) m"
  proof (rule own_same [OF assms(1) that(1)])
    show "inside k m t = inside k m s" for k m using that(2-4) by (cases k) simp_all
  qed
  show ?thesis
  proof (cases "mpc s")
    case (MNew n)
    then obtain n' u where u: "create_step Main n s = Some (n', u)" "t = goto_m (case n' of Some n \<Rightarrow> MNew n | None \<Rightarrow> MNext) u" using st by auto
    have frame: "cpc u = cpc s" "ipc u = ipc s" using u(1) by (cases n; auto simp: lock_def unlock_def split: if_splits)+
    show ?thesis
      by (rule create_own [OF assms(1) u(1)]) (use MNew u(2) frame in \<open>auto simp: inside_eq split: option.splits kthread.splits\<close>)
  qed (use st sm assms(2) in \<open>auto simp: start_inv_def split: list.splits if_splits\<close>)
qed

lemma create_frame: "create_step k n s = Some (n', u) \<Longrightarrow> mpc u = mpc s \<and> cpc u = cpc s \<and> ipc u = ipc s \<and> acts u = acts s"
  by (cases n) (auto simp: lock_def unlock_def split: if_splits)

lemma cstep_frame: "cstep s = Some t \<Longrightarrow> mpc t = mpc s \<and> ipc t = ipc s \<and> acts t = acts s \<and> cpc s \<noteq> CNone \<and> cpc s \<noteq> CEnd"
proof -
  assume a: "cstep s = Some t"
  show ?thesis
  proof (cases "cpc s")
    case (CTask fs)
    then show ?thesis
    proof (cases fs)
      case (Cons f rest)
      then show ?thesis using a CTask by (cases f) (auto simp: cstep_def request_def split: option.splits)
    qed (use a CTask in \<open>auto simp: cstep_def\<close>)
  next
    case (CNew n r)
    then show ?thesis using a create_frame [of Cx n s] by (auto simp: cstep_def)
  next
    case (CSwap c)
    then show ?thesis using a by (cases c) (auto simp: cstep_def split: if_splits)
  qed (use a in \<open>auto simp: cstep_def yield_next_def io_next_def lock_def unlock_def split: if_splits option.splits\<close>)
qed

lemma istep_frame: "istep s = Some t \<Longrightarrow> mpc t = mpc s \<and> cpc t = cpc s \<and> ipc s \<noteq> INone"
  by (cases "ipc s") (auto simp: istep_def lock_def unlock_def split: if_splits option.splits)

lemma istep_serve:
  assumes "own_inv s" "serve_inv s" "istep s = Some t"
  shows "serve_inv t"
proof -
  have "ipc s \<noteq> ILock4" using assms(3) own_holds(2) [OF assms(1), of MI] by (auto simp: istep_def lock_def split: if_splits)
  then show ?thesis
    using assms(2,3) by (cases "ipc s") (auto simp: istep_def serve_inv_def lock_def unlock_def split: if_splits option.splits)
qed

lemma mstep_frame:
  assumes "mstep s = Some t" "start_inv s" "serve_inv s"
  shows "start_inv t \<and> serve_inv t"
proof (cases "mpc s")
  case (MNew n)
  then show ?thesis using assms create_frame [of Main n s] by (auto simp: mstep_def start_inv_def serve_inv_def split: option.splits)
qed (use assms in \<open>auto simp: mstep_def start_inv_def serve_inv_def split: if_splits list.splits\<close>)

lemma pred_peek: "list_all P xs \<Longrightarrow> pred_option P (peek xs)"
  by (cases xs) simp_all

lemma list_all_tl: "list_all P xs \<Longrightarrow> list_all P (tl xs)"
  by (cases xs) simp_all

lemma create_prog:
  assumes "create_step k n s = Some (n', u)" "npc_ok n" "prog_inv s"
  shows "prog_inv u" "pred_option npc_ok n'"
  using assms by (cases n; auto simp: prog_inv_def lock_def unlock_def split: if_splits)+

lemma cstep_prog:
  assumes "prog_inv s" "cstep s = Some t"
  shows "prog_inv t"
proof (cases "cpc s")
  case (CTask fs)
  then show ?thesis
  proof (cases fs)
    case (Cons f rest)
    then show ?thesis using assms CTask by (cases f) (auto simp: cstep_def request_def prog_inv_def split: option.splits)
  qed (use assms CTask in \<open>auto simp: cstep_def goto_c_def prog_inv_def\<close>)
next
  case (CNew n rest)
  then obtain n' u where u: "create_step Cx n s = Some (n', u)" "t = goto_c (case n' of Some n \<Rightarrow> CNew n rest | None \<Rightarrow> CTask rest) u"
    using assms(2) by (auto simp: cstep_def)
  have "npc_ok n" "list_all opens_only rest" using assms(1) CNew by (simp_all add: prog_inv_def)
  then show ?thesis using create_prog [OF u(1) _ assms(1)] u(2) by (cases n') (simp_all add: prog_inv_def goto_c_def)
next
  case (CSwap c)
  then show ?thesis using assms by (cases c) (auto simp: cstep_def prog_inv_def split: if_splits)
qed (use assms in \<open>auto simp: cstep_def yield_next_def io_next_def goto_c_def prog_inv_def lock_def unlock_def pred_peek list_all_tl split: if_splits option.splits\<close>)

lemma istep_prog:
  assumes "prog_inv s" "istep s = Some t"
  shows "prog_inv t"
  using assms
  by (cases "ipc s") (auto simp: istep_def goto_i_def prog_inv_def lock_def unlock_def pred_peek list_all_tl split: if_splits option.splits)

lemma mstep_prog:
  assumes "prog_inv s" "mstep s = Some t"
  shows "prog_inv t"
proof (cases "mpc s")
  case (MNew n)
  then obtain n' u where u: "create_step Main n s = Some (n', u)" "t = goto_m (case n' of Some n \<Rightarrow> MNew n | None \<Rightarrow> MNext) u"
    using assms(2) by (auto simp: mstep_def)
  have "npc_ok n" using assms(1) MNew by (simp add: prog_inv_def)
  then show ?thesis using create_prog [OF u(1) _ assms(1)] u(2) by (cases n') (simp_all add: prog_inv_def goto_m_def)
qed (use assms in \<open>auto simp: mstep_def goto_m_def prog_inv_def split: if_splits list.splits\<close>)

lemma step_inv:
  assumes "sut_inv s" "thread_step k s = Some t"
  shows "sut_inv t"
proof -
  have i: "own_inv s" "start_inv s" "serve_inv s" "prog_inv s" using assms(1) by (simp_all add: sut_inv_def)
  have ok: "cpc_ok (cpc s)" using i(4) by (simp add: prog_inv_def)
  show ?thesis
  proof (cases k)
    case Main
    then have m: "mstep s = Some t" using assms(2) by (auto simp: thread_step_def split: if_splits)
    show ?thesis using mstep_own [OF i(1,2) m] mstep_frame [OF m i(2,3)] mstep_prog [OF i(4) m] by (simp add: sut_inv_def)
  next
    case Cx
    then have c: "cstep s = Some t" using assms(2) by (auto simp: thread_step_def split: if_splits)
    have "start_inv t" "serve_inv t" using cstep_frame [OF c] i(2,3) by (auto simp: start_inv_def serve_inv_def)
    then show ?thesis using cstep_own [OF i(1) ok c] cstep_prog [OF i(4) c] by (simp add: sut_inv_def)
  next
    case Ix
    then have c: "istep s = Some t" using assms(2) by (auto simp: thread_step_def split: if_splits)
    have "start_inv t" using istep_frame [OF c] i(2) by (auto simp: start_inv_def)
    then show ?thesis using istep_own [OF i(1) c] istep_serve [OF i(1,3) c] istep_prog [OF i(4) c] by (simp add: sut_inv_def)
  qed
qed

lemma start_sut_inv: "\<forall>f\<in>set fs. list_all opens_only f \<Longrightarrow> sut_inv (sut_start fs)"
proof -
  assume f: "\<forall>f\<in>set fs. list_all opens_only f"
  have "inside k m (sut_start fs) = False" for k m by (cases k) (simp_all add: sut_start_def)
  moreover have "prog_inv (sut_start fs)" using f by (simp add: prog_inv_def sut_start_def list_all_iff)
  ultimately show ?thesis by (simp add: sut_inv_def own_inv_def start_inv_def serve_inv_def) (simp add: sut_start_def)
qed

lemma steps_inv: "sut_steps s t \<Longrightarrow> sut_inv s \<Longrightarrow> sut_inv t"
  by (induction rule: sut_steps.induct) (auto intro: step_inv)

text \<open>
  C37: The mutexes of the scheduler exclude in every program that does no I/O but \<open>sut_open\<close>. For any user threads that yield,
  exit, create threads and open files, and any interleaving of the main program, \<open>Cexec\<close> and \<open>Iexec\<close> up to the first access that
  overruns an array or a stack, no two kernel threads are
  at statements protected by the same mutex, and the owner the mutex records is the thread that is there. (A single call
  of \<open>sut_write\<close> breaks this, see \<open>write_breaks_exclusion\<close>.)
\<close>

theorem sut_exclusion:
  assumes "\<forall>f\<in>set fs. list_all opens_only f" "sut_steps (sut_start fs) s" "inside k m s" "inside k' m s"
  shows "k = k' \<and> owner s m = Some k"
proof -
  have "own_inv s" using steps_inv [OF assms(2) start_sut_inv [OF assms(1)]] by (simp add: sut_inv_def)
  then have "owner s m = Some k" "owner s m = Some k'" using assms(3,4) by (simp_all add: own_inv_def)
  then show ?thesis by simp
qed

section \<open>The I/O executor stops after one request\<close>

lemma ilock4_stuck: "sut_steps s t \<Longrightarrow> sut_inv s \<Longrightarrow> ipc s = ILock4 \<Longrightarrow> ipc t = ILock4 \<and> acts t = acts s \<and> sut_inv t"
proof (induction rule: sut_steps.induct)
  case (step s t k u)
  then have t: "ipc t = ILock4" "acts t = acts s" "sut_inv t" by auto
  then have "owner t MI = Some Ix" by (simp add: sut_inv_def own_inv_def)
  then have "istep t = None" using t(1) by (simp add: istep_def lock_def)
  moreover have "mpc t \<noteq> MSpawnI" using t(1,3) by (auto simp: sut_inv_def start_inv_def)
  ultimately have "ipc u = ipc t \<and> acts u = acts t"
    using step.hyps(2) cstep_frame [of t u] create_frame [of Main _ t]
    by (cases k; cases "mpc t") (auto simp: thread_step_def mstep_def split: if_splits list.splits)
  then show ?case using t step_inv [OF t(3) step.hyps(2)] by simp
qed simp

text \<open>
  C38: In a program that does no I/O but \<open>sut_open\<close>, \<open>Iexec\<close> serves at most one request. After the first one it locks mutex \<open>i\<close> a
  second time instead of unlocking it: whatever the user threads do besides and however the threads interleave, as long as no
  array or stack is overrun, at most one
  file is ever opened, and once \<open>Iexec\<close> has reached that statement it stays there, owning the mutex, so every later
  \<open>sut_open\<close> waits forever. (The unlocking at the start of \<open>sut_write\<close> would let it go on, see \<open>write_frees_iexec\<close>.)
\<close>

theorem iexec_serves_once:
  assumes "\<forall>f\<in>set fs. list_all opens_only f" "sut_steps (sut_start fs) s"
  shows "length (acts s) \<le> 1 \<and> (ipc s = ILock4 \<longrightarrow> owner s MI = Some Ix \<and> (\<forall>t. sut_steps s t \<longrightarrow> ipc t = ILock4 \<and> acts t = acts s))"
proof -
  have i: "sut_inv s" by (rule steps_inv [OF assms(2) start_sut_inv [OF assms(1)]])
  then have "length (acts s) \<le> 1" by (auto simp: sut_inv_def serve_inv_def split: if_splits)
  moreover have "owner s MI = Some Ix" if "ipc s = ILock4" using i that by (simp add: sut_inv_def own_inv_def)
  moreover have "ipc t = ILock4 \<and> acts t = acts s" if "ipc s = ILock4" "sut_steps s t" for t
    using ilock4_stuck [OF that(2) i that(1)] by simp
  ultimately show ?thesis by blast
qed

section \<open>Executions\<close>

text \<open>A schedule is the list of the threads that make the steps.\<close>

fun run :: "kthread list \<Rightarrow> sut \<Rightarrow> sut option" where
  "run [] s = Some s"
| "run (k # ks) s = (case thread_step k s of None \<Rightarrow> None | Some t \<Rightarrow> run ks t)"

lemma steps_trans: "sut_steps t u \<Longrightarrow> sut_steps s t \<Longrightarrow> sut_steps s u"
  by (induction rule: sut_steps.induct) (auto intro: sut_steps.step)

lemma run_steps: "run ks s = Some t \<Longrightarrow> sut_steps s t"
proof (induction ks arbitrary: s)
  case (Cons k ks)
  then obtain u where u: "thread_step k s = Some u" "run ks u = Some t" by (auto split: option.splits)
  have "sut_steps s u" by (rule sut_steps.step [OF sut_steps.refl u(1)])
  then show ?case using steps_trans [OF Cons.IH [OF u(2)]] by blast
qed (simp add: sut_steps.refl)

definition one_open :: "kthread list" where
  "one_open = replicate 10 Main @ replicate 14 Cx @ replicate 12 Ix"

definition obs :: "sut \<Rightarrow> cpc \<times> ipc \<times> ctx list \<times> ioact list \<times> bool" where
  "obs s = (cpc s, ipc s, ready s, acts s, bad s)"

lemma one_open_run: "map_option obs (run one_open (sut_start [[Open [102]]])) = Some (CTest, ILock4, [Saved 0 []], [IOpen (Some [102])], False)"
  by code_simp

lemma one_open_state:
  obtains s where "sut_steps (sut_start [[Open [102]]]) s" "ipc s = ILock4" "acts s = [IOpen (Some [102])]" "\<not> bad s"
proof -
  obtain s where s: "run one_open (sut_start [[Open [102]]]) = Some s" "obs s = (CTest, ILock4, [Saved 0 []], [IOpen (Some [102])], False)"
    using one_open_run by auto
  show thesis using that [OF run_steps [OF s(1)]] s(2) by (simp add: obs_def)
qed

lemma sut_exclusion_witness:
  "\<exists>s. sut_steps (sut_start [[Open [102]]]) s \<and> \<not> bad s \<and> inside Ix MI s \<and> owner s MI = Some Ix"
proof -
  obtain s where s: "sut_steps (sut_start [[Open [102]]]) s" "ipc s = ILock4" "\<not> bad s" using one_open_state by metis
  then have "inside Ix MI s" by simp
  then show ?thesis using sut_exclusion [OF _ s(1), of Ix MI Ix] s by auto
qed

lemma iexec_serves_once_witness:
  "\<exists>s. sut_steps (sut_start [[Open [102]]]) s \<and> \<not> bad s \<and> acts s = [IOpen (Some [102])]
     \<and> owner s MI = Some Ix \<and> (\<forall>t. sut_steps s t \<longrightarrow> acts t = [IOpen (Some [102])])"
proof -
  obtain s where s: "sut_steps (sut_start [[Open [102]]]) s" "ipc s = ILock4" "acts s = [IOpen (Some [102])]" "\<not> bad s"
    using one_open_state by metis
  then show ?thesis using iexec_serves_once [OF _ s(1)] by auto
qed

text \<open>
  Executions that lose or repeat work. \<open>Cexec\<close> ends at once when it tests the number of threads before the first \<open>sut_create\<close>: the
  threads created later are never run. After a thread has ended, \<open>sut_create\<close> takes a descriptor that a thread in the
  ready queue still uses: the second thread is lost and the new one is queued twice. \<open>Iexec\<close> changes the ready queue while \<open>Cexec\<close>
  owns its mutex.
\<close>

lemma cexec_ends_early:
  "map_option obs (run (replicate 4 Main @ [Cx] @ replicate 6 Main) (sut_start [[Exit]])) = Some (CEnd, ILock1, [Slot 0], [], False)"
  by code_simp

lemma slot_reused:
  "map_option (\<lambda>s. (ready s, threadarr s 2, numthreads s)) (run (replicate 22 Main @ replicate 25 Cx) (sut_start [[Exit], [Create [Exit]], [Yield]]))
   = Some ([Slot 2, Slot 2], [Exit], 3)"
  by code_simp

lemma ready_unprotected:
  "map_option (\<lambda>s. ipc s = IInsert (Some (Saved 0 [])) \<and> inside Cx MC s \<and> owner s MC = Some Cx)
     (run (replicate 10 Main @ replicate 14 Cx @ replicate 11 Ix @ replicate 2 Cx) (sut_start [[Open [102]]])) = Some True"
  by code_simp

text \<open>
  \<open>sut_write\<close> unlocks where it has to lock: \<open>Cexec\<close> changes the queues while \<open>Iexec\<close> is at statements under the same mutex, and after
  a \<open>sut_open\<close> it releases the mutex that \<open>Iexec\<close> waits for, which then serves a second request.
\<close>

lemma write_breaks_exclusion:
  "map_option (\<lambda>s. inside Cx MI s \<and> inside Ix MI s \<and> \<not> bad s)
     (run (replicate 10 Main @ replicate 12 Cx @ [Ix]) (sut_start [[Write [104] 1]])) = Some True"
  by code_simp

lemma write_frees_iexec:
  "map_option acts (run (replicate 10 Main @ replicate 14 Cx @ replicate 12 Ix @ replicate 11 Cx @ [Ix] @ replicate 3 Cx @ replicate 9 Ix)
     (sut_start [[Open [102], Write [104] 1]])) = Some [IOpen (Some [102]), IWrite (Some [104]) 1]"
  by code_simp

end
