(* ===== verification/Tools.thy ===== *)
theory Tools
  imports Printf KString
begin

text \<open>
  Routines of single user programs: the generator of pseudo-random numbers of \<^verbatim>\<open>user/grind.c\<close>, the names that \<^verbatim>\<open>user/ls.c\<close>
  prints, and \<open>memdump\<close> of \<^verbatim>\<open>user/memdump.c\<close>.
\<close>

section \<open>Random numbers\<close>

text \<open>
  The variables of type \<open>long\<close> are integers; \<open>schrage_bounds\<close> below shows that none of them leaves 32 bits, so the
  arithmetic of C does not overflow. Both operands of the divisions are positive. The result is converted to \<open>int\<close>.
\<close>

definition do_rand :: "u64 \<Rightarrow> u64 \<times> u32" where
  "do_rand ctx =
     (let x = uint (ctx mod 0x7ffffffe) + 1;
          hi = x div 127773;
          lo = x mod 127773;
          x = 16807 * lo - 2836 * hi;
          x = (if x < 0 then x + 0x7fffffff else x);
          x = x - 1
      in (word_of_int x, word_of_int x))"

section \<open>Names in listings\<close>

definition DIRSIZ :: nat where "DIRSIZ = 14"

text \<open>The loop runs down from the terminating NUL; its result is the position after the one it stops at.\<close>

fun fmtname_loop :: "u8 list \<Rightarrow> nat \<Rightarrow> nat" where
  "fmtname_loop path 0 = 0"
| "fmtname_loop path (Suc p) = (if p < length path \<and> path ! p = 47 then Suc p else fmtname_loop path p)"

definition fmtname :: "u8 list \<Rightarrow> u8 list" where
  "fmtname path =
     (let p = drop (fmtname_loop path (Suc (length path))) path in
      if length p \<ge> DIRSIZ then p else p @ replicate (DIRSIZ - length p) 32)"

section \<open>Dumps of memory\<close>

text \<open>The string at an address, \<open>None\<close> when no NUL is among the first \<open>n\<close> bytes.\<close>

fun str_at :: "nat \<Rightarrow> memory \<Rightarrow> u64 \<Rightarrow> u8 list option" where
  "str_at 0 m a = None"
| "str_at (Suc n) m a = (if m a = 0 then Some [] else map_option ((#) (m a)) (str_at n m (a + 1)))"

definition print :: "string \<Rightarrow> parg list \<Rightarrow> u8 list" where
  "print fmt args = vprintf (map ch fmt) args"

definition show_str :: "nat \<Rightarrow> memory \<Rightarrow> u64 \<Rightarrow> u8 list option" where
  "show_str n m p =
     (if p = 0 then Some (print ''%s \<newline>'' [PStr None])
      else map_option (\<lambda>s. print ''%s \<newline>'' [PStr (Some s)]) (str_at n m p))"

definition dump_item :: "nat \<Rightarrow> memory \<Rightarrow> u8 \<Rightarrow> u64 \<Rightarrow> u8 list option \<times> u64" where
  "dump_item n m c data =
     (if c = ch CHR ''i'' then
        (Some (print ''---------\<newline>'' [] @ print ''size: %ld\<newline>'' [PNum 4]
           @ concat (map (\<lambda>i. print ''%x\<newline>'' [PNum (ucast (m (data + of_nat i)))]) [0..<4])
           @ print ''---------\<newline>'' [] @ print ''%d \<newline>'' [PNum (ucast (of_le (load_bytes m data 4) :: u32))]), data + 4)
      else if c = ch CHR ''p'' then (Some (print ''%lx \<newline>'' [PNum (load64 m data)]), data + 8)
      else if c = ch CHR ''h'' then (Some (print ''%d \<newline>'' [PNum (ucast (of_le (load_bytes m data 2) :: u16))]), data + 2)
      else if c = ch CHR ''c'' then (Some (print ''%c \<newline>'' [PNum (ucast (m data))]), data + 1)
      else if c = ch CHR ''s'' then (show_str n m (load64 m data), data + 8)
      else if c = ch CHR ''S'' then (show_str n m data, data)
      else (Some [], data))"

fun memdump :: "nat \<Rightarrow> memory \<Rightarrow> u8 list \<Rightarrow> u64 \<Rightarrow> u8 list option" where
  "memdump n m [] data = Some []"
| "memdump n m (c # fmt) data =
     (case dump_item n m c data of
        (None, _) \<Rightarrow> None
      | (Some out, data) \<Rightarrow> map_option (\<lambda>r. out @ r) (memdump n m fmt data))"

section \<open>The generator\<close>

lemma schrage_bounds:
  fixes x :: int
  assumes "1 \<le> x" "x \<le> 0x7ffffffe"
  shows "0 \<le> 16807 * (x mod 127773)" "16807 * (x mod 127773) < 2 ^ 31" "0 \<le> 2836 * (x div 127773)" "2836 * (x div 127773) < 2 ^ 31"
    "- (2 ^ 31 - 1) < 16807 * (x mod 127773) - 2836 * (x div 127773)" "16807 * (x mod 127773) - 2836 * (x div 127773) < 2 ^ 31 - 1"
proof -
  have "0 \<le> x mod 127773" "x mod 127773 \<le> 127772" "0 \<le> x div 127773" "x div 127773 \<le> 16807" using assms by auto
  then show "0 \<le> 16807 * (x mod 127773)" "16807 * (x mod 127773) < 2 ^ 31" "0 \<le> 2836 * (x div 127773)" "2836 * (x div 127773) < 2 ^ 31"
    "- (2 ^ 31 - 1) < 16807 * (x mod 127773) - 2836 * (x div 127773)" "16807 * (x mod 127773) - 2836 * (x div 127773) < 2 ^ 31 - 1"
    by simp_all
qed

lemma schrage:
  fixes x :: int
  assumes "1 \<le> x" "x \<le> 0x7ffffffe"
  defines "y \<equiv> 16807 * (x mod 127773) - 2836 * (x div 127773)"
  shows "(if y < 0 then y + 0x7fffffff else y) = 16807 * x mod (2 ^ 31 - 1)"
proof -
  have y: "y = 16807 * x + (2 ^ 31 - 1) * (- (x div 127773))" 
  proof -
    have "z = 127773 * h + l \<Longrightarrow> 16807 * l - 2836 * h = 16807 * z + (2 ^ 31 - 1) * (- h)" for z h l :: int by simp
    from this [of x "x div 127773" "x mod 127773"] show ?thesis unfolding y_def by simp
  qed
  have b: "- (2 ^ 31 - 1) < y" "y < 2 ^ 31 - 1" using schrage_bounds [OF assms(1,2)] unfolding y_def by simp_all
  have "16807 * x mod (2 ^ 31 - 1) = y mod (2 ^ 31 - 1)" unfolding y by (metis mod_mult_self2)
  moreover have "y mod (2 ^ 31 - 1) = (if y < 0 then y + 0x7fffffff else y)"
  proof (cases "y < 0")
    case True
    have "y mod (2 ^ 31 - 1) = (y + (2 ^ 31 - 1)) mod (2 ^ 31 - 1)" by simp
    also have "\<dots> = y + (2 ^ 31 - 1)" using b True by (intro mod_pos_pos_trivial) simp_all
    finally show ?thesis using True by simp
  qed (use b in simp)
  ultimately show ?thesis by simp
qed

text \<open>The multiplier is invertible: its inverse is 1407677000.\<close>

lemma multiplier_inverse: "(1407677000 * (16807 * x)) mod (2 ^ 31 - 1) = x mod (2 ^ 31 - 1)" for x :: int
proof -
  have "1407677000 * (16807 * x) = x + (2 ^ 31 - 1) * (11017 * x)" by simp
  then show ?thesis by (metis mod_mult_self2)
qed

lemma multiplier_range:
  fixes x :: int
  assumes "1 \<le> x" "x \<le> 0x7ffffffe"
  shows "1 \<le> 16807 * x mod (2 ^ 31 - 1)" "16807 * x mod (2 ^ 31 - 1) \<le> 0x7ffffffe"
proof -
  have "16807 * x mod (2 ^ 31 - 1) \<noteq> 0"
  proof
    assume "16807 * x mod (2 ^ 31 - 1) = 0"
    then have "1407677000 * (16807 * x) mod (2 ^ 31 - 1) = 0" by (metis mod_mult_right_eq mult_zero_right mod_0)
    then have "x mod (2 ^ 31 - 1) = 0" by (simp only: multiplier_inverse)
    then show False using assms by simp
  qed
  moreover have "0 \<le> 16807 * x mod (2 ^ 31 - 1)" "16807 * x mod (2 ^ 31 - 1) < 2 ^ 31 - 1" by simp_all
  ultimately show "1 \<le> 16807 * x mod (2 ^ 31 - 1)" "16807 * x mod (2 ^ 31 - 1) \<le> 0x7ffffffe" by simp_all
qed

lemma seed_range: "1 \<le> uint (ctx mod 0x7ffffffe :: u64) + 1" "uint (ctx mod 0x7ffffffe :: u64) + 1 \<le> 0x7ffffffe"
proof -
  have "uint (ctx mod 0x7ffffffe :: u64) = uint ctx mod 0x7ffffffe" by (simp add: uint_mod)
  then show "1 \<le> uint (ctx mod 0x7ffffffe :: u64) + 1" "uint (ctx mod 0x7ffffffe :: u64) + 1 \<le> 0x7ffffffe" by simp_all
qed

lemma do_rand_eq:
  "do_rand ctx = (let r = 16807 * (uint (ctx mod 0x7ffffffe) + 1) mod (2 ^ 31 - 1) - 1 in (word_of_int r, word_of_int r))"
  unfolding do_rand_def Let_def schrage [OF seed_range] ..

lemma small_word: "0 \<le> r \<Longrightarrow> r \<le> 0x7ffffffd \<Longrightarrow> uint (word_of_int r :: u64) = r \<and> sint (word_of_int r :: u32) = r"
  by (simp add: unsigned_of_int signed_of_int take_bit_int_eq_self signed_take_bit_int_eq_self)

text \<open>
  C39: The random numbers of \<open>grind\<close> are the minimal standard generator of Park and Miller. For every value of the context,
  the routine, which avoids products of more than 31 bits, returns \<open>7^5 x mod (2^31 - 1)\<close> for \<open>x\<close> in \<open>1 .. 2^31 - 2\<close>,
  shifted down by one; the result is between 0 and \<open>0x7ffffffd\<close>, is the new context, and no two contexts of that range
  have the same successor.
\<close>

theorem do_rand_park_miller:
  "uint (fst (do_rand ctx)) = 16807 * (uint (ctx mod 0x7ffffffe) + 1) mod (2 ^ 31 - 1) - 1
   \<and> sint (snd (do_rand ctx)) = uint (fst (do_rand ctx)) \<and> fst (do_rand ctx) < 0x7ffffffe
   \<and> inj_on (\<lambda>c. fst (do_rand c)) {c. c < 0x7ffffffe}"
proof -
  have v: "uint (fst (do_rand c)) = 16807 * (uint (c mod 0x7ffffffe) + 1) mod (2 ^ 31 - 1) - 1"
    "sint (snd (do_rand c)) = uint (fst (do_rand c))" "uint (fst (do_rand c)) \<le> 0x7ffffffd" for c
  proof -
    define r where "r = 16807 * (uint (c mod 0x7ffffffe) + 1) mod (2 ^ 31 - 1) - 1"
    have "0 \<le> r" "r \<le> 0x7ffffffd" using multiplier_range [OF seed_range, of c] unfolding r_def by linarith+
    moreover have "do_rand c = (word_of_int r, word_of_int r)" unfolding do_rand_eq Let_def r_def ..
    ultimately show "uint (fst (do_rand c)) = 16807 * (uint (c mod 0x7ffffffe) + 1) mod (2 ^ 31 - 1) - 1"
      "sint (snd (do_rand c)) = uint (fst (do_rand c))" "uint (fst (do_rand c)) \<le> 0x7ffffffd"
      unfolding r_def [symmetric] using small_word by simp_all
  qed
  have "fst (do_rand ctx) < 0x7ffffffe" using v(3) [of ctx] by (simp add: word_less_def)
  moreover have "inj_on (\<lambda>c. fst (do_rand c)) {c. c < 0x7ffffffe}"
  proof (rule inj_onI)
    fix a b :: u64
    assume ab: "a \<in> {c. c < 0x7ffffffe}" "b \<in> {c. c < 0x7ffffffe}" and "fst (do_rand a) = fst (do_rand b)"
    then have "uint (fst (do_rand a)) = uint (fst (do_rand b))" by simp
    moreover have m: "a mod 0x7ffffffe = a" "b mod 0x7ffffffe = b" using ab by (simp_all add: mod_word_less)
    ultimately have "16807 * (uint a + 1) mod (2 ^ 31 - 1) = 16807 * (uint b + 1) mod (2 ^ 31 - 1)" unfolding v(1) m by linarith
    then have "1407677000 * (16807 * (uint a + 1)) mod (2 ^ 31 - 1) = 1407677000 * (16807 * (uint b + 1)) mod (2 ^ 31 - 1)"
      by (rule mod_mult_cong [OF refl])
    then have "(uint a + 1) mod (2 ^ 31 - 1) = (uint b + 1) mod (2 ^ 31 - 1)" by (simp only: multiplier_inverse)
    moreover have "(uint c + 1) mod (2 ^ 31 - 1) = uint c + 1" if "c < 0x7ffffffe" for c :: u64
      using that by (intro mod_pos_pos_trivial) (simp_all add: word_less_def)
    ultimately have "uint a = uint b" using ab by (metis add_right_cancel mem_Collect_eq)
    then show "a = b" by (metis word_of_int_uint)
  qed
  ultimately show ?thesis using v by blast
qed

section \<open>Listings\<close>

lemma fmtname_loop_skip: "(\<forall>i<length w. w ! i \<noteq> 47) \<Longrightarrow> k \<le> Suc (length w) \<Longrightarrow> fmtname_loop (d @ w) (length d + k) = fmtname_loop (d @ w) (length d)"
  by (induction k) (auto simp: nth_append)

text \<open>\<open>ls\<close> prints the last component of a path, padded with blanks to the width of a directory name.\<close>

lemma fmtname_last:
  assumes "47 \<notin> set w" "d = [] \<or> last d = 47"
  shows "fmtname (d @ w) = w @ replicate (DIRSIZ - length w) 32"
proof -
  have "fmtname_loop (d @ w) (Suc (length (d @ w))) = fmtname_loop (d @ w) (length d)"
    using fmtname_loop_skip [of w "Suc (length w)" d] assms(1) by (auto simp: in_set_conv_nth)
  also have "\<dots> = length d"
    using assms(2) by (cases d rule: rev_cases) (auto simp: nth_append)
  finally show ?thesis by (simp add: fmtname_def)
qed

section \<open>Dumps\<close>

text \<open>A string that ends within the bound is found.\<close>

lemma str_at_finds:
  assumes "load_bytes m a (length s) = s" "0 \<notin> set s" "m (a + of_nat (length s)) = 0" "length s < n"
  shows "str_at n m a = Some s"
  using assms
proof (induction s arbitrary: a n)
  case Nil
  then show ?case by (cases n) simp_all
next
  case (Cons c s)
  then obtain k where k: "n = Suc k" by (cases n) auto
  have "m a = c" "load_bytes m (a + 1) (length s) = s" using Cons.prems(1) by (simp_all add: load_bytes_Suc)
  moreover have "str_at k m (a + 1) = Some s" using Cons.prems calculation(2) k by (intro Cons.IH) (simp_all add: add.assoc)
  ultimately show ?case using k Cons.prems(2) by auto
qed

lemma memdump_append:
  "memdump n m (f @ g) data =
     (case memdump n m f data of None \<Rightarrow> None
      | Some out \<Rightarrow> map_option (\<lambda>r. out @ r) (memdump n m g (fold (\<lambda>c a. snd (dump_item n m c a)) f data)))"
proof (induction f arbitrary: data)
  case Nil
  show ?case by (cases "memdump n m g data") simp_all
next
  case (Cons c f)
  have "(@) (a @ b) = (\<lambda>x. a @ b @ x)" for a b :: "u8 list" by (rule ext) simp
  then show ?case using Cons by (auto split: option.splits prod.splits simp: option.map_comp comp_def)
qed

text \<open>
  The format \<open>p\<close> prints the low half of the 64 bits only, because of \<open>printint\<close>.
\<close>

lemma memdump_pointer: "memdump n m [ch CHR ''p''] data = Some (uprintint (load64 m data) 16 False @ [32, 10])"
  by (simp add: dump_item_def print_def vprintf_def vprintf_loop.simps conversion_def fmt_at_def num_value_def)

end
