(* ===== verification/Spec2Isabelle.thy ===== *)
theory Spec2Isabelle
  imports Smp KString TrapSpec Queue Shell Grep Utils Mysh Umalloc MkfsSpec Sut Tools
begin

text \<open>
  Verification of the systems code of this repository: the xv6 kernel for RISC-V
  (\<^verbatim>\<open>xv6-labs-2025/kernel\<close>), the program that makes its disk image (\<^verbatim>\<open>xv6-labs-2025/mkfs\<close>), its
  shell parser, user library and text utilities (\<^verbatim>\<open>xv6-labs-2025/user\<close>), the user-level thread
  scheduler (\<^verbatim>\<open>th-scheduler\<close>) and the parser of a shell for the host (\<^verbatim>\<open>mysh\<close>).

  \<^bold>\<open>How the parts interact.\<close> In the kernel, traps call system calls, which call the file and
  process layers; files end in pipes, the console or the file system; the file system changes
  blocks only through the log, the log through the buffer cache, the cache through the disk
  driver; all of them take spin locks and sleep locks and copy to and from user memory through
  the page tables. \<^verbatim>\<open>mkfs\<close> writes the image that the file system then reads, which \<^verbatim>\<open>MkfsSpec\<close> states
  across the two programs. The user programs see the kernel through \<^verbatim>\<open>read\<close>, \<^verbatim>\<open>write\<close> and \<^verbatim>\<open>sbrk\<close>.

  \<^bold>\<open>How the program is modelled.\<close> A kernel function is a HOL function that takes the state of
  the kernel last and returns \<^verbatim>\<open>Ret value state\<close>, \<^verbatim>\<open>Panic message\<close> or \<^verbatim>\<open>Wait state\<close>; \<^verbatim>\<open>kbind\<close> is the
  semicolon of C. \<^verbatim>\<open>Panic\<close> is the function \<^verbatim>\<open>panic\<close> with its message, or the kernel trap that a null
  dereference ends in; \<^verbatim>\<open>Wait\<close> is a call that cannot go on: it spins, sleeps until another hart or
  an interrupt acts, or has used up the fuel of a loop. A theorem that an operation returns says so
  with \<^verbatim>\<open>Ret\<close>. The state is a chain of extended records, one per component, so that an operation
  of a component leaves the fields of the later ones alone by its type: \<^verbatim>\<open>kbase\<close> (locks, harts),
  \<^verbatim>\<open>kmem\<close> (byte-addressed memory and the free list), \<^verbatim>\<open>kproc\<close>, \<^verbatim>\<open>kbio\<close>, \<^verbatim>\<open>klog\<close>, \<^verbatim>\<open>kfs\<close>, \<^verbatim>\<open>kcons\<close>,
  \<^verbatim>\<open>kfile\<close>, \<^verbatim>\<open>kdisk\<close>, \<^verbatim>\<open>ktrap\<close>. Machine integers are words of their C width. Page tables, free
  pages, trap frames and user memory live in the memory as bytes; kernel objects of static arrays
  are functions of their index. Device registers answer with an arbitrary input sequence.

  \<^bold>\<open>Theories and what they show.\<close>
  \<^item> \<^verbatim>\<open>Prelude\<close>: result type, folds, little-endian memory, words.
  \<^item> \<^verbatim>\<open>Spinlock\<close> (\<^verbatim>\<open>spinlock.c\<close>) and \<^verbatim>\<open>Smp\<close>: the atomic steps of \<^verbatim>\<open>acquire\<close> and \<^verbatim>\<open>release\<close> on any
    number of harts in any order. Mutual exclusion; \<^verbatim>\<open>holding\<close> is exact; interrupts are off while a
    lock is held.
  \<^item> \<^verbatim>\<open>KString\<close> (\<^verbatim>\<open>string.c\<close>, \<^verbatim>\<open>user/ulib.c\<close>): overlapping \<^verbatim>\<open>memmove\<close>, \<^verbatim>\<open>strncmp\<close>, \<^verbatim>\<open>strncpy\<close>.
  \<^item> \<^verbatim>\<open>Kalloc\<close> (\<^verbatim>\<open>kalloc.c\<close>): the free list is the linked list in the free pages. Boot frees every
    page once; allocation and release keep the list; no page is handed out twice.
  \<^item> \<^verbatim>\<open>Proc\<close> (\<^verbatim>\<open>proc.c\<close>, \<^verbatim>\<open>sleeplock.c\<close>): the process table, the scheduler and \<^verbatim>\<open>swtch\<close> as the saved
    contexts. \<^verbatim>\<open>wakeup\<close> is exact; a sleeper that is woken runs again with its lock.
  \<^item> \<^verbatim>\<open>Vm\<close>, \<^verbatim>\<open>PageTable\<close>, \<^verbatim>\<open>UserCopy\<close> (\<^verbatim>\<open>vm.c\<close>): Sv39 tables in memory. \<^verbatim>\<open>mappages\<close> changes exactly one
    translation; \<^verbatim>\<open>copyout\<close> followed by \<^verbatim>\<open>copyin\<close> is the identity.
  \<^item> \<^verbatim>\<open>Bio\<close>, \<^verbatim>\<open>BlockCache\<close> (\<^verbatim>\<open>bio.c\<close>): the LRU list; one buffer per block; \<^verbatim>\<open>bread\<close> is coherent.
  \<^item> \<^verbatim>\<open>Log\<close>, \<^verbatim>\<open>Crash\<close>, \<^verbatim>\<open>Txn\<close> (\<^verbatim>\<open>log.c\<close>): what a commit writes and in which order; a crash anywhere
    in it and recovery leave all or nothing; a transaction acts as one update of the disk.
  \<^item> \<^verbatim>\<open>Fs\<close>, \<^verbatim>\<open>FsSpec\<close>, \<^verbatim>\<open>FileSpec\<close> (\<^verbatim>\<open>fs.c\<close>): block allocation, inode round trip, path splitting; what
    \<^verbatim>\<open>readi\<close> returns is the content of the file, and \<^verbatim>\<open>writei\<close> changes exactly the bytes written.
  \<^item> \<^verbatim>\<open>Mkfs\<close>, \<^verbatim>\<open>MkfsSpec\<close> (\<^verbatim>\<open>mkfs/mkfs.c\<close>): the image holds the superblock, the bitmap, the root
    directory and the files asked for, and \<^verbatim>\<open>readi\<close> of the kernel gives the files back.
  \<^item> \<^verbatim>\<open>Printf\<close> (\<^verbatim>\<open>printf.c\<close>, \<^verbatim>\<open>user/printf.c\<close>), \<^verbatim>\<open>Console\<close>, \<^verbatim>\<open>ConsSpec\<close> (\<^verbatim>\<open>console.c\<close>, \<^verbatim>\<open>uart.c\<close>): number
    formatting within its buffer and reversible; the console refines a line editor.
  \<^item> \<^verbatim>\<open>File\<close>, \<^verbatim>\<open>PipeSpec\<close> (\<^verbatim>\<open>file.c\<close>, \<^verbatim>\<open>pipe.c\<close>): a pipe refines a queue of bytes. The locale
    \<^verbatim>\<open>byte_queue\<close> is interpreted on the pipe and on the console buffer.
  \<^item> \<^verbatim>\<open>Procs\<close> (\<^verbatim>\<open>proc.c\<close>, \<^verbatim>\<open>exec.c\<close>), \<^verbatim>\<open>Sysfile\<close>, \<^verbatim>\<open>SysSpec\<close> (\<^verbatim>\<open>syscall.c\<close>, \<^verbatim>\<open>sysproc.c\<close>, \<^verbatim>\<open>sysfile.c\<close>).
  \<^item> \<^verbatim>\<open>Virtio\<close>, \<^verbatim>\<open>VirtioSpec\<close> (\<^verbatim>\<open>virtio_disk.c\<close>, \<^verbatim>\<open>plic.c\<close>): descriptors are taken and freed without
    loss. \<^verbatim>\<open>Trap\<close>, \<^verbatim>\<open>TrapSpec\<close> (\<^verbatim>\<open>trap.c\<close>, \<^verbatim>\<open>start.c\<close>, \<^verbatim>\<open>main.c\<close>): the way back to user space.
  \<^item> \<^verbatim>\<open>Shell\<close> (\<^verbatim>\<open>user/sh.c\<close>): the parser returns on every line, with words of the line.
  \<^item> \<^verbatim>\<open>Ulib\<close>, \<^verbatim>\<open>Umalloc\<close> (\<^verbatim>\<open>user/ulib.c\<close>, \<^verbatim>\<open>user/umalloc.c\<close>): \<^verbatim>\<open>gets\<close>, \<^verbatim>\<open>atoi\<close>, \<^verbatim>\<open>strchr\<close>; the circular
    free list of \<^verbatim>\<open>malloc\<close> in a heap of 16-byte units. Blocks handed out below two gigabytes never
    overlap, whatever the program writes into its own; a larger request kills the process or gets
    a block outside its memory.
  \<^item> \<^verbatim>\<open>Grep\<close>, \<^verbatim>\<open>Utils\<close> (\<^verbatim>\<open>user/grep.c\<close>, \<^verbatim>\<open>cat.c\<close>, \<^verbatim>\<open>wc.c\<close>, \<^verbatim>\<open>sixfive.c\<close>): the matcher decides the language
    of its patterns; the programs treat their input the same however \<^verbatim>\<open>read\<close> splits it.
  \<^item> \<^verbatim>\<open>Tools\<close> (\<^verbatim>\<open>user/grind.c\<close>, \<^verbatim>\<open>ls.c\<close>, \<^verbatim>\<open>memdump.c\<close>): the random numbers of \<^verbatim>\<open>grind\<close> are the minimal standard
    generator; the names \<^verbatim>\<open>ls\<close> prints; memory dumps. The fuel of \<^verbatim>\<open>str_at\<close> is the length of a string.
  \<^item> \<^verbatim>\<open>Queue\<close>, \<^verbatim>\<open>Sut\<close> (\<^verbatim>\<open>th-scheduler/queue.c\<close>, \<^verbatim>\<open>sut.c\<close>): the doubly linked queue refines a list; the main
    program and the two executors as steps in any order. Requests survive when they fit their
    buffers and have no letter of the separator. In programs whose only I/O is \<^verbatim>\<open>sut_open\<close> the mutexes
    exclude and the I/O executor blocks itself after one request; runs with \<^verbatim>\<open>sut_write\<close> break both.
  \<^item> \<^verbatim>\<open>Mysh\<close> (\<^verbatim>\<open>mysh/shell.c\<close>): parsing the text of a pipeline, of words without operator characters,
    gives its tree back. The open flags in the tree are the values of the host, Linux.

  \<^bold>\<open>Fuel.\<close> Loops over arrays are folds over their index lists; loops that advance through user
  memory or a file recurse on the number of bytes left. The console and the UART wait on the
  device, so their theorems assume that the transmitter becomes ready again and again. The parser
  of the shell consumes a token in every cycle of its mutual recursion, so four calls per byte of
  the line are enough, which its theorem includes.

  \<^bold>\<open>Below the file system.\<close> The buffer cache uses the disk through \<^verbatim>\<open>virtio_disk_rw\<close> as a
  function on blocks that records its writes; the driver that implements it is modelled apart, in
  \<^verbatim>\<open>Virtio\<close>, on its descriptor rings.

  \<^bold>\<open>Integers.\<close> Counters and identifiers of C type \<^verbatim>\<open>int\<close> that the code only steps by one or copies (the
  nesting depth \<^verbatim>\<open>noff\<close>, process identifiers, exit states, the result of \<^verbatim>\<open>strlen\<close>) are unbounded; their
  overflow, after \<^verbatim>\<open>2^31\<close> steps, is undefined in C and outside of the model. So is the negation of the
  most negative number in \<^verbatim>\<open>printint\<close>. The line that recovery prints for each block is left out.

  \<^bold>\<open>Not modelled.\<close> The assembly files (not C; their effect on contexts and trap frames is part of
  \<^verbatim>\<open>Proc\<close> and \<^verbatim>\<open>Trap\<close>); the translation lookaside buffer; the test programs (\<^verbatim>\<open>usertests.c\<close>,
  \<^verbatim>\<open>grind.c\<close> and others) apart from the random numbers, which are sequences of system calls; the user
  programs that only issue system calls; \<^verbatim>\<open>runcmd\<close> of the shell and \<^verbatim>\<open>exec\<close> of \<^verbatim>\<open>mysh\<close>,
  which fork, open and wait; the second compute executor of \<^verbatim>\<open>sut.c\<close>, which its configuration
  switches off; the zero-configuration network, whose registry, messages and heartbeat are
  commented out and whose remaining code opens sockets and starts threads; the link-state router,
  which is Java.
\<close>

end
